(* ===== verification/Prelude.thy ===== *)
theory Prelude
  imports Main "HOL-Library.Word" "HOL-Library.Multiset"
begin

text \<open>
  Shared vocabulary of the development: the Python errors as values, the error monad, the
  integer helpers of the source (\<open>int.bit_length\<close>, powers of two, alignment), the ordered
  fold \<open>seg\<close> of an associative operator over an index range, and the arithmetic of aligned
  groups of lanes. Everything here is independent of a particular component.
\<close>

named_theorems res_simps \<open>unfolding rules of the error monad\<close>
named_theorems group_simps \<open>division and remainder inside an aligned group\<close>

section \<open>Errors as values\<close>

datatype py_error =
    TypeError | ValueError | KeyError | IndexError | RuntimeError | NotImplementedError
  | AttributeError | TimeoutError | UnicodeDecodeError | ZeroDivisionError

type_synonym 'a res = "py_error + 'a"

definition rbind :: "'a res \<Rightarrow> ('a \<Rightarrow> 'b res) \<Rightarrow> 'b res" where
  "rbind m f = (case m of Inl e \<Rightarrow> Inl e | Inr x \<Rightarrow> f x)"

definition guard :: "py_error \<Rightarrow> bool \<Rightarrow> unit res" where
  "guard e c = (if c then Inr () else Inl e)"

lemma rbind_simps [simp, res_simps]:
  "rbind (Inl e) f = Inl e" "rbind (Inr x) f = f x"
  by (simp_all add: rbind_def)

lemma rbind_Inr_iff [res_simps]: "rbind m f = Inr y \<longleftrightarrow> (\<exists>x. m = Inr x \<and> f x = Inr y)"
  by (cases m) simp_all

lemma guard_Inr_iff [simp, res_simps]: "guard e c = Inr u \<longleftrightarrow> c"
  by (simp add: guard_def)

lemma guard_Inl_iff [simp, res_simps]: "guard e c = Inl e' \<longleftrightarrow> \<not> c \<and> e' = e"
  by (auto simp: guard_def)

lemma guard_simps [simp, res_simps]: "guard e True = Inr ()" "guard e False = Inl e"
  by (simp_all add: guard_def)

text \<open>\<open>mapM\<close>: a list comprehension whose element expression may raise.\<close>

fun mapM :: "('a \<Rightarrow> 'b res) \<Rightarrow> 'a list \<Rightarrow> 'b list res" where
  "mapM f [] = Inr []"
| "mapM f (x # xs) = rbind (f x) (\<lambda>y. rbind (mapM f xs) (\<lambda>ys. Inr (y # ys)))"

lemma mapM_Inr: "(\<And>x. x \<in> set xs \<Longrightarrow> f x = Inr (g x)) \<Longrightarrow> mapM f xs = Inr (map g xs)"
  by (induction xs) auto

lemma mapM_length: "mapM f xs = Inr ys \<Longrightarrow> length ys = length xs"
  by (induction xs arbitrary: ys) (auto simp: rbind_Inr_iff)

lemma mapM_nth: "mapM f xs = Inr ys \<Longrightarrow> i < length xs \<Longrightarrow> f (xs ! i) = Inr (ys ! i)"
proof (induction xs arbitrary: ys i)
  case (Cons x xs)
  then show ?case by (cases i) (auto simp: rbind_Inr_iff)
qed simp

lemma butlast_upto [simp]: "butlast [0..<n] = [0..<n - 1]"
  by (cases n) simp_all

section \<open>Integers of the source\<close>

text \<open>Python's \<open>int.bit_length\<close> of a natural number.\<close>

fun bit_length :: "nat \<Rightarrow> nat" where
  "bit_length n = (if n = 0 then 0 else Suc (bit_length (n div 2)))"

declare bit_length.simps [simp del]

lemma bit_length_0 [simp]: "bit_length 0 = 0"
  by (simp add: bit_length.simps)

lemma bit_length_pow2 [simp]: "bit_length (2 ^ k) = Suc k"
  by (induction k) (simp_all add: bit_length.simps)

lemma lt_two_pow_bit_length: "n < 2 ^ bit_length n"
proof (induction n rule: bit_length.induct)
  case (1 n)
  show ?case
  proof (cases "n = 0")
    case False
    with 1 have "n div 2 < 2 ^ bit_length (n div 2)" by simp
    then have "n < 2 * 2 ^ bit_length (n div 2)" by linarith
    then show ?thesis using False by (subst bit_length.simps) simp
  qed simp
qed

lemma bit_length_mono_bound: "n < 2 ^ k \<Longrightarrow> bit_length n \<le> k"
proof (induction n arbitrary: k rule: bit_length.induct)
  case (1 n)
  show ?case
  proof (cases "n = 0")
    case False
    with 1(2) obtain k' where k: "k = Suc k'" by (cases k) auto
    with 1(2) have "n div 2 < 2 ^ k'" by auto
    with 1(1) False have "bit_length (n div 2) \<le> k'" by simp
    then show ?thesis using False k by (subst bit_length.simps) simp
  qed simp
qed

definition is_pow2 :: "nat \<Rightarrow> bool" where
  "is_pow2 n \<longleftrightarrow> (\<exists>k. n = 2 ^ k)"

lemma is_pow2_power [simp, intro]: "is_pow2 (2 ^ k)"
  by (auto simp: is_pow2_def)

lemma is_pow2_pos: "is_pow2 n \<Longrightarrow> 0 < n"
  by (auto simp: is_pow2_def)

lemma is_pow2_double: "is_pow2 n \<Longrightarrow> is_pow2 (2 * n)"
  by (auto simp: is_pow2_def intro: exI [where x = "Suc _"])

text \<open>The bit test \<open>value & (value - 1)\<close> of the source decides the powers of two.\<close>

lemma and_pred_zero_iff_pow2:
  assumes "0 < n"
  shows "and n (n - 1) = 0 \<longleftrightarrow> is_pow2 n"
  using assms
proof (induction n rule: nat_bit_induct)
  case (even n)
  then obtain m where m: "n = Suc m" by (cases n) auto
  have "(2 * n - 1) div 2 = m" "2 * n - 1 \<noteq> 0" using m by simp_all
  then have "and (2 * n) (2 * n - 1) = 2 * and n (n - 1)"
    using m by (subst and_nat_unfold) simp
  moreover have "is_pow2 (2 * n) \<longleftrightarrow> is_pow2 n"
  proof
    assume "is_pow2 (2 * n)"
    then obtain k where k: "2 * n = 2 ^ k" by (auto simp: is_pow2_def)
    then obtain k' where "k = Suc k'" by (cases k) auto
    with k have "n = 2 ^ k'" by simp
    then show "is_pow2 n" by simp
  qed (rule is_pow2_double)
  ultimately show ?case using even by simp
next
  case (odd n)
  have "and (Suc (2 * n)) (Suc (2 * n) - 1) = 2 * n"
    by (simp add: and_nat_unfold [of "Suc (2 * n)"])
  moreover have "is_pow2 (Suc (2 * n)) \<longleftrightarrow> n = 0"
  proof
    assume "is_pow2 (Suc (2 * n))"
    then obtain k where "Suc (2 * n) = 2 ^ k" by (auto simp: is_pow2_def)
    then show "n = 0" by (cases k) (auto, presburger)
  qed (auto simp: is_pow2_def intro: exI [where x = 0])
  ultimately show ?case by simp
qed simp

text \<open>Rounding up to a multiple.\<close>

definition align_up :: "nat \<Rightarrow> nat \<Rightarrow> nat" where
  "align_up p a = (p + a - 1) div a * a"

lemma align_up_dvd: "a dvd align_up p a"
  by (simp add: align_up_def)

lemma align_up_ge: "0 < a \<Longrightarrow> p \<le> align_up p a"
proof -
  assume a: "0 < a"
  have "(p + a - 1) div a * a + (p + a - 1) mod a = p + a - 1" by (rule div_mult_mod_eq)
  moreover have "(p + a - 1) mod a < a" using a by simp
  ultimately show ?thesis unfolding align_up_def by linarith
qed

lemma align_up_lt: "0 < a \<Longrightarrow> align_up p a < p + a"
proof -
  assume a: "0 < a"
  have "(p + a - 1) div a * a \<le> p + a - 1" by (rule div_times_less_eq_dividend)
  with a show ?thesis unfolding align_up_def by linarith
qed

section \<open>Ordered folds over an index range\<close>

text \<open>
  \<open>seg f v a n\<close> is \<open>v a \<oplus> v (a + 1) \<oplus> \<dots> \<oplus> v (a + n)\<close>, folded from the left: the
  reference value every reduction and scan of the library is measured against.
\<close>

fun seg :: "('a \<Rightarrow> 'a \<Rightarrow> 'a) \<Rightarrow> (nat \<Rightarrow> 'a) \<Rightarrow> nat \<Rightarrow> nat \<Rightarrow> 'a" where
  "seg f v a 0 = v a"
| "seg f v a (Suc n) = f (seg f v a n) (v (a + Suc n))"

definition assoc_op :: "('a \<Rightarrow> 'a \<Rightarrow> 'a) \<Rightarrow> bool" where
  "assoc_op f \<longleftrightarrow> (\<forall>a b c. f (f a b) c = f a (f b c))"

definition comm_op :: "('a \<Rightarrow> 'a \<Rightarrow> 'a) \<Rightarrow> bool" where
  "comm_op f \<longleftrightarrow> (\<forall>a b. f a b = f b a)"

lemma assoc_opD: "assoc_op f \<Longrightarrow> f (f a b) c = f a (f b c)"
  by (simp add: assoc_op_def)

lemma comm_opD: "comm_op f \<Longrightarrow> f a b = f b a"
  by (simp add: comm_op_def)

lemma seg_cong:
  assumes "\<And>i. a \<le> i \<Longrightarrow> i \<le> a + n \<Longrightarrow> v i = w i"
  shows "seg f v a n = seg f w a n"
  using assms by (induction n) auto

lemma seg_join:
  assumes "assoc_op f"
  shows "f (seg f v a m) (seg f v (a + m + 1) n) = seg f v a (m + n + 1)"
proof (induction n)
  case (Suc n)
  have "f (seg f v a m) (seg f v (a + m + 1) (Suc n))
      = f (f (seg f v a m) (seg f v (a + m + 1) n)) (v (a + m + 1 + Suc n))"
    using assms by (simp add: assoc_opD)
  also have "\<dots> = seg f v a (m + Suc n + 1)" by (simp only: Suc) (simp add: add.assoc)
  finally show ?case .
qed simp

lemma seg_join':
  assumes "assoc_op f" "b = a + m + 1" "k = m + n + 1"
  shows "f (seg f v a m) (seg f v b n) = seg f v a k"
  using seg_join [OF assms(1)] assms(2,3) by simp

lemma seg_split_start: "0 < p \<Longrightarrow> p + m \<le> l \<Longrightarrow> l - (p - 1) = l - p - m + m + (1::nat)"
  by arith

text \<open>A fold of consecutive blocks of \<open>n\<close> elements is the fold of all their elements.\<close>

lemma seg_blocks:
  assumes "assoc_op f" "0 < n"
  shows "seg f (\<lambda>l. seg f u (l * n) (n - 1)) a m = seg f u (a * n) (m * n + (n - 1))"
proof (induction m)
  case (Suc m)
  have "f (seg f u (a * n) (m * n + (n - 1))) (seg f u ((a + Suc m) * n) (n - 1))
      = seg f u (a * n) (Suc m * n + (n - 1))"
    using assms(2) by (intro seg_join' [OF assms(1)]) (simp_all add: algebra_simps)
  then show ?case unfolding seg.simps(2) Suc .
qed simp

lemma seg_first:
  assumes "assoc_op f"
  shows "seg f v a (Suc n) = f (v a) (seg f v (Suc a) n)"
  using seg_join [OF assms, of v a 0 n] by simp

lemma seg_map_shift: "seg f (\<lambda>i. v (c + i)) a n = seg f v (c + a) n"
  by (induction n) (simp_all add: add.assoc)

section \<open>Aligned groups\<close>

text \<open>Lane \<open>l\<close> of a wave belongs to the logical group \<open>l div w\<close> and has rank \<open>l mod w\<close> in it.\<close>

definition group_base :: "nat \<Rightarrow> nat \<Rightarrow> nat" where
  "group_base w l = (l div w) * w"

lemma group_base_plus [simp, group_simps]: "group_base w l + l mod w = l"
  by (simp add: group_base_def)

lemma group_base_le: "group_base w l \<le> l"
  by (simp add: group_base_def)

lemma group_split:
  fixes q r w :: nat
  assumes "r < w"
  shows "(q * w + r) div w = q" "(q * w + r) mod w = r"
  using assms by simp_all

lemma group_sub:
  fixes l d w :: nat
  assumes "0 < w" "d \<le> l mod w"
  shows "(l - d) div w = l div w" "(l - d) mod w = l mod w - d"
proof -
  have "l mod w < w" using assms(1) by simp
  then have "l mod w - d < w" by (rule less_imp_diff_less)
  moreover have "(l div w) * w + (l mod w - d) = l - d"
    using assms(2) by (metis add_diff_assoc div_mult_mod_eq)
  ultimately show "(l - d) div w = l div w" "(l - d) mod w = l mod w - d"
    using group_split [of "l mod w - d" w "l div w"] by (simp_all only:)
qed

lemma group_add:
  fixes l d w :: nat
  assumes "l mod w + d < w"
  shows "(l + d) div w = l div w" "(l + d) mod w = l mod w + d"
proof -
  have "(l div w) * w + (l mod w + d) = l + d" by simp
  then show "(l + d) div w = l div w" "(l + d) mod w = l mod w + d"
    using group_split [OF assms, of "l div w"] by (simp_all only:)
qed

lemma group_base_sub: "0 < w \<Longrightarrow> d \<le> l mod w \<Longrightarrow> group_base w (l - d) = group_base w l"
  by (simp add: group_base_def group_sub)

lemma group_base_add: "l mod w + d < w \<Longrightarrow> group_base w (l + d) = group_base w l"
  by (simp add: group_base_def group_add)

lemma group_member:
  assumes "d < w"
  shows "(group_base w l + d) div w = l div w" "(group_base w l + d) mod w = d"
    "group_base w (group_base w l + d) = group_base w l"
  using assms by (simp_all add: group_base_def)

end
