(* ===== verification/Coop_Common.thy ===== *)
theory Coop_Common
  imports Prelude
begin

text \<open>
  The protocol every cooperative algorithm of \<open>flydsl/extension/coop\<close> shares
  (\<open>coop/_common.py\<close>, the shuffle wrappers of \<open>coop/_values.py\<close> and \<open>expr/gpu.py\<close>): values
  held one per lane, the shuffle instruction, operators with their identities, integer element
  types at their width, and the argument checks.

  A value of the kernel is a function from the lane number to the lane's copy of it: all lanes
  of a wave run the same straight-line code, so one statement of the source is one function on
  such values, and a lane-dependent \<open>if\<close> is a pointwise choice.
\<close>

section \<open>Lanes and shuffles\<close>

type_synonym 'a lanes = "nat \<Rightarrow> 'a"

datatype shuffle_mode = Xor | Up | Down | Idx

text \<open>
  The instruction behind \<open>gpu.ShuffleOp\<close> is not part of the repository: it is the parameter
  \<open>lane_src\<close>, which says for a mode, an offset, a logical width and a lane which lane is read.
\<close>

type_synonym lane_source = "shuffle_mode \<Rightarrow> int \<Rightarrow> nat \<Rightarrow> nat \<Rightarrow> nat"

record target =
  lane_src :: lane_source
  warp_size :: nat

text \<open>
  What the code relies on (the documented behaviour of \<open>gpu.shuffle\<close>): a read that stays inside
  the logical group of \<open>width\<close> lanes returns that lane's value. Reads leaving the group are left
  open.
\<close>

definition shuffle_law :: "lane_source \<Rightarrow> bool" where
  "shuffle_law s \<longleftrightarrow> (\<forall>w l off. 0 < w \<longrightarrow>
     (0 \<le> off \<and> off \<le> int (l mod w) \<longrightarrow> s Up off w l = l - nat off) \<and>
     (0 \<le> off \<and> int (l mod w) + off < int w \<longrightarrow> s Down off w l = l + nat off) \<and>
     (is_pow2 w \<and> 0 \<le> off \<and> off < int w \<longrightarrow> s Xor off w l = xor l (nat off)) \<and>
     (0 \<le> off \<and> nat off div w = l div w \<longrightarrow> s Idx off w l = nat off))"

text \<open>The usual lowering (\<open>ds_bpermute\<close>): a lane outside the group reads itself.\<close>

definition gpu_shuffle :: lane_source where
  "gpu_shuffle m off w l =
     (let t = (case m of Up \<Rightarrow> int l - off | Down \<Rightarrow> int l + off
                | Xor \<Rightarrow> int (xor l (nat off)) | Idx \<Rightarrow> off)
      in if 0 \<le> t \<and> nat t div w = l div w then nat t else l)"

definition shuffle :: "target \<Rightarrow> 'a lanes \<Rightarrow> int lanes \<Rightarrow> nat \<Rightarrow> shuffle_mode \<Rightarrow> 'a lanes" where
  "shuffle tg v off w m = (\<lambda>l. v (lane_src tg m (off l) w l))"

definition shuffle_xor :: "target \<Rightarrow> 'a lanes \<Rightarrow> int \<Rightarrow> nat \<Rightarrow> 'a lanes" where
  "shuffle_xor tg v off w = shuffle tg v (\<lambda>_. off) w Xor"

definition shuffle_down :: "target \<Rightarrow> 'a lanes \<Rightarrow> int \<Rightarrow> nat \<Rightarrow> 'a lanes" where
  "shuffle_down tg v off w = shuffle tg v (\<lambda>_. off) w Down"

definition shuffle_idx :: "target \<Rightarrow> 'a lanes \<Rightarrow> int lanes \<Rightarrow> nat \<Rightarrow> 'a lanes" where
  "shuffle_idx tg v lane w = shuffle tg v lane w Idx"

text \<open>\<open>_shuffle_leaf\<close> at 128 bits: four 32-bit words moved one by one and put back together.\<close>

definition leaf_word :: "nat \<Rightarrow> nat \<Rightarrow> nat" where
  "leaf_word bits shift = take_bit 32 (drop_bit shift bits)"

definition shuffle_leaf128 :: "target \<Rightarrow> nat lanes \<Rightarrow> int lanes \<Rightarrow> nat \<Rightarrow> nat lanes" where
  "shuffle_leaf128 tg bits src w = (\<lambda>l.
     fold (\<lambda>shift result.
        or result (push_bit shift (shuffle_idx tg (\<lambda>k. leaf_word (bits k) shift) src w l)))
       [0, 32, 64, 96] 0)"

section \<open>Element types and operators\<close>

datatype reduction_op = ADD | MUL | MAX_OP | MIN_OP

text \<open>
  A binary callable may carry the attributes \<open>identity\<close> and \<open>commutative\<close> the library looks for.
\<close>

datatype 'a operator =
    Builtin reduction_op
  | Callable "'a \<Rightarrow> 'a \<Rightarrow> 'a" (op_identity: "'a option") (op_commutative: bool)

text \<open>
  What an algorithm uses of the element type: whether one shuffle instruction moves it
  (a Numeric or Vector of a width other than 1 and 128), the built-in operations and their
  neutral values.
\<close>

record 'a dtype =
  packed :: bool
  builtin_combine :: "reduction_op \<Rightarrow> 'a \<Rightarrow> 'a \<Rightarrow> 'a"
  builtin_identity :: "reduction_op \<Rightarrow> 'a"

subsection \<open>Integer element types at their width\<close>

record num_type =
  nt_width :: nat
  nt_signed :: bool

definition nt_wrap :: "num_type \<Rightarrow> int \<Rightarrow> int" where
  "nt_wrap t x = (if nt_signed t then signed_take_bit (nt_width t - 1) x else take_bit (nt_width t) x)"

definition nt_range :: "num_type \<Rightarrow> int \<Rightarrow> bool" where
  "nt_range t x \<longleftrightarrow> nt_wrap t x = x"

definition num_combine :: "num_type \<Rightarrow> reduction_op \<Rightarrow> int \<Rightarrow> int \<Rightarrow> int" where
  "num_combine t r a b =
     (if nt_width t = 1 \<and> (r = ADD \<or> r = MAX_OP) then or a b
      else if nt_width t = 1 \<and> (r = MUL \<or> r = MIN_OP) then and a b
      else case r of ADD \<Rightarrow> nt_wrap t (a + b) | MUL \<Rightarrow> nt_wrap t (a * b)
         | MAX_OP \<Rightarrow> max a b | MIN_OP \<Rightarrow> min a b)"

definition representable_extreme :: "num_type \<Rightarrow> bool \<Rightarrow> int" where
  "representable_extreme t lowest =
     (if nt_width t = 1 then (if lowest then 0 else 1)
      else if nt_signed t then
        (let half = 2 ^ (nt_width t - 1) in nt_wrap t (if lowest then - half else half - 1))
      else nt_wrap t (if lowest then 0 else 2 ^ nt_width t - 1))"

definition num_identity :: "num_type \<Rightarrow> reduction_op \<Rightarrow> int" where
  "num_identity t r = (case r of ADD \<Rightarrow> 0 | MUL \<Rightarrow> (if nt_width t = 1 then 1 else nt_wrap t 1)
     | MAX_OP \<Rightarrow> representable_extreme t True | MIN_OP \<Rightarrow> representable_extreme t False)"

definition num_dtype :: "num_type \<Rightarrow> int dtype" where
  "num_dtype t = \<lparr>packed = (nt_width t \<noteq> 1 \<and> nt_width t \<noteq> 128),
     builtin_combine = num_combine t, builtin_identity = num_identity t\<rparr>"

text \<open>The integer types: Boolean is unsigned of width one; widths are positive.\<close>

definition int_type :: "num_type \<Rightarrow> bool" where
  "int_type t \<longleftrightarrow> 0 < nt_width t \<and> (nt_width t = 1 \<longrightarrow> \<not> nt_signed t)"

subsection \<open>Combining, identities and seeds\<close>

fun combine :: "'a dtype \<Rightarrow> 'a operator \<Rightarrow> 'a \<Rightarrow> 'a \<Rightarrow> 'a" where
  "combine d (Builtin r) lhs rhs = builtin_combine d r lhs rhs"
| "combine d (Callable f _ _) lhs rhs = f lhs rhs"

text \<open>Item ranges combine item by item; a single item is broadcast against a range.\<close>

datatype 'a tile = Item "'a" | Items "'a list"

text \<open>\<open>_as_items\<close> and \<open>_from_items\<close>: a tile as a nonempty list of items, and a list in the shape of a tile.\<close>

definition tile_list :: "'a tile \<Rightarrow> 'a list res" where
  "tile_list value = (case value of Item v \<Rightarrow> Inr [v] | Items vs \<Rightarrow> if vs = [] then Inl ValueError else Inr vs)"

definition pack_tile :: "'b tile \<Rightarrow> 'a list \<Rightarrow> 'a tile" where
  "pack_tile like output = (case like of Item _ \<Rightarrow> Item (hd output) | Items _ \<Rightarrow> Items output)"

fun combine_tile :: "'a dtype \<Rightarrow> 'a operator \<Rightarrow> 'a tile \<Rightarrow> 'a tile \<Rightarrow> 'a tile res" where
  "combine_tile d op (Item a) (Item b) = Inr (Item (combine d op a b))"
| "combine_tile d op (Items as) (Item b) =
     Inr (Items (map2 (combine d op) as (replicate (length as) b)))"
| "combine_tile d op (Item a) (Items bs) =
     Inr (Items (map2 (combine d op) (replicate (length bs) a) bs))"
| "combine_tile d op (Items as) (Items bs) =
     (if length as \<noteq> length bs then Inl ValueError else Inr (Items (map2 (combine d op) as bs)))"

fun is_builtin :: "'a operator \<Rightarrow> bool" where
  "is_builtin (Builtin _) = True"
| "is_builtin (Callable _ _ _) = False"

fun is_commutative :: "'a operator \<Rightarrow> bool" where
  "is_commutative (Builtin _) = True"
| "is_commutative (Callable _ _ c) = c"

definition require_commutative :: "'a operator \<Rightarrow> unit res" where
  "require_commutative op = guard ValueError (is_commutative op)"

fun identity :: "'a dtype \<Rightarrow> 'a operator \<Rightarrow> 'a option \<Rightarrow> 'a res" where
  "identity d op (Some e) = Inr e"
| "identity d (Builtin r) None = Inr (builtin_identity d r)"
| "identity d (Callable _ (Some e) _) None = Inr e"
| "identity d (Callable _ None _) None = Inl TypeError"

definition optional_identity :: "'a dtype \<Rightarrow> 'a operator \<Rightarrow> 'a option \<Rightarrow> 'a option" where
  "optional_identity d op explicit =
     (if explicit \<noteq> None \<or> is_builtin op \<or> (\<exists>f e c. op = Callable f (Some e) c)
      then (case identity d op explicit of Inl _ \<Rightarrow> None | Inr e \<Rightarrow> Some e) else None)"

definition seed :: "'a dtype \<Rightarrow> 'a operator \<Rightarrow> 'a lanes option \<Rightarrow> 'a lanes \<Rightarrow> 'a lanes" where
  "seed d op init value = (case init of None \<Rightarrow> value | Some s \<Rightarrow> (\<lambda>l. combine d op (s l) (value l)))"

definition select_value :: "bool lanes \<Rightarrow> 'a lanes \<Rightarrow> 'a lanes \<Rightarrow> 'a lanes" where
  "select_value c lhs rhs = (\<lambda>l. if c l then lhs l else rhs l)"

text \<open>
  \<open>_shuffle_value\<close>: one instruction for packed element types; records (and 1- and 128-bit
  leaves) compute the source lane and move their fields by index.
\<close>

definition shuffle_value ::
  "target \<Rightarrow> 'a dtype \<Rightarrow> 'a lanes \<Rightarrow> int lanes \<Rightarrow> nat \<Rightarrow> shuffle_mode \<Rightarrow> 'a lanes" where
  "shuffle_value tg d v off w m =
     (if packed d then shuffle tg v off w m
      else shuffle_idx tg v
        (\<lambda>l. case m of Up \<Rightarrow> int l - off l | Down \<Rightarrow> int l + off l
           | Xor \<Rightarrow> int (xor l (nat (off l))) | Idx \<Rightarrow> off l) w)"

text \<open>\<open>_thread_partial\<close>: the fold of one thread's items in item order.\<close>

fun thread_partial :: "'a dtype \<Rightarrow> 'a operator \<Rightarrow> 'a list \<Rightarrow> 'a res" where
  "thread_partial d op [] = Inl ValueError"
| "thread_partial d op (x # xs) = Inr (foldl (combine d op) x xs)"

section \<open>Argument checks\<close>

definition require_power_of_two :: "int \<Rightarrow> unit res" where
  "require_power_of_two value =
     (if value < 1 \<or> and value (value - 1) \<noteq> 0 then Inl ValueError else Inr ())"

definition resolve_warp_width :: "target \<Rightarrow> int option \<Rightarrow> nat res" where
  "resolve_warp_width tg width =
     (case width of
        None \<Rightarrow> Inr (warp_size tg)
      | Some w \<Rightarrow> rbind (require_power_of_two w) (\<lambda>_.
          if w > int (warp_size tg) then Inl ValueError else Inr (nat w)))"

text \<open>
  A count is a Python integer, checked while the kernel is traced, or a runtime value of the
  kernel, which is not checked.
\<close>

datatype count = Static int | Runtime int

fun count_value :: "count \<Rightarrow> int" where
  "count_value (Static v) = v"
| "count_value (Runtime v) = v"

fun validate_valid_items :: "count option \<Rightarrow> nat \<Rightarrow> unit res" where
  "validate_valid_items (Some (Static v)) n =
     (if \<not> (0 \<le> v \<and> v \<le> int n) then Inl ValueError else Inr ())"
| "validate_valid_items _ n = Inr ()"

fun validate_scalar_valid_items :: "'a tile \<Rightarrow> count option \<Rightarrow> nat \<Rightarrow> unit res" where
  "validate_scalar_valid_items (Items _) (Some _) n = Inl TypeError"
| "validate_scalar_valid_items _ v n = validate_valid_items v n"

text \<open>\<open>_linear_thread_id\<close>: x fastest; \<open>block_size = None\<close> is a one-dimensional block.\<close>

definition linear_thread_id :: "(nat \<times> nat \<times> nat) option \<Rightarrow> nat \<times> nat \<times> nat \<Rightarrow> nat" where
  "linear_thread_id block_size tid =
     (case tid of (x, y, z) \<Rightarrow>
        (case block_size of None \<Rightarrow> x
         | Some (dx, dy, dz) \<Rightarrow>
            if dy > 1 \<or> dz > 1 then x + y * dx + z * (dx * dy) else x))"

section \<open>32-bit arithmetic of a thread\<close>

text \<open>
  Index computations of a kernel are on \<open>Int32\<close>. Wrap-around commutes with addition, so a sum is
  wrapped once. \<open>%\<close> on a signed kernel value is the remainder of truncated division (\<open>arith.remsi\<close>),
  on a Python integer it is the non-negative remainder.
\<close>

definition i32 :: "int \<Rightarrow> int" where
  "i32 x = signed_take_bit 31 x"

definition remsi :: "int \<Rightarrow> int \<Rightarrow> int" where
  "remsi a b = sgn a * (abs a mod abs b)"

fun count_mod :: "count \<Rightarrow> int \<Rightarrow> int" where
  "count_mod (Static a) b = a mod b"
| "count_mod (Runtime a) b = remsi a b"

lemma signed_small: "- (2 ^ 31) \<le> x \<Longrightarrow> x < 2 ^ 31 \<Longrightarrow> i32 x = x"
  unfolding i32_def by (simp add: signed_take_bit_int_eq_self)

lemma mod_shift: "0 \<le> x \<Longrightarrow> x < 2 * N \<Longrightarrow> (x + N) mod (2 * N) = (if N \<le> x then x - N else x + N)" for x N :: int
proof (cases "N \<le> x")
  case True
  assume x: "0 \<le> x" "x < 2 * N"
  have "(x + N) mod (2 * N) = (x - N + 1 * (2 * N)) mod (2 * N)" by (rule arg_cong) simp
  also have "\<dots> = (x - N) mod (2 * N)" by (rule mod_mult_self1)
  also have "\<dots> = x - N" using True x by (intro mod_pos_pos_trivial) simp_all
  finally show ?thesis using True by simp
qed simp

lemma i32_wrap: "2 ^ 31 \<le> x \<Longrightarrow> x < 2 ^ 32 \<Longrightarrow> i32 x = x - 2 ^ 32"
  using mod_shift [of x "2 ^ 31"] unfolding i32_def signed_take_bit_eq_take_bit_shift take_bit_eq_mod by simp

lemma int_small: "k < 2 ^ 31 \<Longrightarrow> - (2 ^ 31) \<le> int k" "k < 2 ^ 31 \<Longrightarrow> int k < 2 ^ 31"
  by simp_all

lemma remsi_bound: "0 < b \<Longrightarrow> - b < remsi a b \<and> remsi a b < b"
proof -
  assume b: "0 < b"
  have m: "0 \<le> \<bar>a\<bar> mod b" "\<bar>a\<bar> mod b < b" using b by simp_all
  consider "a < 0" | "a = 0" | "0 < a" by linarith
  then show ?thesis
  proof cases
    case 1
    then have "remsi a b = - (\<bar>a\<bar> mod b)" using b by (simp add: remsi_def)
    then show ?thesis using m by linarith
  next
    case 3
    then have "remsi a b = \<bar>a\<bar> mod b" using b by (simp add: remsi_def)
    then show ?thesis using m by linarith
  qed (use b in \<open>simp add: remsi_def\<close>)
qed

lemma remsi_cong: "0 < b \<Longrightarrow> (remsi a b + c) mod b = (a + c) mod b"
proof (cases "a < 0")
  case True
  assume "0 < b"
  then have "remsi a b = - ((- a) mod b)" using True by (simp add: remsi_def)
  then have "(remsi a b + c) mod b = (c - (- a) mod b) mod b" by simp
  also have "\<dots> = (c - - a) mod b" by (rule mod_diff_right_eq)
  finally show ?thesis by (simp add: add.commute)
next
  case False
  assume "0 < b"
  then have "remsi a b = a mod b" using False by (cases "a = 0") (simp_all add: remsi_def)
  then show ?thesis by (simp add: mod_simps)
qed

lemma count_mod_cong: "0 < b \<Longrightarrow> (count_mod d b + c) mod b = (count_value d + c) mod b"
  by (cases d) (simp_all add: remsi_cong mod_simps)

lemma count_mod_bound: "0 < b \<Longrightarrow> - b < count_mod d b \<and> count_mod d b < b"
proof (cases d)
  case (Static a)
  assume b: "0 < b"
  then have "0 \<le> a mod b" "a mod b < b" by simp_all
  then show ?thesis using b unfolding Static count_mod.simps by linarith
qed (simp add: remsi_bound)

section \<open>Facts about shuffles\<close>

lemma xor_in_group:
  fixes l off :: nat
  assumes "off < 2 ^ k"
  shows "xor l off div 2 ^ k = l div 2 ^ k" "xor l off mod 2 ^ k = xor (l mod 2 ^ k) off"
proof -
  have "drop_bit k off = 0" using assms by (simp add: drop_bit_eq_div)
  then have "drop_bit k (xor l off) = drop_bit k l" by simp
  then show "xor l off div 2 ^ k = l div 2 ^ k" by (simp add: drop_bit_eq_div)
  have "take_bit k off = off" using assms by (simp add: take_bit_nat_eq_self)
  then show "xor l off mod 2 ^ k = xor (l mod 2 ^ k) off"
    by (simp flip: take_bit_eq_mod)
qed

lemma gpu_shuffle_law: "shuffle_law gpu_shuffle"
proof -
  have up: "gpu_shuffle Up off w l = l - nat off" if "0 < w" "0 \<le> off" "off \<le> int (l mod w)" for off w l
  proof -
    have d: "nat off \<le> l mod w" using that by simp
    then have "nat off \<le> l" by (meson mod_less_eq_dividend order_trans)
    then have "int l - off = int (l - nat off)" using that(2) by simp
    then show ?thesis using group_sub(1) [OF that(1) d] by (simp only: gpu_shuffle_def Let_def
        shuffle_mode.case of_nat_0_le_iff nat_int simp_thms if_True)
  qed
  have down: "gpu_shuffle Down off w l = l + nat off"
    if "0 < w" "0 \<le> off" "int (l mod w) + off < int w" for off w l
  proof -
    have "l mod w + nat off < w" using that by simp
    from group_add(1) [OF this] have "(l + nat off) div w = l div w" .
    moreover have "int l + off = int (l + nat off)" using that(2) by simp
    ultimately show ?thesis by (simp only: gpu_shuffle_def Let_def
        shuffle_mode.case of_nat_0_le_iff nat_int simp_thms if_True)
  qed
  have xr: "gpu_shuffle Xor off w l = xor l (nat off)"
    if "is_pow2 w" "0 \<le> off" "off < int w" for off w l
  proof -
    from that(1) obtain k where k: "w = 2 ^ k" by (auto simp: is_pow2_def)
    with that(2,3) have "nat off < 2 ^ k" by (simp add: nat_less_iff)
    from xor_in_group(1) [OF this] show ?thesis by (simp add: gpu_shuffle_def k)
  qed
  show ?thesis
    unfolding shuffle_law_def using up down xr by (auto simp: gpu_shuffle_def)
qed

lemma shuffle_value_up:
  assumes "shuffle_law (lane_src tg)" "0 < w" "n \<le> l mod w"
  shows "shuffle_value tg d v (\<lambda>_. int n) w Up l = v (l - n)"
proof -
  have n: "n \<le> l" using assms(3) by (meson mod_less_eq_dividend order_trans)
  then have "nat (int l - int n) div w = l div w"
    using group_sub(1) [OF assms(2,3)] by (simp add: nat_minus_as_int)
  then show ?thesis
    using assms n unfolding shuffle_law_def
    by (simp add: shuffle_value_def shuffle_idx_def shuffle_def nat_minus_as_int)
qed

lemma shuffle_value_down:
  assumes "shuffle_law (lane_src tg)" "l mod w + n < w"
  shows "shuffle_value tg d v (\<lambda>_. int n) w Down l = v (l + n)"
proof -
  have w: "0 < w" using assms(2) by simp
  have "nat (int l + int n) div w = l div w"
    using group_add(1) [OF assms(2)] by (simp add: nat_int_add)
  then show ?thesis
    using assms w unfolding shuffle_law_def
    by (simp add: shuffle_value_def shuffle_idx_def shuffle_def nat_int_add)
qed

lemma shuffle_value_xor:
  assumes "shuffle_law (lane_src tg)" "is_pow2 w" "n < w"
  shows "shuffle_value tg d v (\<lambda>_. int n) w Xor l = v (xor l n)"
proof -
  obtain k where k: "w = 2 ^ k" using assms(2) by (auto simp: is_pow2_def)
  have "xor l n div w = l div w" using xor_in_group(1) [of n k l] assms(3) k by simp
  then show ?thesis
    using assms is_pow2_pos [OF assms(2)] unfolding shuffle_law_def
    by (simp add: shuffle_value_def shuffle_idx_def shuffle_def)
qed

lemma shuffle_value_idx:
  assumes "shuffle_law (lane_src tg)" "0 < w" "0 \<le> off l" "nat (off l) div w = l div w"
  shows "shuffle_value tg d v off w Idx l = v (nat (off l))"
  using assms unfolding shuffle_law_def
  by (simp add: shuffle_value_def shuffle_idx_def shuffle_def)

lemma shuffle_value_idx_base:
  assumes "shuffle_law (lane_src tg)" "0 \<le> r" "r < int w"
  shows "shuffle_value tg d v (\<lambda>l. int (group_base w l) + r) w Idx l = v (group_base w l + nat r)"
proof -
  have w: "0 < w" and r: "nat r < w" using assms by auto
  have "nat (int (group_base w l) + r) = group_base w l + nat r"
    using assms(2) by (simp add: nat_add_distrib)
  then show ?thesis
    using shuffle_value_idx [OF assms(1) w, of "\<lambda>l. int (group_base w l) + r" l d v]
      group_member(1) [OF r] assms(2) by simp
qed

lemmas shuffle_reads = shuffle_value_up shuffle_value_down shuffle_value_xor shuffle_value_idx

text \<open>The four 32-bit moves of a 128-bit leaf rebuild the leaf of the source lane.\<close>

lemma four_words:
  fixes x :: nat
  assumes "x < 2 ^ 128"
  shows "or (or (or (take_bit 32 x) (push_bit 32 (take_bit 32 (drop_bit 32 x))))
     (push_bit 64 (take_bit 32 (drop_bit 64 x)))) (push_bit 96 (take_bit 32 (drop_bit 96 x))) = x"
proof (rule bit_eqI)
  fix n
  have "\<not> bit x n" if "128 \<le> n"
    using assms that by (metis bit_take_bit_iff linorder_not_le take_bit_nat_eq_self)
  then show "bit (or (or (or (take_bit 32 x) (push_bit 32 (take_bit 32 (drop_bit 32 x))))
     (push_bit 64 (take_bit 32 (drop_bit 64 x)))) (push_bit 96 (take_bit 32 (drop_bit 96 x)))) n = bit x n"
  proof (cases "n < 128")
    case True
    then consider "n < 32" | "32 \<le> n" "n < 64" | "64 \<le> n" "n < 96" | "96 \<le> n" "n < 128" by linarith
    then show ?thesis
      by cases (simp_all add: less_diff_conv2 bit_or_iff bit_take_bit_iff bit_push_bit_iff bit_drop_bit_eq)
  next
    case False
    then show ?thesis using \<open>128 \<le> n \<Longrightarrow> \<not> bit x n\<close>
      by (simp add: bit_or_iff bit_take_bit_iff bit_push_bit_iff bit_drop_bit_eq)
  qed
qed

section \<open>Facts about element types\<close>

lemma nt_wrap_idem [simp]: "nt_wrap t (nt_wrap t x) = nt_wrap t x"
  by (simp add: nt_wrap_def)

lemma nt_wrap_cong_mod:
  assumes "0 < nt_width t"
  shows "nt_wrap t x = nt_wrap t y \<longleftrightarrow> take_bit (nt_width t) x = take_bit (nt_width t) y"
proof (cases "nt_signed t")
  case True
  have "Suc (nt_width t - 1) = nt_width t" using assms by simp
  then show ?thesis
    using True signed_take_bit_eq_iff_take_bit_eq [of "nt_width t - 1" x y] by (simp add: nt_wrap_def)
qed (simp add: nt_wrap_def)

lemma take_bit_nt_wrap:
  "0 < nt_width t \<Longrightarrow> take_bit (nt_width t) (nt_wrap t x) = take_bit (nt_width t) x"
  by (simp flip: nt_wrap_cong_mod)

lemma nt_wrap_add:
  assumes "0 < nt_width t"
  shows "nt_wrap t (nt_wrap t a + b) = nt_wrap t (a + b)" "nt_wrap t (a + nt_wrap t b) = nt_wrap t (a + b)"
proof -
  have "take_bit (nt_width t) (nt_wrap t a + b) = take_bit (nt_width t) (a + b)" for a b
    using take_bit_nt_wrap [OF assms, of a]
    by (metis take_bit_add)
  then show "nt_wrap t (nt_wrap t a + b) = nt_wrap t (a + b)"
    "nt_wrap t (a + nt_wrap t b) = nt_wrap t (a + b)"
    by (auto simp: nt_wrap_cong_mod [OF assms] add.commute)
qed

lemma nt_wrap_mult:
  assumes "0 < nt_width t"
  shows "nt_wrap t (nt_wrap t a * b) = nt_wrap t (a * b)" "nt_wrap t (a * nt_wrap t b) = nt_wrap t (a * b)"
proof -
  have "take_bit (nt_width t) (nt_wrap t a * b) = take_bit (nt_width t) (a * b)" for a b
    using take_bit_nt_wrap [OF assms, of a]
    by (metis take_bit_mult)
  then show "nt_wrap t (nt_wrap t a * b) = nt_wrap t (a * b)"
    "nt_wrap t (a * nt_wrap t b) = nt_wrap t (a * b)"
    by (auto simp: nt_wrap_cong_mod [OF assms] mult.commute)
qed

lemma assoc_num_combine:
  assumes "int_type t"
  shows "assoc_op (num_combine t r)"
proof -
  have w: "0 < nt_width t" using assms by (simp add: int_type_def)
  show ?thesis
    by (cases r) (auto simp: assoc_op_def num_combine_def nt_wrap_add [OF w] nt_wrap_mult [OF w]
        or.assoc and.assoc add.assoc mult.assoc max.assoc min.assoc)
qed

lemma comm_num_combine: "comm_op (num_combine t r)"
  by (cases r) (auto simp: comm_op_def num_combine_def or.commute and.commute add.commute
      mult.commute max.commute min.commute)

lemma nt_range_bounds:
  assumes "int_type t" "nt_range t x"
  shows "representable_extreme t True \<le> x" "x \<le> representable_extreme t False"
proof -
  have w: "0 < nt_width t" using assms(1) by (simp add: int_type_def)
  consider (bool) "nt_width t = 1" | (sgn) "nt_width t \<noteq> 1" "nt_signed t" | (uns) "nt_width t \<noteq> 1" "\<not> nt_signed t"
    by blast
  then have "representable_extreme t True \<le> x \<and> x \<le> representable_extreme t False"
  proof cases
    case bool
    then have "take_bit 1 x = x" using assms by (simp add: int_type_def nt_range_def nt_wrap_def)
    then have "x = x mod 2" by (simp add: take_bit_eq_mod)
    then have "0 \<le> x" "x < 2" by presburger+
    then show ?thesis using bool by (simp add: representable_extreme_def)
  next
    case sgn
    let ?n = "nt_width t - 1"
    have x: "signed_take_bit ?n x = x" using assms(2) sgn by (simp add: nt_range_def nt_wrap_def)
    have "- (2 ^ ?n) \<le> signed_take_bit ?n x" "signed_take_bit ?n x < 2 ^ ?n"
      by (rule signed_take_bit_int_greater_eq_minus_exp signed_take_bit_int_less_exp)+
    then have "- (2 ^ ?n) \<le> x" "x < 2 ^ ?n" by (simp_all only: x)
    moreover have "signed_take_bit ?n (- (2 ^ ?n)) = (- (2 ^ ?n) :: int)"
      "signed_take_bit ?n (2 ^ ?n - 1) = (2 ^ ?n - 1 :: int)"
      by (simp_all add: signed_take_bit_int_eq_self)
    ultimately show ?thesis using sgn by (simp add: representable_extreme_def Let_def nt_wrap_def)
  next
    case uns
    have x: "take_bit (nt_width t) x = x" using assms(2) uns by (simp add: nt_range_def nt_wrap_def)
    have "0 \<le> take_bit (nt_width t) x" "take_bit (nt_width t) x < 2 ^ nt_width t"
      by (rule take_bit_nonnegative take_bit_int_less_exp)+
    then have "0 \<le> x" "x < 2 ^ nt_width t" by (simp_all only: x)
    moreover have "take_bit (nt_width t) (2 ^ nt_width t - 1) = (2 ^ nt_width t - 1 :: int)"
      by (simp add: take_bit_int_eq_self)
    ultimately show ?thesis using uns by (simp add: representable_extreme_def nt_wrap_def)
  qed
  then show "representable_extreme t True \<le> x" "x \<le> representable_extreme t False" by auto
qed

lemma bool_range:
  assumes "int_type t" "nt_width t = 1"
  shows "nt_range t x \<longleftrightarrow> x = 0 \<or> x = 1"
proof -
  have u: "\<not> nt_signed t" using assms by (simp add: int_type_def)
  have "nt_wrap t x = x mod 2" unfolding nt_wrap_def take_bit_eq_mod using u assms(2) by simp
  then show ?thesis unfolding nt_range_def by presburger
qed

lemma nt_range_below: "nt_range ty y \<Longrightarrow> 0 \<le> x \<Longrightarrow> x \<le> y \<Longrightarrow> nt_wrap ty x = x"
proof -
  assume a: "nt_range ty y" "0 \<le> x" "x \<le> y"
  show ?thesis
  proof (cases "nt_signed ty")
    case True
    have "signed_take_bit (nt_width ty - 1) y < 2 ^ (nt_width ty - 1)" by (rule signed_take_bit_int_less_exp)
    then have "y < 2 ^ (nt_width ty - 1)" using a(1) True unfolding nt_range_def nt_wrap_def by (simp only: if_True)
    moreover have "- (2 ^ (nt_width ty - 1)) \<le> (0 :: int)" by simp
    then have "- (2 ^ (nt_width ty - 1)) \<le> x" using a(2) by linarith
    ultimately show ?thesis using a True by (simp add: nt_wrap_def signed_take_bit_int_eq_self)
  next
    case False
    have "take_bit (nt_width ty) y < 2 ^ nt_width ty" by (rule take_bit_int_less_exp)
    then have "y < 2 ^ nt_width ty" using a(1) False unfolding nt_range_def nt_wrap_def by (simp only: if_False)
    then show ?thesis using a False by (simp add: nt_wrap_def take_bit_int_eq_self)
  qed
qed

section \<open>Facts about operators and checks\<close>

lemma combine_builtin [simp]: "combine (num_dtype t) (Builtin r) = num_combine t r"
  by (intro ext) (simp add: num_dtype_def)

lemma num_dtype_simps [simp]:
  "packed (num_dtype t) \<longleftrightarrow> nt_width t \<noteq> 1 \<and> nt_width t \<noteq> 128"
  "builtin_combine (num_dtype t) = num_combine t"
  "builtin_identity (num_dtype t) = num_identity t"
  by (simp_all add: num_dtype_def)

lemma resolve_warp_width_pow2:
  assumes "resolve_warp_width tg width = Inr w" "is_pow2 (warp_size tg)"
  shows "is_pow2 w" "w \<le> warp_size tg"
proof -
  have "is_pow2 w \<and> w \<le> warp_size tg"
  proof (cases width)
    case (Some v)
    with assms(1) have v: "1 \<le> v" "and v (v - 1) = 0" "v \<le> int (warp_size tg)" "w = nat v"
      by (auto simp: resolve_warp_width_def require_power_of_two_def split: if_splits)
    then have w: "v = int w" "0 < w" by auto
    then have "int (w - 1) = v - 1" by simp
    then have "int (and w (w - 1)) = and v (v - 1)" using w by (simp add: of_nat_and_eq)
    then have "and w (w - 1) = 0" using v(2) by (simp only: of_nat_eq_0_iff)
    then have "is_pow2 w" using and_pred_zero_iff_pow2 [OF w(2)] by blast
    moreover have "w \<le> warp_size tg" using v(3) unfolding w(1) by (simp only: of_nat_le_iff)
    ultimately show ?thesis by blast
  qed (use assms in \<open>simp add: resolve_warp_width_def\<close>)
  then show "is_pow2 w" "w \<le> warp_size tg" by simp_all
qed

lemma resolve_warp_width_again:
  assumes "is_pow2 w" "w \<le> warp_size tg"
  shows "resolve_warp_width tg (Some (int w)) = Inr w"
proof -
  have w: "0 < w" using assms(1) by (rule is_pow2_pos)
  then have p: "int w - 1 = int (w - 1)" by simp
  have "and w (w - 1) = 0" using and_pred_zero_iff_pow2 [OF w] assms(1) by blast
  then have "and (int w) (int w - 1) = 0" unfolding p of_nat_and_eq [symmetric] by simp
  then show ?thesis
    using w assms(2) by (simp add: resolve_warp_width_def require_power_of_two_def)
qed

end
