(* ===== verification/Coop_Shared.thy ===== *)
theory Coop_Shared
  imports Coop_Common
begin

text \<open>
  Shared memory between two barriers. The threads of a block (or of a warp) run the same code and
  write to one array; between two barriers nothing orders the writes of different threads. A
  phase of the source is a list of writes for each thread, and what the array may hold at the
  closing barrier is what some interleaving of those lists leaves in it.

  The block and warp algorithms are race free: within a phase no two threads write one address.
  Then every interleaving leaves the same array (\<open>barrier_phase_any_order\<close>), and the models of
  the algorithms use that array. Where the source does race on purpose (atomic counters), the
  models take the interleaving as an argument.
\<close>

type_synonym 'a shared = "nat \<Rightarrow> 'a"

definition shared_store :: "'a shared \<Rightarrow> nat \<Rightarrow> 'a \<Rightarrow> 'a shared" where
  "shared_store slots index value = slots(index := value)"

definition shared_load :: "'a shared \<Rightarrow> nat \<Rightarrow> 'a" where
  "shared_load slots index = slots index"

definition run_writes :: "(nat \<times> 'a) list \<Rightarrow> 'a shared \<Rightarrow> 'a shared" where
  "run_writes ws slots = fold (\<lambda>(index, value) s. shared_store s index value) ws slots"

text \<open>The phase of \<open>n\<close> threads, the threads one after another.\<close>

definition barrier_phase :: "nat \<Rightarrow> (nat \<Rightarrow> (nat \<times> 'a) list) \<Rightarrow> 'a shared \<Rightarrow> 'a shared" where
  "barrier_phase n writes slots = run_writes (concat (map writes [0..<n])) slots"

definition race_free :: "nat \<Rightarrow> (nat \<Rightarrow> (nat \<times> 'a) list) \<Rightarrow> bool" where
  "race_free n writes \<longleftrightarrow> (\<forall>s < n. \<forall>t < n. s \<noteq> t \<longrightarrow>
     fst ` set (writes s) \<inter> fst ` set (writes t) = {})"

text \<open>An interleaving takes the next write of some thread until no thread has one left.\<close>

inductive interleaving :: "(nat \<Rightarrow> 'b list) \<Rightarrow> 'b list \<Rightarrow> bool" where
  finished: "(\<And>t. W t = []) \<Longrightarrow> interleaving W []"
| step: "W t = x # xs \<Longrightarrow> interleaving (W(t := xs)) ys \<Longrightarrow> interleaving W (x # ys)"

inductive_cases interleaving_NilE: "interleaving W []"
inductive_cases interleaving_ConsE: "interleaving W (x # ys)"

section \<open>What a phase leaves in memory\<close>

lemma run_writes_simps [simp]:
  "run_writes [] slots = slots"
  "run_writes ((i, v) # ws) slots = run_writes ws (slots(i := v))"
  by (simp_all add: run_writes_def shared_store_def)

lemma run_writes_append [simp]: "run_writes (xs @ ys) slots = run_writes ys (run_writes xs slots)"
  by (simp add: run_writes_def)

text \<open>An address holds the last write to it: only the writes to that address matter.\<close>

lemma run_writes_filter:
  "run_writes ws slots i = run_writes (filter (\<lambda>w. fst w = i) ws) slots i"
proof (induction ws arbitrary: slots)
  case (Cons w ws)
  obtain a v where w: "w = (a, v)" by (cases w)
  have other: "run_writes xs s i = run_writes xs s' i" if "s i = s' i" for xs :: "(nat \<times> 'a) list" and s s'
    using that
  proof (induction xs arbitrary: s s')
    case (Cons x xs)
    obtain b u where x: "x = (b, u)" by (cases x)
    have "(s(b := u)) i = (s'(b := u)) i" using Cons.prems by simp
    then show ?case unfolding x run_writes_simps by (rule Cons.IH)
  qed simp
  show ?case
  proof (cases "a = i")
    case True
    then show ?thesis using Cons.IH [of "slots(a := v)"] by (simp add: w del: fun_upd_apply)
  next
    case False
    have "run_writes (filter (\<lambda>w. fst w = i) ws) (slots(a := v)) i = run_writes (filter (\<lambda>w. fst w = i) ws) slots i"
      by (rule other) (use False in simp)
    then show ?thesis using False Cons.IH [of "slots(a := v)"] by (simp add: w del: fun_upd_apply)
  qed
qed simp

lemma run_writes_miss: "i \<notin> fst ` set ws \<Longrightarrow> run_writes ws slots i = slots i"
proof -
  assume "i \<notin> fst ` set ws"
  then have "filter (\<lambda>w. fst w = i) ws = []" by (force simp: filter_empty_conv)
  then show ?thesis using run_writes_filter [of ws slots i] by simp
qed

lemma run_writes_hit: "distinct (map fst ws) \<Longrightarrow> (i, v) \<in> set ws \<Longrightarrow> run_writes ws slots i = v"
proof (induction ws arbitrary: slots)
  case (Cons w ws)
  obtain a u where w: "w = (a, u)" by (cases w)
  show ?case
  proof (cases "(i, v) = w")
    case True
    then have "i \<notin> fst ` set ws" using Cons.prems(1) w by simp
    then show ?thesis using True by (simp add: w run_writes_miss)
  qed (use Cons w in auto)
qed simp

section \<open>Interleavings\<close>

lemma interleaving_filter:
  assumes "interleaving W ys" "\<And>s. s \<noteq> t \<Longrightarrow> filter P (W s) = []"
  shows "filter P ys = filter P (W t)"
  using assms
proof (induction rule: interleaving.induct)
  case (step W u x xs ys)
  have prems: "filter P ((W(u := xs)) s) = []" if "s \<noteq> t" for s
    using step.prems [OF that] step.hyps(1) by (cases "s = u") (auto split: if_splits)
  show ?case
    using step.IH [OF prems] step.prems [of u] step.hyps(1) by (cases "u = t") (auto split: if_splits)
qed simp

lemma interleaving_seq:
  assumes "\<And>t. n \<le> t \<Longrightarrow> W t = []"
  shows "interleaving W (concat (map W [0..<n]))"
proof -
  have take_all: "interleaving V ys" if "V = (\<lambda>s. if s = t then xs else U s)" "interleaving (U(t := [])) zs" "ys = xs @ zs"
    for V U t xs ys zs
    using that
  proof (induction xs arbitrary: V ys)
    case Nil
    then have "V = U(t := [])" by auto
    then show ?case using Nil by simp
  next
    case (Cons x xs)
    have "V(t := xs) = (\<lambda>s. if s = t then xs else U s)" using Cons.prems(1) by auto
    then have "interleaving (V(t := xs)) (xs @ zs)" using Cons.IH Cons.prems(2) by blast
    moreover have "V t = x # xs" using Cons.prems(1) by simp
    ultimately show ?case using Cons.prems(3) by (auto intro: interleaving.step)
  qed
  have "interleaving (\<lambda>s. if s < m then [] else W s) (concat (map W [m..<n]))" if "m \<le> n" for m
    using that
  proof (induction "n - m" arbitrary: m)
    case 0
    then show ?case using assms by (auto intro: interleaving.finished)
  next
    case (Suc k)
    then have m: "m < n" by simp
    have "interleaving (\<lambda>s. if s < Suc m then [] else W s) (concat (map W [Suc m..<n]))"
      using Suc by simp
    moreover have "(\<lambda>s. if s < Suc m then [] else W s) = (\<lambda>s. if s < m then [] else W s)(m := [])" by auto
    moreover have "(\<lambda>s. if s < m then [] else W s) = (\<lambda>s. if s = m then W m else (if s < m then [] else W s))" by auto
    ultimately show ?case
      using m take_all [of _ m "W m" "\<lambda>s. if s < m then [] else W s"] by (simp add: upt_conv_Cons)
  qed
  from this [of 0] show ?thesis by simp
qed

lemma race_free_filter:
  assumes "race_free n W" "\<And>t. n \<le> t \<Longrightarrow> W t = []"
  shows "\<exists>t. \<forall>s. s \<noteq> t \<longrightarrow> filter (\<lambda>w. fst w = i) (W s) = []"
proof (cases "\<exists>t. i \<in> fst ` set (W t)")
  case True
  then obtain t where t: "i \<in> fst ` set (W t)" by blast
  then have "t < n" using assms(2) by (cases "t < n") auto
  have "filter (\<lambda>w. fst w = i) (W s) = []" if "s \<noteq> t" for s
  proof (cases "s < n")
    case True
    then have "i \<notin> fst ` set (W s)" using assms(1) t \<open>t < n\<close> that unfolding race_free_def by blast
    then show ?thesis by (force simp: filter_empty_conv)
  qed (use assms(2) in simp)
  then show ?thesis by blast
next
  case False
  then show ?thesis by (force simp: filter_empty_conv)
qed

lemma barrier_phase_any_order:
  assumes "race_free n W" "\<And>t. n \<le> t \<Longrightarrow> W t = []" "interleaving W ws"
  shows "run_writes ws slots = barrier_phase n W slots"
proof
  fix i
  obtain t where t: "\<And>s. s \<noteq> t \<Longrightarrow> filter (\<lambda>w. fst w = i) (W s) = []"
    using race_free_filter [OF assms(1,2)] by blast
  have "interleaving W (concat (map W [0..<n]))" using assms(2) by (rule interleaving_seq)
  then have "filter (\<lambda>w. fst w = i) (concat (map W [0..<n])) = filter (\<lambda>w. fst w = i) (W t)"
    by (rule interleaving_filter) (rule t)
  moreover have "filter (\<lambda>w. fst w = i) ws = filter (\<lambda>w. fst w = i) (W t)"
    using assms(3) by (rule interleaving_filter) (rule t)
  ultimately have "filter (\<lambda>w. fst w = i) ws = filter (\<lambda>w. fst w = i) (concat (map W [0..<n]))" by simp
  then show "run_writes ws slots i = barrier_phase n W slots i"
    unfolding barrier_phase_def by (metis run_writes_filter)
qed

section \<open>Reading a phase back\<close>

text \<open>A phase is race free when the address determines the thread.\<close>

lemma race_freeI:
  assumes "\<And>t i a. t < n \<Longrightarrow> (i, a) \<in> set (W t) \<Longrightarrow> owner i = t"
  shows "race_free n W"
  unfolding race_free_def
proof (intro allI impI)
  fix s t assume st: "s < n" "t < n" "s \<noteq> t"
  show "fst ` set (W s) \<inter> fst ` set (W t) = {}"
  proof (rule equals0I)
    fix i assume "i \<in> fst ` set (W s) \<inter> fst ` set (W t)"
    then obtain a b where "(i, a) \<in> set (W s)" "(i, b) \<in> set (W t)" by auto
    then have "owner i = s" "owner i = t" using assms st(1,2) by blast+
    then show False using st(3) by simp
  qed
qed

lemma barrier_phase_hit:
  assumes "race_free n W" "t < n" "distinct (map fst (W t))" "(i, v) \<in> set (W t)"
  shows "barrier_phase n W slots i = v"
proof -
  have "filter (\<lambda>w. fst w = i) (concat (map W [0..<n])) = filter (\<lambda>w. fst w = i) (W t)"
  proof -
    have other: "filter (\<lambda>w. fst w = i) (W s) = []" if "s < n" "s \<noteq> t" for s
    proof -
      have "i \<notin> fst ` set (W s)" using assms(1,2,4) that unfolding race_free_def by force
      then show ?thesis by (force simp: filter_empty_conv)
    qed
    have "[0..<n] = [0..<t] @ t # [Suc t..<n]"
      using assms(2) by (metis le0 le_Suc_ex less_imp_le upt_add_eq_append upt_conv_Cons)
    moreover have "concat (map (\<lambda>s. filter (\<lambda>w. fst w = i) (W s)) [0..<t]) = []"
      "concat (map (\<lambda>s. filter (\<lambda>w. fst w = i) (W s)) [Suc t..<n]) = []"
      using assms(2) other by auto
    ultimately show ?thesis by (simp add: filter_concat comp_def del: concat_eq_Nil_conv)
  qed
  then have "barrier_phase n W slots i = run_writes (W t) slots i"
    unfolding barrier_phase_def by (metis run_writes_filter)
  then show ?thesis using run_writes_hit [OF assms(3,4)] by simp
qed

lemma barrier_phase_miss:
  assumes "\<And>t. t < n \<Longrightarrow> i \<notin> fst ` set (W t)"
  shows "barrier_phase n W slots i = slots i"
  unfolding barrier_phase_def using assms by (intro run_writes_miss) force

text \<open>The common shape: every thread with \<open>guard t\<close> stores one value.\<close>

definition store_if :: "bool lanes \<Rightarrow> nat lanes \<Rightarrow> 'a lanes \<Rightarrow> nat \<Rightarrow> (nat \<times> 'a) list" where
  "store_if g index value t = (if g t then [(index t, value t)] else [])"

lemma race_free_store_if:
  "inj_on index {t. t < n \<and> g t} \<Longrightarrow> race_free n (store_if g index value)"
  by (auto simp: race_free_def store_if_def inj_on_def)

lemma phase_store_if:
  assumes "inj_on index {t. t < n \<and> g t}" "t < n" "g t"
  shows "barrier_phase n (store_if g index value) slots (index t) = value t"
  by (rule barrier_phase_hit [OF race_free_store_if [OF assms(1)] assms(2)]) (simp_all add: store_if_def assms(3))

lemma phase_store_zero: "0 < n \<Longrightarrow> barrier_phase n (store_if (\<lambda>t. t = 0) (\<lambda>_. 0) v) slots 0 = v 0"
  by (rule phase_store_if [where t = 0 and index = "\<lambda>_. 0" and g = "\<lambda>t. t = 0"]) (auto simp: inj_on_def)

lemma store_all: "t < threads \<Longrightarrow> barrier_phase threads (store_if (\<lambda>_. True) (\<lambda>t. t) v) slots t = v t"
  by (rule phase_store_if [where index = "\<lambda>t. t" and t = t]) simp_all

section \<open>Scatter phases\<close>

text \<open>Every thread stores its items \<open>i < n\<close> with \<open>g t i\<close> at the address \<open>rank t i\<close>.\<close>

definition scatter_writes ::
  "nat \<Rightarrow> (nat \<Rightarrow> nat \<Rightarrow> bool) \<Rightarrow> (nat \<Rightarrow> nat \<Rightarrow> nat) \<Rightarrow> (nat \<Rightarrow> nat \<Rightarrow> 'a) \<Rightarrow> nat \<Rightarrow> (nat \<times> 'a) list" where
  "scatter_writes n g rank val t = map (\<lambda>i. (rank t i, val t i)) (filter (g t) [0..<n])"

definition scatter_inj :: "nat \<Rightarrow> nat \<Rightarrow> (nat \<Rightarrow> nat \<Rightarrow> bool) \<Rightarrow> (nat \<Rightarrow> nat \<Rightarrow> nat) \<Rightarrow> bool" where
  "scatter_inj threads n g rank \<longleftrightarrow> (\<forall>s < threads. \<forall>i < n. \<forall>t < threads. \<forall>j < n.
     g s i \<and> g t j \<and> rank s i = rank t j \<longrightarrow> s = t \<and> i = j)"

lemma scatter_mem:
  "(a, x) \<in> set (scatter_writes n g rank val t) \<longleftrightarrow> (\<exists>i < n. g t i \<and> a = rank t i \<and> x = val t i)"
  by (auto simp: scatter_writes_def)

lemma scatter_race_free: "scatter_inj threads n g rank \<Longrightarrow> race_free threads (scatter_writes n g rank val)"
  unfolding race_free_def
proof (intro allI impI equals0I)
  fix s t a
  assume inj: "scatter_inj threads n g rank" and st: "s < threads" "t < threads" "s \<noteq> t"
    and a: "a \<in> fst ` set (scatter_writes n g rank val s) \<inter> fst ` set (scatter_writes n g rank val t)"
  then obtain x y where "(a, x) \<in> set (scatter_writes n g rank val s)" "(a, y) \<in> set (scatter_writes n g rank val t)"
    by auto
  then obtain i j where "i < n" "g s i" "a = rank s i" "j < n" "g t j" "a = rank t j"
    unfolding scatter_mem by blast
  then have "s = t" using inj st(1,2) unfolding scatter_inj_def by metis
  then show False using st(3) by simp
qed

lemma scatter_hit:
  assumes inj: "scatter_inj threads n g rank" and s: "s < threads" "i < n" "g s i"
  shows "barrier_phase threads (scatter_writes n g rank val) slots (rank s i) = val s i"
proof (rule barrier_phase_hit [OF scatter_race_free [OF inj] s(1)])
  have "inj_on (rank s) (set (filter (g s) [0..<n]))"
    using inj s(1) unfolding scatter_inj_def inj_on_def by auto
  then show "distinct (map fst (scatter_writes n g rank val s))"
    by (simp add: scatter_writes_def comp_def distinct_map)
  show "(rank s i, val s i) \<in> set (scatter_writes n g rank val s)" using s by (auto simp: scatter_mem)
qed

lemma scatter_miss:
  assumes "\<And>s i. s < threads \<Longrightarrow> i < n \<Longrightarrow> g s i \<Longrightarrow> rank s i \<noteq> a"
  shows "barrier_phase threads (scatter_writes n g rank val) slots a = slots a"
proof (rule barrier_phase_miss)
  fix t assume "t < threads"
  then show "a \<notin> fst ` set (scatter_writes n g rank val t)" using assms by (auto simp: scatter_writes_def) metis
qed

end
