(* ===== verification/Coop_Spec.thy ===== *)
theory Coop_Spec
  imports Coop_Common
begin

text \<open>
  Specialization of the operator classes (\<open>coop/block/_spec.py\<close>, \<open>coop/warp/_spec.py\<close>):
  \<open>BlockScan[dtype, block_size, algorithm]\<close> and its kin check their parameters, fix the block's
  shape and the logical warp width, and memoize the class they make.
\<close>

section \<open>Block classes\<close>

text \<open>A \<open>block_size\<close> argument is an integer or a tuple.\<close>

datatype block_size_arg = Flat int | Dims "int list"

definition block_shape :: "block_size_arg \<Rightarrow> (nat \<times> nat \<times> nat) res" where
  "block_shape block_size =
     (let dims = (case block_size of Dims ds \<Rightarrow> ds | Flat n \<Rightarrow> [n, 1, 1])
      in if length dims \<noteq> 3 then Inl TypeError
         else if \<exists>d \<in> set dims. d < 1 then Inl TypeError
         else Inr (nat (dims ! 0), nat (dims ! 1), nat (dims ! 2)))"

text \<open>
  The root class: which algorithms it has and which of them are implemented, whether it accepts a
  key and value type, and whether a block smaller than a warp is one logical warp.
\<close>

record root_class =
  root_name :: string
  algorithms :: "string list"
  implemented :: "string list"
  supports_pairs :: bool
  supports_subwarp :: bool

datatype 'd dtype_arg = Single 'd | Tuple "'d list"

record 'd block_class =
  bc_root :: string
  key_dtype :: 'd
  value_dtype :: "'d option"
  block_size :: "nat \<times> nat \<times> nat"
  block_threads :: nat
  bc_algorithm :: string
  warp_threads :: nat
  num_warps :: nat
  items_per_thread :: "nat option"

text \<open>The class cache; the root class and all parameters are in the key.\<close>

type_synonym 'd block_key = "string \<times> 'd dtype_arg \<times> (nat \<times> nat \<times> nat) \<times> string \<times> nat \<times> nat option"
type_synonym 'd block_cache = "'d block_key \<rightharpoonup> 'd block_class"

definition block_warp_threads :: "bool \<Rightarrow> nat \<Rightarrow> nat \<Rightarrow> nat res" where
  "block_warp_threads subwarp hardware threads =
     (if subwarp \<and> threads < hardware
      then rbind (require_power_of_two (int threads)) (\<lambda>_. Inr (min threads threads))
      else if threads mod hardware \<noteq> 0 then Inl ValueError
      else Inr (min threads hardware))"

definition split_dtype :: "root_class \<Rightarrow> 'd dtype_arg \<Rightarrow> ('d \<times> 'd option) res" where
  "split_dtype cls dtype = (case dtype of
       Single d \<Rightarrow> Inr (d, None)
     | Tuple ds \<Rightarrow> if \<not> supports_pairs cls \<or> length ds \<noteq> 2 then Inl TypeError
         else Inr (ds ! 0, Some (ds ! 1)))"

definition specialize ::
  "target \<Rightarrow> root_class \<Rightarrow> 'd dtype_arg \<Rightarrow> block_size_arg \<Rightarrow> string \<Rightarrow> nat option \<Rightarrow> 'd block_cache
     \<Rightarrow> ('d block_class \<times> 'd block_cache) res" where
  "specialize tg cls dtype bsize algorithm items cache =
     rbind (guard TypeError (algorithm \<in> set (algorithms cls))) (\<lambda>_.
     rbind (block_shape bsize) (\<lambda>shape.
       let threads = fst shape * fst (snd shape) * snd (snd shape) in
     rbind (block_warp_threads (supports_subwarp cls) (warp_size tg) threads) (\<lambda>w.
     rbind (split_dtype cls dtype) (\<lambda>(key, val).
       let k = (root_name cls, dtype, shape, algorithm, w, items) in
       case cache k of
         Some c \<Rightarrow> Inr (c, cache)
       | None \<Rightarrow>
          rbind (guard NotImplementedError (algorithm \<in> set (implemented cls))) (\<lambda>_.
            let c = \<lparr>bc_root = root_name cls, key_dtype = key, value_dtype = val, block_size = shape,
                     block_threads = threads, bc_algorithm = algorithm, warp_threads = w,
                     num_warps = threads div w, items_per_thread = items\<rparr>
            in Inr (c, cache(k \<mapsto> c)))))))"

text \<open>\<open>BlockTileAlgorithmMeta.__getitem__\<close>: the third parameter is a positive item count.\<close>

definition tile_getitem ::
  "target \<Rightarrow> root_class \<Rightarrow> 'd dtype_arg \<Rightarrow> block_size_arg \<Rightarrow> int \<Rightarrow> string \<Rightarrow> 'd block_cache
     \<Rightarrow> ('d block_class \<times> 'd block_cache) res" where
  "tile_getitem tg cls dtype bsize n algorithm cache =
     (if n < 1 then Inl ValueError
      else specialize tg cls dtype bsize algorithm (Some (nat n)) cache)"

text \<open>\<open>BlockPrimitive._check\<close> on a tile of items of element type \<open>d\<close>.\<close>

definition check_value :: "'d block_class \<Rightarrow> 'd \<Rightarrow> nat \<Rightarrow> unit res" where
  "check_value c d len =
     (if d \<noteq> key_dtype c then Inl TypeError
      else case items_per_thread c of
          Some n \<Rightarrow> if len \<noteq> n then Inl ValueError else Inr ()
        | None \<Rightarrow> Inr ())"

section \<open>Warp classes\<close>

text \<open>The class attributes \<open>_tile\<close>, \<open>_pairs\<close>, \<open>_minimum_items\<close> and \<open>_algorithms\<close>.\<close>

record warp_root =
  wr_name :: string
  wr_tile :: bool
  wr_pairs :: bool
  wr_minimum :: int
  wr_algorithms :: "string list option"
  wr_default :: "string option"

record 'd warp_class =
  wc_dtype :: 'd
  wc_value_dtype :: "'d option"
  wc_width :: nat
  wc_items :: "nat option"
  wc_algorithm :: "string option"

definition warp_getitem ::
  "target \<Rightarrow> warp_root \<Rightarrow> 'd dtype_arg \<Rightarrow> int option \<Rightarrow> int option \<Rightarrow> string option \<Rightarrow> 'd warp_class res" where
  "warp_getitem tg cls dtype width items algorithm =
     rbind (guard TypeError (wr_tile cls = (items \<noteq> None) \<and> (algorithm \<noteq> None \<longrightarrow> wr_algorithms cls \<noteq> None))) (\<lambda>_.
     rbind (case dtype of Single d \<Rightarrow> Inr (d, None)
        | Tuple ds \<Rightarrow> if \<not> wr_pairs cls \<or> length ds \<noteq> 2 then Inl TypeError else Inr (ds ! 0, Some (ds ! 1))) (\<lambda>(d, v).
     rbind (resolve_warp_width tg width) (\<lambda>w.
     rbind (guard ValueError (case items of Some n \<Rightarrow> wr_minimum cls \<le> n | None \<Rightarrow> True)) (\<lambda>_.
       let a = (if algorithm = None then wr_default cls else algorithm) in
     rbind (guard TypeError (case wr_algorithms cls of None \<Rightarrow> True
          | Some as \<Rightarrow> (case a of Some x \<Rightarrow> x \<in> set as | None \<Rightarrow> False))) (\<lambda>_.
       Inr \<lparr>wc_dtype = d, wc_value_dtype = v, wc_width = w,
            wc_items = map_option nat items, wc_algorithm = a\<rparr>)))))"

section \<open>Facts\<close>

text \<open>The geometry every block algorithm relies on: full logical warps of a power of two of lanes.\<close>

definition block_geometry :: "nat \<Rightarrow> nat \<Rightarrow> nat \<Rightarrow> nat \<Rightarrow> bool" where
  "block_geometry hardware threads w nw \<longleftrightarrow>
     is_pow2 w \<and> w \<le> hardware \<and> 0 < nw \<and> threads = w * nw"

lemma require_power_of_two_iff: "require_power_of_two (int n) = Inr () \<longleftrightarrow> is_pow2 n"
proof (cases "0 < n")
  case True
  then have "and (int n) (int n - 1) = int (and n (n - 1))"
    using of_nat_and_eq [of n "n - 1", where 'a = int] of_nat_diff [of 1 n, where 'a = int] by simp
  then show ?thesis using True and_pred_zero_iff_pow2 [OF True] by (auto simp: require_power_of_two_def)
qed (auto simp: require_power_of_two_def is_pow2_def)

lemma block_warp_threads_geometry:
  assumes "block_warp_threads subwarp hardware threads = Inr w" "is_pow2 hardware" "0 < threads"
  shows "block_geometry hardware threads w (threads div w)"
proof (cases "subwarp \<and> threads < hardware")
  case True
  then have "require_power_of_two (int threads) = Inr ()" "w = threads"
    using assms(1) by (auto simp: block_warp_threads_def rbind_Inr_iff)
  then show ?thesis using True assms(3) require_power_of_two_iff [of threads] by (simp add: block_geometry_def)
next
  case False
  then have d: "threads mod hardware = 0" "w = min threads hardware"
    using assms(1) by (auto simp: block_warp_threads_def split: if_splits)
  then have "hardware \<le> threads" using assms(3) by (metis mod_less not_le_imp_less gr_implies_not0)
  then have "w = hardware" using d(2) by simp
  moreover have "hardware dvd threads" using d(1) by auto
  ultimately show ?thesis using assms(2,3) by (auto simp: block_geometry_def elim!: dvdE)
qed

lemma block_shape_pos: "block_shape bsize = Inr (x, y, z) \<Longrightarrow> 0 < x \<and> 0 < y \<and> 0 < z"
proof -
  assume a: "block_shape bsize = Inr (x, y, z)"
  let ?d = "case bsize of Dims ds \<Rightarrow> ds | Flat n \<Rightarrow> [n, 1, 1]"
  have l: "length ?d = 3" "\<And>d. d \<in> set ?d \<Longrightarrow> 1 \<le> d" "x = nat (?d ! 0)" "y = nat (?d ! 1)" "z = nat (?d ! 2)"
    using a unfolding block_shape_def Let_def by (auto split: if_splits)
  have "1 \<le> ?d ! i" if "i < 3" for i using l(1,2) that by (metis nth_mem)
  from this [of 0] this [of 1] this [of 2] show ?thesis by (simp add: l(3-5))
qed

text \<open>
  The invariant of the cache: an entry describes the parameters in its key, with the geometry above.
\<close>

definition entry_ok :: "target \<Rightarrow> 'd block_key \<Rightarrow> 'd block_class \<Rightarrow> bool" where
  "entry_ok tg k c \<longleftrightarrow> (case k of (root, dtype, shape, algorithm, w, items) \<Rightarrow>
     bc_root c = root \<and> block_size c = shape \<and> bc_algorithm c = algorithm \<and> items_per_thread c = items
     \<and> block_threads c = fst shape * fst (snd shape) * snd (snd shape)
     \<and> warp_threads c = w \<and> block_geometry (warp_size tg) (block_threads c) w (num_warps c))"

definition cache_ok :: "target \<Rightarrow> 'd block_cache \<Rightarrow> bool" where
  "cache_ok tg cache \<longleftrightarrow> (\<forall>k c. cache k = Some c \<longrightarrow> entry_ok tg k c)"


definition block_scan_root :: root_class where
  "block_scan_root = \<lparr>root_name = ''BlockScan'', algorithms = [''RAKING'', ''RAKING_MEMOIZE'', ''WARP_SCANS''],
     implemented = [''RAKING'', ''RAKING_MEMOIZE'', ''WARP_SCANS''], supports_pairs = False, supports_subwarp = True\<rparr>"


end
