(* ===== verification/Warp_Scan.thy ===== *)
theory Warp_Scan
  imports Coop_Common
begin

text \<open>
  The portable warp scans and broadcast of \<open>flydsl/extension/coop/warp/scan.py\<close>: the
  Hillis-Steele network over shuffles, its guarded form for a valid prefix, seeds, exclusive
  shifts and aggregates, scalar and blocked item ranges. The reference value of a lane is the
  ordered fold of its logical group up to that lane.
\<close>

section \<open>Shuffling helpers\<close>

definition shuffle_up ::
  "target \<Rightarrow> 'a dtype \<Rightarrow> 'a lanes \<Rightarrow> nat \<Rightarrow> nat \<Rightarrow> 'a lanes \<times> bool lanes" where
  "shuffle_up tg d value offset w =
     (shuffle_value tg d value (\<lambda>_. int offset) w Up, \<lambda>l. l mod w \<ge> offset)"

definition shift_up :: "target \<Rightarrow> 'a dtype \<Rightarrow> 'a lanes \<Rightarrow> 'a operator \<Rightarrow> nat \<Rightarrow> 'a lanes res" where
  "shift_up tg d inclusive op w =
     (let (shifted, valid) = shuffle_up tg d inclusive 1 w
      in rbind (identity d op None) (\<lambda>e. Inr (select_value valid shifted (\<lambda>_. e))))"

text \<open>The source lane of a broadcast is a Python integer, checked, or a runtime value per lane.\<close>

definition warp_broadcast ::
  "target \<Rightarrow> 'a dtype \<Rightarrow> int option \<Rightarrow> int + int lanes \<Rightarrow> 'a lanes \<Rightarrow> 'a lanes res" where
  "warp_broadcast tg d width source_lane value =
     rbind (resolve_warp_width tg width) (\<lambda>w.
     rbind (guard ValueError (case source_lane of Inl s \<Rightarrow> 0 \<le> s \<and> s < int w | Inr _ \<Rightarrow> True)) (\<lambda>_.
     let source = (case source_lane of Inl s \<Rightarrow> (\<lambda>_. s) | Inr v \<Rightarrow> v)
     in Inr (shuffle_value tg d value (\<lambda>l. int (group_base w l) + source l) w Idx)))"

definition broadcast_last :: "target \<Rightarrow> 'a dtype \<Rightarrow> 'a lanes \<Rightarrow> nat \<Rightarrow> 'a lanes res" where
  "broadcast_last tg d value w = warp_broadcast tg d (Some (int w)) (Inl (int w - 1)) value"

section \<open>The scan networks\<close>

text \<open>The \<open>while offset < width\<close> loop at \<open>offset = 2 ^ k\<close>; shifting doubles the offset.\<close>

function hillis_from ::
  "target \<Rightarrow> 'a dtype \<Rightarrow> 'a operator \<Rightarrow> nat \<Rightarrow> nat \<Rightarrow> 'a lanes \<Rightarrow> 'a lanes" where
  "hillis_from tg d op w k value =
     (if 2 ^ k < w then
        (let (shifted, valid) = shuffle_up tg d value (2 ^ k) w
         in hillis_from tg d op w (Suc k)
              (select_value valid (\<lambda>l. combine d op (shifted l) (value l)) value))
      else value)"
  by pat_completeness auto
termination
proof (relation "measure (\<lambda>(tg, d, op, w, k, value). w - k)", goal_cases)
  case (2 tg d op w k v x xa y)
  have "k < 2 ^ k" by (rule less_exp)
  with 2(1) have "k < w" by (rule less_trans [rotated])
  then show ?case by simp
qed simp

declare hillis_from.simps [simp del]

definition hillis_steele :: "target \<Rightarrow> 'a dtype \<Rightarrow> 'a lanes \<Rightarrow> 'a operator \<Rightarrow> nat \<Rightarrow> 'a lanes" where
  "hillis_steele tg d value op w = hillis_from tg d op w 0 value"

definition scan_valid ::
  "target \<Rightarrow> 'a dtype \<Rightarrow> 'a lanes \<Rightarrow> 'a operator \<Rightarrow> nat \<Rightarrow> int \<Rightarrow> 'a lanes" where
  "scan_valid tg d value op w valid_items =
     fold (\<lambda>stage value.
        let shifted = shuffle_value tg d value (\<lambda>_. 2 ^ stage) w Up
        in (\<lambda>l. if int (l mod w) < valid_items \<and> l mod w \<ge> 2 ^ stage
               then combine d op (shifted l) (value l) else value l))
       [0..<bit_length w - 1] value"

definition scan_raw ::
  "target \<Rightarrow> 'a dtype \<Rightarrow> 'a lanes \<Rightarrow> 'a operator \<Rightarrow> nat \<Rightarrow> count option \<Rightarrow> 'a lanes res" where
  "scan_raw tg d value op w valid_items =
     rbind (validate_scalar_valid_items (Item value) valid_items w) (\<lambda>_.
       Inr (case valid_items of
              Some v \<Rightarrow> scan_valid tg d value op w (count_value v)
            | None \<Rightarrow> hillis_steele tg d value op w))"

definition scan_aggregate ::
  "target \<Rightarrow> 'a dtype \<Rightarrow> 'a lanes \<Rightarrow> nat \<Rightarrow> count option \<Rightarrow> 'a lanes res" where
  "scan_aggregate tg d raw w valid_items =
     (case valid_items of
        None \<Rightarrow> broadcast_last tg d raw w
      | Some v \<Rightarrow>
          (let count = count_value v; last = (if count > 0 then count - 1 else 0)
           in warp_broadcast tg d (Some (int w)) (Inr (\<lambda>_. last)) raw))"

definition seed_valid ::
  "'a dtype \<Rightarrow> 'a lanes \<Rightarrow> 'a operator \<Rightarrow> 'a lanes option \<Rightarrow> nat \<Rightarrow> int \<Rightarrow> 'a lanes" where
  "seed_valid d raw op init w valid_items =
     (\<lambda>l. if int (l mod w) < valid_items then seed d op init raw l else raw l)"

definition scan_inclusive ::
  "'a dtype \<Rightarrow> 'a lanes \<Rightarrow> 'a operator \<Rightarrow> nat \<Rightarrow> 'a lanes option \<Rightarrow> count option \<Rightarrow> 'a lanes" where
  "scan_inclusive d raw op w init valid_items =
     (if init = None then raw
      else case valid_items of None \<Rightarrow> seed d op init raw
         | Some v \<Rightarrow> seed_valid d raw op init w (count_value v))"

definition seed_exclusive ::
  "'a dtype \<Rightarrow> 'a lanes \<Rightarrow> 'a operator \<Rightarrow> 'a lanes \<Rightarrow> nat \<Rightarrow> int \<Rightarrow> 'a lanes" where
  "seed_exclusive d shifted op init w valid_items =
     select_value (\<lambda>l. l mod w \<noteq> 0)
       (\<lambda>l. if l mod w > 0 \<and> int (l mod w) < valid_items
            then seed d op (Some init) shifted l else shifted l)
       init"

fun is_add :: "'a operator \<Rightarrow> bool" where
  "is_add (Builtin ADD) = True"
| "is_add _ = False"

definition scan_exclusive ::
  "target \<Rightarrow> 'a dtype \<Rightarrow> 'a lanes \<Rightarrow> 'a operator \<Rightarrow> nat \<Rightarrow> 'a lanes option \<Rightarrow> count option
     \<Rightarrow> 'a lanes res" where
  "scan_exclusive tg d raw op w init valid_items =
     (if valid_items = None \<and> is_builtin op then
        rbind (shift_up tg d raw op w) (\<lambda>s. Inr (seed d op init s))
      else
        let (shifted, _) = shuffle_up tg d raw 1 w;
            init = (if init = None \<and> is_add op then Some (\<lambda>_. builtin_identity d ADD) else init)
        in case init of
             Some s \<Rightarrow> Inr (seed_exclusive d shifted op s w
                (case valid_items of None \<Rightarrow> int w | Some v \<Rightarrow> count_value v))
           | None \<Rightarrow> Inr shifted)"

section \<open>Blocked item ranges\<close>

definition join_array_prefix ::
  "'a dtype \<Rightarrow> 'a operator \<Rightarrow> 'a lanes option \<Rightarrow> nat \<Rightarrow> 'a lanes \<Rightarrow> 'a lanes \<Rightarrow> 'a lanes" where
  "join_array_prefix d op init w prefix local =
     seed d op init (\<lambda>l. if l mod w \<noteq> 0 then combine d op (prefix l) (local l) else local l)"

fun local_scan :: "'a dtype \<Rightarrow> 'a operator \<Rightarrow> 'a lanes \<Rightarrow> 'a lanes list \<Rightarrow> 'a lanes list" where
  "local_scan d op acc [] = [acc]"
| "local_scan d op acc (item # items) =
     acc # local_scan d op (\<lambda>l. combine d op (acc l) (item l)) items"

definition array_scan ::
  "target \<Rightarrow> 'a dtype \<Rightarrow> 'a lanes list \<Rightarrow> 'a operator \<Rightarrow> nat \<Rightarrow> 'a lanes option
     \<Rightarrow> ('a lanes list \<times> 'a lanes list \<times> 'a lanes) res" where
  "array_scan tg d items op w init =
     (case items of
        [] \<Rightarrow> Inl ValueError
      | x # xs \<Rightarrow>
         (let local = local_scan d op x xs;
              raw = hillis_steele tg d (last local) op w;
              (prefix, _) = shuffle_up tg d raw 1 w;
              inclusive = map (join_array_prefix d op init w prefix) local
          in rbind (scan_exclusive tg d raw op w init None) (\<lambda>e.
             rbind (broadcast_last tg d raw w) (\<lambda>agg.
               Inr (inclusive, e # butlast inclusive, agg)))))"

section \<open>Entry points\<close>

definition validate_scan :: "'a tile \<Rightarrow> count option \<Rightarrow> nat \<Rightarrow> unit res" where
  "validate_scan value valid_items w = validate_scalar_valid_items value valid_items w"

definition warp_inclusive_scan ::
  "target \<Rightarrow> 'a dtype \<Rightarrow> 'a operator \<Rightarrow> int option \<Rightarrow> 'a lanes option \<Rightarrow> count option
     \<Rightarrow> 'a lanes tile \<Rightarrow> 'a lanes tile res" where
  "warp_inclusive_scan tg d op width init valid_items value =
     rbind (resolve_warp_width tg width) (\<lambda>w.
     rbind (validate_scan value valid_items w) (\<lambda>_.
       case value of
         Items items \<Rightarrow> rbind (array_scan tg d items op w init) (\<lambda>r. Inr (Items (fst r)))
       | Item v \<Rightarrow> rbind (scan_raw tg d v op w valid_items) (\<lambda>raw.
           Inr (Item (scan_inclusive d raw op w init valid_items)))))"

definition warp_exclusive_scan ::
  "target \<Rightarrow> 'a dtype \<Rightarrow> 'a operator \<Rightarrow> int option \<Rightarrow> 'a lanes option \<Rightarrow> count option
     \<Rightarrow> 'a lanes tile \<Rightarrow> 'a lanes tile res" where
  "warp_exclusive_scan tg d op width init valid_items value =
     rbind (resolve_warp_width tg width) (\<lambda>w.
     rbind (validate_scan value valid_items w) (\<lambda>_.
       case value of
         Items items \<Rightarrow> rbind (array_scan tg d items op w init) (\<lambda>r. Inr (Items (fst (snd r))))
       | Item v \<Rightarrow> rbind (scan_raw tg d v op w valid_items) (\<lambda>raw.
           rbind (scan_exclusive tg d raw op w init valid_items) (\<lambda>exclusive.
             Inr (Item (case valid_items of None \<Rightarrow> exclusive
                | Some n \<Rightarrow> select_value (\<lambda>l. int (l mod w) < count_value n) exclusive v))))))"

definition warp_scan_with_aggregate ::
  "target \<Rightarrow> 'a dtype \<Rightarrow> 'a operator \<Rightarrow> int option \<Rightarrow> 'a lanes option \<Rightarrow> count option
     \<Rightarrow> 'a lanes tile \<Rightarrow> ('a lanes tile \<times> 'a lanes tile \<times> 'a lanes) res" where
  "warp_scan_with_aggregate tg d op width init valid_items value =
     rbind (resolve_warp_width tg width) (\<lambda>w.
     rbind (validate_scan value valid_items w) (\<lambda>_.
       case value of
         Items items \<Rightarrow> rbind (array_scan tg d items op w init) (\<lambda>(inc, exc, agg).
           Inr (Items inc, Items exc, agg))
       | Item v \<Rightarrow>
          (if valid_items = None \<and> is_builtin op then
             let raw = hillis_steele tg d v op w; inclusive = seed d op init raw
             in rbind (shift_up tg d raw op w) (\<lambda>s.
                rbind (broadcast_last tg d raw w) (\<lambda>agg.
                  Inr (Item inclusive, Item (seed d op init s), agg)))
           else
             rbind (scan_raw tg d v op w valid_items) (\<lambda>raw.
             rbind (scan_aggregate tg d raw w valid_items) (\<lambda>agg.
             rbind (scan_exclusive tg d raw op w init valid_items) (\<lambda>exclusive.
               Inr (Item (scan_inclusive d raw op w init valid_items),
                    Item (case valid_items of None \<Rightarrow> exclusive
                      | Some n \<Rightarrow> select_value (\<lambda>l. int (l mod w) < count_value n) exclusive v),
                    agg)))))))"

definition warp_scan ::
  "target \<Rightarrow> 'a dtype \<Rightarrow> 'a operator \<Rightarrow> int option \<Rightarrow> 'a lanes option \<Rightarrow> count option
     \<Rightarrow> 'a lanes tile \<Rightarrow> ('a lanes tile \<times> 'a lanes tile) res" where
  "warp_scan tg d op width init valid_items value =
     rbind (warp_scan_with_aggregate tg d op width init valid_items value) (\<lambda>r.
       Inr (fst r, fst (snd r)))"

section \<open>The networks compute ordered prefixes\<close>

text \<open>The ordered fold of the logical group of lane \<open>l\<close>, up to and including \<open>l\<close>.\<close>

definition prefix_fold :: "('a \<Rightarrow> 'a \<Rightarrow> 'a) \<Rightarrow> 'a lanes \<Rightarrow> nat \<Rightarrow> 'a lanes" where
  "prefix_fold f v w l = seg f v (group_base w l) (l mod w)"

definition group_fold :: "('a \<Rightarrow> 'a \<Rightarrow> 'a) \<Rightarrow> 'a lanes \<Rightarrow> nat \<Rightarrow> 'a lanes" where
  "group_fold f v w l = seg f v (group_base w l) (w - 1)"

text \<open>One round of the network, restricted to the ranks below \<open>n\<close>.\<close>

definition scan_round :: "('a \<Rightarrow> 'a \<Rightarrow> 'a) \<Rightarrow> nat \<Rightarrow> (nat \<Rightarrow> bool) \<Rightarrow> nat \<Rightarrow> 'a lanes \<Rightarrow> 'a lanes" where
  "scan_round f w act k v = (\<lambda>l. if act (l mod w) \<and> 2 ^ k \<le> l mod w then f (v (l - 2 ^ k)) (v l) else v l)"

definition scan_inv :: "('a \<Rightarrow> 'a \<Rightarrow> 'a) \<Rightarrow> nat \<Rightarrow> (nat \<Rightarrow> bool) \<Rightarrow> 'a lanes \<Rightarrow> nat \<Rightarrow> 'a lanes \<Rightarrow> bool" where
  "scan_inv f w act v k u \<longleftrightarrow>
     (\<forall>l. u l = (if act (l mod w) then let m = min (2 ^ k - 1) (l mod w) in seg f v (l - m) m else v l))"

lemma scan_round_inv:
  assumes f: "assoc_op f" and w: "0 < w"
    and act: "\<And>i j. act i \<Longrightarrow> j \<le> i \<Longrightarrow> act j"
    and inv: "scan_inv f w act v k u"
  shows "scan_inv f w act v (Suc k) (scan_round f w act k u)"
  unfolding scan_inv_def
proof
  fix l
  let ?r = "l mod w" and ?o = "2 ^ k :: nat"
  have u: "u l = (if act (l mod w) then seg f v (l - min (2 ^ k - 1) (l mod w)) (min (2 ^ k - 1) (l mod w)) else v l)" for l
    using inv unfolding scan_inv_def by (simp add: Let_def)
  have rl: "?r \<le> l" by (rule mod_less_eq_dividend)
  have o: "0 < ?o" by simp
  show "scan_round f w act k u l = (if act ?r then let m = min (2 ^ Suc k - 1) ?r in seg f v (l - m) m else v l)"
  proof (cases "act ?r \<and> ?o \<le> ?r")
    case True
    then have r': "(l - ?o) mod w = ?r - ?o" using group_sub(2) [OF w] by blast
    have a': "act (?r - ?o)" using True act [of ?r "?r - ?o"] by simp
    let ?m = "min (?o - 1) (?r - ?o)"
    have rm: "min (?o - 1) ?r = ?o - 1"
      by (rule min_absorb1) (use True in linarith)
    have "scan_round f w act k u l = f (seg f v (l - ?o - ?m) ?m) (seg f v (l - (?o - 1)) (?o - 1))"
      using True a' rm unfolding scan_round_def u [of l] u [of "l - ?o"] r' by simp
    also have "\<dots> = seg f v (l - ?o - ?m) (?o + ?m)"
    proof (rule seg_join' [OF f])
      have "?m \<le> ?r - ?o" by simp
      then have "?o + ?m \<le> l" using True rl by linarith
      then show "l - (?o - 1) = l - ?o - ?m + ?m + 1" by (rule seg_split_start [OF o])
    qed (use o in simp)
    also have "?o + ?m = min (2 ^ Suc k - 1) ?r" using True o by (auto simp: min_def)
    also have "l - ?o - ?m = l - (?o + ?m)" by simp
    finally show ?thesis using True \<open>?o + ?m = min (2 ^ Suc k - 1) ?r\<close> by (simp add: Let_def)
  next
    case False
    then have "scan_round f w act k u l = u l" by (auto simp: scan_round_def)
    moreover have "min (?o - 1) ?r = ?r" "min (2 ^ Suc k - 1) ?r = ?r" if "act ?r"
      using False that by (intro min_absorb2; simp)+
    ultimately show ?thesis unfolding u Let_def by (cases "act ?r") simp_all
  qed
qed

lemma scan_inv_start: "scan_inv f w act v 0 v"
  by (simp add: scan_inv_def)

lemma scan_rounds_inv:
  assumes "assoc_op f" "0 < w" "\<And>i j. act i \<Longrightarrow> j \<le> i \<Longrightarrow> act j"
  shows "scan_inv f w act v k (fold (scan_round f w act) [0..<k] v)"
proof (induction k)
  case (Suc k)
  from scan_round_inv [OF assms Suc] show ?case by simp
qed (simp add: scan_inv_start)

lemma scan_inv_final:
  assumes "w = 2 ^ K" "scan_inv f w act v K u"
  shows "u l = (if act (l mod w) then prefix_fold f v w l else v l)"
proof -
  have "l mod w < w" using assms(1) by simp
  then have "l mod w \<le> w - 1" by simp
  then have m: "min (2 ^ K - 1) (l mod w) = l mod w" using assms(1) by simp
  have "l - l mod w = group_base w l"
    unfolding group_base_def by (rule minus_mod_eq_div_mult)
  then show ?thesis
    using assms(2) unfolding scan_inv_def prefix_fold_def Let_def by (simp only: m)
qed

lemma hillis_from_rounds:
  assumes "shuffle_law (lane_src tg)" "w = 2 ^ K" "k \<le> K"
  shows "hillis_from tg d op w k v = fold (scan_round (combine d op) w (\<lambda>_. True)) [k..<K] v"
  using assms(3)
proof (induction "K - k" arbitrary: k v)
  case 0
  then show ?case using assms(2) by (simp add: hillis_from.simps)
next
  case (Suc n)
  then have k: "k < K" by simp
  then have k': "2 ^ k < w" using assms(2) by simp
  have step: "select_value (\<lambda>l. 2 ^ k \<le> l mod w)
      (\<lambda>l. combine d op (shuffle_value tg d v (\<lambda>_. 2 ^ k) w Up l) (v l)) v
    = scan_round (combine d op) w (\<lambda>_. True) k v"
    using shuffle_value_up [OF assms(1), of w "2 ^ k" _ d v] assms(2)
    by (auto simp: select_value_def scan_round_def fun_eq_iff)
  have IH: "hillis_from tg d op w (Suc k) u = fold (scan_round (combine d op) w (\<lambda>_. True)) [Suc k..<K] u" for u
    using Suc.hyps(1) [of "Suc k" u] Suc.hyps(2) k by simp
  have "hillis_from tg d op w k v
      = hillis_from tg d op w (Suc k) (scan_round (combine d op) w (\<lambda>_. True) k v)"
    using k' by (subst hillis_from.simps) (simp add: shuffle_up_def Let_def step)
  then show ?case using k by (simp add: IH upt_conv_Cons)
qed

lemma hillis_steele_correct:
  assumes "shuffle_law (lane_src tg)" "assoc_op (combine d op)" "is_pow2 w"
  shows "hillis_steele tg d v op w = prefix_fold (combine d op) v w"
proof
  fix l
  obtain K where K: "w = 2 ^ K" using assms(3) by (auto simp: is_pow2_def)
  have "scan_inv (combine d op) w (\<lambda>_. True) v K (hillis_steele tg d v op w)"
    unfolding hillis_steele_def hillis_from_rounds [OF assms(1) K, of 0 d op v, simplified]
    using scan_rounds_inv [OF assms(2) is_pow2_pos [OF assms(3)], of "\<lambda>_. True"] by simp
  from scan_inv_final [OF K this] show "hillis_steele tg d v op w l = prefix_fold (combine d op) v w l"
    by simp
qed

lemma scan_valid_correct:
  assumes "shuffle_law (lane_src tg)" "assoc_op (combine d op)" "is_pow2 w"
  shows "scan_valid tg d v op w n
    = (\<lambda>l. if int (l mod w) < n then prefix_fold (combine d op) v w l else v l)"
proof
  fix l
  obtain K where K: "w = 2 ^ K" using assms(3) by (auto simp: is_pow2_def)
  let ?act = "\<lambda>r. int r < n"
  have step: "(\<lambda>l. if int (l mod w) < n \<and> l mod w \<ge> 2 ^ k
          then combine d op (shuffle_value tg d u (\<lambda>_. 2 ^ k) w Up l) (u l) else u l)
      = scan_round (combine d op) w ?act k u" for k u
    using shuffle_value_up [OF assms(1), of w "2 ^ k" _ d u] is_pow2_pos [OF assms(3)]
    by (auto simp: scan_round_def fun_eq_iff)
  have "scan_valid tg d v op w n = fold (scan_round (combine d op) w ?act) [0..<K] v"
    unfolding scan_valid_def Let_def step by (simp add: K)
  then have "scan_inv (combine d op) w ?act v K (scan_valid tg d v op w n)"
    using scan_rounds_inv [OF assms(2) is_pow2_pos [OF assms(3)], of ?act v K] by simp
  from scan_inv_final [OF K this]
  show "scan_valid tg d v op w n l = (if int (l mod w) < n then prefix_fold (combine d op) v w l else v l)" .
qed

lemma prefix_fold_last:
  assumes "0 < w"
  shows "prefix_fold f v w (group_base w l + (w - 1)) = group_fold f v w l"
proof -
  have "w - 1 < w" using assms by simp
  from group_member [OF this] show ?thesis by (simp add: prefix_fold_def group_fold_def)
qed

lemma broadcast_last_correct:
  assumes "shuffle_law (lane_src tg)" "is_pow2 w" "w \<le> warp_size tg"
  shows "broadcast_last tg d v w = Inr (\<lambda>l. v (group_base w l + (w - 1)))"
proof -
  have w: "0 < w" using assms(2) by (rule is_pow2_pos)
  have "shuffle_value tg d v (\<lambda>l. int (group_base w l) + (int w - 1)) w Idx l
      = v (group_base w l + (w - 1))" for l
    using shuffle_value_idx_base [OF assms(1), of "int w - 1" w d v l] w
    by (simp add: nat_diff_distrib)
  then have "shuffle_value tg d v (\<lambda>l. int (group_base w l) + (int w - 1)) w Idx
      = (\<lambda>l. v (group_base w l + (w - 1)))" by (rule ext)
  then show ?thesis
    using w resolve_warp_width_again [OF assms(2,3)]
    by (simp add: broadcast_last_def warp_broadcast_def guard_def Let_def)
qed

lemma shuffle_up_correct:
  assumes "shuffle_law (lane_src tg)" "0 < w" "n \<le> l mod w"
  shows "fst (shuffle_up tg d v n w) l = v (l - n)"
  using shuffle_value_up [OF assms, of d v] by (simp add: shuffle_up_def)

lemma shift_up_correct:
  assumes "shuffle_law (lane_src tg)" "0 < w"
  shows "shift_up tg d v (Builtin r) w
    = Inr (\<lambda>l. if l mod w = 0 then builtin_identity d r else v (l - 1))"
  using shuffle_value_up [OF assms, of 1 _ d v]
  by (auto simp: shift_up_def shuffle_up_def select_value_def fun_eq_iff)

section \<open>Item ranges\<close>

text \<open>The blocked view of a tile: lane \<open>l\<close> holds the elements \<open>l * n, \<dots>, l * n + n - 1\<close>.\<close>

definition blocked :: "'a lanes list \<Rightarrow> 'a lanes" where
  "blocked items j = (items ! (j mod length items)) (j div length items)"

lemma blocked_nth [simp]: "i < length items \<Longrightarrow> blocked items (l * length items + i) = (items ! i) l"
  by (simp add: blocked_def group_split)

lemma length_local_scan [simp]: "length (local_scan d op acc items) = Suc (length items)"
  by (induction items arbitrary: acc) simp_all

lemma local_scan_not_Nil [simp]: "local_scan d op acc items \<noteq> []"
  by (cases items) simp_all

lemma local_scan_nth:
  "i \<le> length items \<Longrightarrow>
     (local_scan d op acc items ! i) l = foldl (\<lambda>a x. combine d op a (x l)) (acc l) (take i items)"
proof (induction items arbitrary: acc i)
  case (Cons x xs)
  then show ?case by (cases i) simp_all
qed simp

lemma foldl_seg:
  "i \<le> length xs \<Longrightarrow> foldl (\<lambda>a x. f a (x l)) (y l) (take i xs) = seg f (\<lambda>j. ((y # xs) ! j) l) 0 i"
  by (induction i) (simp_all add: take_Suc_conv_app_nth)

lemma local_scan_seg:
  assumes "i < length (x # xs)"
  shows "(local_scan d op x xs ! i) l
    = seg (combine d op) (blocked (x # xs)) (l * length (x # xs)) i"
proof -
  have "(local_scan d op x xs ! i) l = seg (combine d op) (\<lambda>j. ((x # xs) ! j) l) 0 i"
    using assms by (simp add: local_scan_nth foldl_seg)
  also have "\<dots> = seg (combine d op) (\<lambda>j. blocked (x # xs) (l * length (x # xs) + j)) 0 i"
  proof (rule seg_cong)
    fix j assume "j \<le> 0 + i"
    then show "((x # xs) ! j) l = blocked (x # xs) (l * length (x # xs) + j)"
      using assms blocked_nth [of j "x # xs" l] by simp
  qed
  finally show ?thesis by (simp add: seg_map_shift)
qed

text \<open>The reference value of item \<open>i\<close> of lane \<open>l\<close>: the fold of the group's items up to it.\<close>

definition tile_prefix :: "('a \<Rightarrow> 'a \<Rightarrow> 'a) \<Rightarrow> 'a lanes list \<Rightarrow> nat \<Rightarrow> nat \<Rightarrow> 'a lanes" where
  "tile_prefix f items w i l =
     seg f (blocked items) (group_base w l * length items) ((l mod w) * length items + i)"

lemma last_local_prefix:
  assumes "assoc_op (combine d op)"
  shows "prefix_fold (combine d op) (last (local_scan d op x xs)) w l
    = tile_prefix (combine d op) (x # xs) w (length xs) l"
proof -
  let ?f = "combine d op" and ?n = "length (x # xs)"
  have l: "last (local_scan d op x xs) = (\<lambda>l. seg ?f (blocked (x # xs)) (l * ?n) (?n - 1))"
    using local_scan_seg [of "length xs" x xs d op] by (simp add: fun_eq_iff last_conv_nth)
  show ?thesis
    unfolding prefix_fold_def tile_prefix_def l
    using seg_blocks [OF assms, of ?n "blocked (x # xs)"] by simp
qed

lemma join_array_prefix_correct:
  assumes law: "shuffle_law (lane_src tg)" and f: "assoc_op (combine d op)" and w: "is_pow2 w"
    and i: "i < length (x # xs)"
  shows "join_array_prefix d op init w
      (fst (shuffle_up tg d (hillis_steele tg d (last (local_scan d op x xs)) op w) 1 w))
      (local_scan d op x xs ! i)
    = seed d op init (tile_prefix (combine d op) (x # xs) w i)"
proof -
  let ?f = "combine d op" and ?n = "length (x # xs)" and ?u = "blocked (x # xs)"
  have w0: "0 < w" using w by (rule is_pow2_pos)
  have "(if l mod w \<noteq> 0
         then ?f (fst (shuffle_up tg d (hillis_steele tg d (last (local_scan d op x xs)) op w) 1 w) l)
                 ((local_scan d op x xs ! i) l)
         else (local_scan d op x xs ! i) l) = tile_prefix ?f (x # xs) w i l" for l
  proof (cases "l mod w = 0")
    case True
    then have "group_base w l = l" using group_base_plus [of w l] by simp
    then show ?thesis using True local_scan_seg [OF i, of d op l] by (simp add: tile_prefix_def)
  next
    case False
    then have r: "1 \<le> l mod w" by simp
    have l1: "1 \<le> l" using r by (meson mod_less_eq_dividend order_trans)
    obtain m where m: "l mod w = Suc m" using False by (cases "l mod w") simp_all
    have "fst (shuffle_up tg d (hillis_steele tg d (last (local_scan d op x xs)) op w) 1 w) l
        = tile_prefix ?f (x # xs) w (length xs) (l - 1)"
      using shuffle_up_correct [OF law w0 r] hillis_steele_correct [OF law f w]
        last_local_prefix [OF f] by metis
    also have "\<dots> = seg ?f ?u (group_base w l * ?n) (m * ?n + length xs)"
      using group_base_sub [OF w0 r] group_sub(2) [OF w0 r] by (simp add: tile_prefix_def m)
    finally have a: "fst (shuffle_up tg d (hillis_steele tg d (last (local_scan d op x xs)) op w) 1 w) l
        = seg ?f ?u (group_base w l * ?n) (m * ?n + length xs)" .
    have "l = group_base w l + Suc m" by (metis group_base_plus m)
    then have "l * ?n = group_base w l * ?n + (m * ?n + length xs) + 1"
      by (metis add.assoc add_mult_distrib length_Cons mult_Suc Suc_eq_plus1 add.commute add_Suc_right)
    then have "?f (seg ?f ?u (group_base w l * ?n) (m * ?n + length xs)) (seg ?f ?u (l * ?n) i)
        = seg ?f ?u (group_base w l * ?n) (Suc m * ?n + i)"
      by (rule seg_join' [OF f]) simp
    then show ?thesis using False unfolding a local_scan_seg [OF i] tile_prefix_def m by simp
  qed
  then show ?thesis unfolding join_array_prefix_def by presburger
qed

lemma scan_exclusive_builtin:
  assumes "shuffle_law (lane_src tg)" "0 < w"
  shows "scan_exclusive tg d raw (Builtin r) w init None
    = Inr (seed d (Builtin r) init (\<lambda>l. if l mod w = 0 then builtin_identity d r else raw (l - 1)))"
  by (simp add: scan_exclusive_def shift_up_correct [OF assms])

lemma scan_exclusive_seeded:
  assumes "shuffle_law (lane_src tg)" "0 < w" "valid \<noteq> None \<or> \<not> is_builtin op"
  shows "scan_exclusive tg d raw op w (Some s) valid
    = Inr (\<lambda>l. if l mod w = 0 then s l
        else if int (l mod w) < (case valid of None \<Rightarrow> int w | Some v \<Rightarrow> count_value v)
             then combine d op (s l) (raw (l - 1))
             else shuffle_value tg d raw (\<lambda>_. 1) w Up l)"
proof -
  have "shuffle_value tg d raw (\<lambda>_. 1) w Up l = raw (l - 1)" if "l mod w \<noteq> 0" for l
    using shuffle_value_up [OF assms(1,2), of 1 l d raw] that by simp
  then show ?thesis
    using assms(3) by (auto simp: scan_exclusive_def shuffle_up_def seed_exclusive_def
        select_value_def seed_def fun_eq_iff)
qed

lemma scan_exclusive_total: "\<exists>e. scan_exclusive tg d raw op w init valid = Inr e"
proof (cases "valid = None \<and> is_builtin op")
  case True
  then obtain r where "op = Builtin r" by (cases op) simp_all
  with True show ?thesis by (simp add: scan_exclusive_def shift_up_def shuffle_up_def)
qed (auto simp: scan_exclusive_def shuffle_up_def split: option.splits)

lemma scan_raw_correct:
  assumes "shuffle_law (lane_src tg)" "assoc_op (combine d op)" "is_pow2 w"
    "validate_valid_items valid w = Inr ()"
  shows "scan_raw tg d v op w valid = Inr (case valid of None \<Rightarrow> prefix_fold (combine d op) v w
     | Some n \<Rightarrow> (\<lambda>l. if int (l mod w) < count_value n then prefix_fold (combine d op) v w l else v l))"
  using assms(4) hillis_steele_correct [OF assms(1-3), of v] scan_valid_correct [OF assms(1-3), of v]
  by (cases valid) (simp_all add: scan_raw_def)

lemma array_scan_correct:
  assumes law: "shuffle_law (lane_src tg)" and f: "assoc_op (combine d op)"
    and w: "is_pow2 w" "w \<le> warp_size tg" and items: "items \<noteq> []"
  shows "\<exists>exc. scan_exclusive tg d (tile_prefix (combine d op) items w (length items - 1)) op w init None = Inr exc \<and>
    array_scan tg d items op w init = Inr
      (map (\<lambda>i. seed d op init (tile_prefix (combine d op) items w i)) [0..<length items],
       exc # map (\<lambda>i. seed d op init (tile_prefix (combine d op) items w i)) [0..<length items - 1],
       \<lambda>l. seg (combine d op) (blocked items) (group_base w l * length items) (w * length items - 1))"
proof -
  obtain x xs where xs: "items = x # xs" using items by (cases items) auto
  let ?f = "combine d op"
  have w0: "0 < w" using w(1) by (rule is_pow2_pos)
  let ?raw = "hillis_steele tg d (last (local_scan d op x xs)) op w"
  have raw: "?raw = tile_prefix ?f items w (length items - 1)"
    using hillis_steele_correct [OF law f w(1)] last_local_prefix [OF f] by (simp add: xs fun_eq_iff)
  obtain exc where e: "scan_exclusive tg d ?raw op w init None = Inr exc"
    using scan_exclusive_total by blast
  have inc: "map (join_array_prefix d op init w (fst (shuffle_up tg d ?raw 1 w))) (local_scan d op x xs)
      = map (\<lambda>i. seed d op init (tile_prefix ?f items w i)) [0..<length items]"
    by (rule nth_equalityI)
      (simp_all add: xs join_array_prefix_correct [OF law f w(1)] del: upt_Suc One_nat_def)
  have total: "tile_prefix ?f items w (length items - 1) (group_base w l + (w - 1))
      = seg ?f (blocked items) (group_base w l * length items) (w * length items - 1)" for l
  proof -
    have "w - 1 < w" using w0 by simp
    from group_member [OF this, of l]
    have "tile_prefix ?f items w (length items - 1) (group_base w l + (w - 1))
      = seg ?f (blocked items) (group_base w l * length items) ((w - 1) * length items + (length items - 1))"
      by (simp add: tile_prefix_def)
    also have "(w - 1) * length items + (length items - 1) = w * length items - 1"
      using w0 items by (cases w) (simp_all add: xs)
    finally show ?thesis .
  qed
  have agg: "broadcast_last tg d ?raw w = Inr (\<lambda>l. seg ?f (blocked items) (group_base w l * length items) (w * length items - 1))"
    using broadcast_last_correct [OF law w, of d ?raw] unfolding raw total .
  have bl: "butlast (map (\<lambda>i. seed d op init (tile_prefix ?f items w i)) [0..<length items])
      = map (\<lambda>i. seed d op init (tile_prefix ?f items w i)) [0..<length items - 1]"
    by (simp add: xs map_butlast [symmetric])
  have "array_scan tg d items op w init = Inr
      (map (join_array_prefix d op init w (fst (shuffle_up tg d ?raw 1 w))) (local_scan d op x xs),
       exc # butlast (map (join_array_prefix d op init w (fst (shuffle_up tg d ?raw 1 w))) (local_scan d op x xs)),
       \<lambda>l. seg ?f (blocked items) (group_base w l * length items) (w * length items - 1))"
    using e agg by (simp add: array_scan_def xs Let_def split_def)
  from e [unfolded raw] this [unfolded inc bl] show ?thesis by blast
qed

text \<open>The four entry points on one item per lane with a built-in operator of an integer type.\<close>

lemma item_scans:
  assumes "shuffle_law (lane_src tg)" "is_pow2 (warp_size tg)" "int_type t"
    and w: "resolve_warp_width tg width = Inr w"
  shows "warp_inclusive_scan tg (num_dtype t) (Builtin r) width init None (Item v) = Inr
     (Item (seed (num_dtype t) (Builtin r) init (prefix_fold (num_combine t r) v w)))"
  "warp_exclusive_scan tg (num_dtype t) (Builtin r) width init None (Item v) = Inr
     (Item (seed (num_dtype t) (Builtin r) init
        (\<lambda>l. if l mod w = 0 then num_identity t r else prefix_fold (num_combine t r) v w (l - 1))))"
  "warp_scan_with_aggregate tg (num_dtype t) (Builtin r) width init None (Item v) = Inr
     (Item (seed (num_dtype t) (Builtin r) init (prefix_fold (num_combine t r) v w)),
      Item (seed (num_dtype t) (Builtin r) init
        (\<lambda>l. if l mod w = 0 then num_identity t r else prefix_fold (num_combine t r) v w (l - 1))),
      group_fold (num_combine t r) v w)"
proof -
  have p: "is_pow2 w" "w \<le> warp_size tg" "0 < w"
    using resolve_warp_width_pow2 [OF w assms(2)] is_pow2_pos by blast+
  have f: "assoc_op (combine (num_dtype t) (Builtin r))" using assoc_num_combine [OF assms(3)] by simp
  note h = hillis_steele_correct [OF assms(1) f p(1), simplified]
  have raw: "scan_raw tg (num_dtype t) v (Builtin r) w None = Inr (prefix_fold (num_combine t r) v w)"
    using scan_raw_correct [OF assms(1) f p(1), of None v] by simp
  show "warp_inclusive_scan tg (num_dtype t) (Builtin r) width init None (Item v) = Inr
     (Item (seed (num_dtype t) (Builtin r) init (prefix_fold (num_combine t r) v w)))"
    using w by (simp add: warp_inclusive_scan_def validate_scan_def scan_inclusive_def raw seed_def)
  show "warp_exclusive_scan tg (num_dtype t) (Builtin r) width init None (Item v) = Inr
     (Item (seed (num_dtype t) (Builtin r) init
        (\<lambda>l. if l mod w = 0 then num_identity t r else prefix_fold (num_combine t r) v w (l - 1))))"
    using w by (simp add: warp_exclusive_scan_def validate_scan_def raw scan_exclusive_builtin [OF assms(1) p(3)]
        cong: if_cong)
  show "warp_scan_with_aggregate tg (num_dtype t) (Builtin r) width init None (Item v) = Inr
     (Item (seed (num_dtype t) (Builtin r) init (prefix_fold (num_combine t r) v w)),
      Item (seed (num_dtype t) (Builtin r) init
        (\<lambda>l. if l mod w = 0 then num_identity t r else prefix_fold (num_combine t r) v w (l - 1))),
      group_fold (num_combine t r) v w)"
    using w by (simp add: warp_scan_with_aggregate_def validate_scan_def h shift_up_correct [OF assms(1) p(3)]
        broadcast_last_correct [OF assms(1) p(1,2)] prefix_fold_last [OF p(3)] Let_def
        del: One_nat_def cong: if_cong)
qed

section \<open>Properties\<close>

text \<open>
  C15: \<open>warp_inclusive_scan\<close> of one item per lane: for every associative operator, every legal
  width and every seed, each lane receives the ordered fold of its logical group up to itself.
\<close>

theorem warp_inclusive_scan_correct:
  assumes "shuffle_law (lane_src tg)" "is_pow2 (warp_size tg)" "assoc_op (combine d op)"
    and "resolve_warp_width tg width = Inr w"
  shows "warp_inclusive_scan tg d op width init None (Item v)
    = Inr (Item (seed d op init (prefix_fold (combine d op) v w)))"
  using assms scan_raw_correct [OF assms(1,3) resolve_warp_width_pow2(1) [OF assms(4,2)], of None v]
  by (simp add: warp_inclusive_scan_def validate_scan_def scan_inclusive_def seed_def)

definition demo_target :: target where
  "demo_target = \<lparr>lane_src = gpu_shuffle, warp_size = 8\<rparr>"

definition int32 :: num_type where
  "int32 = \<lparr>nt_width = 32, nt_signed = True\<rparr>"

lemma demo_target [simp]:
  "lane_src demo_target = gpu_shuffle" "warp_size demo_target = 8" "shuffle_law gpu_shuffle" "is_pow2 8"
  using is_pow2_power [of 3] by (simp_all add: demo_target_def gpu_shuffle_law)

lemma int32_assoc [simp]: "assoc_op (num_combine int32 r)"
  by (rule assoc_num_combine) (simp add: int_type_def int32_def)

lemma demo_width [simp]: "resolve_warp_width demo_target (Some 4) = Inr 4"
  by (simp add: resolve_warp_width_def require_power_of_two_def)

theorem warp_inclusive_scan_correct_witness:
  "warp_inclusive_scan demo_target (num_dtype int32) (Builtin ADD) (Some 4) (Some (\<lambda>_. 100)) None (Item int)
     = Inr (Item (seed (num_dtype int32) (Builtin ADD) (Some (\<lambda>_. 100)) (prefix_fold (num_combine int32 ADD) int 4)))
   \<and> seed (num_dtype int32) (Builtin ADD) (Some (\<lambda>_. 100)) (prefix_fold (num_combine int32 ADD) int 4) 6 = 115"
proof -
  have "seed (num_dtype int32) (Builtin ADD) (Some (\<lambda>_. 100)) (prefix_fold (num_combine int32 ADD) int 4) 6 = 115"
    by code_simp
  then show ?thesis
    using warp_inclusive_scan_correct [of demo_target "num_dtype int32" "Builtin ADD" "Some 4" 4 "Some (\<lambda>_. 100)" int]
    by simp
qed

text \<open>
  The guarded scans: with a valid prefix of \<open>n\<close> items the operator only ever sees valid
  items. Inclusive: a valid lane gets its seeded prefix, an invalid lane keeps its input.
  Exclusive with a seed: rank zero gets the seed itself, a valid lane the seeded fold of the
  ranks before it, an invalid lane its input.
\<close>

theorem warp_scan_valid_prefix:
  assumes "shuffle_law (lane_src tg)" "is_pow2 (warp_size tg)" "assoc_op (combine d op)"
    and w: "resolve_warp_width tg width = Inr w"
    and n: "validate_valid_items (Some n) w = Inr ()" "0 < count_value n"
  shows "warp_inclusive_scan tg d op width init (Some n) (Item v) = Inr (Item
       (\<lambda>l. if int (l mod w) < count_value n then seed d op init (prefix_fold (combine d op) v w) l else v l))
    \<and> warp_exclusive_scan tg d op width (Some s) (Some n) (Item v) = Inr (Item
       (\<lambda>l. if int (l mod w) < count_value n
            then if l mod w = 0 then s l else combine d op (s l) (prefix_fold (combine d op) v w (l - 1))
            else v l))"
proof -
  have p: "is_pow2 w" "0 < w" using resolve_warp_width_pow2(1) [OF w assms(2)] is_pow2_pos by blast+
  let ?raw = "\<lambda>l. if int (l mod w) < count_value n then prefix_fold (combine d op) v w l else v l"
  have raw: "scan_raw tg d v op w (Some n) = Inr ?raw"
    using scan_raw_correct [OF assms(1,3) p(1) n(1)] by simp
  have inc: "scan_inclusive d ?raw op w init (Some n)
      = (\<lambda>l. if int (l mod w) < count_value n then seed d op init (prefix_fold (combine d op) v w) l else v l)"
    by (auto simp: scan_inclusive_def seed_valid_def seed_def fun_eq_iff split: option.splits)
  have below: "?raw (l - 1) = prefix_fold (combine d op) v w (l - 1)"
    if "l mod w \<noteq> 0" "int (l mod w) < count_value n" for l
    using group_sub(2) [OF p(2), of 1 l] that by simp
  obtain e where e: "scan_exclusive tg d ?raw op w (Some s) (Some n) = Inr e"
    and el: "\<And>l. l mod w = 0 \<Longrightarrow> e l = s l"
      "\<And>l. l mod w \<noteq> 0 \<Longrightarrow> int (l mod w) < count_value n \<Longrightarrow> e l = combine d op (s l) (?raw (l - 1))"
    using scan_exclusive_seeded [OF assms(1) p(2), of "Some n" op d ?raw s] by simp
  have exc: "select_value (\<lambda>l. int (l mod w) < count_value n) e v
      = (\<lambda>l. if int (l mod w) < count_value n
            then if l mod w = 0 then s l else combine d op (s l) (prefix_fold (combine d op) v w (l - 1))
            else v l)"
  proof
    fix l
    have "e l = combine d op (s l) (prefix_fold (combine d op) v w (l - 1))"
      if "l mod w \<noteq> 0" "int (l mod w) < count_value n"
      using el(2) [OF that] unfolding below [OF that] .
    then show "select_value (\<lambda>l. int (l mod w) < count_value n) e v l
      = (if int (l mod w) < count_value n
            then if l mod w = 0 then s l else combine d op (s l) (prefix_fold (combine d op) v w (l - 1))
            else v l)"
      using el(1) [of l] unfolding select_value_def by argo
  qed
  have inc': "warp_inclusive_scan tg d op width init (Some n) (Item v)
      = Inr (Item (scan_inclusive d ?raw op w init (Some n)))"
    using w n(1) raw by (simp add: warp_inclusive_scan_def validate_scan_def)
  have exc': "warp_exclusive_scan tg d op width (Some s) (Some n) (Item v)
      = Inr (Item (select_value (\<lambda>l. int (l mod w) < count_value n) e v))"
    using w n(1) raw e by (simp add: warp_exclusive_scan_def validate_scan_def)
  show ?thesis unfolding inc' exc' inc exc by blast
qed

theorem warp_scan_valid_prefix_witness:
  "validate_valid_items (Some (Static 3)) 4 = Inr () \<and>
   warp_inclusive_scan demo_target (num_dtype int32) (Builtin ADD) (Some 4) None (Some (Static 3)) (Item int)
     = Inr (Item (\<lambda>l. if int (l mod 4) < 3
         then prefix_fold (num_combine int32 ADD) int 4 l else int l))"
  using warp_scan_valid_prefix [of demo_target "num_dtype int32" "Builtin ADD" "Some 4" 4 "Static 3" None int "\<lambda>_. 0"]
  by (simp add: seed_def cong: if_cong)

text \<open>
  Scans of item ranges: item \<open>i\<close> of a lane receives the seeded ordered fold of all items of its
  group in blocked order up to that item, and the aggregate is the fold of the whole group.
\<close>

theorem warp_array_scan_correct:
  assumes "shuffle_law (lane_src tg)" "is_pow2 (warp_size tg)" "assoc_op (combine d op)"
    and w: "resolve_warp_width tg width = Inr w" and items: "items \<noteq> []"
  shows "warp_inclusive_scan tg d op width init None (Items items)
      = Inr (Items (map (\<lambda>i. seed d op init (tile_prefix (combine d op) items w i)) [0..<length items]))
    \<and> (\<exists>inc exc. warp_scan_with_aggregate tg d op width init None (Items items) = Inr (Items inc, Items exc,
        \<lambda>l. seg (combine d op) (blocked items) (group_base w l * length items) (w * length items - 1))
      \<and> tl exc = butlast inc)"
proof -
  have p: "is_pow2 w" "w \<le> warp_size tg" using resolve_warp_width_pow2 [OF w assms(2)] by blast+
  obtain exc where e: "array_scan tg d items op w init = Inr
      (map (\<lambda>i. seed d op init (tile_prefix (combine d op) items w i)) [0..<length items],
       exc # map (\<lambda>i. seed d op init (tile_prefix (combine d op) items w i)) [0..<length items - 1],
       \<lambda>l. seg (combine d op) (blocked items) (group_base w l * length items) (w * length items - 1))"
    using array_scan_correct [OF assms(1,3) p items, of init] by blast
  show ?thesis
    using e w by (simp add: warp_inclusive_scan_def warp_scan_with_aggregate_def validate_scan_def
        map_butlast [symmetric])
qed

theorem warp_array_scan_correct_witness:
  "warp_inclusive_scan demo_target (num_dtype int32) (Builtin ADD) (Some 4) None None (Items [int, \<lambda>l. 2])
     = Inr (Items (map (\<lambda>i. seed (num_dtype int32) (Builtin ADD) None (tile_prefix (num_combine int32 ADD) [int, \<lambda>l. 2] 4 i)) [0..<2]))"
  using warp_array_scan_correct [of demo_target "num_dtype int32" "Builtin ADD" "Some 4" 4 "[int, \<lambda>l. 2]" None]
  by (simp add: numeral_2_eq_2)

text \<open>
  \<open>warp_scan_with_aggregate\<close> with a built-in operator on an integer type: the inclusive scan,
  the exclusive scan (the identity before the first lane, then the inclusive value of the lane
  below, both seeded) and the group total in every lane, in one call.
\<close>

theorem warp_scan_with_aggregate_builtin:
  assumes "shuffle_law (lane_src tg)" "is_pow2 (warp_size tg)" "int_type t"
    and w: "resolve_warp_width tg width = Inr w"
  shows "warp_scan_with_aggregate tg (num_dtype t) (Builtin r) width init None (Item v) = Inr
     (Item (seed (num_dtype t) (Builtin r) init (prefix_fold (num_combine t r) v w)),
      Item (seed (num_dtype t) (Builtin r) init
        (\<lambda>l. if l mod w = 0 then num_identity t r else prefix_fold (num_combine t r) v w (l - 1))),
      group_fold (num_combine t r) v w)"
  by (rule item_scans(3) [OF assms])

theorem warp_scan_with_aggregate_builtin_witness:
  "warp_scan_with_aggregate demo_target (num_dtype int32) (Builtin MAX_OP) (Some 4) None None (Item int) = Inr
     (Item (prefix_fold (num_combine int32 MAX_OP) int 4),
      Item (\<lambda>l. if l mod 4 = 0 then num_identity int32 MAX_OP else prefix_fold (num_combine int32 MAX_OP) int 4 (l - 1)),
      group_fold (num_combine int32 MAX_OP) int 4)
   \<and> num_identity int32 MAX_OP = - 2147483648"
  using warp_scan_with_aggregate_builtin [of demo_target int32 "Some 4" 4 MAX_OP None int]
  by (simp add: seed_def int_type_def int32_def num_identity_def representable_extreme_def nt_wrap_def
      Let_def signed_take_bit_int_eq_self)

end
