(* ===== verification/Block_Scan.thy ===== *)
theory Block_Scan
  imports Coop_Shared Coop_Spec Warp_Scan
begin

text \<open>
  The block-wide scans (\<open>coop/block/scan.py\<close>): three ways to give every thread the ordered fold
  of the threads before it (scans of the warps joined through shared memory, and raking with and
  without memoized segments), and the entry points that add items, seeds, identities, valid
  counts and prefix callbacks.

  Lanes are numbered by the linear thread id of the block, so that a warp of \<open>w\<close> lanes is an
  aligned group of \<open>w\<close> thread ids. The warp operations are arguments, as in the source
  (\<open>cls.warp_ops\<close>): they are specified by the locale \<open>warp_scan_ops\<close>.
\<close>

section \<open>Definitions\<close>

type_synonym 'a inclusive_op = "'a operator \<Rightarrow> nat \<Rightarrow> 'a lanes \<Rightarrow> 'a lanes res"
type_synonym 'a aggregate_op = "'a operator \<Rightarrow> nat \<Rightarrow> 'a lanes \<Rightarrow> ('a lanes \<times> 'a lanes \<times> 'a lanes) res"

subsection \<open>Scans of the warps\<close>

definition block_aggregate :: "'a dtype \<Rightarrow> 'a operator \<Rightarrow> nat \<Rightarrow> 'a shared \<Rightarrow> 'a" where
  "block_aggregate d op nw slots =
     fold (\<lambda>i aggregate. combine d op aggregate (shared_load slots i)) [1..<nw] (shared_load slots 0)"

definition prefix_warp_scans_full ::
  "'a dtype \<Rightarrow> 'a aggregate_op \<Rightarrow> 'a operator \<Rightarrow> nat \<Rightarrow> nat \<Rightarrow> 'a shared \<Rightarrow> 'a lanes \<Rightarrow> ('a lanes \<times> 'a lanes) res" where
  "prefix_warp_scans_full d scan op w nw slots partial =
     rbind (scan op w partial) (\<lambda>(inclusive, prefix, aggregate).
       if nw > 1 then
         let slots = barrier_phase (w * nw) (store_if (\<lambda>t. t mod w = w - 1) (\<lambda>t. t div w) inclusive) slots;
             prefix = fold (\<lambda>i prefix. select_value (\<lambda>t. t div w > i)
                 (\<lambda>t. combine d op (shared_load slots i) (prefix t)) prefix) (rev [0..<nw - 1]) prefix
         in Inr (prefix, \<lambda>_. block_aggregate d op nw slots)
       else Inr (prefix, aggregate))"

definition prefix_warp_scans ::
  "target \<Rightarrow> 'a dtype \<Rightarrow> 'a inclusive_op \<Rightarrow> 'a operator \<Rightarrow> nat \<Rightarrow> nat \<Rightarrow> 'a shared \<Rightarrow> 'a lanes
     \<Rightarrow> ('a lanes \<times> 'a lanes) res" where
  "prefix_warp_scans tg d scan op w threads slots partial =
     (let nw = (threads + w - 1) div w in
      rbind (scan op w partial) (\<lambda>raw.
        let prefix = shuffle_value tg d raw (\<lambda>_. 1) w Up;
            last = (\<lambda>t. if threads mod w \<noteq> 0 \<and> t div w = nw - 1 then threads mod w - 1 else w - 1);
            aggregate = shuffle_value tg d raw (\<lambda>t. int (group_base w t) + int (last t)) w Idx
        in if nw > 1 then
             let slots = barrier_phase threads (store_if (\<lambda>t. t mod w = 0) (\<lambda>t. t div w) aggregate) slots;
                 prefix = fold (\<lambda>i prefix.
                     let joined = (\<lambda>t. combine d op (shared_load slots i) (prefix t));
                         joined = select_value (\<lambda>t. t mod w = 0 \<and> t div w = i + 1)
                           (\<lambda>_. shared_load slots i) joined
                     in select_value (\<lambda>t. t div w > i) joined prefix) (rev [0..<nw - 1]) prefix
             in Inr (prefix, \<lambda>_. block_aggregate d op nw slots)
           else Inr (prefix, aggregate)))"

subsection \<open>Raking\<close>

record 'a scan_storage =
  ss_slots :: "'a shared"
  ss_output :: "'a shared"
  ss_aggregate :: "'a shared"
  ss_callback :: "'a shared"

definition safe_index :: "nat \<Rightarrow> nat \<Rightarrow> nat" where
  "safe_index threads index = (if index < threads then index else threads - 1)"

definition segment_prefixes :: "'a dtype \<Rightarrow> 'a operator \<Rightarrow> 'a shared \<Rightarrow> nat \<Rightarrow> nat \<Rightarrow> nat \<Rightarrow> 'a list" where
  "segment_prefixes d op slots base segment threads =
     snd (fold (\<lambda>i (running, values).
       let item = shared_load slots (safe_index threads (base + i));
           running = (case running of None \<Rightarrow> item
             | Some r \<Rightarrow> if base + i < threads then combine d op r item else r)
       in (Some running, values @ [running])) [0..<segment] (None, []))"

definition segment_total :: "'a dtype \<Rightarrow> 'a operator \<Rightarrow> 'a shared \<Rightarrow> nat \<Rightarrow> nat \<Rightarrow> nat \<Rightarrow> 'a" where
  "segment_total d op slots base segment threads =
     fold (\<lambda>i total. if base + i < threads
         then combine d op total (shared_load slots (safe_index threads (base + i))) else total)
       [1..<segment] (shared_load slots (safe_index threads base))"

text \<open>The stores of one raking thread; \<open>join\<close> puts the preceding segments in front.\<close>

definition memoized_writes :: "nat \<Rightarrow> nat \<Rightarrow> nat \<Rightarrow> ('a \<Rightarrow> 'a) \<Rightarrow> 'a list \<Rightarrow> (nat \<times> 'a) list" where
  "memoized_writes threads base segment join saved =
     map (\<lambda>i. (base + i, join (saved ! i))) (filter (\<lambda>i. base + i < threads) [0..<segment])"

definition rescan_writes ::
  "'a dtype \<Rightarrow> 'a operator \<Rightarrow> 'a shared \<Rightarrow> nat \<Rightarrow> nat \<Rightarrow> nat \<Rightarrow> ('a \<Rightarrow> 'a) \<Rightarrow> (nat \<times> 'a) list" where
  "rescan_writes d op slots threads base segment join =
     snd (fold (\<lambda>i (running, writes).
       if base + i < threads
       then let running = (if i > 0 then combine d op running (shared_load slots (base + i)) else running)
            in (running, writes @ [(base + i, join running)])
       else (running, writes)) [0..<segment] (shared_load slots (safe_index threads base), []))"

definition prefix_raking ::
  "target \<Rightarrow> 'a dtype \<Rightarrow> 'a inclusive_op \<Rightarrow> 'a operator \<Rightarrow> nat \<Rightarrow> nat \<Rightarrow> bool \<Rightarrow> 'a scan_storage \<Rightarrow> 'a lanes
     \<Rightarrow> ('a lanes \<times> 'a lanes) res" where
  "prefix_raking tg d scan op w threads memoize st partial =
     (let segment = (threads + w - 1) div w;
          segments = (threads + segment - 1) div segment;
          slots = barrier_phase threads (store_if (\<lambda>_. True) (\<lambda>t. t) partial) (ss_slots st);
          saved = (\<lambda>t. segment_prefixes d op slots (t * segment) segment threads);
          total = (if memoize then (\<lambda>t. saved t ! (segment - 1))
            else (\<lambda>t. segment_total d op slots (t * segment) segment threads))
      in rbind (scan op w total) (\<lambda>scanned.
        let preceding = shuffle_value tg d scanned (\<lambda>_. 1) w Up;
            aggregate = shuffle_value tg d scanned (\<lambda>_. int segments - 1) w Idx;
            join = (\<lambda>t local. if t > 0 then combine d op (preceding t) local else local);
            aggregates = barrier_phase threads (store_if (\<lambda>t. t = 0) (\<lambda>_. 0) aggregate) (ss_aggregate st);
            output = barrier_phase threads (\<lambda>t. if t < w
                then (if memoize then memoized_writes threads (t * segment) segment (join t) (saved t)
                      else rescan_writes d op slots threads (t * segment) segment (join t))
                else []) (ss_output st)
        in Inr (\<lambda>t. shared_load output (if t > 0 then t - 1 else 0), \<lambda>_. shared_load aggregates 0)))"

subsection \<open>Callbacks and entry points\<close>

text \<open>Every callback thread computes a prefix; the one of thread zero is broadcast.\<close>

definition callback_prefix :: "nat \<Rightarrow> 'a shared \<Rightarrow> ('a lanes \<Rightarrow> 'a lanes) \<Rightarrow> 'a lanes \<Rightarrow> 'a lanes" where
  "callback_prefix threads callback_slots callback aggregate =
     (let slots = barrier_phase threads (store_if (\<lambda>t. t = 0) (\<lambda>_. 0) (callback aggregate)) callback_slots
      in (\<lambda>_. shared_load slots 0))"

datatype scan_algorithm = RAKING | RAKING_MEMOIZE | WARP_SCANS

record 'a warp_ops =
  op_inclusive :: "'a inclusive_op"
  op_aggregate :: "'a aggregate_op"

text \<open>The specialized class: its geometry and the warp operations it dispatches to.\<close>

record 'a block_scan_class =
  sc_target :: target
  sc_dtype :: "'a dtype"
  sc_algorithm :: scan_algorithm
  sc_width :: nat
  sc_warps :: nat
  sc_ops :: "'a warp_ops"

definition sc_threads :: "('a, 'b) block_scan_class_scheme \<Rightarrow> nat" where
  "sc_threads c = sc_width c * sc_warps c"

definition block_prefix ::
  "'a block_scan_class \<Rightarrow> 'a operator \<Rightarrow> 'a scan_storage \<Rightarrow> 'a lanes \<Rightarrow> ('a lanes \<times> 'a lanes) res" where
  "block_prefix c op st partial =
     (if sc_algorithm c = WARP_SCANS
      then prefix_warp_scans (sc_target c) (sc_dtype c) (op_inclusive (sc_ops c)) op (sc_width c) (sc_threads c)
             (ss_slots st) partial
      else prefix_raking (sc_target c) (sc_dtype c) (op_inclusive (sc_ops c)) op (sc_width c) (sc_threads c)
             (sc_algorithm c = RAKING_MEMOIZE) st partial)"

text \<open>The path of a built-in operator without options (lines 609 to 627), and the general one.\<close>

definition block_scan_full ::
  "'a block_scan_class \<Rightarrow> 'a operator \<Rightarrow> 'a scan_storage \<Rightarrow> bool \<Rightarrow> 'a lanes option \<Rightarrow> 'a lanes tile
     \<Rightarrow> 'a lanes list \<Rightarrow> ('a lanes tile \<times> 'a lanes) res" where
  "block_scan_full c op st inclusive init tile items =
     (let d = sc_dtype c; scanned = local_scan d op (hd items) (tl items) in
      rbind (prefix_warp_scans_full d (op_aggregate (sc_ops c)) op (sc_width c) (sc_warps c) (ss_slots st) (last scanned))
        (\<lambda>(prefix, aggregate).
          let prefix = seed d op init prefix;
              heads = (if inclusive then scanned else butlast scanned);
              output = map (\<lambda>head t. combine d op (prefix t) (head t)) heads;
              output = (if inclusive then output else prefix # output)
          in Inr (pack_tile tile output, aggregate)))"

definition block_scan_general ::
  "'a block_scan_class \<Rightarrow> 'a operator \<Rightarrow> 'a scan_storage \<Rightarrow> bool \<Rightarrow> 'a lanes option \<Rightarrow> 'a option
     \<Rightarrow> ('a lanes \<Rightarrow> 'a lanes) option \<Rightarrow> 'a lanes tile \<Rightarrow> 'a lanes list \<Rightarrow> ('a lanes tile \<times> 'a lanes) res" where
  "block_scan_general c op st inclusive init neutral callback tile items =
     (let d = sc_dtype c; scanned = local_scan d op (hd items) (tl items) in
      rbind (block_prefix c op st (last scanned)) (\<lambda>(prefix, aggregate).
        let init = (case callback of None \<Rightarrow> init
              | Some cb \<Rightarrow> Some (callback_prefix (sc_threads c)
                  (if sc_algorithm c = WARP_SCANS then ss_slots st else ss_callback st) cb aggregate));
            prefix = (case init of
                Some s \<Rightarrow> select_value (\<lambda>t. t > 0) (\<lambda>t. combine d op (s t) (prefix t)) s
              | None \<Rightarrow> (case neutral of
                  Some e \<Rightarrow> select_value (\<lambda>t. t > 0) prefix (\<lambda>_. e)
                | None \<Rightarrow> prefix));
            heads = (if inclusive then scanned else butlast scanned);
            output = map (\<lambda>head. if init = None \<and> neutral = None
              then select_value (\<lambda>t. t > 0) (\<lambda>t. combine d op (prefix t) (head t)) head
              else (\<lambda>t. combine d op (prefix t) (head t))) heads;
            output = (if inclusive then output else prefix # output)
        in Inr (pack_tile tile output, aggregate)))"

definition block_scan ::
  "'a block_scan_class \<Rightarrow> 'a operator \<Rightarrow> 'a scan_storage \<Rightarrow> bool \<Rightarrow> 'a lanes option \<Rightarrow> 'a option
     \<Rightarrow> count option \<Rightarrow> ('a lanes \<Rightarrow> 'a lanes) option \<Rightarrow> 'a lanes tile \<Rightarrow> ('a lanes tile \<times> 'a lanes) res" where
  "block_scan c op st inclusive init explicit valid_items callback tile =
     (let d = sc_dtype c in
      rbind (guard ValueError (\<not> (callback \<noteq> None \<and> init \<noteq> None))) (\<lambda>_.
      rbind (validate_scalar_valid_items tile valid_items (sc_threads c)) (\<lambda>_.
      rbind (tile_list tile) (\<lambda>items.
      if sc_algorithm c = WARP_SCANS \<and> is_builtin op \<and> valid_items = None \<and> explicit = None \<and> callback = None
      then block_scan_full c op st inclusive init tile items
      else case valid_items of
          None \<Rightarrow> block_scan_general c op st inclusive init (optional_identity d op explicit) callback tile items
        | Some n \<Rightarrow> rbind (identity d op explicit) (\<lambda>e.
            block_scan_general c op st inclusive init (Some e) callback tile
              [select_value (\<lambda>t. int t < count_value n) (hd items) (\<lambda>_. e)])))))"

definition block_inclusive ::
  "'a block_scan_class \<Rightarrow> 'a operator \<Rightarrow> 'a scan_storage \<Rightarrow> 'a lanes option \<Rightarrow> 'a option \<Rightarrow> count option
     \<Rightarrow> ('a lanes \<Rightarrow> 'a lanes) option \<Rightarrow> 'a lanes tile \<Rightarrow> 'a lanes tile res" where
  "block_inclusive c op st init explicit valid_items callback tile =
     rbind (block_scan c op st True init explicit valid_items callback tile) (\<lambda>r. Inr (fst r))"

definition block_exclusive ::
  "'a block_scan_class \<Rightarrow> 'a operator \<Rightarrow> 'a scan_storage \<Rightarrow> 'a lanes option \<Rightarrow> 'a option \<Rightarrow> count option
     \<Rightarrow> ('a lanes \<Rightarrow> 'a lanes) option \<Rightarrow> 'a lanes tile \<Rightarrow> 'a lanes tile res" where
  "block_exclusive c op st init explicit valid_items callback tile =
     rbind (block_scan c op st False init explicit valid_items callback tile) (\<lambda>r. Inr (fst r))"

definition block_inclusive_with_aggregate ::
  "'a block_scan_class \<Rightarrow> 'a operator \<Rightarrow> 'a scan_storage \<Rightarrow> 'a lanes option \<Rightarrow> 'a option \<Rightarrow> count option
     \<Rightarrow> ('a lanes \<Rightarrow> 'a lanes) option \<Rightarrow> 'a lanes tile \<Rightarrow> ('a lanes tile \<times> 'a lanes) res" where
  "block_inclusive_with_aggregate c op st init explicit valid_items callback tile =
     block_scan c op st True init explicit valid_items callback tile"

definition block_exclusive_with_aggregate ::
  "'a block_scan_class \<Rightarrow> 'a operator \<Rightarrow> 'a scan_storage \<Rightarrow> 'a lanes option \<Rightarrow> 'a option \<Rightarrow> count option
     \<Rightarrow> ('a lanes \<Rightarrow> 'a lanes) option \<Rightarrow> 'a lanes tile \<Rightarrow> ('a lanes tile \<times> 'a lanes) res" where
  "block_exclusive_with_aggregate c op st init explicit valid_items callback tile =
     block_scan c op st False init explicit valid_items callback tile"

section \<open>The fold of the warps' slots\<close>

lemma combine_fun [simp]:
  "combine d (Builtin r) = builtin_combine d r" "combine d (Callable f e c) = f"
  by (simp_all add: fun_eq_iff)

lemma fold_slots: "fold (\<lambda>i a. f a (slots i)) [Suc b..<Suc (b + n)] (slots b) = seg f slots b n"
  by (induction n) simp_all

lemma block_aggregate_seg:
  "0 < nw \<Longrightarrow> block_aggregate d op nw slots = seg (combine d op) slots 0 (nw - 1)"
  using fold_slots [of "combine d op" slots 0 "nw - 1"] by (simp add: block_aggregate_def shared_load_def)

text \<open>
  Walking the slots from the highest down and putting each in front of the threads of later
  warps leaves, at slot \<open>j\<close>, the ordered fold of slots \<open>j\<close> to the one before the thread's warp.
\<close>

definition before_join :: "('a \<Rightarrow> 'a \<Rightarrow> 'a) \<Rightarrow> 'a shared \<Rightarrow> nat \<Rightarrow> nat \<Rightarrow> 'a \<Rightarrow> 'a" where
  "before_join f slots j q p = (if q \<le> j then p else f (seg f slots j (q - Suc j)) p)"

lemma before_join_step:
  assumes "assoc_op f"
  shows "(if q > j then f (slots j) (before_join f slots (Suc j) q p) else before_join f slots (Suc j) q p)
    = before_join f slots j q p"
proof -
  consider "q \<le> j" | "q = Suc j" | m where "q = Suc (Suc (j + m))"
    by (metis less_eq_Suc_le less_imp_Suc_add not_less not_less_eq_eq le_antisym)
  then show ?thesis
  proof cases
    case 3
    have "seg f slots j (Suc m) = f (slots j) (seg f slots (Suc j) m)" by (rule seg_first [OF assms])
    then show ?thesis using assoc_opD [OF assms] by (simp add: before_join_def 3 del: seg.simps)
  qed (simp_all add: before_join_def)
qed

lemma warp_slots_join:
  assumes f: "assoc_op f" and rnd: "\<And>i p. round i p t = (if q > i then f (slots i) (p t) else p t)"
    and q: "q \<le> n"
  shows "fold round (rev [0..<n]) p t = before_join f slots 0 q (p t)"
proof -
  have "fold round (rev [j..<n]) p t = before_join f slots j q (p t)" if "j \<le> n" for j
    using that
  proof (induction "n - j" arbitrary: j)
    case 0
    then show ?case using q by (simp add: before_join_def)
  next
    case (Suc m)
    then have "[j..<n] = j # [Suc j..<n]" by (simp add: upt_conv_Cons)
    moreover have "fold round (rev [Suc j..<n]) p t = before_join f slots (Suc j) q (p t)"
      using Suc by simp
    ultimately show ?case
      using before_join_step [OF f, of j q slots "p t"] by (simp only: rev.simps fold_append fold.simps comp_def id_apply rnd)
  qed
  then show ?thesis by simp
qed

text \<open>The first lane of a warp starts with the slot of the warp before it.\<close>

lemma warp_slots_first:
  assumes f: "assoc_op f"
    and rnd: "\<And>i p. round i p t = (if q > i then (if q = i + 1 then slots i else f (slots i) (p t)) else p t)"
    and q: "0 < q" "q \<le> n"
  shows "fold round (rev [0..<n]) p t = seg f slots 0 (q - 1)"
proof -
  have "fold round (rev [j..<n]) p t = (if q \<le> j then p t else seg f slots j (q - Suc j))" if "j \<le> n" for j
    using that
  proof (induction "n - j" arbitrary: j)
    case 0
    then show ?case using q by simp
  next
    case (Suc m)
    then have "[j..<n] = j # [Suc j..<n]" by (simp add: upt_conv_Cons)
    then have e: "fold round (rev [j..<n]) p t = round j (fold round (rev [Suc j..<n]) p) t"
      "fold round (rev [Suc j..<n]) p t = (if q \<le> Suc j then p t else seg f slots (Suc j) (q - Suc (Suc j)))"
      using Suc by simp_all
    consider "q \<le> j" | "q = Suc j" | k where "q = Suc (Suc (j + k))"
      by (metis less_eq_Suc_le less_imp_Suc_add not_less not_less_eq_eq le_antisym)
    then show ?case
    proof cases
      case 3
      then show ?thesis using e seg_first [OF f, of slots j k] by (simp add: rnd del: seg.simps)
    qed (simp_all add: e(1) rnd, simp_all add: e(2))
  qed
  then show ?thesis using q by simp
qed

text \<open>Slots that hold the totals of the warps: the fold of all lanes before a warp.\<close>

lemma slots_before:
  assumes "assoc_op f" "0 < w" "0 < q" "\<And>i. i < q \<Longrightarrow> slots i = seg f v (i * w) (w - 1)"
  shows "seg f slots 0 (q - 1) = seg f v 0 (q * w - 1)"
proof -
  have "seg f slots 0 (q - 1) = seg f (\<lambda>i. seg f v (i * w) (w - 1)) 0 (q - 1)"
    using assms(3,4) by (intro seg_cong) simp
  also have "\<dots> = seg f v 0 ((q - 1) * w + (w - 1))" using seg_blocks [OF assms(1,2)] by simp
  also have "(q - 1) * w + (w - 1) = q * w - 1" using assms(2,3) by (cases q) simp_all
  finally show ?thesis .
qed

lemma warp_join_prefix:
  assumes f: "assoc_op f" and w: "0 < w" and slots: "\<And>i. i < t div w \<Longrightarrow> slots i = seg f v (i * w) (w - 1)"
    and p: "t mod w \<noteq> 0 \<Longrightarrow> p = seg f v (group_base w t) (t mod w - 1)"
    and nz: "t mod w \<noteq> 0"
  shows "before_join f slots 0 (t div w) p = seg f v 0 (t - 1)"
proof (cases "t div w = 0")
  case True
  then show ?thesis using nz p w by (simp add: before_join_def group_base_def div_eq_0_iff)
next
  case False
  have "seg f slots 0 (t div w - 1) = seg f v 0 (t div w * w - 1)"
    using slots_before [OF f w, of "t div w" slots v] slots False by simp
  moreover have "t div w * w + t mod w = t" "1 \<le> t div w * w" "1 \<le> t mod w"
    using nz False w by simp_all
  then have "t - 1 = (t div w * w - 1) + (t mod w - 1) + 1" "t div w * w = 0 + (t div w * w - 1) + 1"
    by linarith+
  ultimately show ?thesis
    using False p [OF nz] seg_join' [OF f, of "t div w * w" 0 "t div w * w - 1" "t - 1" "t mod w - 1" v]
    by (simp add: before_join_def group_base_def)
qed

lemma shuffle_value_idx_nat:
  assumes "shuffle_law (lane_src tg)" "r < w"
  shows "shuffle_value tg d v (\<lambda>l. int (group_base w l) + int r) w Idx l = v (group_base w l + r)"
  using shuffle_value_idx_base [OF assms(1), of "int r" w d v l] assms(2) by simp

section \<open>Raking segments\<close>

lemma ceil_div:
  fixes n s :: nat
  assumes "0 < s" "0 < n"
  shows "0 < (n + s - 1) div s" "((n + s - 1) div s - 1) * s < n" "n \<le> (n + s - 1) div s * s"
proof -
  have e: "(n + s - 1) div s = Suc ((n - 1) div s)"
  proof -
    have e: "n + s - 1 = (n - 1) + s" using assms by simp
    have "((n - 1) + s) div s = (n - 1) div s + 1" using assms(1) by (rule div_add_self2 [OF less_imp_neq [symmetric]])
    then show ?thesis unfolding e by simp
  qed
  have m: "(n - 1) div s * s + (n - 1) mod s = n - 1" by (rule div_mult_mod_eq)
  have l: "(n - 1) mod s < s" using assms(1) by (rule mod_less_divisor)
  show "0 < (n + s - 1) div s" unfolding e by simp
  show "((n + s - 1) div s - 1) * s < n" unfolding e diff_Suc_1 using m assms(2) by linarith
  show "n \<le> (n + s - 1) div s * s" unfolding e mult_Suc using m l by linarith
qed

lemma segment_prefixes_seg:
  assumes "base < threads" "0 < n"
  shows "fold (\<lambda>i (running, values).
       let item = shared_load slots (safe_index threads (base + i));
           running = (case running of None \<Rightarrow> item
             | Some r \<Rightarrow> if base + i < threads then combine d op r item else r)
       in (Some running, values @ [running])) [0..<n] (None, [])
    = (Some (seg (combine d op) slots base (min (n - 1) (threads - 1 - base))),
       map (\<lambda>i. seg (combine d op) slots base (min i (threads - 1 - base))) [0..<n])"
  using assms(2)
proof (induction n)
  case (Suc n)
  show ?case
  proof (cases n)
    case 0
    then show ?thesis using assms(1) by (simp add: safe_index_def shared_load_def Let_def)
  next
    case (Suc m)
    show ?thesis
    proof (cases "base + n < threads")
      case True
      then have "min m (threads - 1 - base) = m" "min n (threads - 1 - base) = n" using Suc by simp_all
      then show ?thesis using Suc.IH True Suc by (simp add: safe_index_def shared_load_def Let_def)
    next
      case False
      then have "min m (threads - 1 - base) = min n (threads - 1 - base)" using Suc by simp
      then show ?thesis using Suc.IH False Suc by (simp add: Let_def)
    qed
  qed
qed simp

lemma segment_prefixes_nth:
  assumes "base < threads" "i < n"
  shows "segment_prefixes d op slots base n threads ! i = seg (combine d op) slots base (min i (threads - 1 - base))"
proof -
  have "0 < n" using assms(2) by simp
  then show ?thesis
    unfolding segment_prefixes_def segment_prefixes_seg [OF assms(1) \<open>0 < n\<close>] using assms(2) by simp
qed

lemma segment_total_seg:
  assumes "base < threads"
  shows "segment_total d op slots base (Suc n) threads = seg (combine d op) slots base (min n (threads - 1 - base))"
proof -
  have "fold (\<lambda>i total. if base + i < threads
         then combine d op total (shared_load slots (safe_index threads (base + i))) else total)
       [1..<Suc n] (slots base) = seg (combine d op) slots base (min n (threads - 1 - base))"
  proof (induction n)
    case (Suc n)
    show ?case
    proof (cases "base + Suc n < threads")
      case True
      then have "min n (threads - 1 - base) = n" "min (Suc n) (threads - 1 - base) = Suc n" by simp_all
      then show ?thesis using Suc True by (simp add: safe_index_def shared_load_def)
    next
      case False
      then have "min n (threads - 1 - base) = min (Suc n) (threads - 1 - base)" using assms by simp
      then show ?thesis using Suc False by simp
    qed
  qed simp
  then show ?thesis using assms by (simp add: segment_total_def safe_index_def shared_load_def)
qed

definition segment_writes ::
  "('a \<Rightarrow> 'a \<Rightarrow> 'a) \<Rightarrow> 'a shared \<Rightarrow> nat \<Rightarrow> nat \<Rightarrow> nat \<Rightarrow> ('a \<Rightarrow> 'a) \<Rightarrow> (nat \<times> 'a) list" where
  "segment_writes f slots threads base n join =
     map (\<lambda>i. (base + i, join (seg f slots base i))) (filter (\<lambda>i. base + i < threads) [0..<n])"

lemma segment_writes_mem:
  "i < n \<Longrightarrow> base + i < threads \<Longrightarrow>
    (base + i, join (seg f slots base i)) \<in> set (segment_writes f slots threads base n join)"
  by (auto simp: segment_writes_def)

lemma memoized_writes_seg:
  "memoized_writes threads base n join (segment_prefixes d op slots base n threads)
    = segment_writes (combine d op) slots threads base n join"
proof -
  have "segment_prefixes d op slots base n threads ! i = seg (combine d op) slots base i"
    if "base + i < threads" "i < n" for i
  proof -
    have "min i (threads - 1 - base) = i" "base < threads" using that by simp_all
    then show ?thesis using segment_prefixes_nth [of base threads i n] that(2) by simp
  qed
  then show ?thesis by (simp add: memoized_writes_def segment_writes_def)
qed

lemma rescan_writes_seg:
  "rescan_writes d op slots threads base n join = segment_writes (combine d op) slots threads base n join"
proof -
  let ?step = "\<lambda>i (running, writes).
       if base + i < threads
       then let running = (if i > 0 then combine d op running (shared_load slots (base + i)) else running)
            in (running, writes @ [(base + i, join running)])
       else (running, writes)"
  have "snd (fold ?step [0..<n] (r, [])) = segment_writes (combine d op) slots threads base n join \<and>
      (0 < n \<and> base + (n - 1) < threads \<longrightarrow> fst (fold ?step [0..<n] (r, [])) = seg (combine d op) slots base (n - 1))"
    if "base < threads \<longrightarrow> r = slots base" for r
  proof (induction n)
    case (Suc n)
    obtain r' ws where s: "fold ?step [0..<n] (r, []) = (r', ws)" by (cases "fold ?step [0..<n] (r, [])")
    have ws: "ws = segment_writes (combine d op) slots threads base n join" using Suc s by simp
    have last: "fold ?step [0..<Suc n] (r, []) = ?step n (r', ws)" by (simp add: s)
    show ?case
    proof (cases "base + n < threads")
      case False
      then show ?thesis unfolding last using ws by (simp add: segment_writes_def)
    next
      case True
      have "(if n > 0 then combine d op r' (slots (base + n)) else r') = seg (combine d op) slots base n"
      proof (cases n)
        case 0
        then show ?thesis using that True s by simp
      next
        case (Suc m)
        then show ?thesis using Suc.IH True s by simp
      qed
      then show ?thesis
        unfolding last using ws True by (cases n) (simp_all add: segment_writes_def shared_load_def Let_def)
    qed
  qed (simp add: segment_writes_def)
  then show ?thesis by (simp add: rescan_writes_def safe_index_def shared_load_def)
qed

text \<open>Segments of \<open>n\<close> elements, the last one cut off at \<open>threads\<close>.\<close>

lemma min_cut: "q + n < m \<Longrightarrow> 0 < n \<Longrightarrow>
    min (q + n + (n - 1)) (m - 1) = (q + (n - 1)) + min (n - 1) (m - 1 - (q + n)) + (1 :: nat)"
  by arith

lemma segments_join:
  assumes "assoc_op f" "0 < n"
    and "\<And>t. t * n < threads \<Longrightarrow> tot t = seg f v (t * n) (min (n - 1) (threads - 1 - t * n))"
    and "k * n < threads"
  shows "seg f tot 0 k = seg f v 0 (min (k * n + (n - 1)) (threads - 1))"
  using assms(4)
proof (induction k)
  case 0
  then show ?case using assms(3) [of 0] by simp
next
  case (Suc k)
  then have k: "k * n + n < threads" "k * n < threads" by simp_all
  then have "min (k * n + (n - 1)) (threads - 1) = k * n + (n - 1)" using assms(2) by simp
  then have "seg f tot 0 (Suc k) = f (seg f v 0 (k * n + (n - 1)))
      (seg f v (Suc k * n) (min (n - 1) (threads - 1 - Suc k * n)))"
    using Suc.IH [OF k(2)] assms(3) [OF Suc.prems] by simp
  also have "\<dots> = seg f v 0 (min (Suc k * n + (n - 1)) (threads - 1))"
    using assms(2) min_cut [OF k(1) assms(2)] by (intro seg_join' [OF assms(1)]) (simp_all add: add.commute)
  finally show ?case .
qed

section \<open>The warp operations a block scan relies on\<close>

text \<open>
  What a provider of warp scans promises on element values that satisfy \<open>ok\<close> (for integer types:
  in range): the scans fold the lanes of a group in order. \<open>closed\<close> operators keep \<open>ok\<close>.
\<close>

definition closed_op :: "('a \<Rightarrow> bool) \<Rightarrow> ('a \<Rightarrow> 'a \<Rightarrow> 'a) \<Rightarrow> bool" where
  "closed_op ok f \<longleftrightarrow> (\<forall>a b. ok a \<longrightarrow> ok b \<longrightarrow> ok (f a b))"

lemma closed_opD: "closed_op ok f \<Longrightarrow> ok a \<Longrightarrow> ok b \<Longrightarrow> ok (f a b)"
  by (simp add: closed_op_def)

lemma seg_ok: "closed_op ok f \<Longrightarrow> (\<And>i. a \<le> i \<Longrightarrow> i \<le> a + n \<Longrightarrow> ok (v i)) \<Longrightarrow> ok (seg f v a n)"
  by (induction n) (auto intro: closed_opD)

locale warp_scan_ops =
  fixes legal :: bool and tg :: target and d :: "'a dtype" and ok :: "'a \<Rightarrow> bool"
    and inclusive_scan :: "'a inclusive_op" and aggregate_scan :: "'a aggregate_op"
  assumes shuffles: "legal \<Longrightarrow> shuffle_law (lane_src tg)"
    and inclusive_prefix: "\<lbrakk>legal; is_pow2 w; w \<le> warp_size tg; assoc_op (combine d op); closed_op ok (combine d op);
        \<And>l. ok (v l)\<rbrakk> \<Longrightarrow> inclusive_scan op w v = Inr (prefix_fold (combine d op) v w)"
    and aggregate_parts: "\<lbrakk>legal; is_pow2 w; w \<le> warp_size tg; \<And>l. ok (v l)\<rbrakk>
      \<Longrightarrow> aggregate_scan (Builtin r) w v = Inr (prefix_fold (builtin_combine d r) v w,
        (\<lambda>l. if l mod w = 0 then builtin_identity d r else prefix_fold (builtin_combine d r) v w (l - 1)),
        group_fold (builtin_combine d r) v w)"
    and builtin_assoc: "legal \<Longrightarrow> assoc_op (builtin_combine d r)"
    and builtin_closed: "legal \<Longrightarrow> closed_op ok (builtin_combine d r)"
    and builtin_neutral: "legal \<Longrightarrow> ok a \<Longrightarrow> builtin_combine d r (builtin_identity d r) a = a"
      "legal \<Longrightarrow> ok a \<Longrightarrow> builtin_combine d r a (builtin_identity d r) = a"
    and builtin_identity_ok: "legal \<Longrightarrow> ok (builtin_identity d r)"
begin

text \<open>Scans of the warps with a built-in operator: the identity in front of thread zero.\<close>

lemma prefix_warp_scans_full_correct:
  assumes legal: legal and w: "is_pow2 w" "w \<le> warp_size tg" and nw: "0 < nw" and v: "\<And>l. ok (v l)"
  shows "\<exists>prefix aggregate. prefix_warp_scans_full d aggregate_scan (Builtin r) w nw slots v = Inr (prefix, aggregate)
    \<and> (\<forall>t < w * nw. prefix t = (if t = 0 then builtin_identity d r else seg (builtin_combine d r) v 0 (t - 1))
        \<and> aggregate t = seg (builtin_combine d r) v 0 (w * nw - 1))"
proof -
  let ?f = "builtin_combine d r" and ?e = "builtin_identity d r"
  have w0: "0 < w" using w(1) by (rule is_pow2_pos)
  let ?p = "\<lambda>l. if l mod w = 0 then ?e else prefix_fold ?f v w (l - 1)"
  have a: "aggregate_scan (Builtin r) w v = Inr (prefix_fold ?f v w, ?p, group_fold ?f v w)"
    by (rule aggregate_parts [OF legal w v])
  have pl: "?p t = seg ?f v (group_base w t) (t mod w - 1)" if "t mod w \<noteq> 0" for t
    using that group_sub [OF w0, of 1 t] by (simp add: prefix_fold_def group_base_def)
  have okseg: "ok (seg ?f v b n)" for b n by (rule seg_ok [OF builtin_closed [OF legal] v])
  show ?thesis
  proof (cases "nw > 1")
    case False
    then have "nw = 1" using nw by simp
    moreover have "t < w \<Longrightarrow> ?p t = (if t = 0 then ?e else seg ?f v 0 (t - 1))" for t
      using pl [of t] by (simp add: group_base_def)
    ultimately show ?thesis using a by (simp add: prefix_warp_scans_full_def group_fold_def group_base_def)
  next
    case True
    define sl where "sl = barrier_phase (w * nw) (store_if (\<lambda>t. t mod w = w - 1) (\<lambda>t. t div w) (prefix_fold ?f v w)) slots"
    have sl: "sl i = seg ?f v (i * w) (w - 1)" if "i < nw" for i
    proof -
      have l: "w - 1 < w" using w0 by simp
      have inj: "inj_on (\<lambda>t. t div w) {t. t < w * nw \<and> t mod w = w - 1}"
        by (rule inj_onI) (metis (mono_tags, lifting) div_mult_mod_eq mem_Collect_eq)
      have "i * w + (w - 1) < w * nw"
      proof -
        have "Suc i * w \<le> nw * w" using that by (intro mult_right_mono) simp_all
        then show ?thesis using w0 by (simp add: mult.commute)
      qed
      then have "sl ((i * w + (w - 1)) div w) = prefix_fold ?f v w (i * w + (w - 1))"
        unfolding sl_def using group_split(2) [OF l, of i] by (intro phase_store_if [OF inj]) simp_all
      then show ?thesis using group_split [OF l, of i] by (simp add: prefix_fold_def group_base_def)
    qed
    have tq: "t div w < nw" if "t < w * nw" for t
      using that by (metis less_mult_imp_div_less mult.commute)
    define round where "round = (\<lambda>i prefix. select_value (\<lambda>t. t div w > i)
      (\<lambda>t. ?f (shared_load sl i) (prefix t)) prefix)"
    have pre: "fold round (rev [0..<nw - 1]) ?p t = (if t = 0 then ?e else seg ?f v 0 (t - 1))" if t: "t < w * nw" for t
    proof -
      have j: "fold round (rev [0..<nw - 1]) ?p t = before_join ?f sl 0 (t div w) (?p t)"
        by (rule warp_slots_join [OF builtin_assoc [OF legal]])
          (use tq [OF t] in \<open>simp_all add: round_def select_value_def shared_load_def\<close>)
      have slt: "sl i = seg ?f v (i * w) (w - 1)" if "i < t div w" for i
        using sl that tq [OF t] by simp
      show ?thesis
      proof (cases "t mod w = 0")
        case False
        then have "t \<noteq> 0" by (intro notI) simp
        moreover have "before_join ?f sl 0 (t div w) (?p t) = seg ?f v 0 (t - 1)"
          by (rule warp_join_prefix [OF builtin_assoc [OF legal] w0 slt pl False])
        ultimately show ?thesis unfolding j by (simp only: if_False)
      next
        case True
        show ?thesis
        proof (cases "t = 0")
          case False
          then have q: "0 < t div w" and tw: "t div w * w = t" using True w0 by (auto simp: div_greater_zero_iff dvd_imp_le)
          have "seg ?f sl 0 (t div w - 1) = seg ?f v 0 (t - 1)"
            using slots_before [OF builtin_assoc [OF legal] w0 q slt] tw by simp
          then show ?thesis
            unfolding j using True False q builtin_neutral(2) [OF legal okseg] by (simp add: before_join_def)
        next
          case True
          then show ?thesis unfolding j by (simp add: before_join_def)
        qed
      qed
    qed
    have "block_aggregate d (Builtin r) nw sl = seg ?f v 0 (w * nw - 1)"
      using slots_before [OF builtin_assoc [OF legal] w0 nw sl] block_aggregate_seg [OF nw, of d "Builtin r" sl]
      by (simp add: mult.commute)
    moreover have "prefix_warp_scans_full d aggregate_scan (Builtin r) w nw slots v
        = Inr (fold round (rev [0..<nw - 1]) ?p, \<lambda>_. block_aggregate d (Builtin r) nw sl)"
      unfolding prefix_warp_scans_full_def a round_def sl_def using True
      by (simp only: rbind_simps prod.case if_True Let_def combine_fun)
    ultimately show ?thesis using pre by blast
  qed
qed

text \<open>
  Scans of the warps with any associative operator: the lane in front of thread zero is left open.
\<close>

lemma prefix_warp_scans_correct:
  assumes legal: legal and w: "is_pow2 w" "w \<le> warp_size tg" and nw: "0 < nw" and v: "\<And>l. ok (v l)"
    and f: "assoc_op (combine d op)" "closed_op ok (combine d op)"
  shows "\<exists>prefix aggregate. prefix_warp_scans tg d inclusive_scan op w (w * nw) slots v = Inr (prefix, aggregate)
    \<and> (\<forall>t < w * nw. (t \<noteq> 0 \<longrightarrow> prefix t = seg (combine d op) v 0 (t - 1))
        \<and> aggregate t = seg (combine d op) v 0 (w * nw - 1))"
proof -
  let ?f = "combine d op" and ?raw = "prefix_fold (combine d op) v w"
  have w0: "0 < w" using w(1) by (rule is_pow2_pos)
  have scan: "inclusive_scan op w v = Inr ?raw" by (rule inclusive_prefix [OF legal w f v])
  have n: "(w * nw + w - 1) div w = nw"
  proof -
    have "w * nw + w - 1 = nw * w + (w - 1)" using w0 by (simp add: mult.commute)
    then show ?thesis using group_split(1) [of "w - 1" w nw] w0 by simp
  qed
  let ?p = "shuffle_value tg d ?raw (\<lambda>_. 1) w Up"
  let ?agg = "shuffle_value tg d ?raw (\<lambda>t. int (group_base w t) + int (w - 1)) w Idx"
  have pl: "?p t = seg ?f v (group_base w t) (t mod w - 1)" if "t mod w \<noteq> 0" for t
    using that group_sub [OF w0, of 1 t] shuffle_value_up [OF shuffles [OF legal] w0, of 1 t d ?raw]
    by (simp add: prefix_fold_def group_base_def)
  have agg: "?agg t = seg ?f v (group_base w t) (w - 1)" for t
  proof -
    have l: "w - 1 < w" using w0 by simp
    show ?thesis
      unfolding shuffle_value_idx_nat [OF shuffles [OF legal] l] using group_member [OF l, of t] by (simp add: prefix_fold_def)
  qed
  show ?thesis
  proof (cases "nw > 1")
    case False
    then have nw1: "nw = 1" using nw by simp
    have "prefix_warp_scans tg d inclusive_scan op w (w * nw) slots v = Inr (?p, ?agg)"
      unfolding prefix_warp_scans_def Let_def n scan using False
      by (simp only: rbind_simps if_False mod_mult_self1_is_0 simp_thms)
    moreover have "?p t = seg ?f v 0 (t - 1)" if "t < w * nw" "t \<noteq> 0" for t
      using pl [of t] that nw1 by (simp add: group_base_def)
    moreover have "?agg t = seg ?f v 0 (w * nw - 1)" if "t < w * nw" for t
      unfolding agg using that nw1 by (simp add: group_base_def)
    ultimately show ?thesis by blast
  next
    case True
    define sl where "sl = barrier_phase (w * nw) (store_if (\<lambda>t. t mod w = 0) (\<lambda>t. t div w) ?agg) slots"
    have sl: "sl i = seg ?f v (i * w) (w - 1)" if "i < nw" for i
    proof -
      have inj: "inj_on (\<lambda>t. t div w) {t. t < w * nw \<and> t mod w = 0}"
        by (rule inj_onI) (metis (mono_tags, lifting) div_mult_mod_eq mem_Collect_eq)
      have "i * w < w * nw" using that w0 by simp
      then have "sl ((i * w) div w) = ?agg (i * w)"
        unfolding sl_def by (intro phase_store_if [OF inj]) simp_all
      then show ?thesis using agg [of "i * w"] w0 by (simp add: group_base_def)
    qed
    have tq: "t div w < nw" if "t < w * nw" for t
      using that by (metis less_mult_imp_div_less mult.commute)
    define round where "round = (\<lambda>i prefix. select_value (\<lambda>t. t div w > i)
      (select_value (\<lambda>t. t mod w = 0 \<and> t div w = i + 1) (\<lambda>_. shared_load sl i)
         (\<lambda>t. ?f (shared_load sl i) (prefix t))) prefix)"
    have pre: "fold round (rev [0..<nw - 1]) ?p t = seg ?f v 0 (t - 1)" if t: "t < w * nw" "t \<noteq> 0" for t
    proof -
      have slt: "sl i = seg ?f v (i * w) (w - 1)" if "i < t div w" for i
        using sl that tq [OF t(1)] by simp
      show ?thesis
      proof (cases "t mod w = 0")
        case False
        have "fold round (rev [0..<nw - 1]) ?p t = before_join ?f sl 0 (t div w) (?p t)"
          by (rule warp_slots_join [OF f(1)])
            (use tq [OF t(1)] False in \<open>simp_all add: round_def select_value_def shared_load_def\<close>)
        also have "\<dots> = seg ?f v 0 (t - 1)" by (rule warp_join_prefix [OF f(1) w0 slt pl False])
        finally show ?thesis .
      next
        case True
        then have q: "0 < t div w" and tw: "t div w * w = t" using t w0 by (auto simp: div_greater_zero_iff dvd_imp_le)
        have "fold round (rev [0..<nw - 1]) ?p t = seg ?f sl 0 (t div w - 1)"
          by (rule warp_slots_first [OF f(1) _ q])
            (use tq [OF t(1)] True in \<open>auto simp: round_def select_value_def shared_load_def\<close>)
        also have "\<dots> = seg ?f v 0 (t - 1)" using slots_before [OF f(1) w0 q slt] tw by simp
        finally show ?thesis .
      qed
    qed
    have "block_aggregate d op nw sl = seg ?f v 0 (w * nw - 1)"
      using slots_before [OF f(1) w0 nw sl] block_aggregate_seg [OF nw, of d op sl] by (simp add: mult.commute)
    moreover have "prefix_warp_scans tg d inclusive_scan op w (w * nw) slots v
        = Inr (fold round (rev [0..<nw - 1]) ?p, \<lambda>_. block_aggregate d op nw sl)"
      unfolding prefix_warp_scans_def Let_def n scan round_def sl_def using True
      by (simp only: rbind_simps if_True mod_mult_self1_is_0 not_True_eq_False False_implies_equals simp_thms if_False)
    ultimately show ?thesis using pre by blast
  qed
qed

end

context warp_scan_ops
begin

text \<open>Raking, for any block of \<open>threads \<ge> 1\<close> threads: complete warps are not needed.\<close>

lemma prefix_raking_correct:
  assumes legal: legal and w: "is_pow2 w" "w \<le> warp_size tg" and n: "0 < threads" and v: "\<And>l. ok (v l)"
    and f: "assoc_op (combine d op)" "closed_op ok (combine d op)"
  shows "\<exists>prefix aggregate. prefix_raking tg d inclusive_scan op w threads memoize st v = Inr (prefix, aggregate)
    \<and> (\<forall>t < threads. (t \<noteq> 0 \<longrightarrow> prefix t = seg (combine d op) v 0 (t - 1))
        \<and> aggregate t = seg (combine d op) v 0 (threads - 1))"
proof -
  let ?f = "combine d op"
  have w0: "0 < w" using w(1) by (rule is_pow2_pos)
  define s where "s = (threads + w - 1) div w"
  have s: "0 < s" "threads \<le> s * w" using ceil_div [OF w0 n] by (simp_all add: s_def)
  define k where "k = (threads + s - 1) div s"
  have k: "0 < k" "(k - 1) * s < threads" "threads \<le> k * s" using ceil_div [OF s(1) n] by (simp_all add: k_def)
  define sl where "sl = barrier_phase threads (store_if (\<lambda>_. True) (\<lambda>t. t) v) (ss_slots st)"
  have sl: "sl i = v i" if "i < threads" for i
    using phase_store_if [of "\<lambda>t. t" threads "\<lambda>_. True" i v "ss_slots st"] that by (simp add: sl_def)
  have okl: "ok (sl (safe_index threads i))" for i using sl [of "safe_index threads i"] v n by (simp add: safe_index_def)
  define tot where "tot = (if memoize then (\<lambda>t. segment_prefixes d op sl (t * s) s threads ! (s - 1))
            else (\<lambda>t. segment_total d op sl (t * s) s threads))"
  have seg_sl: "seg ?f sl b m = seg ?f v b m" if "b + m < threads" for b m
    using that by (intro seg_cong sl) simp
  have tot: "tot t = seg ?f v (t * s) (min (s - 1) (threads - 1 - t * s))" if "t * s < threads" for t
  proof -
    have "tot t = seg ?f sl (t * s) (min (s - 1) (threads - 1 - t * s))"
      using segment_prefixes_nth [OF that, of "s - 1" s d op sl] segment_total_seg [OF that, of d op sl "s - 1"] s(1)
      by (simp add: tot_def)
    also have "\<dots> = seg ?f v (t * s) (min (s - 1) (threads - 1 - t * s))" using that by (intro seg_sl) simp
    finally show ?thesis .
  qed
  have ok_total: "ok (tot t)" for t
  proof (cases "memoize")
    case False
    have "ok (fold (\<lambda>i total. if t * s + i < threads
         then ?f total (shared_load sl (safe_index threads (t * s + i))) else total) is a)" if "ok a" for "is" a
      using that by (induction "is" arbitrary: a) (auto simp: shared_load_def intro: closed_opD [OF f(2)] okl)
    then show ?thesis using False okl by (simp add: tot_def segment_total_def shared_load_def)
  next
    case True
    let ?step = "\<lambda>i (running, values).
       let item = shared_load sl (safe_index threads (t * s + i));
           running = (case running of None \<Rightarrow> item
             | Some r \<Rightarrow> if t * s + i < threads then ?f r item else r)
       in (Some running, values @ [running])"
    have "pred_option ok r \<and> list_all ok vs \<Longrightarrow> fold ?step is (r, vs) = (r', vs') \<Longrightarrow>
        list_all ok vs' \<and> length vs' = length vs + length is" for "is" r vs r' vs'
    proof (induction "is" arbitrary: r vs)
      case (Cons i js)
      obtain r1 where r1: "?step i (r, vs) = (Some r1, vs @ [r1])" "ok r1"
        using Cons.prems(1) okl closed_opD [OF f(2)] by (cases r) (auto simp: Let_def shared_load_def)
      then show ?case using Cons.IH [of "Some r1" "vs @ [r1]"] Cons.prems by simp
    qed simp
    from this [of None "[]" "[0..<s]"] have "list_all ok (segment_prefixes d op sl (t * s) s threads)
        \<and> length (segment_prefixes d op sl (t * s) s threads) = s"
      unfolding segment_prefixes_def by (cases "fold ?step [0..<s] (None, [])") simp
    then show ?thesis using True s(1) by (simp add: tot_def list_all_length)
  qed
  define sc where "sc = prefix_fold ?f tot w"
  have scan: "inclusive_scan op w tot = Inr sc" unfolding sc_def by (rule inclusive_prefix [OF legal w f ok_total])
  have sc: "sc t = seg ?f v 0 (min (t * s + (s - 1)) (threads - 1))" if "t * s < threads" "t < w" for t
    using segments_join [OF f(1) s(1) tot that(1)] that(2) by (simp add: sc_def prefix_fold_def group_base_def)
  define join where "join = (\<lambda>t local. if t > 0 then ?f (shuffle_value tg d sc (\<lambda>_. 1) w Up t) local else local)"
  have join: "join t (seg ?f sl (t * s) i) = seg ?f v 0 (t * s + i)" if "t < w" "t * s + i < threads" for t i
  proof (cases "t = 0")
    case True
    then show ?thesis using seg_sl that by (simp add: join_def)
  next
    case False
    then have t: "1 \<le> t mod w" "(t - 1) * s + s = t * s" using that(1) by (simp_all add: mult_eq_if)
    then have "shuffle_value tg d sc (\<lambda>_. 1) w Up t = sc (t - 1)"
      using shuffle_value_up [OF shuffles [OF legal] w0 t(1), of d sc] by simp
    also have "\<dots> = seg ?f v 0 (min ((t - 1) * s + (s - 1)) (threads - 1))"
      using t that s(1) by (intro sc) linarith+
    also have "min ((t - 1) * s + (s - 1)) (threads - 1) = t * s - 1" using t(2) that(2) s(1) by linarith
    finally show ?thesis
      using False seg_sl [OF that(2)] s(1) seg_join' [OF f(1), of "t * s" 0 "t * s - 1" "t * s + i" i v]
      by (simp add: join_def)
  qed
  define writes where "writes = (\<lambda>t. if t < w then segment_writes ?f sl threads (t * s) s (join t) else [])"
  have out: "barrier_phase threads writes slots j = seg ?f v 0 j" if j: "j < threads" for slots j
  proof -
    have wr: "i div s = t" if "(i, a) \<in> set (writes t)" for i a t
      using that group_split(1) [of _ s t] by (auto simp: writes_def segment_writes_def split: if_splits)
    have rf: "race_free threads writes"
      by (rule race_freeI [where owner = "\<lambda>i. i div s"]) (rule wr)
    have t: "j div s < threads" "j div s < w" "j div s * s + j mod s = j" "j mod s < s"
      using j s by (auto simp: less_mult_imp_div_less mult.commute intro: le_less_trans [OF div_le_dividend])
    have d: "distinct (map fst (writes t))" for t
      by (auto simp: writes_def segment_writes_def comp_def distinct_map inj_on_def)
    have "(j div s * s + j mod s, join (j div s) (seg ?f sl (j div s * s) (j mod s))) \<in> set (writes (j div s))"
      unfolding writes_def if_P [OF t(2)] by (rule segment_writes_mem [OF t(4)]) (use t(3) j in simp)
    then have "(j, seg ?f v 0 j) \<in> set (writes (j div s))"
      using join [OF t(2), of "j mod s"] j unfolding t(3) by simp
    then show ?thesis by (rule barrier_phase_hit [OF rf t(1) d])
  qed
  let ?agg = "shuffle_value tg d sc (\<lambda>_. int k - 1) w Idx"
  have agg: "?agg 0 = seg ?f v 0 (threads - 1)"
  proof -
    have kw: "k - 1 < w"
    proof (rule ccontr)
      assume "\<not> k - 1 < w"
      then have "w * s \<le> (k - 1) * s" by (intro mult_right_mono) simp_all
      then show False using k(2) s(2) mult.commute [of s w] by linarith
    qed
    then have "?agg 0 = sc (k - 1)"
      using shuffle_value_idx [OF shuffles [OF legal] w0, of "\<lambda>_. int k - 1" 0 d sc] k(1) by (simp add: nat_diff_distrib)
    also have "\<dots> = seg ?f v 0 (min ((k - 1) * s + (s - 1)) (threads - 1))" by (rule sc [OF k(2) kw])
    also have "min ((k - 1) * s + (s - 1)) (threads - 1) = threads - 1"
    proof -
      have "(k - 1) * s + s = k * s" using k(1) by (simp add: mult_eq_if)
      then show ?thesis using k(3) by simp
    qed
    finally show ?thesis .
  qed
  have aggs: "barrier_phase threads (store_if (\<lambda>t. t = 0) (\<lambda>_. 0) ?agg) slots 0 = seg ?f v 0 (threads - 1)" for slots
    using phase_store_zero [OF n, of ?agg slots] agg by simp
  have "prefix_raking tg d inclusive_scan op w threads memoize st v = Inr
      (\<lambda>t. shared_load (barrier_phase threads writes (ss_output st)) (if t > 0 then t - 1 else 0),
       \<lambda>_. shared_load (barrier_phase threads (store_if (\<lambda>t. t = 0) (\<lambda>_. 0) ?agg) (ss_aggregate st)) 0)"
    unfolding prefix_raking_def Let_def s_def [symmetric] k_def [symmetric] sl_def [symmetric] tot_def [symmetric] scan
      writes_def join_def rbind_simps memoized_writes_seg rescan_writes_seg
    by (simp only: if_cancel)
  then show ?thesis using out aggs by (auto simp: shared_load_def)
qed

end

section \<open>The block scan as a whole\<close>

text \<open>
  The reference: \<open>u\<close> lists the items of the block in blocked order, \<open>start\<close> is the seed in front
  of them, \<open>neutral\<close> what an exclusive scan without a seed puts at rank zero.
\<close>

definition seeded :: "('a \<Rightarrow> 'a \<Rightarrow> 'a) \<Rightarrow> 'a lanes option \<Rightarrow> 'a lanes \<Rightarrow> nat \<Rightarrow> nat \<Rightarrow> 'a" where
  "seeded f start u t p = (case start of None \<Rightarrow> seg f u 0 p | Some s \<Rightarrow> f (s t) (seg f u 0 p))"

definition first_value :: "'a lanes option \<Rightarrow> 'a option \<Rightarrow> 'a option" where
  "first_value start neutral = (case start of Some s \<Rightarrow> Some (s 0) | None \<Rightarrow> neutral)"

definition scan_spec ::
  "('a \<Rightarrow> 'a \<Rightarrow> 'a) \<Rightarrow> 'a lanes option \<Rightarrow> 'a option \<Rightarrow> 'a lanes \<Rightarrow> bool \<Rightarrow> nat \<Rightarrow> 'a lanes list \<Rightarrow> nat \<Rightarrow> bool" where
  "scan_spec f start neutral u inclusive n out t \<longleftrightarrow> length out = n \<and> (\<forall>i < n.
     if inclusive then (out ! i) t = seeded f start u t (t * n + i)
     else if t * n + i = 0 then (\<forall>e. first_value start neutral = Some e \<longrightarrow> (out ! i) t = e)
     else (out ! i) t = seeded f start u t (t * n + i - 1))"

text \<open>
  What the entry points make of the block prefix: \<open>prefix\<close> is right behind thread zero, and at
  thread zero it is the seed, a neutral element, or unused.
\<close>

lemma last_local_seg:
  "last (local_scan d op x xs) t = seg (combine d op) (blocked (x # xs)) (t * Suc (length xs)) (length xs)"
  using local_scan_seg [of "length xs" x xs d op t] by (simp add: last_conv_nth)

lemma local_scan_prefix:
  assumes f: "assoc_op (combine d op)" and "0 < t"
  shows "seg (combine d op) (\<lambda>t. last (local_scan d op x xs) t) 0 (t - 1)
    = seg (combine d op) (blocked (x # xs)) 0 (t * Suc (length xs) - 1)"
proof -
  have "(\<lambda>t. last (local_scan d op x xs) t) = (\<lambda>t. seg (combine d op) (blocked (x # xs)) (t * Suc (length xs)) (Suc (length xs) - 1))"
    by (simp add: last_local_seg fun_eq_iff)
  moreover have "(t - 1) * Suc (length xs) + (Suc (length xs) - 1) = t * Suc (length xs) - 1"
    using assms(2) by (cases t) simp_all
  ultimately show ?thesis using seg_blocks [OF f, of "Suc (length xs)" "blocked (x # xs)" 0 "t - 1"] by simp
qed

lemma scan_heads:
  assumes f: "assoc_op (combine d op)" and t: "0 < t" and i: "i \<le> length xs"
    and p: "prefix t = seeded (combine d op) start (blocked (x # xs)) t (t * Suc (length xs) - 1)"
  shows "combine d op (prefix t) ((local_scan d op x xs ! i) t)
    = seeded (combine d op) start (blocked (x # xs)) t (t * Suc (length xs) + i)"
proof -
  let ?u = "blocked (x # xs)" and ?n = "Suc (length xs)" and ?f = "combine d op"
  have l: "(local_scan d op x xs ! i) t = seg ?f ?u (t * ?n) i" using local_scan_seg [of i x xs d op t] i by simp
  have "1 \<le> t * ?n" using t by simp
  then have "?f (seg ?f ?u 0 (t * ?n - 1)) (seg ?f ?u (t * ?n) i) = seg ?f ?u 0 (t * ?n + i)"
    by (intro seg_join' [OF f]) linarith+
  then show ?thesis unfolding p l by (cases start) (simp_all add: seeded_def assoc_opD [OF f])
qed

lemma scan_output:
  assumes f: "assoc_op (combine d op)"
    and p: "0 < t \<Longrightarrow> prefix t = seeded (combine d op) start (blocked (x # xs)) t (t * Suc (length xs) - 1)"
    and z: "t = 0 \<Longrightarrow> (\<forall>e. first_value start neutral = Some e \<longrightarrow> prefix 0 = e)"
    and j: "\<And>head. 0 < t \<Longrightarrow> join head t = combine d op (prefix t) (head t)"
    and jz: "\<And>i. t = 0 \<Longrightarrow> i \<le> length xs \<Longrightarrow> join (local_scan d op x xs ! i) 0
      = seeded (combine d op) start (blocked (x # xs)) 0 i"
    and out: "out = (if inclusive then map join (local_scan d op x xs)
        else prefix # map join (butlast (local_scan d op x xs)))"
  shows "scan_spec (combine d op) start neutral (blocked (x # xs)) inclusive (Suc (length xs)) out t"
proof -
  let ?n = "Suc (length xs)" and ?u = "blocked (x # xs)"
  have inc: "join (local_scan d op x xs ! i) t = seeded (combine d op) start ?u t (t * ?n + i)" if "i < ?n" for i
  proof (cases "t = 0")
    case True
    then show ?thesis using jz that by simp
  next
    case False
    then have t: "0 < t" by simp
    have "combine d op (prefix t) ((local_scan d op x xs ! i) t) = seeded (combine d op) start ?u t (t * ?n + i)"
      using that by (intro scan_heads [where prefix = prefix and t = t, OF f t _ p [OF t]]) simp
    then show ?thesis unfolding j [OF t] .
  qed
  have exc: "join (butlast (local_scan d op x xs) ! i) t = seeded (combine d op) start ?u t (t * ?n + i)" if "i < length xs" for i
    using inc [of i] that by (simp add: nth_butlast)
  show ?thesis
  proof (cases inclusive)
    case True
    then show ?thesis using inc by (simp add: scan_spec_def out)
  next
    case False
    have "if t * ?n + i = 0 then (\<forall>e. first_value start neutral = Some e \<longrightarrow> (out ! i) t = e)
        else (out ! i) t = seeded (combine d op) start ?u t (t * ?n + i - 1)" if "i < ?n" for i
    proof (cases i)
      case 0
      then show ?thesis using z p False by (cases "t = 0") (simp_all add: out)
    next
      case (Suc m)
      then show ?thesis using exc [of m] that False by (simp add: out)
    qed
    moreover have "length out = ?n" using False by (simp add: out)
    ultimately show ?thesis unfolding scan_spec_def if_not_P [OF False] by blast
  qed
qed

locale block_scan_ops =
  warp_scan_ops legal "sc_target c" "sc_dtype c" ok "op_inclusive (sc_ops c)" "op_aggregate (sc_ops c)"
  for legal and c :: "'a block_scan_class" and ok +
  assumes geometry: "legal \<Longrightarrow> block_geometry (warp_size (sc_target c)) (sc_threads c) (sc_width c) (sc_warps c)"
begin

lemma block_prefix_correct:
  assumes legal: legal and f: "assoc_op (combine (sc_dtype c) op)" "closed_op ok (combine (sc_dtype c) op)"
    and v: "\<And>l. ok (v l)"
  shows "\<exists>prefix aggregate. block_prefix c op st v = Inr (prefix, aggregate)
    \<and> (\<forall>t < sc_threads c. (t \<noteq> 0 \<longrightarrow> prefix t = seg (combine (sc_dtype c) op) v 0 (t - 1))
        \<and> aggregate t = seg (combine (sc_dtype c) op) v 0 (sc_threads c - 1))"
proof -
  have g: "is_pow2 (sc_width c)" "sc_width c \<le> warp_size (sc_target c)" "0 < sc_warps c"
    "sc_threads c = sc_width c * sc_warps c"
    using geometry [OF legal] by (simp_all add: block_geometry_def)
  have n: "0 < sc_threads c" using g(3,4) is_pow2_pos [OF g(1)] by simp
  show ?thesis
    using prefix_warp_scans_correct [OF legal g(1-3) v f, of "ss_slots st"]
      prefix_raking_correct [OF legal g(1,2) n v f, of "sc_algorithm c = RAKING_MEMOIZE" st]
    unfolding block_prefix_def g(4) [symmetric] by (cases "sc_algorithm c = WARP_SCANS") simp_all
qed

lemma local_scan_ok:
  assumes "closed_op ok (combine (sc_dtype c) op)" "\<And>i l. i \<in> set (x # xs) \<Longrightarrow> ok (i l)"
  shows "ok (last (local_scan (sc_dtype c) op x xs) l)"
proof -
  have "ok (blocked (x # xs) j)" for j
    using assms(2) [of "(x # xs) ! (j mod length (x # xs))"] nth_mem [of "j mod length (x # xs)" "x # xs"]
    by (simp only: blocked_def) simp
  then show ?thesis unfolding last_local_seg by (intro seg_ok [OF assms(1)])
qed

text \<open>The general path: no matter which algorithm computes the block prefix.\<close>

lemma general_output:
  assumes legal: legal and f: "assoc_op (combine (sc_dtype c) op)" "closed_op ok (combine (sc_dtype c) op)"
    and items: "\<And>i l. i \<in> set (x # xs) \<Longrightarrow> ok (i l)"
    and neutral: "\<And>e a. start = None \<Longrightarrow> neutral = Some e \<Longrightarrow> ok a \<Longrightarrow> combine (sc_dtype c) op e a = a"
    and prefix: "\<And>t. t < sc_threads c \<Longrightarrow> t \<noteq> 0 \<Longrightarrow>
      prefix t = seg (combine (sc_dtype c) op) (\<lambda>t. last (local_scan (sc_dtype c) op x xs) t) 0 (t - 1)"
    and seeded_prefix: "seeded_prefix = (case start of
           Some s \<Rightarrow> select_value (\<lambda>t. t > 0) (\<lambda>t. combine (sc_dtype c) op (s t) (prefix t)) s
         | None \<Rightarrow> (case neutral of Some e \<Rightarrow> select_value (\<lambda>t. t > 0) prefix (\<lambda>_. e) | None \<Rightarrow> prefix))"
    and join: "join = (\<lambda>head. if start = None \<and> neutral = None
        then select_value (\<lambda>t. t > 0) (\<lambda>t. combine (sc_dtype c) op (seeded_prefix t) (head t)) head
        else (\<lambda>t. combine (sc_dtype c) op (seeded_prefix t) (head t)))"
    and out: "out = (if inclusive then map join (local_scan (sc_dtype c) op x xs)
        else seeded_prefix # map join (butlast (local_scan (sc_dtype c) op x xs)))"
    and t: "t < sc_threads c"
  shows "scan_spec (combine (sc_dtype c) op) start neutral (blocked (x # xs)) inclusive (Suc (length xs)) out t"
proof (rule scan_output [OF f(1) _ _ _ _ out])
  let ?f = "combine (sc_dtype c) op" and ?u = "blocked (x # xs)"
  show "seeded_prefix t = seeded ?f start ?u t (t * Suc (length xs) - 1)" if "0 < t"
  proof -
    have "prefix t = seg ?f ?u 0 (t * Suc (length xs) - 1)"
      using prefix [OF t] that local_scan_prefix [OF f(1) that, of x xs] by simp
    then show ?thesis
      using that by (cases start; cases neutral) (simp_all add: seeded_prefix seeded_def select_value_def)
  qed
  show "\<forall>e. first_value start neutral = Some e \<longrightarrow> seeded_prefix 0 = e" if "t = 0"
    by (cases start; cases neutral) (simp_all add: seeded_prefix first_value_def select_value_def)
  show "join head t = ?f (seeded_prefix t) (head t)" if "0 < t" for head
    using that by (simp add: join select_value_def)
  fix i assume i: "t = 0" "i \<le> length xs"
  have l: "(local_scan (sc_dtype c) op x xs ! i) 0 = seg ?f ?u 0 i"
    using local_scan_seg [of i x xs "sc_dtype c" op 0] i(2) by simp
  have "ok (?u j)" for j
    using items [of "(x # xs) ! (j mod length (x # xs))"] nth_mem [of "j mod length (x # xs)" "x # xs"]
    by (simp only: blocked_def) simp
  then have "ok (seg ?f ?u 0 i)" by (intro seg_ok [OF f(2)])
  then show "join (local_scan (sc_dtype c) op x xs ! i) 0 = seeded ?f start ?u 0 i"
    using neutral by (cases start; cases neutral) (simp_all add: join seeded_prefix seeded_def select_value_def l)
qed

lemma block_threads_pos: "legal \<Longrightarrow> 0 < sc_threads c"
  using geometry is_pow2_pos by (auto simp: block_geometry_def)

lemma block_scan_general_correct:
  assumes legal: legal and f: "assoc_op (combine (sc_dtype c) op)" "closed_op ok (combine (sc_dtype c) op)"
    and items0: "\<forall>i \<in> set (x # xs). \<forall>l. ok (i l)"
    and neutral: "\<forall>e a. init = None \<and> callback = None \<and> neutral = Some e \<and> ok a \<longrightarrow> combine (sc_dtype c) op e a = a"
  shows "\<exists>out aggregate. block_scan_general c op st inclusive init neutral callback tile (x # xs)
      = Inr (pack_tile tile out, aggregate)
    \<and> (\<forall>t < sc_threads c. aggregate t = seg (combine (sc_dtype c) op) (blocked (x # xs)) 0 (sc_threads c * Suc (length xs) - 1)
      \<and> scan_spec (combine (sc_dtype c) op) (case callback of None \<Rightarrow> init | Some cb \<Rightarrow> Some (\<lambda>_. cb aggregate 0))
          neutral (blocked (x # xs)) inclusive (Suc (length xs)) out t)"
proof -
  have items: "\<And>i l. i \<in> set (x # xs) \<Longrightarrow> ok (i l)" using items0 by blast
  let ?d = "sc_dtype c" and ?u = "blocked (x # xs)"
  let ?f = "combine ?d op" and ?v = "last (local_scan ?d op x xs)"
  have v: "ok (?v l)" for l by (rule local_scan_ok [OF f(2)]) (rule items)
  obtain prefix aggregate where p: "block_prefix c op st ?v = Inr (prefix, aggregate)"
    "\<And>t. t < sc_threads c \<Longrightarrow> t \<noteq> 0 \<Longrightarrow> prefix t = seg ?f (\<lambda>t. ?v t) 0 (t - 1)"
    "\<And>t. t < sc_threads c \<Longrightarrow> aggregate t = seg ?f (\<lambda>t. ?v t) 0 (sc_threads c - 1)"
    using block_prefix_correct [where v = ?v and st = st, OF legal f v] by blast
  define start where "start = (case callback of None \<Rightarrow> init | Some cb \<Rightarrow> Some (\<lambda>_. cb aggregate 0))"
  define sp where "sp = (case start of
           Some s \<Rightarrow> select_value (\<lambda>t. t > 0) (\<lambda>t. ?f (s t) (prefix t)) s
         | None \<Rightarrow> (case neutral of Some e \<Rightarrow> select_value (\<lambda>t. t > 0) prefix (\<lambda>_. e) | None \<Rightarrow> prefix))"
  define join where "join = (\<lambda>head. if start = None \<and> neutral = None
        then select_value (\<lambda>t. t > 0) (\<lambda>t. ?f (sp t) (head t)) head else (\<lambda>t. ?f (sp t) (head t)))"
  define out where "out = (if inclusive then map join (local_scan ?d op x xs)
      else sp # map join (butlast (local_scan ?d op x xs)))"
  have cb: "(case callback of None \<Rightarrow> init | Some cb \<Rightarrow> Some (callback_prefix (sc_threads c) slots cb aggregate)) = start"
    for slots
    by (cases callback)
      (simp_all add: start_def callback_prefix_def shared_load_def phase_store_zero [OF block_threads_pos [OF legal]])
  have "block_scan_general c op st inclusive init neutral callback tile (x # xs) = Inr (pack_tile tile out, aggregate)"
    unfolding block_scan_general_def Let_def list.sel p(1) rbind_simps prod.case cb sp_def [symmetric] join_def [symmetric] out_def
    by simp
  moreover have "aggregate t = seg ?f ?u 0 (sc_threads c * Suc (length xs) - 1)" if "t < sc_threads c" for t
    using p(3) [OF that] local_scan_prefix [OF f(1) block_threads_pos [OF legal], of x xs] by simp
  moreover have "scan_spec ?f start neutral ?u inclusive (Suc (length xs)) out t" if "t < sc_threads c" for t
  proof (rule general_output [where prefix = prefix, OF legal f _ _ _ sp_def join_def out_def that])
    show "ok (i l)" if "i \<in> set (x # xs)" for i l using items [OF that] .
    show "prefix t = seg ?f (\<lambda>t. ?v t) 0 (t - 1)" if "t < sc_threads c" "t \<noteq> 0" for t using p(2) [OF that] .
    show "?f e a = a" if "start = None" "neutral = Some e" "ok a" for e a
      using neutral that by (auto simp: start_def split: option.splits)
  qed
  ultimately show ?thesis unfolding start_def by blast
qed

lemma block_scan_full_correct:
  assumes legal: legal and items0: "\<forall>i \<in> set (x # xs). \<forall>l. ok (i l)" and init0: "\<forall>s t. init = Some s \<longrightarrow> ok (s t)"
  shows "\<exists>out aggregate. block_scan_full c (Builtin r) st inclusive init tile (x # xs) = Inr (pack_tile tile out, aggregate)
    \<and> (\<forall>t < sc_threads c. aggregate t = seg (builtin_combine (sc_dtype c) r) (blocked (x # xs)) 0 (sc_threads c * Suc (length xs) - 1)
      \<and> scan_spec (builtin_combine (sc_dtype c) r) init (Some (builtin_identity (sc_dtype c) r))
          (blocked (x # xs)) inclusive (Suc (length xs)) out t)"
proof -
  have items: "\<And>i l. i \<in> set (x # xs) \<Longrightarrow> ok (i l)" using items0 by blast
  have init: "\<And>s t. init = Some s \<Longrightarrow> ok (s t)" using init0 by blast
  let ?d = "sc_dtype c" and ?op = "Builtin r" and ?u = "blocked (x # xs)"
  let ?f = "builtin_combine ?d r" and ?v = "last (local_scan ?d ?op x xs)" and ?e = "builtin_identity ?d r"
  have f: "assoc_op (combine ?d ?op)" "closed_op ok (combine ?d ?op)"
    using builtin_assoc [OF legal] builtin_closed [OF legal] by simp_all
  have g: "is_pow2 (sc_width c)" "sc_width c \<le> warp_size (sc_target c)" "0 < sc_warps c"
    "sc_threads c = sc_width c * sc_warps c"
    using geometry [OF legal] by (simp_all add: block_geometry_def)
  have v: "ok (?v l)" for l by (rule local_scan_ok [OF f(2)]) (rule items)
  obtain prefix aggregate where p:
    "prefix_warp_scans_full ?d (op_aggregate (sc_ops c)) ?op (sc_width c) (sc_warps c) (ss_slots st) ?v = Inr (prefix, aggregate)"
    "\<And>t. t < sc_threads c \<Longrightarrow> prefix t = (if t = 0 then ?e else seg ?f (\<lambda>t. ?v t) 0 (t - 1))"
    "\<And>t. t < sc_threads c \<Longrightarrow> aggregate t = seg ?f (\<lambda>t. ?v t) 0 (sc_threads c - 1)"
    using prefix_warp_scans_full_correct [where v = ?v and r = r and slots = "ss_slots st", OF legal g(1-3) v]
    unfolding g(4) by blast
  define sp where "sp = seed ?d ?op init prefix"
  define out where "out = (if inclusive then map (\<lambda>head t. combine ?d ?op (sp t) (head t)) (local_scan ?d ?op x xs)
      else sp # map (\<lambda>head t. combine ?d ?op (sp t) (head t)) (butlast (local_scan ?d ?op x xs)))"
  have "block_scan_full c ?op st inclusive init tile (x # xs) = Inr (pack_tile tile out, aggregate)"
    unfolding block_scan_full_def Let_def list.sel p(1) rbind_simps prod.case sp_def [symmetric] out_def by simp
  moreover have "aggregate t = seg ?f ?u 0 (sc_threads c * Suc (length xs) - 1)" if "t < sc_threads c" for t
    using p(3) [OF that] local_scan_prefix [OF f(1) block_threads_pos [OF legal], of x xs] by simp
  moreover have "scan_spec (combine ?d ?op) init (Some ?e) ?u inclusive (Suc (length xs)) out t" if t: "t < sc_threads c" for t
  proof (rule scan_output [OF f(1) _ _ _ _ out_def])
    show "sp t = seeded (combine ?d ?op) init ?u t (t * Suc (length xs) - 1)" if "0 < t"
      using p(2) [OF t] that local_scan_prefix [OF f(1) that, of x xs] by (simp add: sp_def seed_def seeded_def split: option.splits)
    have sp0: "sp 0 = (case init of None \<Rightarrow> ?e | Some s \<Rightarrow> s 0)"
      using p(2) [OF block_threads_pos [OF legal]] builtin_neutral(2) [OF legal init]
      by (auto simp: sp_def seed_def split: option.splits)
    then show "\<forall>e. first_value init (Some ?e) = Some e \<longrightarrow> sp 0 = e"
      by (simp add: first_value_def split: option.splits)
    fix i assume i: "t = 0" "i \<le> length xs"
    have l: "(local_scan ?d ?op x xs ! i) 0 = seg ?f ?u 0 i" using local_scan_seg [of i x xs ?d ?op 0] i(2) by simp
    have "ok (?u j)" for j
      using items [of "(x # xs) ! (j mod length (x # xs))"] nth_mem [of "j mod length (x # xs)" "x # xs"]
      by (simp only: blocked_def) simp
    then have "ok (seg ?f ?u 0 i)" by (intro seg_ok [OF builtin_closed [OF legal]])
    then show "combine ?d ?op (sp 0) ((local_scan ?d ?op x xs ! i) 0) = seeded (combine ?d ?op) init ?u 0 i"
      using builtin_neutral(1) [OF legal] by (simp add: sp0 l seeded_def split: option.splits)
  qed simp
  ultimately show ?thesis by auto
qed

end

context block_scan_ops
begin

text \<open>The entry point without a valid count, for every algorithm and every combination of options.\<close>

lemma block_scan_correct:
  assumes legal: legal and f: "assoc_op (combine (sc_dtype c) op)" "closed_op ok (combine (sc_dtype c) op)"
    and tile: "tile_list tile = Inr items" "\<forall>i \<in> set items. \<forall>l. ok (i l)"
    and one: "callback = None \<or> init = None" and init: "\<forall>s t. init = Some s \<longrightarrow> ok (s t)"
    and neutral: "\<forall>e a. init = None \<and> callback = None \<and> optional_identity (sc_dtype c) op explicit = Some e
      \<and> ok a \<longrightarrow> combine (sc_dtype c) op e a = a"
  shows "\<exists>out aggregate. block_scan c op st inclusive init explicit None callback tile = Inr (pack_tile tile out, aggregate)
    \<and> (\<forall>t < sc_threads c. aggregate t = seg (combine (sc_dtype c) op) (blocked items) 0 (sc_threads c * length items - 1)
      \<and> scan_spec (combine (sc_dtype c) op) (case callback of None \<Rightarrow> init | Some cb \<Rightarrow> Some (\<lambda>_. cb aggregate 0))
          (optional_identity (sc_dtype c) op explicit) (blocked items) inclusive (length items) out t)"
proof -
  obtain x xs where xs: "items = x # xs" using tile(1) by (cases items) (auto simp: tile_list_def split: tile.splits if_splits)
  have v: "validate_scalar_valid_items tile None (sc_threads c) = Inr ()" by (cases tile) simp_all
  note items = tile(2) [unfolded xs]
  show ?thesis
  proof (cases "sc_algorithm c = WARP_SCANS \<and> is_builtin op \<and> explicit = None \<and> callback = None")
    case True
    then obtain r where r: "op = Builtin r" by (cases op) simp_all
    have e: "optional_identity (sc_dtype c) (Builtin r) None = Some (builtin_identity (sc_dtype c) r)"
      by (simp add: optional_identity_def)
    show ?thesis
      using True one v tile(1) block_scan_full_correct [where x = x and xs = xs and init = init and r = r and
          st = st and inclusive = inclusive and tile = tile, OF legal items init]
      by (simp add: block_scan_def r e xs)
  next
    case False
    then have "\<not> (sc_algorithm c = WARP_SCANS \<and> is_builtin op \<and> None = None \<and> explicit = None \<and> callback = None)"
      by simp
    then have "block_scan c op st inclusive init explicit None callback tile
        = block_scan_general c op st inclusive init (optional_identity (sc_dtype c) op explicit) callback tile (x # xs)"
      unfolding block_scan_def Let_def v tile(1) xs rbind_simps using one by (simp only: if_False option.case) auto
    then show ?thesis
      using block_scan_general_correct [where x = x and xs = xs and init = init and op = op and
          st = st and inclusive = inclusive and tile = tile and callback = callback and
          neutral = "optional_identity (sc_dtype c) op explicit", OF legal f items neutral]
      unfolding xs list.size by simp
  qed
qed

text \<open>With a valid count the invalid threads contribute the identity.\<close>

lemma block_scan_valid_correct:
  assumes legal: legal and f: "assoc_op (combine (sc_dtype c) op)" "closed_op ok (combine (sc_dtype c) op)"
    and v: "\<And>l. ok (v l)" and n: "validate_valid_items (Some n) (sc_threads c) = Inr ()"
    and e: "identity (sc_dtype c) op explicit = Inr e" "ok e" and one: "callback = None \<or> init = None"
    and neutral: "\<And>a. ok a \<Longrightarrow> combine (sc_dtype c) op e a = a"
  shows "\<exists>out aggregate. block_scan c op st inclusive init explicit (Some n) callback (Item v) = Inr (Item out, aggregate)
    \<and> (\<forall>t < sc_threads c. aggregate t = seg (combine (sc_dtype c) op) (\<lambda>t. if int t < count_value n then v t else e) 0 (sc_threads c - 1)
      \<and> scan_spec (combine (sc_dtype c) op) (case callback of None \<Rightarrow> init | Some cb \<Rightarrow> Some (\<lambda>_. cb aggregate 0))
          (Some e) (\<lambda>t. if int t < count_value n then v t else e) inclusive 1 [out] t)"
proof -
  let ?x = "select_value (\<lambda>t. int t < count_value n) v (\<lambda>_. e)"
  have x: "blocked [?x] = (\<lambda>t. if int t < count_value n then v t else e)"
    by (simp add: blocked_def select_value_def fun_eq_iff)
  have ok: "\<forall>i \<in> set [?x]. \<forall>l. ok (i l)" using v e(2) by (simp add: select_value_def)
  have neutral': "\<forall>e' a. init = None \<and> callback = None \<and> Some e = Some e' \<and> ok a \<longrightarrow> combine (sc_dtype c) op e' a = a"
    using neutral by blast
  obtain out aggregate where o: "block_scan_general c op st inclusive init (Some e) callback (Item v) [?x]
      = Inr (pack_tile (Item v) out, aggregate)"
    "\<And>t. t < sc_threads c \<Longrightarrow> aggregate t = seg (combine (sc_dtype c) op) (blocked [?x]) 0 (sc_threads c * 1 - 1)"
    "\<And>t. t < sc_threads c \<Longrightarrow> scan_spec (combine (sc_dtype c) op) (case callback of None \<Rightarrow> init | Some cb \<Rightarrow> Some (\<lambda>_. cb aggregate 0))
          (Some e) (blocked [?x]) inclusive 1 out t"
    using block_scan_general_correct [where x = ?x and xs = "[]" and init = init and op = op and
          st = st and inclusive = inclusive and tile = "Item v" and callback = callback and
          neutral = "Some e", OF legal f ok neutral']
    by auto
  have "length out = 1" using o(3) [OF block_threads_pos [OF legal]] by (simp add: scan_spec_def)
  then obtain y where y: "out = [y]" by (cases out) simp_all
  have "block_scan c op st inclusive init explicit (Some n) callback (Item v) = Inr (Item y, aggregate)"
    using n one e(1) o(1) by (simp add: block_scan_def tile_list_def pack_tile_def y)
  then show ?thesis using o(2,3) unfolding x y by simp
qed

end

end
