(* ===== verification/Warp_Reduce.thy ===== *)
theory Warp_Reduce
  imports Warp_Scan
begin

text \<open>
  The portable warp reductions of \<open>flydsl/extension/coop/warp/reduce.py\<close>: the butterfly for
  built-in operators, the ordered scan for callables, the guarded reduction of a valid prefix
  and the segmented reductions.
\<close>

section \<open>Definitions\<close>

text \<open>The number of valid lanes is a value of the kernel: groups may have different ones.\<close>

definition reduce_valid ::
  "target \<Rightarrow> 'a dtype \<Rightarrow> 'a lanes \<Rightarrow> 'a operator \<Rightarrow> nat \<Rightarrow> int lanes \<Rightarrow> 'a lanes" where
  "reduce_valid tg d value op w valid_items =
     (let partial = fold (\<lambda>stage partial.
            let other = shuffle_value tg d partial (\<lambda>_. 2 ^ stage) w Up
            in (\<lambda>l. if int (l mod w) < valid_items l \<and> l mod w \<ge> 2 ^ stage
                   then combine d op (other l) (partial l) else partial l))
          [0..<bit_length w - 1] value;
          last = (\<lambda>l. if valid_items l > 0 then valid_items l - 1 else 0)
      in shuffle_value tg d partial (\<lambda>l. int (group_base w l) + last l) w Idx)"

text \<open>The fold of one lane's items, in every lane.\<close>

fun tile_partial :: "'a dtype \<Rightarrow> 'a operator \<Rightarrow> 'a lanes tile \<Rightarrow> 'a lanes res" where
  "tile_partial d op (Item v) = Inr v"
| "tile_partial d op (Items []) = Inl ValueError"
| "tile_partial d op (Items (x # xs)) = Inr (\<lambda>l. foldl (\<lambda>a y. combine d op a (y l)) (x l) xs)"

definition segmented_round ::
  "target \<Rightarrow> 'a dtype \<Rightarrow> 'a operator \<Rightarrow> nat \<Rightarrow> nat \<Rightarrow> 'a lanes \<times> bool lanes \<Rightarrow> 'a lanes \<times> bool lanes" where
  "segmented_round tg d op w stage = (\<lambda>(value, ended).
     let offset = 2 ^ stage;
         other = shuffle_value tg d value (\<lambda>_. int offset) w Down;
         other_end = shuffle_down tg ended (int offset) w;
         take = (\<lambda>l. \<not> ended l \<and> l mod w + offset < w)
     in (\<lambda>l. if take l then combine d op (value l) (other l) else value l,
         select_value take other_end ended))"

definition segmented_reduce ::
  "target \<Rightarrow> 'a dtype \<Rightarrow> 'a lanes tile \<Rightarrow> bool lanes \<Rightarrow> 'a operator \<Rightarrow> nat \<Rightarrow> 'a lanes res" where
  "segmented_reduce tg d value tail_flag op w =
     rbind (tile_partial d op value) (\<lambda>v.
       Inr (fst (fold (segmented_round tg d op w) [0..<bit_length w - 1]
         (v, \<lambda>l. tail_flag l \<or> l mod w = w - 1))))"

text \<open>The butterfly loop at \<open>offset = 2 ^ k\<close>.\<close>

function butterfly_from ::
  "target \<Rightarrow> 'a dtype \<Rightarrow> 'a operator \<Rightarrow> nat \<Rightarrow> nat \<Rightarrow> 'a lanes \<Rightarrow> 'a lanes" where
  "butterfly_from tg d op w k value =
     (if 2 ^ k < w then
        butterfly_from tg d op w (Suc k)
          (\<lambda>l. combine d op (value l) (shuffle_value tg d value (\<lambda>_. 2 ^ k) w Xor l))
      else value)"
  by pat_completeness auto
termination
proof (relation "measure (\<lambda>(tg, d, op, w, k, value). w - k)", goal_cases)
  case (2 tg d op w k v)
  have "k < 2 ^ k" by (rule less_exp)
  with 2(1) have "k < w" by (rule less_trans [rotated])
  then show ?case by simp
qed simp

declare butterfly_from.simps [simp del]

definition warp_reduce ::
  "target \<Rightarrow> 'a dtype \<Rightarrow> 'a operator \<Rightarrow> int option \<Rightarrow> count option \<Rightarrow> 'a lanes tile \<Rightarrow> 'a lanes res" where
  "warp_reduce tg d op width valid_items value =
     rbind (resolve_warp_width tg width) (\<lambda>w.
     rbind (validate_valid_items valid_items w) (\<lambda>_.
       case valid_items of
         Some n \<Rightarrow> (case value of Items _ \<Rightarrow> Inl TypeError
           | Item v \<Rightarrow> Inr (reduce_valid tg d v op w (\<lambda>_. count_value n)))
       | None \<Rightarrow> rbind (tile_partial d op value) (\<lambda>v.
           if is_builtin op then Inr (butterfly_from tg d op w 0 v)
           else
             let raw = hillis_steele tg d v op w
             in Inr (shuffle_value tg d raw (\<lambda>l. int (group_base w l) + int w - 1) w Idx))))"

text \<open>The call with a run-time count that differs between the groups, which is not checked.\<close>

definition warp_reduce_runtime ::
  "target \<Rightarrow> 'a dtype \<Rightarrow> 'a operator \<Rightarrow> int option \<Rightarrow> int lanes \<Rightarrow> 'a lanes \<Rightarrow> 'a lanes res" where
  "warp_reduce_runtime tg d op width active v =
     rbind (resolve_warp_width tg width) (\<lambda>w. Inr (reduce_valid tg d v op w active))"

definition warp_tail_segmented_reduce ::
  "target \<Rightarrow> 'a dtype \<Rightarrow> 'a operator \<Rightarrow> int option \<Rightarrow> bool lanes \<Rightarrow> 'a lanes tile \<Rightarrow> 'a lanes res" where
  "warp_tail_segmented_reduce tg d op width tail_flag value =
     rbind (resolve_warp_width tg width) (\<lambda>w. segmented_reduce tg d value tail_flag op w)"

definition warp_head_segmented_reduce ::
  "target \<Rightarrow> 'a dtype \<Rightarrow> 'a operator \<Rightarrow> int option \<Rightarrow> bool lanes \<Rightarrow> 'a lanes tile \<Rightarrow> 'a lanes res" where
  "warp_head_segmented_reduce tg d op width head_flag value =
     rbind (resolve_warp_width tg width) (\<lambda>w.
       segmented_reduce tg d value (shuffle_down tg head_flag 1 w) op w)"

section \<open>The butterfly\<close>

text \<open>The fold of block \<open>q\<close> of \<open>2 ^ k\<close> lanes.\<close>

definition block_fold :: "('a \<Rightarrow> 'a \<Rightarrow> 'a) \<Rightarrow> 'a lanes \<Rightarrow> nat \<Rightarrow> nat \<Rightarrow> 'a" where
  "block_fold f v k q = seg f v (q * 2 ^ k) (2 ^ k - 1)"

lemma block_fold_Suc:
  assumes "assoc_op f"
  shows "block_fold f v (Suc k) q = f (block_fold f v k (2 * q)) (block_fold f v k (2 * q + 1))"
proof -
  have p: "0 < (2 ^ k :: nat)" by simp
  have "f (seg f v (2 * q * 2 ^ k) (2 ^ k - 1)) (seg f v ((2 * q + 1) * 2 ^ k) (2 ^ k - 1))
      = seg f v (2 * q * 2 ^ k) (2 ^ Suc k - 1)"
  proof (rule seg_join' [OF assms])
    show "(2 * q + 1) * 2 ^ k = 2 * q * 2 ^ k + (2 ^ k - 1) + 1" using p by simp
    show "2 ^ Suc k - 1 = 2 ^ k - 1 + (2 ^ k - 1) + (1::nat)"
      using p unfolding power_Suc by linarith
  qed
  then show ?thesis by (simp add: block_fold_def mult.assoc mult.left_commute)
qed

lemma xor_pow2_nat: "xor l (2 ^ k) = (if odd (l div 2 ^ k) then l - 2 ^ k else l + 2 ^ k)" for l :: nat
proof -
  have "int l div 2 ^ k = int (l div 2 ^ k)" unfolding zdiv_int by simp
  then have o: "odd (l div 2 ^ k) \<longleftrightarrow> bit (int l) k" unfolding bit_iff_odd by (metis even_of_nat_iff)
  have "int (xor l (2 ^ k)) = flip_bit k (int l)"
    by (simp add: of_nat_xor_eq flip_bit_eq_xor push_bit_eq_mult)
  also have "\<dots> = (if odd (l div 2 ^ k) then int l - 2 ^ k else int l + 2 ^ k)"
    by (simp add: flip_bit_eq_if unset_bit_eq set_bit_eq o)
  finally have x: "int (xor l (2 ^ k)) = (if odd (l div 2 ^ k) then int l - 2 ^ k else int l + 2 ^ k)" .
  show ?thesis
  proof (cases "odd (l div 2 ^ k)")
    case True
    then have "int (xor l (2 ^ k)) = int l - int (2 ^ k)" using x by simp
    from arg_cong [OF this, of nat] show ?thesis using True by (simp only: nat_int nat_minus_as_int if_True simp_thms)
  next
    case False
    then have "int (xor l (2 ^ k)) = int (l + 2 ^ k)" using x by simp
    then show ?thesis using False by (simp only: of_nat_eq_iff if_False)
  qed
qed

lemma xor_pow2_div:
  "xor l (2 ^ k) div 2 ^ k = (if odd (l div 2 ^ k) then l div 2 ^ k - 1 else l div 2 ^ k + 1)" for l :: nat
proof (cases "odd (l div 2 ^ k)")
  case True
  then have "2 ^ k \<le> l" by (metis div_less even_zero linorder_not_less)
  then have "l div 2 ^ k = Suc ((l - 2 ^ k) div 2 ^ k)" by (simp add: le_div_geq)
  then show ?thesis using True by (simp add: xor_pow2_nat)
next
  case False
  have "(l + 2 ^ k) div 2 ^ k = l div 2 ^ k + 1" by (rule div_add_self2) simp
  then show ?thesis using False by (simp add: xor_pow2_nat)
qed

lemma butterfly_round:
  assumes "assoc_op f" "comm_op f"
  shows "f (block_fold f v k (l div 2 ^ k)) (block_fold f v k (xor l (2 ^ k) div 2 ^ k))
    = block_fold f v (Suc k) (l div 2 ^ Suc k)"
proof -
  let ?q = "l div 2 ^ k"
  have h: "l div 2 ^ Suc k = ?q div 2" by (metis div_mult2_eq mult.commute power_Suc)
  show ?thesis
  proof (cases "odd ?q")
    case True
    then have q: "?q = 2 * (?q div 2) + 1" by simp
    then have "xor l (2 ^ k) div 2 ^ k = 2 * (?q div 2)" using True by (simp add: xor_pow2_div)
    then show ?thesis
      using q comm_opD [OF assms(2)] by (metis h block_fold_Suc [OF assms(1)])
  next
    case False
    then have q: "?q = 2 * (?q div 2)" by simp
    then have "xor l (2 ^ k) div 2 ^ k = 2 * (?q div 2) + 1" using False by (simp add: xor_pow2_div)
    then show ?thesis using q by (metis h block_fold_Suc [OF assms(1)])
  qed
qed

lemma butterfly_from_correct:
  assumes law: "shuffle_law (lane_src tg)" and f: "assoc_op (combine d op)" "comm_op (combine d op)"
    and w: "w = 2 ^ K" and k: "k \<le> K"
  shows "butterfly_from tg d op w k (\<lambda>l. block_fold (combine d op) v k (l div 2 ^ k))
    = (\<lambda>l. block_fold (combine d op) v K (l div 2 ^ K))"
  using k
proof (induction "K - k" arbitrary: k)
  case 0
  then show ?case by (simp add: butterfly_from.simps w)
next
  case (Suc n)
  then have k: "k < K" by simp
  then have k': "2 ^ k < w" by (simp add: w)
  let ?u = "\<lambda>l. block_fold (combine d op) v k (l div 2 ^ k)"
  have "shuffle_value tg d ?u (\<lambda>_. 2 ^ k) w Xor l = ?u (xor l (2 ^ k))" for l
    using shuffle_value_xor [OF law _ k', of d ?u l] w by simp
  then have step: "combine d op (?u l) (shuffle_value tg d ?u (\<lambda>_. 2 ^ k) w Xor l)
      = block_fold (combine d op) v (Suc k) (l div 2 ^ Suc k)" for l
    using butterfly_round [OF f, of v k l] by simp
  have "butterfly_from tg d op w k ?u = butterfly_from tg d op w (Suc k)
      (\<lambda>l. block_fold (combine d op) v (Suc k) (l div 2 ^ Suc k))"
    using k' by (subst butterfly_from.simps) (simp only: if_True step)
  also have "\<dots> = (\<lambda>l. block_fold (combine d op) v K (l div 2 ^ K))"
    using Suc.hyps k by (intro Suc.hyps(1)) simp_all
  finally show ?case .
qed

lemma butterfly_correct:
  assumes "shuffle_law (lane_src tg)" "assoc_op (combine d op)" "comm_op (combine d op)" "is_pow2 w"
  shows "butterfly_from tg d op w 0 v = group_fold (combine d op) v w"
proof -
  obtain K where w: "w = 2 ^ K" using assms(4) by (auto simp: is_pow2_def)
  have "(\<lambda>l. block_fold (combine d op) v 0 (l div 2 ^ 0)) = v" by (simp add: block_fold_def)
  then show ?thesis
    using butterfly_from_correct [OF assms(1-3) w, of 0 v]
    by (simp add: block_fold_def group_fold_def group_base_def w fun_eq_iff)
qed

section \<open>Segments\<close>

text \<open>How many lanes follow lane \<open>l\<close> in its segment: up to the next flag or the end of the group.\<close>

function tail_dist :: "bool lanes \<Rightarrow> nat \<Rightarrow> nat \<Rightarrow> nat" where
  "tail_dist fl w l = (if w = 0 \<or> fl l \<or> l mod w = w - 1 then 0 else Suc (tail_dist fl w (Suc l)))"
  by pat_completeness auto
termination
proof (relation "measure (\<lambda>(fl, w, l). w - l mod w)", goal_cases)
  case (2 fl w l)
  then have "l mod w < w - 1" using mod_less_divisor [of w l] by linarith
  then have "l mod w + 1 < w" by simp
  from group_add(2) [OF this] show ?case using \<open>l mod w < w - 1\<close> by simp
qed simp

declare tail_dist.simps [simp del]

lemma tail_dist_bound: "0 < w \<Longrightarrow> l mod w + tail_dist fl w l < w"
proof (induction fl w l rule: tail_dist.induct)
  case (1 fl w l)
  show ?case
  proof (cases "fl l \<or> l mod w = w - 1")
    case True
    then show ?thesis using "1.prems" by (simp add: tail_dist.simps)
  next
    case False
    then have "l mod w + 1 < w" using mod_less_divisor [OF "1.prems", of l] by linarith
    from group_add(2) [OF this] have "Suc l mod w = l mod w + 1" by simp
    then show ?thesis using "1.IH" "1.prems" False by (subst tail_dist.simps) auto
  qed
qed

lemma tail_dist_add:
  assumes "0 < w" "n \<le> tail_dist fl w l"
  shows "tail_dist fl w (l + n) = tail_dist fl w l - n"
  using assms(2)
proof (induction n)
  case (Suc n)
  then have IH: "tail_dist fl w (l + n) = tail_dist fl w l - n" and pos: "0 < tail_dist fl w l - n" by simp_all
  then have "0 < tail_dist fl w (l + n)" by simp
  then have "tail_dist fl w (l + n) = Suc (tail_dist fl w (Suc (l + n)))"
    by (subst (asm) tail_dist.simps, subst tail_dist.simps) (auto split: if_splits)
  then show ?case using IH by simp
qed simp

lemma tail_dist_cong:
  assumes "0 < w" "\<And>i. i mod w \<noteq> w - 1 \<Longrightarrow> fl i = gl i"
  shows "tail_dist fl w l = tail_dist gl w l"
  using assms(2)
proof (induction fl w l rule: tail_dist.induct)
  case (1 fl w l)
  then show ?case by (subst tail_dist.simps, subst (2) tail_dist.simps) auto
qed

text \<open>State of the network after \<open>k\<close> rounds.\<close>

definition segment_inv ::
  "('a \<Rightarrow> 'a \<Rightarrow> 'a) \<Rightarrow> nat \<Rightarrow> bool lanes \<Rightarrow> 'a lanes \<Rightarrow> nat \<Rightarrow> 'a lanes \<times> bool lanes \<Rightarrow> bool" where
  "segment_inv f w fl v k s \<longleftrightarrow>
     (\<forall>l. fst s l = seg f v l (min (2 ^ k - 1) (tail_dist fl w l))
        \<and> (snd s l \<longleftrightarrow> tail_dist fl w l < 2 ^ k))"

lemma segment_round_inv:
  assumes law: "shuffle_law (lane_src tg)" and f: "assoc_op (combine d op)" and w: "0 < w"
    and inv: "segment_inv (combine d op) w fl v k s"
  shows "segment_inv (combine d op) w fl v (Suc k) (segmented_round tg d op w k s)"
  unfolding segment_inv_def
proof
  fix l
  let ?f = "combine d op" and ?o = "2 ^ k :: nat" and ?d = "tail_dist fl w l"
  obtain u e where s: "s = (u, e)" by (cases s)
  have u: "u l = seg ?f v l (min (2 ^ k - 1) (tail_dist fl w l))"
    and e: "e l \<longleftrightarrow> tail_dist fl w l < 2 ^ k" for l
    using inv by (simp_all add: segment_inv_def s)
  have o: "0 < ?o" by simp
  show "fst (segmented_round tg d op w k s) l = seg ?f v l (min (2 ^ Suc k - 1) ?d)
    \<and> (snd (segmented_round tg d op w k s) l \<longleftrightarrow> ?d < 2 ^ Suc k)"
  proof (cases "?d < ?o")
    case True
    then have "fst (segmented_round tg d op w k s) l = u l" "snd (segmented_round tg d op w k s) l"
      by (simp_all add: segmented_round_def s Let_def select_value_def e)
    moreover have "min (?o - 1) ?d = ?d" "min (2 ^ Suc k - 1) ?d = ?d"
      using True by (intro min_absorb2; simp)+
    ultimately show ?thesis using True by (simp add: u)
  next
    case False
    have inside: "l mod w + ?o < w" using tail_dist_bound [OF w, of l fl] False by linarith
    have d': "tail_dist fl w (l + ?o) = ?d - ?o" using False by (intro tail_dist_add [OF w]) simp
    have sv: "shuffle_value tg d u (\<lambda>_. int ?o) w Down l = u (l + ?o)"
      by (rule shuffle_value_down [OF law inside])
    have se: "shuffle_down tg e (int ?o) w l = e (l + ?o)"
      using law inside w unfolding shuffle_law_def shuffle_down_def shuffle_def by (simp del: of_nat_power)
    have "fst (segmented_round tg d op w k s) l = ?f (u l) (u (l + ?o))"
      using False inside sv by (simp add: segmented_round_def s Let_def e)
    also have "\<dots> = ?f (seg ?f v l (?o - 1)) (seg ?f v (l + ?o) (min (?o - 1) (?d - ?o)))"
    proof -
      have "min (?o - 1) ?d = ?o - 1" by (rule min_absorb1) (use False in linarith)
      then show ?thesis unfolding u [of l] u [of "l + ?o"] d' by simp
    qed
    also have "\<dots> = seg ?f v l (min (2 ^ Suc k - 1) ?d)"
      using False o by (intro seg_join' [OF f]) (auto simp: min_def)
    finally have 1: "fst (segmented_round tg d op w k s) l = seg ?f v l (min (2 ^ Suc k - 1) ?d)" .
    have "snd (segmented_round tg d op w k s) l \<longleftrightarrow> e (l + ?o)"
      using False inside se by (simp add: segmented_round_def s Let_def e select_value_def)
    also have "\<dots> \<longleftrightarrow> ?d < 2 ^ Suc k" using False by (simp add: e d' less_diff_conv2 mult_2)
    finally show ?thesis using 1 by blast
  qed
qed

lemma segmented_reduce_correct:
  assumes law: "shuffle_law (lane_src tg)" and f: "assoc_op (combine d op)" and w: "is_pow2 w"
    and v: "tile_partial d op value = Inr v"
  shows "segmented_reduce tg d value fl op w = Inr (\<lambda>l. seg (combine d op) v l (tail_dist fl w l))"
proof -
  obtain K where K: "w = 2 ^ K" using w by (auto simp: is_pow2_def)
  have w0: "0 < w" using w by (rule is_pow2_pos)
  let ?s0 = "(v, \<lambda>l. fl l \<or> l mod w = w - 1)"
  have "segment_inv (combine d op) w fl v 0 ?s0"
    using w0 by (auto simp: segment_inv_def tail_dist.simps)
  then have inv: "segment_inv (combine d op) w fl v k (fold (segmented_round tg d op w) [0..<k] ?s0)" for k
    by (induction k) (auto intro: segment_round_inv [OF law f w0])
  have "min (2 ^ K - 1) (tail_dist fl w l) = tail_dist fl w l" for l
    using tail_dist_bound [OF w0, of l fl] unfolding K by (intro min_absorb2) linarith
  then have "fst (fold (segmented_round tg d op w) [0..<K] ?s0) = (\<lambda>l. seg (combine d op) v l (tail_dist fl w l))"
    using inv [of K] by (simp add: segment_inv_def fun_eq_iff)
  then show ?thesis by (simp add: segmented_reduce_def v K)
qed

section \<open>Valid prefixes\<close>

text \<open>A count that is the same for the lanes of a group acts on the group like that one count.\<close>

lemma reduce_rounds_local:
  fixes d :: "'a dtype" and op :: "'a operator"
  assumes law: "shuffle_law (lane_src tg)" and w: "0 < w" and same: "\<And>i j. i div w = j div w \<Longrightarrow> n i = n j"
  defines "A \<equiv> \<lambda>stage u. let other = shuffle_value tg d u (\<lambda>_. 2 ^ stage) w Up
      in (\<lambda>l. if int (l mod w) < n l \<and> l mod w \<ge> 2 ^ stage then combine d op (other l) (u l) else u l)"
    and "B \<equiv> \<lambda>m stage u. let other = shuffle_value tg d u (\<lambda>_. 2 ^ stage) w Up
      in (\<lambda>l. if int (l mod w) < m \<and> l mod w \<ge> 2 ^ stage then combine d op (other l) (u l) else u l)"
  shows "fold A [0..<k] v l = fold (B (n l)) [0..<k] v l"
proof (induction k arbitrary: l)
  case (Suc k)
  let ?a = "fold A [0..<k] v" and ?b = "fold (B (n l)) [0..<k] v"
  have up: "shuffle_value tg d u (\<lambda>_. 2 ^ k) w Up l = u (l - 2 ^ k)" if "2 ^ k \<le> l mod w" for u
    using shuffle_value_up [OF law w that, of d u] by simp
  have "?a (l - 2 ^ k) = ?b (l - 2 ^ k)" if "2 ^ k \<le> l mod w"
    using Suc [of "l - 2 ^ k"] same [of "l - 2 ^ k" l] group_sub(1) [OF w that] by simp
  then show ?case using Suc [of l] up by (auto simp: A_def B_def Let_def)
qed simp

lemma reduce_valid_correct:
  assumes law: "shuffle_law (lane_src tg)" and f: "assoc_op (combine d op)" and w: "is_pow2 w"
    and same: "\<And>i j. i div w = j div w \<Longrightarrow> n i = n j" and n: "0 < n l" "n l \<le> int w"
  shows "reduce_valid tg d v op w n l = seg (combine d op) v (group_base w l) (nat (n l) - 1)"
proof -
  have p: "0 < w" using w by (rule is_pow2_pos)
  let ?partial = "fold (\<lambda>stage partial. let other = shuffle_value tg d partial (\<lambda>_. 2 ^ stage) w Up
      in (\<lambda>l. if int (l mod w) < n l \<and> l mod w \<ge> 2 ^ stage then combine d op (other l) (partial l) else partial l))
      [0..<bit_length w - 1] v"
  have local: "?partial i = scan_valid tg d v op w (n i) i" for i
    unfolding scan_valid_def by (rule reduce_rounds_local [OF law p same])
  have r: "nat (n l - 1) = nat (n l) - 1" "nat (n l) - 1 < w" "int (nat (n l) - 1) < n l" using n by auto
  let ?i = "group_base w l + (nat (n l) - 1)"
  have base: "int (group_base w l) + (n l - 1) = int ?i" using n(1) by simp
  have "reduce_valid tg d v op w n l = ?partial ?i"
  proof -
    have "reduce_valid tg d v op w n l = shuffle_value tg d ?partial (\<lambda>l. int (group_base w l) + (if n l > 0 then n l - 1 else 0)) w Idx l"
      by (simp add: reduce_valid_def Let_def)
    also have "\<dots> = shuffle_value tg d ?partial (\<lambda>i. int (group_base w i) + (n l - 1)) w Idx l"
      using n(1) by (simp add: shuffle_value_def shuffle_idx_def shuffle_def)
    also have "\<dots> = ?partial (group_base w l + nat (n l - 1))"
      by (rule shuffle_value_idx_base [OF law]) (use n in simp_all)
    finally show ?thesis unfolding r(1) .
  qed
  also have "\<dots> = scan_valid tg d v op w (n ?i) ?i" by (rule local)
  also have "n ?i = n l" using group_member(1) [OF r(2), of l] by (rule same)
  also have "scan_valid tg d v op w (n l) ?i = prefix_fold (combine d op) v w ?i"
    unfolding scan_valid_correct [OF law f w] using group_member(2) [OF r(2), of l] r(3) by simp
  finally show ?thesis using group_member(2,3) [OF r(2), of l] by (simp add: prefix_fold_def)
qed

section \<open>Properties\<close>

text \<open>The items of a tile in blocked order, and the fold of a whole group of them.\<close>

fun tile_items :: "'a lanes tile \<Rightarrow> 'a lanes list" where
  "tile_items (Item v) = [v]"
| "tile_items (Items vs) = vs"

definition tile_total :: "('a \<Rightarrow> 'a \<Rightarrow> 'a) \<Rightarrow> 'a lanes tile \<Rightarrow> nat \<Rightarrow> 'a lanes" where
  "tile_total f t w l = seg f (blocked (tile_items t)) (group_base w l * length (tile_items t))
     (w * length (tile_items t) - 1)"

lemma foldl_eq_seg: "foldl (\<lambda>a y. f a (y l)) (x l) xs = seg f (\<lambda>j. ((x # xs) ! j) l) 0 (length xs)"
  using foldl_seg [of "length xs" xs f l x] by simp

lemma tile_partial_total:
  assumes "assoc_op (combine d op)" "0 < w" "tile_items t \<noteq> []"
  shows "\<exists>v. tile_partial d op t = Inr v \<and> group_fold (combine d op) v w = tile_total (combine d op) t w"
proof -
  let ?f = "combine d op"
  obtain x xs where xs: "tile_items t = x # xs" using assms(3) by (cases "tile_items t") auto
  let ?v = "\<lambda>l. foldl (\<lambda>a y. ?f a (y l)) (x l) xs" and ?n = "length (x # xs)"
  have v: "?v = (\<lambda>l. seg ?f (blocked (x # xs)) (l * ?n) (?n - 1))"
  proof
    fix l
    have "?v l = seg ?f (\<lambda>j. blocked (x # xs) (l * ?n + j)) 0 (length xs)"
      unfolding foldl_eq_seg
    proof (rule seg_cong)
      fix j assume "j \<le> 0 + length xs"
      then show "((x # xs) ! j) l = blocked (x # xs) (l * ?n + j)"
        using blocked_nth [of j "x # xs" l] by simp
    qed
    then show "?v l = seg ?f (blocked (x # xs)) (l * ?n) (?n - 1)" by (simp add: seg_map_shift)
  qed
  have "(w - 1) * ?n + (?n - 1) = w * ?n - 1" using assms(2) by (cases w) simp_all
  then have "group_fold ?f ?v w = tile_total ?f t w"
    using seg_blocks [OF assms(1), of ?n "blocked (x # xs)"]
    unfolding v by (simp add: group_fold_def tile_total_def xs fun_eq_iff)
  moreover have "tile_partial d op t = Inr ?v" using xs by (cases t) simp_all
  ultimately show ?thesis by blast
qed

lemma warp_reduce_total:
  assumes "shuffle_law (lane_src tg)" "is_pow2 (warp_size tg)" "assoc_op (combine d op)"
    and "is_builtin op \<Longrightarrow> comm_op (combine d op)"
    and w: "resolve_warp_width tg width = Inr w" and t: "tile_items t \<noteq> []"
  shows "warp_reduce tg d op width None t = Inr (tile_total (combine d op) t w)"
proof -
  have p: "is_pow2 w" "0 < w" using resolve_warp_width_pow2(1) [OF w assms(2)] is_pow2_pos by blast+
  obtain v where v: "tile_partial d op t = Inr v" "group_fold (combine d op) v w = tile_total (combine d op) t w"
    using tile_partial_total [OF assms(3) p(2) t] by blast
  have last: "shuffle_value tg d (prefix_fold (combine d op) v w) (\<lambda>l. int (group_base w l) + int w - 1) w Idx
      = group_fold (combine d op) v w"
  proof
    fix l
    have "shuffle_value tg d (prefix_fold (combine d op) v w) (\<lambda>l. int (group_base w l) + (int w - 1)) w Idx l
        = prefix_fold (combine d op) v w (group_base w l + (w - 1))"
      using shuffle_value_idx_base [OF assms(1), of "int w - 1" w d _ l] p(2) by (simp add: nat_diff_distrib)
    then show "shuffle_value tg d (prefix_fold (combine d op) v w) (\<lambda>l. int (group_base w l) + int w - 1) w Idx l
        = group_fold (combine d op) v w l"
      using prefix_fold_last [OF p(2)] by (simp add: add_diff_eq del: One_nat_def)
  qed
  show ?thesis
  proof (cases "is_builtin op")
    case True
    then show ?thesis
      using w v butterfly_correct [OF assms(1,3) assms(4) [OF True] p(1), of v] by (simp add: warp_reduce_def)
  next
    case False
    then show ?thesis
      using w v last hillis_steele_correct [OF assms(1,3) p(1), of v] by (simp add: warp_reduce_def Let_def)
  qed
qed

text \<open>
  C16: \<open>warp_reduce\<close> of a full tile: every lane of a group receives the ordered fold of all the
  group's items, whichever network is used: the butterfly for a built-in operator of an integer
  type, the scan and broadcast for any associative (not necessarily commutative) callable.
\<close>

theorem warp_reduce_correct:
  assumes "shuffle_law (lane_src tg)" "is_pow2 (warp_size tg)" "assoc_op (combine d op)"
    and "is_builtin op \<Longrightarrow> comm_op (combine d op)"
    and w: "resolve_warp_width tg width = Inr w" and t: "tile_items t \<noteq> []"
  shows "warp_reduce tg d op width None t = Inr (tile_total (combine d op) t w)"
  using assms by (rule warp_reduce_total)

theorem warp_reduce_correct_witness:
  "warp_reduce demo_target (num_dtype int32) (Builtin ADD) (Some 4) None (Items [int, \<lambda>_. 10])
     = Inr (tile_total (num_combine int32 ADD) (Items [int, \<lambda>_. 10]) 4)
   \<and> tile_total (num_combine int32 ADD) (Items [int, \<lambda>_. 10]) 4 5 = 62"
proof -
  have "tile_total (num_combine int32 ADD) (Items [int, \<lambda>_. 10]) 4 5 = 62" by code_simp
  then show ?thesis
    using warp_reduce_correct [of demo_target "num_dtype int32" "Builtin ADD" "Some 4" 4 "Items [int, \<lambda>_. 10]"]
    by (simp add: comm_num_combine)
qed

text \<open>
  With \<open>valid_items = n > 0\<close> every lane receives the fold of the first \<open>n\<close> lanes of its group, and
  item ranges are rejected with a type error.
\<close>

theorem warp_reduce_valid_prefix:
  assumes "shuffle_law (lane_src tg)" "is_pow2 (warp_size tg)" "assoc_op (combine d op)"
    and w: "resolve_warp_width tg width = Inr w"
    and n: "validate_valid_items (Some n) w = Inr ()" "0 < count_value n" "count_value n \<le> int w"
  shows "warp_reduce tg d op width (Some n) (Item v)
      = Inr (\<lambda>l. seg (combine d op) v (group_base w l) (nat (count_value n) - 1))
    \<and> warp_reduce tg d op width (Some n) (Items vs) = Inl TypeError"
proof -
  have p: "is_pow2 w" using resolve_warp_width_pow2(1) [OF w assms(2)] .
  show ?thesis
    using w n reduce_valid_correct [OF assms(1,3) p, of "\<lambda>_. count_value n"] by (simp add: warp_reduce_def fun_eq_iff)
qed

theorem warp_reduce_valid_prefix_witness:
  "warp_reduce demo_target (num_dtype int32) (Builtin ADD) (Some 4) (Some (Runtime 3)) (Item int)
     = Inr (\<lambda>l. seg (num_combine int32 ADD) int (group_base 4 l) 2)"
  using warp_reduce_valid_prefix [of demo_target "num_dtype int32" "Builtin ADD" "Some 4" 4 "Runtime 3" int]
  by (simp add: numeral_2_eq_2)

text \<open>
  C26: the segmented reductions give every lane the ordered fold from itself to the end of its
  segment: the next tail flag, or the lane before the next head flag, or the end of the group.
\<close>

theorem warp_segmented_reduce_correct:
  assumes "shuffle_law (lane_src tg)" "is_pow2 (warp_size tg)" "assoc_op (combine d op)"
    and w: "resolve_warp_width tg width = Inr w"
  shows "warp_tail_segmented_reduce tg d op width fl (Item v)
      = Inr (\<lambda>l. seg (combine d op) v l (tail_dist fl w l))
    \<and> warp_head_segmented_reduce tg d op width fl (Item v)
      = Inr (\<lambda>l. seg (combine d op) v l (tail_dist (\<lambda>k. fl (Suc k)) w l))"
proof -
  have p: "is_pow2 w" "0 < w" using resolve_warp_width_pow2(1) [OF w assms(2)] is_pow2_pos by blast+
  have flag: "shuffle_down tg fl 1 w i = fl (Suc i)" if "i mod w \<noteq> w - 1" for i
  proof -
    have "i mod w < w" using p(2) by simp
    then have "int (i mod w) + 1 < int w" using that by linarith
    then show ?thesis
      using assms(1) p(2) unfolding shuffle_law_def shuffle_down_def shuffle_def by simp
  qed
  have "tail_dist (shuffle_down tg fl 1 w) w l = tail_dist (\<lambda>k. fl (Suc k)) w l" for l
    using flag by (intro tail_dist_cong [OF p(2)])
  then show ?thesis
    using w segmented_reduce_correct [OF assms(1,3) p(1), of "Item v" v]
    by (simp add: warp_tail_segmented_reduce_def warp_head_segmented_reduce_def)
qed

theorem warp_segmented_reduce_correct_witness:
  "warp_tail_segmented_reduce demo_target (num_dtype int32) (Builtin ADD) (Some 4) (\<lambda>l. l = 1) (Item int)
     = Inr (\<lambda>l. seg (num_combine int32 ADD) int l (tail_dist (\<lambda>l. l = 1) 4 l))
   \<and> tail_dist (\<lambda>l. l = 1) 4 0 = 1 \<and> tail_dist (\<lambda>l. l = 1) 4 2 = 1"
  using warp_segmented_reduce_correct [of demo_target "num_dtype int32" "Builtin ADD" "Some 4" 4 "\<lambda>l. l = 1" int]
  by (simp add: tail_dist.simps)

end
