(* ===== verification/Warp_Rocdl.thy ===== *)
theory Warp_Rocdl
  imports Warp_Reduce
begin

text \<open>
  The ROCm overrides of the warp reductions and scans
  (\<open>flydsl/extension/coop/warp/rocdl.py\<close>): the same results as the portable networks, computed
  with DPP lane permutations, \<open>ds_swizzle\<close> and \<open>readlane\<close>.
\<close>

section \<open>The target's lane permutations\<close>

text \<open>
  The instructions are parameters of the model: \<open>dpp_src ctrl row_mask l\<close> is the lane a DPP move
  reads in lane \<open>l\<close>, or \<open>None\<close> where the move writes nothing and the old value stays;
  \<open>swizzle_src\<close> and \<open>readlane_src\<close> name the lane read by \<open>ds_swizzle_b32\<close> and \<open>v_readlane\<close>.
\<close>

record rocdl_target = target +
  arch_gfx9 :: bool
  dpp_src :: "nat \<Rightarrow> nat \<Rightarrow> nat \<Rightarrow> nat option"
  swizzle_src :: "nat \<Rightarrow> nat \<Rightarrow> nat"
  readlane_src :: "nat \<Rightarrow> nat \<Rightarrow> nat"

text \<open>DPP controls as the ISA encodes them.\<close>

definition ROW_SHR :: "nat \<Rightarrow> nat" where
  "ROW_SHR k = (if k = 1 then 0x111 else if k = 2 then 0x112 else if k = 4 then 0x114 else 0x118)"

definition WAVE_SHR1 :: nat where "WAVE_SHR1 = 0x138"
definition ROW_BCAST15 :: nat where "ROW_BCAST15 = 0x142"
definition ROW_BCAST31 :: nat where "ROW_BCAST31 = 0x143"
definition ALL_ROWS :: nat where "ALL_ROWS = 0xF"

definition BUTTERFLY_DPP :: "nat \<Rightarrow> nat option" where
  "BUTTERFLY_DPP offset = map_of [(1, 0xB1), (2, 0x4E), (4, 0x141), (8, 0x128)] offset"

definition SWIZZLE_XOR16 :: nat where
  "SWIZZLE_XOR16 = or (push_bit 10 16) 0x1F"

text \<open>
  The documented behaviour the code relies on, for a wave of 64 lanes made of rows of 16. A move
  whose row is not in the mask, or that has no source lane, keeps the old value.
\<close>

definition dpp_law :: "(nat \<Rightarrow> nat \<Rightarrow> nat \<Rightarrow> nat option) \<Rightarrow> bool" where
  "dpp_law p \<longleftrightarrow> (\<forall>l.
     (\<forall>k \<in> {1, 2, 4, 8}. p (ROW_SHR k) ALL_ROWS l = (if k \<le> l mod 16 then Some (l - k) else None)) \<and>
     p WAVE_SHR1 ALL_ROWS l = (if l mod 64 = 0 then None else Some (l - 1)) \<and>
     p ROW_BCAST15 0xA l = (if odd (l div 16) then Some ((l div 16) * 16 - 1) else None) \<and>
     p ROW_BCAST31 0xC l = (if odd (l div 32) then Some ((l div 32) * 32 - 1) else None) \<and>
     p 0xB1 ALL_ROWS l = Some (xor l 1) \<and>
     p 0x4E ALL_ROWS l = Some (xor l 2) \<and>
     p 0x141 ALL_ROWS l = Some ((l div 8) * 8 + (7 - l mod 8)) \<and>
     p 0x128 ALL_ROWS l = Some (xor l 8))"

definition swizzle_law :: "(nat \<Rightarrow> nat \<Rightarrow> nat) \<Rightarrow> bool" where
  "swizzle_law p \<longleftrightarrow> (\<forall>l am om xm. am < 32 \<and> om < 32 \<and> xm < 32 \<longrightarrow>
     p (or (or (push_bit 10 xm) (push_bit 5 om)) am) l
       = (l div 32) * 32 + xor (or (and (l mod 32) am) om) xm)"

definition readlane_law :: "(nat \<Rightarrow> nat \<Rightarrow> nat) \<Rightarrow> bool" where
  "readlane_law p \<longleftrightarrow> (\<forall>l. p 63 l = (l div 64) * 64 + 63)"

definition rocdl_law :: "rocdl_target \<Rightarrow> bool" where
  "rocdl_law tg \<longleftrightarrow> dpp_law (dpp_src tg) \<and> swizzle_law (swizzle_src tg) \<and> readlane_law (readlane_src tg)"

section \<open>Definitions\<close>

definition dpp :: "rocdl_target \<Rightarrow> 'a lanes \<Rightarrow> nat \<Rightarrow> nat \<Rightarrow> 'a \<Rightarrow> 'a lanes" where
  "dpp tg v ctrl row_mask old = (\<lambda>l. case dpp_src tg ctrl row_mask l of Some s \<Rightarrow> v s | None \<Rightarrow> old)"

definition swizzle :: "rocdl_target \<Rightarrow> 'a lanes \<Rightarrow> nat \<Rightarrow> 'a lanes" where
  "swizzle tg v offset = (\<lambda>l. v (swizzle_src tg offset l))"

definition swizzle_broadcast :: "nat \<Rightarrow> nat" where
  "swizzle_broadcast width = or (push_bit 5 (width - 1)) (0x1F - and 0x1F (width - 1))"

definition dpp_applies :: "rocdl_target \<Rightarrow> num_type \<Rightarrow> bool" where
  "dpp_applies tg t \<longleftrightarrow> arch_gfx9 tg \<and> nt_width t = 32"

definition wave64_reduce :: "rocdl_target \<Rightarrow> num_type \<Rightarrow> int lanes \<Rightarrow> reduction_op \<Rightarrow> int lanes" where
  "wave64_reduce tg t v r =
     (let f = num_combine t r; neutral = num_identity t r;
          acc = fold (\<lambda>shift acc l. f (acc l) (dpp tg acc (ROW_SHR shift) ALL_ROWS neutral l)) [1, 2, 4, 8] v;
          acc = (\<lambda>l. f (acc l) (dpp tg acc ROW_BCAST15 0xA neutral l));
          acc = (\<lambda>l. f (acc l) (dpp tg acc ROW_BCAST31 0xC neutral l))
      in (\<lambda>l. acc (readlane_src tg 63 l)))"

text \<open>The \<open>while offset < width\<close> loop at \<open>offset = 2 ^ k\<close>.\<close>

function butterfly_reduce_from ::
  "rocdl_target \<Rightarrow> num_type \<Rightarrow> reduction_op \<Rightarrow> nat \<Rightarrow> nat \<Rightarrow> int lanes \<Rightarrow> int lanes" where
  "butterfly_reduce_from tg t r w k acc =
     (if 2 ^ k < w then
        let partner = (case BUTTERFLY_DPP (2 ^ k) of
               Some ctrl \<Rightarrow> dpp tg acc ctrl ALL_ROWS (num_identity t r)
             | None \<Rightarrow> swizzle tg acc SWIZZLE_XOR16)
        in butterfly_reduce_from tg t r w (Suc k) (\<lambda>l. num_combine t r (acc l) (partner l))
      else acc)"
  by pat_completeness auto
termination
proof (relation "measure (\<lambda>(tg, t, r, w, k, acc). w - k)", goal_cases)
  case (2 tg t r w k v)
  have "k < 2 ^ k" by (rule less_exp)
  with 2(1) have "k < w" by (rule less_trans [rotated])
  then show ?case by simp
qed simp

declare butterfly_reduce_from.simps [simp del]

definition butterfly_reduce :: "rocdl_target \<Rightarrow> num_type \<Rightarrow> int lanes \<Rightarrow> reduction_op \<Rightarrow> nat \<Rightarrow> int lanes" where
  "butterfly_reduce tg t v r w = butterfly_reduce_from tg t r w 0 v"

definition rocdl_warp_reduce ::
  "rocdl_target \<Rightarrow> num_type \<Rightarrow> int operator \<Rightarrow> int option \<Rightarrow> count option \<Rightarrow> int lanes tile \<Rightarrow> int lanes res" where
  "rocdl_warp_reduce tg t op width valid_items value =
     rbind (resolve_warp_width (target.truncate tg) width) (\<lambda>w.
       if valid_items \<noteq> None
       then warp_reduce (target.truncate tg) (num_dtype t) op (Some (int w)) valid_items value
       else case op of
         Callable _ _ _ \<Rightarrow> warp_reduce (target.truncate tg) (num_dtype t) op (Some (int w)) None value
       | Builtin r \<Rightarrow>
          if \<not> dpp_applies tg t
          then warp_reduce (target.truncate tg) (num_dtype t) op (Some (int w)) None value
          else rbind (tile_partial (num_dtype t) op value) (\<lambda>v.
            Inr (if w = 64 then wave64_reduce tg t v r else butterfly_reduce tg t v r w)))"

text \<open>The row rounds of \<open>_inclusive_scan\<close>: \<open>while shift < min(width, 16)\<close> at \<open>shift = 2 ^ k\<close>.\<close>

definition row_scan_round ::
  "rocdl_target \<Rightarrow> num_type \<Rightarrow> reduction_op \<Rightarrow> nat \<Rightarrow> nat \<Rightarrow> int lanes \<Rightarrow> int lanes" where
  "row_scan_round tg t r w shift acc =
     (let neutral = num_identity t r;
          moved = dpp tg acc (ROW_SHR shift) ALL_ROWS neutral;
          moved = (if w < 16 then select_value (\<lambda>l. l mod w \<ge> shift) moved (\<lambda>_. neutral) else moved)
      in (\<lambda>l. num_combine t r (moved l) (acc l)))"

definition rocdl_inclusive_scan :: "rocdl_target \<Rightarrow> num_type \<Rightarrow> int lanes \<Rightarrow> reduction_op \<Rightarrow> nat \<Rightarrow> int lanes" where
  "rocdl_inclusive_scan tg t v r w =
     (let f = num_combine t r; neutral = num_identity t r;
          acc = fold (row_scan_round tg t r w) (filter (\<lambda>shift. shift < min w 16) [1, 2, 4, 8]) v;
          acc = (if w > 16 then (\<lambda>l. f (dpp tg acc ROW_BCAST15 0xA neutral l) (acc l)) else acc);
          acc = (if w > 32 then (\<lambda>l. f (dpp tg acc ROW_BCAST31 0xC neutral l) (acc l)) else acc)
      in acc)"

definition rocdl_shift_up :: "rocdl_target \<Rightarrow> num_type \<Rightarrow> int lanes \<Rightarrow> reduction_op \<Rightarrow> nat \<Rightarrow> int lanes" where
  "rocdl_shift_up tg t inclusive r w =
     (let neutral = num_identity t r;
          ctrl = (if w \<le> 16 then ROW_SHR 1 else WAVE_SHR1);
          shifted = dpp tg inclusive ctrl ALL_ROWS neutral
      in if w < 16 \<or> w = 32 then select_value (\<lambda>l. l mod w = 0) (\<lambda>_. neutral) shifted else shifted)"

definition rocdl_aggregate :: "rocdl_target \<Rightarrow> int lanes \<Rightarrow> nat \<Rightarrow> int lanes" where
  "rocdl_aggregate tg inclusive w =
     (if w = 64 then (\<lambda>l. inclusive (readlane_src tg 63 l))
      else swizzle tg inclusive (swizzle_broadcast w))"

definition rocdl_warp_inclusive_scan ::
  "rocdl_target \<Rightarrow> num_type \<Rightarrow> int operator \<Rightarrow> int option \<Rightarrow> int lanes option \<Rightarrow> count option
     \<Rightarrow> int lanes tile \<Rightarrow> int lanes tile res" where
  "rocdl_warp_inclusive_scan tg t op width init valid_items value =
     rbind (resolve_warp_width (target.truncate tg) width) (\<lambda>w.
     rbind (validate_scan value valid_items w) (\<lambda>_.
       case (value, op, valid_items) of
         (Item v, Builtin r, None) \<Rightarrow>
           if dpp_applies tg t
           then Inr (Item (seed (num_dtype t) op init (rocdl_inclusive_scan tg t v r w)))
           else warp_inclusive_scan (target.truncate tg) (num_dtype t) op (Some (int w)) init valid_items value
       | _ \<Rightarrow> warp_inclusive_scan (target.truncate tg) (num_dtype t) op (Some (int w)) init valid_items value))"

definition rocdl_warp_exclusive_scan ::
  "rocdl_target \<Rightarrow> num_type \<Rightarrow> int operator \<Rightarrow> int option \<Rightarrow> int lanes option \<Rightarrow> count option
     \<Rightarrow> int lanes tile \<Rightarrow> int lanes tile res" where
  "rocdl_warp_exclusive_scan tg t op width init valid_items value =
     rbind (resolve_warp_width (target.truncate tg) width) (\<lambda>w.
     rbind (validate_scan value valid_items w) (\<lambda>_.
       case (value, op, valid_items) of
         (Item v, Builtin r, None) \<Rightarrow>
           if dpp_applies tg t
           then Inr (Item (seed (num_dtype t) op init
             (rocdl_shift_up tg t (rocdl_inclusive_scan tg t v r w) r w)))
           else warp_exclusive_scan (target.truncate tg) (num_dtype t) op (Some (int w)) init valid_items value
       | _ \<Rightarrow> warp_exclusive_scan (target.truncate tg) (num_dtype t) op (Some (int w)) init valid_items value))"

definition rocdl_warp_scan_with_aggregate ::
  "rocdl_target \<Rightarrow> num_type \<Rightarrow> int operator \<Rightarrow> int option \<Rightarrow> int lanes option \<Rightarrow> count option
     \<Rightarrow> int lanes tile \<Rightarrow> (int lanes tile \<times> int lanes tile \<times> int lanes) res" where
  "rocdl_warp_scan_with_aggregate tg t op width init valid_items value =
     rbind (resolve_warp_width (target.truncate tg) width) (\<lambda>w.
     rbind (validate_scan value valid_items w) (\<lambda>_.
       case (value, op, valid_items) of
         (Item v, Builtin r, None) \<Rightarrow>
           if dpp_applies tg t
           then let raw = rocdl_inclusive_scan tg t v r w
                in Inr (Item (seed (num_dtype t) op init raw),
                        Item (seed (num_dtype t) op init (rocdl_shift_up tg t raw r w)),
                        rocdl_aggregate tg raw w)
           else warp_scan_with_aggregate (target.truncate tg) (num_dtype t) op (Some (int w)) init valid_items value
       | _ \<Rightarrow> warp_scan_with_aggregate (target.truncate tg) (num_dtype t) op (Some (int w)) init valid_items value))"

definition rocdl_warp_scan ::
  "rocdl_target \<Rightarrow> num_type \<Rightarrow> int operator \<Rightarrow> int option \<Rightarrow> int lanes option \<Rightarrow> count option
     \<Rightarrow> int lanes tile \<Rightarrow> (int lanes tile \<times> int lanes tile) res" where
  "rocdl_warp_scan tg t op width init valid_items value =
     rbind (resolve_warp_width (target.truncate tg) width) (\<lambda>w.
     rbind (validate_scan value valid_items w) (\<lambda>_.
       case (value, op, valid_items) of
         (Item v, Builtin r, None) \<Rightarrow>
           if dpp_applies tg t
           then let raw = rocdl_inclusive_scan tg t v r w
                in Inr (Item (seed (num_dtype t) op init raw),
                        Item (seed (num_dtype t) op init (rocdl_shift_up tg t raw r w)))
           else warp_scan (target.truncate tg) (num_dtype t) op (Some (int w)) init valid_items value
       | _ \<Rightarrow> warp_scan (target.truncate tg) (num_dtype t) op (Some (int w)) init valid_items value))"

section \<open>The identity is neutral\<close>

lemma num_identity_neutral:
  assumes t: "int_type t" and x: "nt_range t x"
  shows "num_combine t r (num_identity t r) x = x" "num_combine t r x (num_identity t r) = x"
proof -
  have "num_combine t r (num_identity t r) x = x"
  proof (cases "nt_width t = 1")
    case True
    then consider "x = 0" | "x = 1" using bool_range [OF t] x by blast
    then show ?thesis
      using True by cases (cases r; simp add: num_combine_def num_identity_def representable_extreme_def)+
  next
    case False
    have w: "0 < nt_width t" using t by (simp add: int_type_def)
    show ?thesis
    proof (cases r)
      case MUL
      then show ?thesis
        using False nt_wrap_mult(1) [OF w, of 1 x] x by (simp add: num_combine_def num_identity_def nt_range_def)
    qed (use False x nt_range_bounds [OF t x] in
        \<open>simp_all add: num_combine_def num_identity_def nt_range_def max_absorb2 min_absorb2\<close>)
  qed
  then show "num_combine t r (num_identity t r) x = x" "num_combine t r x (num_identity t r) = x"
    using comm_opD [OF comm_num_combine] by metis+
qed

lemma num_combine_range:
  assumes t: "int_type t" and "nt_range t a" "nt_range t b"
  shows "nt_range t (num_combine t r a b)"
proof (cases "nt_width t = 1")
  case True
  then consider "a = 0" "b = 0" | "a = 0" "b = 1" | "a = 1" "b = 0" | "a = 1" "b = 1"
    using bool_range [OF t True, of a] bool_range [OF t True, of b] assms(2,3) by argo
  then have "num_combine t r a b = 0 \<or> num_combine t r a b = 1"
    using True by cases (cases r; simp add: num_combine_def)+
  then show ?thesis using bool_range [OF t True] by blast
next
  case False
  then show ?thesis
    using assms(2,3) by (cases r) (auto simp: num_combine_def nt_range_def max_def min_def)
qed

lemma nt_range_seg:
  assumes "int_type t" "\<And>l. nt_range t (v l)"
  shows "nt_range t (seg (num_combine t r) v a n)"
  by (induction n) (simp_all add: assms num_combine_range)

section \<open>The scan on DPP rows\<close>

lemma ROW_SHR_law:
  assumes "rocdl_law tg" "s \<in> {1, 2, 4, 8}"
  shows "dpp tg v (ROW_SHR s) ALL_ROWS e l = (if s \<le> l mod 16 then v (l - s) else e)"
proof -
  have "dpp_src tg (ROW_SHR s) ALL_ROWS l = (if s \<le> l mod 16 then Some (l - s) else None)"
    using assms(1) assms(2) unfolding rocdl_law_def dpp_law_def by blast
  then show ?thesis by (simp add: dpp_def)
qed

lemma BCAST_law:
  assumes "rocdl_law tg"
  shows "dpp tg v ROW_BCAST15 0xA e l = (if odd (l div 16) then v ((l div 16) * 16 - 1) else e)"
    "dpp tg v ROW_BCAST31 0xC e l = (if odd (l div 32) then v ((l div 32) * 32 - 1) else e)"
proof -
  have "dpp_src tg ROW_BCAST15 0xA l = (if odd (l div 16) then Some ((l div 16) * 16 - 1) else None)"
    "dpp_src tg ROW_BCAST31 0xC l = (if odd (l div 32) then Some ((l div 32) * 32 - 1) else None)"
    using assms unfolding rocdl_law_def dpp_law_def by blast+
  then show "dpp tg v ROW_BCAST15 0xA e l = (if odd (l div 16) then v ((l div 16) * 16 - 1) else e)"
    "dpp tg v ROW_BCAST31 0xC e l = (if odd (l div 32) then v ((l div 32) * 32 - 1) else e)"
    by (simp_all add: dpp_def)
qed

lemma mod_of_mod_pow2:
  fixes l :: nat
  assumes "w dvd m"
  shows "l mod m mod w = l mod w"
  using assms by (rule mod_mod_cancel)

lemma scan_round_range:
  assumes "int_type t" "\<And>l. nt_range t (v l)"
  shows "nt_range t (scan_round (num_combine t r) w act k v l)"
  using assms by (simp add: scan_round_def num_combine_range)

lemma row_scan_round_eq:
  assumes law: "rocdl_law tg" and t: "int_type t" and w: "is_pow2 w" and v: "\<And>l. nt_range t (v l)"
    and s: "2 ^ k \<in> {1, 2, 4, 8 :: nat}" "2 ^ k < min w 16"
  shows "row_scan_round tg t r w (2 ^ k) v = scan_round (num_combine t r) (min w 16) (\<lambda>_. True) k v"
proof
  fix l
  note neutral = num_identity_neutral(1) [OF t v]
  show "row_scan_round tg t r w (2 ^ k) v l = scan_round (num_combine t r) (min w 16) (\<lambda>_. True) k v l"
  proof (cases "w < 16")
    case True
    obtain j where j: "w = 2 ^ j" using w by (auto simp: is_pow2_def)
    have "j < 4"
    proof (rule ccontr)
      assume "\<not> j < 4"
      then have "(2::nat) ^ 4 \<le> 2 ^ j" by (intro power_increasing) simp_all
      then show False using True j by simp
    qed
    then have "w dvd 16" using j by (simp add: le_imp_power_dvd [of j 4 "2::nat", simplified])
    then have "l mod 16 mod w = l mod w" by (rule mod_of_mod_pow2)
    then have "l mod w \<le> l mod 16" by (metis mod_less_eq_dividend)
    then show ?thesis
      using True neutral ROW_SHR_law [OF law s(1), of v "num_identity t r" l]
      by (auto simp: row_scan_round_def scan_round_def Let_def select_value_def)
  next
    case False
    then show ?thesis
      using neutral ROW_SHR_law [OF law s(1), of v "num_identity t r" l]
      by (auto simp: row_scan_round_def scan_round_def Let_def min_def)
  qed
qed

text \<open>The rounds with \<open>shift < min w 16\<close> are the first \<open>log\<close> rounds of the portable network.\<close>

lemma row_rounds_eq:
  assumes law: "rocdl_law tg" and t: "int_type t" and w: "is_pow2 w" and v: "\<And>l. nt_range t (v l)"
    and K: "2 ^ K \<le> min w 16" "K \<le> 4"
  shows "fold (row_scan_round tg t r w) (map (\<lambda>k. 2 ^ k) [0..<K]) v
      = fold (scan_round (num_combine t r) (min w 16) (\<lambda>_. True)) [0..<K] v
    \<and> (\<forall>l. nt_range t (fold (scan_round (num_combine t r) (min w 16) (\<lambda>_. True)) [0..<K] v l))"
  using K
proof (induction K)
  case (Suc K)
  have "K \<in> {0, 1, 2, 3}" using Suc.prems by auto
  then have k: "2 ^ K \<in> {1, 2, 4, 8 :: nat}" by auto
  have lt: "2 ^ K < min w 16" using Suc.prems(1) by (metis Suc_1 lessI order_less_le_trans power_strict_increasing)
  have "2 ^ K \<le> min w 16" "K \<le> 4" using lt Suc.prems(2) by simp_all
  note IH = Suc.IH [OF this]
  then have "row_scan_round tg t r w (2 ^ K) (fold (scan_round (num_combine t r) (min w 16) (\<lambda>_. True)) [0..<K] v)
      = scan_round (num_combine t r) (min w 16) (\<lambda>_. True) K
          (fold (scan_round (num_combine t r) (min w 16) (\<lambda>_. True)) [0..<K] v)"
    using row_scan_round_eq [OF law t w _ k lt] by blast
  then show ?case using IH scan_round_range [OF t] by simp
qed (simp add: v)

lemma row_phase:
  assumes law: "rocdl_law tg" and t: "int_type t" and w: "is_pow2 w" and v: "\<And>l. nt_range t (v l)"
  shows "fold (row_scan_round tg t r w) (filter (\<lambda>shift. shift < min w 16) [1, 2, 4, 8]) v
    = prefix_fold (num_combine t r) v (min w 16)"
proof -
  obtain j where j: "w = 2 ^ j" using w by (auto simp: is_pow2_def)
  define K where "K = min j 4"
  have m: "min w 16 = 2 ^ K"
  proof (cases "j \<le> 4")
    case True
    then have "(2::nat) ^ j \<le> 2 ^ 4" by (intro power_increasing) simp_all
    then show ?thesis using True j by (simp add: K_def)
  next
    case False
    then have "(2::nat) ^ 4 \<le> 2 ^ j" by (intro power_increasing) simp_all
    then show ?thesis using False j by (simp add: K_def)
  qed
  have "K \<in> {0, 1, 2, 3, 4}" by (auto simp: K_def)
  then have f: "filter (\<lambda>shift. shift < min w 16) [1, 2, 4, 8] = map (\<lambda>k. 2 ^ k) [0..<K]"
    unfolding m by (auto simp: upt_rec)
  have K4: "K \<le> 4" "2 ^ K \<le> min w 16" by (simp_all add: K_def m)
  have a: "assoc_op (num_combine t r)" using t by (rule assoc_num_combine)
  have "scan_inv (num_combine t r) (min w 16) (\<lambda>_. True) v K
      (fold (scan_round (num_combine t r) (min w 16) (\<lambda>_. True)) [0..<K] v)"
    by (rule scan_rounds_inv [OF a]) (simp_all add: m)
  then have "fold (scan_round (num_combine t r) (min w 16) (\<lambda>_. True)) [0..<K] v = prefix_fold (num_combine t r) v (min w 16)"
    using scan_inv_final [OF m, of "num_combine t r" "\<lambda>_. True" v] unfolding m by (simp add: fun_eq_iff)
  with conjunct1 [OF row_rounds_eq [OF law t w v K4(2) K4(1)]] show ?thesis
    unfolding f by (rule trans)
qed

text \<open>Joining two neighbouring groups.\<close>

lemma prefix_fold_double:
  assumes f: "assoc_op f" and g: "0 < g"
  shows "prefix_fold f v (2 * g) l = (if odd (l div g)
     then f (prefix_fold f v g ((l div g) * g - 1)) (prefix_fold f v g l) else prefix_fold f v g l)"
proof -
  let ?q = "l div g"
  have lm: "l mod (2 * g) = g * (?q mod 2) + l mod g" by (metis mod_mult2_eq mult.commute)
  have ld: "l div (2 * g) = ?q div 2" by (metis div_mult2_eq mult.commute)
  show ?thesis
  proof (cases "odd ?q")
    case True
    then obtain p where p: "?q = 2 * p + 1" by (elim oddE)
    have "?q * g - 1 = (2 * p) * g + (g - 1)" using p g by simp
    moreover have "g - 1 < g" using g by simp
    ultimately have "(?q * g - 1) div g = 2 * p" "(?q * g - 1) mod g = g - 1"
      using group_split [of "g - 1" g "2 * p"] by simp_all
    then have "f (prefix_fold f v g (?q * g - 1)) (prefix_fold f v g l)
        = f (seg f v (2 * p * g) (g - 1)) (seg f v (?q * g) (l mod g))"
      by (simp add: prefix_fold_def group_base_def)
    also have "\<dots> = seg f v (2 * p * g) (g + l mod g)"
      using g by (intro seg_join' [OF f]) (simp_all add: p)
    finally show ?thesis using True p by (simp add: prefix_fold_def group_base_def lm ld mult.assoc mult.left_commute)
  next
    case False
    then have "even ?q" by simp
    then obtain p where p: "?q = 2 * p" by (elim evenE)
    then show ?thesis by (simp add: prefix_fold_def group_base_def lm ld mult.assoc mult.left_commute)
  qed
qed

lemma prefix_fold_range:
  "int_type t \<Longrightarrow> (\<And>l. nt_range t (v l)) \<Longrightarrow> nt_range t (prefix_fold (num_combine t r) v w l)"
  by (simp add: prefix_fold_def nt_range_seg)

lemma bcast_phase:
  assumes law: "rocdl_law tg" and t: "int_type t" and v: "\<And>l. nt_range t (v l)"
  shows "num_combine t r (dpp tg (prefix_fold (num_combine t r) v 16) ROW_BCAST15 0xA (num_identity t r) l)
        (prefix_fold (num_combine t r) v 16 l) = prefix_fold (num_combine t r) v 32 l"
    "num_combine t r (dpp tg (prefix_fold (num_combine t r) v 32) ROW_BCAST31 0xC (num_identity t r) l)
        (prefix_fold (num_combine t r) v 32 l) = prefix_fold (num_combine t r) v 64 l"
proof -
  note neutral = num_identity_neutral(1) [OF t prefix_fold_range [OF t v]]
  have d: "prefix_fold (num_combine t r) v 32 l = (if odd (l div 16)
     then num_combine t r (prefix_fold (num_combine t r) v 16 ((l div 16) * 16 - 1)) (prefix_fold (num_combine t r) v 16 l)
     else prefix_fold (num_combine t r) v 16 l)"
    using prefix_fold_double [OF assoc_num_combine [OF t], of 16 r v l] by simp
  show "num_combine t r (dpp tg (prefix_fold (num_combine t r) v 16) ROW_BCAST15 0xA (num_identity t r) l)
        (prefix_fold (num_combine t r) v 16 l) = prefix_fold (num_combine t r) v 32 l"
    unfolding d BCAST_law(1) [OF law] by (cases "odd (l div 16)") (simp_all add: neutral)
  have e: "prefix_fold (num_combine t r) v 64 l = (if odd (l div 32)
     then num_combine t r (prefix_fold (num_combine t r) v 32 ((l div 32) * 32 - 1)) (prefix_fold (num_combine t r) v 32 l)
     else prefix_fold (num_combine t r) v 32 l)"
    using prefix_fold_double [OF assoc_num_combine [OF t], of 32 r v l] by simp
  show "num_combine t r (dpp tg (prefix_fold (num_combine t r) v 32) ROW_BCAST31 0xC (num_identity t r) l)
        (prefix_fold (num_combine t r) v 32 l) = prefix_fold (num_combine t r) v 64 l"
    unfolding e BCAST_law(2) [OF law] by (cases "odd (l div 32)") (simp_all add: neutral)
qed

lemma pow2_le_64:
  assumes "is_pow2 w" "w \<le> 64"
  shows "w \<in> {1, 2, 4, 8, 16, 32, 64}"
proof -
  obtain j where j: "w = 2 ^ j" using assms(1) by (auto simp: is_pow2_def)
  have "j < 7"
  proof (rule ccontr)
    assume "\<not> j < 7"
    then have "(2::nat) ^ 7 \<le> 2 ^ j" by (intro power_increasing) simp_all
    then show False using assms(2) j by simp
  qed
  then have "j \<in> {0, 1, 2, 3, 4, 5, 6}" by auto
  then show ?thesis unfolding j by auto
qed

lemma rocdl_inclusive_scan_correct:
  assumes law: "rocdl_law tg" and t: "int_type t" and w: "is_pow2 w" "w \<le> 64" and v: "\<And>l. nt_range t (v l)"
  shows "rocdl_inclusive_scan tg t v r w = prefix_fold (num_combine t r) v w"
proof -
  note row = row_phase [OF law t w(1) v, of r]
  consider "w \<le> 16" | "w = 32" | "w = 64" using pow2_le_64 [OF w] by auto
  then show ?thesis
  proof cases
    case 1
    then show ?thesis using row by (simp add: rocdl_inclusive_scan_def Let_def)
  next
    case 2
    then show ?thesis using row bcast_phase(1) [OF law t v] by (simp add: rocdl_inclusive_scan_def)
  next
    case 3
    then show ?thesis using row bcast_phase [OF law t v] by (simp add: rocdl_inclusive_scan_def)
  qed
qed

section \<open>Shift, aggregate and reduction\<close>

lemma rocdl_shift_up_correct:
  assumes law: "rocdl_law tg" and w: "is_pow2 w" "w \<le> 64"
  shows "rocdl_shift_up tg t v r w = (\<lambda>l. if l mod w = 0 then num_identity t r else v (l - 1))"
proof
  fix l
  have one: "dpp tg v (ROW_SHR 1) ALL_ROWS e l = (if 1 \<le> l mod 16 then v (l - 1) else e)" for e
    by (rule ROW_SHR_law [OF law]) simp
  have wave: "dpp tg v WAVE_SHR1 ALL_ROWS e l = (if l mod 64 = 0 then e else v (l - 1))" for e
    using law unfolding rocdl_law_def dpp_law_def dpp_def by simp
  have "l mod 16 = 0 \<Longrightarrow> l mod w = 0" if "w \<in> {1, 2, 4, 8}"
    using that mod_mod_cancel [of w 16 l] by auto
  moreover have "l mod 64 = 0 \<Longrightarrow> l mod 32 = 0" using mod_mod_cancel [of 32 64 l] by simp
  ultimately show "rocdl_shift_up tg t v r w l = (if l mod w = 0 then num_identity t r else v (l - 1))"
    using pow2_le_64 [OF w] one wave
    by (elim insertE emptyE) (simp_all add: rocdl_shift_up_def Let_def select_value_def)
qed

lemma rocdl_aggregate_correct:
  assumes law: "rocdl_law tg" and w: "is_pow2 w" "w \<le> 64"
  shows "rocdl_aggregate tg v w = (\<lambda>l. v (group_base w l + (w - 1)))"
proof (cases "w = 64")
  case True
  then show ?thesis
    using law by (simp add: rocdl_aggregate_def rocdl_law_def readlane_law_def group_base_def)
next
  case False
  have src: "swizzle_src tg (swizzle_broadcast w) l = group_base w l + (w - 1)" for l
  proof -
    have sl: "am < 32 \<Longrightarrow> om < 32 \<Longrightarrow> swizzle_src tg (or (or (push_bit 10 0) (push_bit 5 om)) am) l
        = (l div 32) * 32 + or (and (l mod 32) am) om" for am om
    proof -
      assume "am < 32" "om < 32"
      moreover have "(0::nat) < 32" by simp
      ultimately show ?thesis
        using law unfolding rocdl_law_def swizzle_law_def by (metis xor.right_neutral)
    qed
    have b: "or (and (l mod 32) (31 - and 31 (w - 1))) (w - 1) = (l mod 32) div w * w + (w - 1)"
    proof -
      have "l mod 32 \<in> {0..<32}" by simp
      moreover have "\<forall>x \<in> {0..<32::nat}. or (and x (31 - and 31 (w - 1))) (w - 1) = x div w * w + (w - 1)"
        using pow2_le_64 [OF w] False by (elim insertE emptyE) (simp_all add: atLeastLessThan_nat_numeral)
      ultimately show ?thesis by blast
    qed
    have d: "w dvd 32" using pow2_le_64 [OF w] False by auto
    then have "l div 32 * 32 + (l mod 32) div w * w = group_base w l"
    proof -
      obtain c where c: "32 = w * c" using d by (elim dvdE)
      have "l div w = (l div 32) * c + (l mod 32) div w"
      proof -
        have w0: "0 < w" using w(1) by (rule is_pow2_pos)
        have "l = l mod 32 + (l div 32 * c) * w" using div_mult_mod_eq [of l 32] c by (simp add: algebra_simps)
        then have "l div w = (l mod 32 + (l div 32 * c) * w) div w" by simp
        also have "\<dots> = l div 32 * c + (l mod 32) div w" using w0 by simp
        finally show ?thesis .
      qed
      then show ?thesis unfolding group_base_def by (simp add: algebra_simps c)
    qed
    moreover have "swizzle_src tg (swizzle_broadcast w) l = l div 32 * 32 + ((l mod 32) div w * w + (w - 1))"
      using sl [of "31 - and 31 (w - 1)" "w - 1"] b pow2_le_64 [OF w] False
      by (auto simp: swizzle_broadcast_def or.commute)
    ultimately show ?thesis by simp
  qed
  show ?thesis using False by (simp add: rocdl_aggregate_def swizzle_def src)
qed

lemma mirror_div4: "((l div 8) * 8 + (7 - l mod 8)) div 4 = xor l (2 ^ 2) div 2 ^ 2" for l :: nat
proof -
  define q where "q = l div 8"
  define r where "r = l mod 8"
  have l: "l = q * 8 + r" and r8: "r < 8" by (simp_all add: q_def r_def)
  have up: "(q * 8 + s) div 4 = 2 * q + s div 4" for s :: nat by presburger
  show ?thesis
  proof (cases "r < 4")
    case True
    then have "r div 4 = 0" "(7 - r) div 4 = 1" by presburger+
    then show ?thesis unfolding xor_pow2_div q_def [symmetric] r_def [symmetric] using up l by simp
  next
    case False
    then have "r div 4 = 1" "(7 - r) div 4 = 0" using r8 by presburger+
    then show ?thesis unfolding xor_pow2_div q_def [symmetric] r_def [symmetric] using up l by simp
  qed
qed

lemma swizzle_xor16:
  assumes "rocdl_law tg"
  shows "swizzle_src tg SWIZZLE_XOR16 l = xor l 16"
proof -
  have "swizzle_src tg (or (or (push_bit 10 16) (push_bit 5 0)) 31) l
      = (l div 32) * 32 + xor (or (and (l mod 32) 31) 0) 16"
  proof -
    have "\<And>l am om xm. am < 32 \<and> om < 32 \<and> xm < 32 \<Longrightarrow> swizzle_src tg (or (or (push_bit 10 xm) (push_bit 5 om)) am) l
       = (l div 32) * 32 + xor (or (and (l mod 32) am) om) xm"
      using assms unfolding rocdl_law_def swizzle_law_def by blast
    from this [of 31 0 16 l] show ?thesis by (simp only: rel_simps simp_thms)
  qed
  also have "and (l mod 32) 31 = l mod 32"
    using take_bit_eq_mask [of 5 "l mod 32"] by (simp add: take_bit_eq_mod mask_eq_exp_minus_1)
  also have "(l div 32) * 32 + xor (or (l mod 32) 0) 16 = xor l 16"
    using xor_in_group [of 16 5 l] div_mult_mod_eq [of "xor l 16" 32] by simp
  finally show ?thesis by (simp add: SWIZZLE_XOR16_def)
qed

text \<open>
  The lane a butterfly step reads need not be the XOR partner: it lies in the partner's block, and
  the block already holds one value.
\<close>

lemma butterfly_partner:
  assumes law: "rocdl_law tg" and k: "k \<le> 4"
  shows "(case BUTTERFLY_DPP (2 ^ k) of
            Some ctrl \<Rightarrow> dpp tg (\<lambda>l. B (l div 2 ^ k)) ctrl ALL_ROWS e
          | None \<Rightarrow> swizzle tg (\<lambda>l. B (l div 2 ^ k)) SWIZZLE_XOR16) l
    = B (xor l (2 ^ k) div 2 ^ k)"
proof -
  have d: "dpp_src tg 0xB1 ALL_ROWS l = Some (xor l 1)" "dpp_src tg 0x4E ALL_ROWS l = Some (xor l 2)"
    "dpp_src tg 0x141 ALL_ROWS l = Some ((l div 8) * 8 + (7 - l mod 8))"
    "dpp_src tg 0x128 ALL_ROWS l = Some (xor l 8)"
    using law unfolding rocdl_law_def dpp_law_def by blast+
  have "k \<in> {0, 1, 2, 3, 4}" using k by auto
  then consider "k = 0" | "k = 1" | "k = 2" | "k = 3" | "k = 4" by blast
  then show ?thesis
  proof cases
    case 3
    then show ?thesis using mirror_div4 [of l] by (simp add: BUTTERFLY_DPP_def dpp_def d)
  qed (simp_all add: BUTTERFLY_DPP_def dpp_def d swizzle_def swizzle_xor16 [OF law])
qed

lemma butterfly_reduce_from_correct:
  assumes law: "rocdl_law tg" and t: "int_type t" and w: "w = 2 ^ K" "K \<le> 5" and k: "k \<le> K"
  shows "butterfly_reduce_from tg t r w k (\<lambda>l. block_fold (num_combine t r) v k (l div 2 ^ k))
    = (\<lambda>l. block_fold (num_combine t r) v K (l div 2 ^ K))"
  using k
proof (induction "K - k" arbitrary: k)
  case 0
  then show ?case by (simp add: butterfly_reduce_from.simps w)
next
  case (Suc n)
  then have k: "k < K" and k4: "k \<le> 4" using w(2) by simp_all
  then have k': "2 ^ k < w" by (simp add: w)
  note f = assoc_num_combine [OF t] comm_num_combine
  show ?case
    using k' Suc.hyps k
    by (subst butterfly_reduce_from.simps)
      (simp add: Let_def butterfly_partner [OF law k4] butterfly_round [OF f] del: power_Suc)
qed

lemma butterfly_reduce_correct:
  assumes law: "rocdl_law tg" and t: "int_type t" and w: "is_pow2 w" "w \<le> 32"
  shows "butterfly_reduce tg t v r w = group_fold (num_combine t r) v w"
proof -
  obtain K where K1: "w = 2 ^ K" using w(1) by (auto simp: is_pow2_def)
  have "K \<le> 5"
  proof (rule ccontr)
    assume "\<not> K \<le> 5"
    then have "(2::nat) ^ 6 \<le> 2 ^ K" by (intro power_increasing) simp_all
    then show False using w(2) K1 by simp
  qed
  note K = K1 this
  have "(\<lambda>l. block_fold (num_combine t r) v 0 (l div 2 ^ 0)) = v" by (simp add: block_fold_def)
  then show ?thesis
    using butterfly_reduce_from_correct [OF law t K, of 0 r v]
    by (simp add: butterfly_reduce_def block_fold_def group_fold_def group_base_def K fun_eq_iff)
qed

lemma wave64_reduce_correct:
  assumes law: "rocdl_law tg" and t: "int_type t" and v: "\<And>l. nt_range t (v l)"
  shows "wave64_reduce tg t v r = group_fold (num_combine t r) v 64"
proof -
  let ?f = "num_combine t r" and ?e = "num_identity t r"
  note c = comm_opD [OF comm_num_combine]
  have "is_pow2 64" using is_pow2_power [of 6] by simp
  note row = row_phase [OF law t this v, of r]
  have rnd: "(\<lambda>s acc l. ?f (acc l) (dpp tg acc (ROW_SHR s) ALL_ROWS ?e l)) = row_scan_round tg t r 64"
    by (intro ext) (simp add: row_scan_round_def Let_def c)
  have "filter (\<lambda>shift. shift < min 64 16) [1, 2, 4, 8] = [1, 2, 4, 8 :: nat]" by simp
  with row have row: "fold (row_scan_round tg t r 64) [1, 2, 4, 8] v = prefix_fold ?f v 16" by simp
  have b: "(\<lambda>l. ?f (prefix_fold ?f v 16 l) (dpp tg (prefix_fold ?f v 16) ROW_BCAST15 0xA ?e l)) = prefix_fold ?f v 32"
    "(\<lambda>l. ?f (prefix_fold ?f v 32 l) (dpp tg (prefix_fold ?f v 32) ROW_BCAST31 0xC ?e l)) = prefix_fold ?f v 64"
    by (rule ext, subst c, rule bcast_phase [OF law t v])+
  have "wave64_reduce tg t v r = (\<lambda>l. prefix_fold ?f v 64 (readlane_src tg 63 l))"
    unfolding wave64_reduce_def Let_def rnd row b by (simp only: b [THEN fun_cong])
  also have "\<dots> = group_fold ?f v 64"
    using law prefix_fold_last [of 64 ?f v]
    by (simp add: rocdl_law_def readlane_law_def group_base_def fun_eq_iff)
  finally show ?thesis .
qed

lemma rocdl_reduce_eq:
  assumes law: "rocdl_law tg" "shuffle_law (lane_src tg)" and sz: "warp_size tg = 64"
    and t: "int_type t" and items: "tile_items val \<noteq> []" "\<And>v l. v \<in> set (tile_items val) \<Longrightarrow> nt_range t (v l)"
  shows "rocdl_warp_reduce tg t op width valid val = warp_reduce (target.truncate tg) (num_dtype t) op width valid val"
proof (cases "resolve_warp_width (target.truncate tg) width")
  case (Inl e)
  then show ?thesis by (simp add: rocdl_warp_reduce_def warp_reduce_def)
next
  case (Inr w)
  let ?tg = "target.truncate tg"
  have s: "warp_size ?tg = 64" "lane_src ?tg = lane_src tg" using sz by (simp_all add: target.truncate_def)
  have p64: "is_pow2 (warp_size ?tg)" using is_pow2_power [of 6] by (simp add: s)
  have w: "is_pow2 w" "w \<le> 64" using resolve_warp_width_pow2 [OF Inr p64] s by simp_all
  have again: "warp_reduce ?tg (num_dtype t) op (Some (int w)) valid val = warp_reduce ?tg (num_dtype t) op width valid val"
    using Inr resolve_warp_width_again [of w ?tg] w s by (simp add: warp_reduce_def)
  show ?thesis
  proof (cases "valid = None \<and> is_builtin op \<and> dpp_applies tg t")
    case False
    then show ?thesis using Inr again by (cases op) (auto simp: rocdl_warp_reduce_def)
  next
    case True
    then obtain r where r: "op = Builtin r" by (cases op) simp_all
    have f: "assoc_op (combine (num_dtype t) op)" "comm_op (combine (num_dtype t) op)"
      using assoc_num_combine [OF t] comm_num_combine by (simp_all add: r)
    obtain v where v: "tile_partial (num_dtype t) op val = Inr v"
      "group_fold (combine (num_dtype t) op) v w = tile_total (combine (num_dtype t) op) val w"
      using tile_partial_total [OF f(1) is_pow2_pos [OF w(1)] items(1)] by blast
    have "nt_range t (v l)" for l
    proof (cases val)
      case (Items vs)
      then obtain x xs where xs: "vs = x # xs" using items(1) by (cases vs) auto
      then have "v l = foldl (\<lambda>a y. num_combine t r a (y l)) (x l) xs" using v(1) by (auto simp: Items r)
      moreover have "nt_range t a \<Longrightarrow> set ys \<subseteq> set xs \<Longrightarrow> nt_range t (foldl (\<lambda>a y. num_combine t r a (y l)) a ys)" for a ys
        using items(2) by (induction ys arbitrary: a) (simp_all add: Items xs num_combine_range [OF t])
      ultimately show ?thesis using items(2) by (simp add: Items xs)
    qed (use items(2) v(1) in auto)
    then have "(if w = 64 then wave64_reduce tg t v r else butterfly_reduce tg t v r w) = group_fold (num_combine t r) v w"
      using wave64_reduce_correct [OF law(1) t] butterfly_reduce_correct [OF law(1) t w(1)] pow2_le_64 [OF w] by auto
    then have "rocdl_warp_reduce tg t op width valid val = Inr (tile_total (num_combine t r) val w)"
      using Inr True v by (simp add: rocdl_warp_reduce_def r)
    moreover have "warp_reduce ?tg (num_dtype t) op width None val = Inr (tile_total (combine (num_dtype t) op) val w)"
      by (rule warp_reduce_total) (use law(2) p64 f Inr items(1) s in simp_all)
    ultimately show ?thesis using True by (simp add: r)
  qed
qed

section \<open>Properties\<close>

text \<open>
  C17: on a gfx9 wave the ROCm override of \<open>warp_reduce\<close> returns exactly what the portable
  implementation returns, for every operator, width, valid count and tile of a 32-bit (or any
  other) integer type whose values are in range.
\<close>

theorem rocdl_warp_reduce_equiv:
  assumes law: "rocdl_law tg" "shuffle_law (lane_src tg)" and sz: "warp_size tg = 64"
    and t: "int_type t" and items: "tile_items val \<noteq> []" "\<And>v l. v \<in> set (tile_items val) \<Longrightarrow> nt_range t (v l)"
  shows "rocdl_warp_reduce tg t op width valid val = warp_reduce (target.truncate tg) (num_dtype t) op width valid val"
  using assms by (rule rocdl_reduce_eq)

text \<open>A gfx9 wave with the encodings of the ISA: the documented lane for every control used.\<close>

definition gfx9_dpp :: "nat \<Rightarrow> nat \<Rightarrow> nat \<Rightarrow> nat option" where
  "gfx9_dpp ctrl row_mask l =
     (if \<not> bit row_mask (l div 16 mod 4) then None
      else if ctrl < 0x100 then Some (l div 4 * 4 + drop_bit (2 * (l mod 4)) ctrl mod 4)
      else if 0x111 \<le> ctrl \<and> ctrl \<le> 0x11F
        then (if ctrl - 0x110 \<le> l mod 16 then Some (l - (ctrl - 0x110)) else None)
      else if 0x121 \<le> ctrl \<and> ctrl \<le> 0x12F then Some (l div 16 * 16 + (l mod 16 + 16 - (ctrl - 0x120)) mod 16)
      else if ctrl = 0x138 then (if l mod 64 = 0 then None else Some (l - 1))
      else if ctrl = 0x141 then Some (l div 8 * 8 + (7 - l mod 8))
      else if ctrl = 0x142 then (if l mod 64 < 16 then None else Some (l div 16 * 16 - 1))
      else if ctrl = 0x143 then (if l mod 64 < 32 then None else Some (l div 32 * 32 - 1))
      else None)"

definition gfx9_swizzle :: "nat \<Rightarrow> nat \<Rightarrow> nat" where
  "gfx9_swizzle offset l = l div 32 * 32 +
     xor (or (and (l mod 32) (take_bit 5 offset)) (take_bit 5 (drop_bit 5 offset))) (take_bit 5 (drop_bit 10 offset))"

definition gfx9_target :: rocdl_target where
  "gfx9_target = \<lparr>lane_src = gpu_shuffle, warp_size = 64, arch_gfx9 = True, dpp_src = gfx9_dpp,
     swizzle_src = gfx9_swizzle, readlane_src = (\<lambda>lane l. l div 64 * 64 + lane)\<rparr>"

lemma mod_4_cases: "n mod 4 \<in> {0, 1, 2, 3 :: nat}" by auto

lemma gfx9_swizzle_law: "swizzle_law gfx9_swizzle"
proof -
  have small: "take_bit 5 n = n" "drop_bit 5 n = 0" "drop_bit 10 n = 0" if "n < 32" for n :: nat
    using that by (simp_all add: take_bit_nat_eq_self drop_bit_eq_div)
  have "gfx9_swizzle (or (or (push_bit 10 xm) (push_bit 5 om)) am) l
      = l div 32 * 32 + xor (or (and (l mod 32) am) om) xm" if "am < 32" "om < 32" "xm < 32" for l am om xm :: nat
  proof -
    have "take_bit 5 (or (or (push_bit 10 xm) (push_bit 5 om)) am) = am"
      using small [OF that(1)] by (simp add: take_bit_push_bit)
    moreover have "take_bit 5 (drop_bit 5 (or (or (push_bit 10 xm) (push_bit 5 om)) am)) = om"
      using small [OF that(1)] small [OF that(2)]
      by (auto simp: bit_eq_iff bit_simps)
    moreover have "take_bit 5 (drop_bit 10 (or (or (push_bit 10 xm) (push_bit 5 om)) am)) = xm"
      using small [OF that(1)] small [OF that(2)] small [OF that(3)] by (auto simp: bit_eq_iff bit_simps)
    ultimately show ?thesis by (simp add: gfx9_swizzle_def)
  qed
  then show ?thesis by (simp add: swizzle_law_def)
qed

lemma gfx9_rows: "bit (0xF :: nat) (n mod 4)" "bit (0xA :: nat) (n mod 4) \<longleftrightarrow> odd n"
  "bit (0xC :: nat) (n mod 4) \<longleftrightarrow> odd (n div 2)"
proof -
  have "odd (n mod 4) \<longleftrightarrow> odd n" "odd (n div 2) \<longleftrightarrow> 2 \<le> n mod 4" by presburger+
  then show "bit (0xF :: nat) (n mod 4)" "bit (0xA :: nat) (n mod 4) \<longleftrightarrow> odd n"
    "bit (0xC :: nat) (n mod 4) \<longleftrightarrow> odd (n div 2)"
    using mod_4_cases [of n] by (auto simp: bit_numeral_rec bit_Suc_0_iff)
qed

lemma xor_split: "m < 2 ^ k \<Longrightarrow> xor l m = l div 2 ^ k * 2 ^ k + xor (l mod 2 ^ k) m" for l m :: nat
  using xor_in_group [of m k l] div_mult_mod_eq [of "xor l m" "2 ^ k"] by simp

lemma gfx9_quad:
  "gfx9_dpp 0xB1 0xF l = Some (xor l 1)" "gfx9_dpp 0x4E 0xF l = Some (xor l 2)"
proof -
  have "drop_bit (2 * (l mod 4)) (0xB1 :: nat) mod 4 = xor (l mod 4) 1"
    "drop_bit (2 * (l mod 4)) (0x4E :: nat) mod 4 = xor (l mod 4) 2"
    using mod_4_cases [of l] by (auto simp: drop_bit_eq_div)
  then show "gfx9_dpp 0xB1 0xF l = Some (xor l 1)" "gfx9_dpp 0x4E 0xF l = Some (xor l 2)"
    using xor_split [of 1 2 l] xor_split [of 2 2 l] by (simp_all add: gfx9_dpp_def gfx9_rows)
qed

lemma gfx9_dpp_law: "dpp_law gfx9_dpp"
proof -
  have shr: "gfx9_dpp (ROW_SHR k) 0xF l = (if k \<le> l mod 16 then Some (l - k) else None)"
    if "k \<in> {1, 2, 4, 8}" for k l
    using that by (auto simp: gfx9_dpp_def ROW_SHR_def gfx9_rows)
  have b15: "gfx9_dpp ROW_BCAST15 0xA l = (if odd (l div 16) then Some ((l div 16) * 16 - 1) else None)" for l
  proof -
    have "l mod 64 = 16 * (l div 16 mod 4) + l mod 16" using mod_mult2_eq [of l 16 4] by simp
    moreover have "odd (l div 16) \<Longrightarrow> 1 \<le> l div 16 mod 4" by presburger
    ultimately have "odd (l div 16) \<Longrightarrow> \<not> l mod 64 < 16" by linarith
    then show ?thesis by (simp add: gfx9_dpp_def ROW_BCAST15_def gfx9_rows)
  qed
  have b31: "gfx9_dpp ROW_BCAST31 0xC l = (if odd (l div 32) then Some ((l div 32) * 32 - 1) else None)" for l
  proof -
    have d: "l div 16 div 2 = l div 32" using div_mult2_eq [of l 16 2] by simp
    have "l mod 64 = 32 * (l div 32 mod 2) + l mod 32" using mod_mult2_eq [of l 32 2] by simp
    moreover have "odd (l div 32) \<Longrightarrow> 1 \<le> l div 32 mod 2" by presburger
    ultimately have "odd (l div 32) \<Longrightarrow> \<not> l mod 64 < 32" by linarith
    note d this
    then show ?thesis by (simp only: gfx9_dpp_def ROW_BCAST31_def gfx9_rows) simp
  qed
  have "(8 + l mod 16) mod 16 = xor (l mod 16) 8" for l :: nat
  proof -
    have "l mod 16 \<in> {0..<16}" by simp
    moreover have "\<forall>x \<in> {0..<16::nat}. (8 + x) mod 16 = xor x 8" by (simp add: atLeastLessThan_nat_numeral)
    ultimately show ?thesis by blast
  qed
  then have "gfx9_dpp 0x128 0xF l = Some (xor l 8)" for l
    using xor_split [of 8 4 l] by (simp add: gfx9_dpp_def gfx9_rows)
  moreover have "gfx9_dpp WAVE_SHR1 0xF l = (if l mod 64 = 0 then None else Some (l - 1))"
    "gfx9_dpp 0x141 0xF l = Some ((l div 8) * 8 + (7 - l mod 8))" for l
    by (simp_all add: gfx9_dpp_def WAVE_SHR1_def gfx9_rows)
  ultimately show ?thesis
    unfolding dpp_law_def ALL_ROWS_def using shr b15 b31 gfx9_quad by blast
qed

lemma int32_type [simp]: "int_type int32"
  by (simp add: int_type_def int32_def)

lemma gfx9_target [simp]:
  "rocdl_law gfx9_target" "lane_src gfx9_target = gpu_shuffle" "warp_size gfx9_target = 64"
  "target.truncate gfx9_target = \<lparr>lane_src = gpu_shuffle, warp_size = 64\<rparr>"
  by (simp_all add: gfx9_target_def rocdl_law_def gfx9_dpp_law gfx9_swizzle_law readlane_law_def target.truncate_def)

theorem rocdl_warp_reduce_equiv_witness:
  "dpp_applies gfx9_target int32 \<and>
   rocdl_warp_reduce gfx9_target int32 (Builtin ADD) None None (Item (\<lambda>l. int (l mod 64)))
     = warp_reduce \<lparr>lane_src = gpu_shuffle, warp_size = 64\<rparr> (num_dtype int32) (Builtin ADD) None None (Item (\<lambda>l. int (l mod 64)))"
proof -
  have "nt_range int32 (int (l mod 64))" for l
    unfolding nt_range_def nt_wrap_def int32_def Let_def by (simp add: signed_take_bit_int_eq_self)
  moreover have "dpp_applies gfx9_target int32" by (simp add: dpp_applies_def gfx9_target_def int32_def)
  ultimately show ?thesis
    using rocdl_warp_reduce_equiv [of gfx9_target int32 "Item (\<lambda>l. int (l mod 64))" "Builtin ADD" None None]
    by (simp add: gpu_shuffle_law)
qed

lemma rocdl_scans_eq:
  assumes law: "rocdl_law tg" "shuffle_law (lane_src tg)" and sz: "warp_size tg = 64"
    and t: "int_type t" and items: "\<And>v l. val = Item v \<Longrightarrow> nt_range t (v l)"
  shows "rocdl_warp_inclusive_scan tg t op width init valid val
      = warp_inclusive_scan (target.truncate tg) (num_dtype t) op width init valid val
    \<and> rocdl_warp_exclusive_scan tg t op width init valid val
      = warp_exclusive_scan (target.truncate tg) (num_dtype t) op width init valid val
    \<and> rocdl_warp_scan_with_aggregate tg t op width init valid val
      = warp_scan_with_aggregate (target.truncate tg) (num_dtype t) op width init valid val
    \<and> rocdl_warp_scan tg t op width init valid val
      = warp_scan (target.truncate tg) (num_dtype t) op width init valid val"
proof -
  let ?tg = "target.truncate tg" and ?d = "num_dtype t"
  let ?all = "rocdl_warp_inclusive_scan tg t op width init valid val = warp_inclusive_scan ?tg ?d op width init valid val
    \<and> rocdl_warp_exclusive_scan tg t op width init valid val = warp_exclusive_scan ?tg ?d op width init valid val
    \<and> rocdl_warp_scan_with_aggregate tg t op width init valid val = warp_scan_with_aggregate ?tg ?d op width init valid val
    \<and> rocdl_warp_scan tg t op width init valid val = warp_scan ?tg ?d op width init valid val"
  note rocdl_defs = rocdl_warp_inclusive_scan_def rocdl_warp_exclusive_scan_def
    rocdl_warp_scan_with_aggregate_def rocdl_warp_scan_def
  note portable_defs = warp_inclusive_scan_def warp_exclusive_scan_def warp_scan_with_aggregate_def warp_scan_def
  have s: "warp_size ?tg = 64" "shuffle_law (lane_src ?tg)" using sz law(2) by (simp_all add: target.truncate_def)
  have p64: "is_pow2 (warp_size ?tg)" using is_pow2_power [of 6] by (simp add: s)
  have ?all
  proof (cases "resolve_warp_width ?tg width")
    case (Inl e)
    then show ?thesis by (simp add: rocdl_defs portable_defs)
  next
    case (Inr w)
    have w: "is_pow2 w" "w \<le> 64" using resolve_warp_width_pow2 [OF Inr p64] s by simp_all
    then have again: "resolve_warp_width ?tg (Some (int w)) = Inr w"
      using resolve_warp_width_again [of w ?tg] s by simp
    show ?thesis
    proof (cases "validate_scan val valid w")
      case (Inl e)
      then show ?thesis using Inr by (simp add: rocdl_defs portable_defs)
    next
      case valid: (Inr u)
      have same: "warp_inclusive_scan ?tg ?d op (Some (int w)) init valid val = warp_inclusive_scan ?tg ?d op width init valid val"
        "warp_exclusive_scan ?tg ?d op (Some (int w)) init valid val = warp_exclusive_scan ?tg ?d op width init valid val"
        "warp_scan_with_aggregate ?tg ?d op (Some (int w)) init valid val = warp_scan_with_aggregate ?tg ?d op width init valid val"
        "warp_scan ?tg ?d op (Some (int w)) init valid val = warp_scan ?tg ?d op width init valid val"
        using again Inr by (simp_all add: portable_defs)
      show ?thesis
      proof (cases "(\<exists>v r. val = Item v \<and> op = Builtin r) \<and> valid = None \<and> dpp_applies tg t")
        case False
        then show ?thesis
          using Inr valid same by (cases val; cases op; cases valid) (simp_all add: rocdl_defs)
      next
        case True
        then obtain v r where vr: "val = Item v" "op = Builtin r" by blast
        have v: "\<And>l. nt_range t (v l)" using items vr(1) by blast
        have raw: "rocdl_inclusive_scan tg t v r w = prefix_fold (num_combine t r) v w"
          by (rule rocdl_inclusive_scan_correct [OF law(1) t w v])
        have total: "(\<lambda>l. prefix_fold (num_combine t r) v w (group_base w l + (w - 1))) = group_fold (num_combine t r) v w"
          using prefix_fold_last [OF is_pow2_pos [OF w(1)]] by blast
        show ?thesis
          using True Inr valid item_scans [OF s(2) p64 t Inr, of r init v] total
          by (simp add: rocdl_defs vr raw rocdl_shift_up_correct [OF law(1) w] rocdl_aggregate_correct [OF law(1) w]
              warp_scan_def Let_def cong: if_cong del: One_nat_def)
      qed
    qed
  qed
  then show ?thesis by blast
qed

text \<open>
  C18: on a gfx9 wave the four ROCm scans return exactly what the portable scans return, for every
  operator, width, seed, valid count and tile: the DPP rows, the two row broadcasts, the wave
  shift and the \<open>ds_swizzle\<close> broadcast compute the same lanes.
\<close>

theorem rocdl_scans_equiv:
  assumes law: "rocdl_law tg" "shuffle_law (lane_src tg)" and sz: "warp_size tg = 64"
    and t: "int_type t" and items: "\<And>v l. val = Item v \<Longrightarrow> nt_range t (v l)"
  shows "rocdl_warp_inclusive_scan tg t op width init valid val
      = warp_inclusive_scan (target.truncate tg) (num_dtype t) op width init valid val
    \<and> rocdl_warp_exclusive_scan tg t op width init valid val
      = warp_exclusive_scan (target.truncate tg) (num_dtype t) op width init valid val
    \<and> rocdl_warp_scan_with_aggregate tg t op width init valid val
      = warp_scan_with_aggregate (target.truncate tg) (num_dtype t) op width init valid val
    \<and> rocdl_warp_scan tg t op width init valid val
      = warp_scan (target.truncate tg) (num_dtype t) op width init valid val"
  using assms by (rule rocdl_scans_eq)

theorem rocdl_scans_equiv_witness:
  "rocdl_warp_inclusive_scan gfx9_target int32 (Builtin ADD) (Some 32) None None (Item (\<lambda>l. int (l mod 64)))
     = warp_inclusive_scan \<lparr>lane_src = gpu_shuffle, warp_size = 64\<rparr> (num_dtype int32) (Builtin ADD) (Some 32) None None
         (Item (\<lambda>l. int (l mod 64)))"
proof -
  have "nt_range int32 (int (l mod 64))" for l
    unfolding nt_range_def nt_wrap_def int32_def Let_def by (simp add: signed_take_bit_int_eq_self)
  then show ?thesis
    using rocdl_scans_equiv [of gfx9_target int32 "Item (\<lambda>l. int (l mod 64))" "Builtin ADD" "Some 32" None None]
    by (auto simp: gpu_shuffle_law)
qed

end
