(* ===== verification/Scan_Providers.thy ===== *)
theory Scan_Providers
  imports Block_Scan Warp_Rocdl
begin

text \<open>
  The two providers of warp operations behind a block scan (the dispatcher of
  \<open>coop/universal.py\<close> picks one by compile backend): the portable shuffle networks and the ROCm
  overrides. Both satisfy the interface of the block scans, so that the theorems of
  \<open>Block_Scan\<close> hold for either.
\<close>

section \<open>Providers\<close>

definition only_item :: "'a tile res \<Rightarrow> 'a res" where
  "only_item r = rbind r (\<lambda>x. case x of Item v \<Rightarrow> Inr v | Items _ \<Rightarrow> Inl TypeError)"

definition only_items ::
  "('a lanes tile \<times> 'a lanes tile \<times> 'a lanes) res \<Rightarrow> ('a lanes \<times> 'a lanes \<times> 'a lanes) res" where
  "only_items r = rbind r (\<lambda>(inclusive, exclusive, aggregate).
     rbind (only_item (Inr inclusive)) (\<lambda>i. rbind (only_item (Inr exclusive)) (\<lambda>e. Inr (i, e, aggregate))))"

definition portable_ops :: "target \<Rightarrow> num_type \<Rightarrow> int warp_ops" where
  "portable_ops tg t = \<lparr>
     op_inclusive = (\<lambda>op w v. only_item (warp_inclusive_scan tg (num_dtype t) op (Some (int w)) None None (Item v))),
     op_aggregate = (\<lambda>op w v. only_items (warp_scan_with_aggregate tg (num_dtype t) op (Some (int w)) None None (Item v)))\<rparr>"

definition rocdl_ops :: "rocdl_target \<Rightarrow> num_type \<Rightarrow> int warp_ops" where
  "rocdl_ops tg t = \<lparr>
     op_inclusive = (\<lambda>op w v. only_item (rocdl_warp_inclusive_scan tg t op (Some (int w)) None None (Item v))),
     op_aggregate = (\<lambda>op w v. only_items (rocdl_warp_scan_with_aggregate tg t op (Some (int w)) None None (Item v)))\<rparr>"

definition portable_scan_class :: "target \<Rightarrow> num_type \<Rightarrow> scan_algorithm \<Rightarrow> nat \<Rightarrow> nat \<Rightarrow> int block_scan_class" where
  "portable_scan_class tg t alg w nw = \<lparr>sc_target = tg, sc_dtype = num_dtype t, sc_algorithm = alg,
     sc_width = w, sc_warps = nw, sc_ops = portable_ops tg t\<rparr>"

definition rocdl_scan_class :: "rocdl_target \<Rightarrow> num_type \<Rightarrow> scan_algorithm \<Rightarrow> nat \<Rightarrow> nat \<Rightarrow> int block_scan_class" where
  "rocdl_scan_class tg t alg w nw = \<lparr>sc_target = target.truncate tg, sc_dtype = num_dtype t, sc_algorithm = alg,
     sc_width = w, sc_warps = nw, sc_ops = rocdl_ops tg t\<rparr>"

section \<open>Both keep the contract\<close>

definition portable_legal :: "target \<Rightarrow> num_type \<Rightarrow> nat \<Rightarrow> nat \<Rightarrow> bool" where
  "portable_legal tg t w nw \<longleftrightarrow> shuffle_law (lane_src tg) \<and> is_pow2 (warp_size tg) \<and> int_type t
     \<and> block_geometry (warp_size tg) (w * nw) w nw"

definition rocdl_legal :: "rocdl_target \<Rightarrow> num_type \<Rightarrow> nat \<Rightarrow> nat \<Rightarrow> bool" where
  "rocdl_legal tg t w nw \<longleftrightarrow> rocdl_law tg \<and> shuffle_law (lane_src tg) \<and> warp_size tg = 64 \<and> int_type t
     \<and> block_geometry 64 (w * nw) w nw"

lemma resolve_width:
  "is_pow2 w \<Longrightarrow> w \<le> warp_size tg \<Longrightarrow> resolve_warp_width tg (Some (int w)) = Inr w"
  using resolve_warp_width_again by blast

lemma int_closed: "int_type t \<Longrightarrow> closed_op (nt_range t) (num_combine t r)"
  by (simp add: closed_op_def num_combine_range)

lemma num_identity_range: "int_type t \<Longrightarrow> nt_range t (num_identity t r)"
proof -
  assume t: "int_type t"
  have idem: "nt_wrap t (nt_wrap t x) = nt_wrap t x" for x by (simp add: nt_wrap_def)
  have small: "nt_range t 0" "nt_width t = 1 \<Longrightarrow> nt_range t 1"
    using t by (simp_all add: nt_range_def nt_wrap_def int_type_def)
  show ?thesis
    using small idem
    by (cases r) (simp_all add: num_identity_def representable_extreme_def nt_range_def Let_def)
qed

lemma num_dtype_sel [simp]:
  "builtin_combine (num_dtype t) = num_combine t" "builtin_identity (num_dtype t) = num_identity t"
  by (simp_all add: num_dtype_def)

lemma portable_inclusive:
  assumes "shuffle_law (lane_src tg)" "is_pow2 w" "w \<le> warp_size tg" "assoc_op (combine (num_dtype t) op)"
  shows "op_inclusive (portable_ops tg t) op w v = Inr (prefix_fold (combine (num_dtype t) op) v w)"
  using scan_raw_correct [OF assms(1,4,2), of None v] resolve_width [OF assms(2,3)]
  by (simp add: portable_ops_def warp_inclusive_scan_def validate_scan_def scan_inclusive_def only_item_def)

lemma portable_aggregate:
  assumes "shuffle_law (lane_src tg)" "is_pow2 (warp_size tg)" "int_type t" "is_pow2 w" "w \<le> warp_size tg"
  shows "op_aggregate (portable_ops tg t) (Builtin r) w v = Inr (prefix_fold (num_combine t r) v w,
        (\<lambda>l. if l mod w = 0 then num_identity t r else prefix_fold (num_combine t r) v w (l - 1)),
        group_fold (num_combine t r) v w)"
  using item_scans(3) [OF assms(1-3) resolve_width [OF assms(4,5)], of r None v]
  by (simp add: portable_ops_def only_items_def only_item_def seed_def)

interpretation portable: block_scan_ops "portable_legal tg t w nw" "portable_scan_class tg t alg w nw" "nt_range t"
proof (unfold_locales, goal_cases)
  case (2 w' op v)
  then show ?case by (simp add: portable_legal_def portable_scan_class_def portable_inclusive)
next
  case (3 w' v r)
  then show ?case by (simp add: portable_legal_def portable_scan_class_def portable_aggregate cong: if_cong)
qed (simp_all add: portable_legal_def portable_scan_class_def sc_threads_def assoc_num_combine int_closed
    num_identity_neutral num_identity_range)

interpretation rocdl: block_scan_ops "rocdl_legal tg t w nw" "rocdl_scan_class tg t alg w nw" "nt_range t"
proof (unfold_locales, goal_cases)
  case (2 w' op v)
  then have "rocdl_warp_inclusive_scan tg t op (Some (int w')) None None (Item v)
      = warp_inclusive_scan (target.truncate tg) (num_dtype t) op (Some (int w')) None None (Item v)"
    using rocdl_scans_eq [of tg t "Item v" op "Some (int w')" None None] by (auto simp: rocdl_legal_def)
  then have "op_inclusive (rocdl_ops tg t) op w' v = op_inclusive (portable_ops (target.truncate tg) t) op w' v"
    by (simp add: rocdl_ops_def portable_ops_def)
  then show ?case
    using 2 by (simp add: rocdl_legal_def rocdl_scan_class_def portable_inclusive target.truncate_def)
next
  case (3 w' v r)
  then have "rocdl_warp_scan_with_aggregate tg t (Builtin r) (Some (int w')) None None (Item v)
      = warp_scan_with_aggregate (target.truncate tg) (num_dtype t) (Builtin r) (Some (int w')) None None (Item v)"
    using rocdl_scans_eq [of tg t "Item v" "Builtin r" "Some (int w')" None None] by (auto simp: rocdl_legal_def)
  then have "op_aggregate (rocdl_ops tg t) (Builtin r) w' v = op_aggregate (portable_ops (target.truncate tg) t) (Builtin r) w' v"
    by (simp add: rocdl_ops_def portable_ops_def)
  moreover have "is_pow2 64" using is_pow2_power [of 6] by simp
  ultimately show ?case
    using 3 by (simp add: rocdl_legal_def rocdl_scan_class_def portable_aggregate target.truncate_def cong: if_cong)
qed (simp_all add: rocdl_legal_def rocdl_scan_class_def sc_threads_def assoc_num_combine int_closed
    num_identity_neutral num_identity_range target.truncate_def)

section \<open>Sums without overflow\<close>

lemma add_combine: "nt_width t \<noteq> 1 \<Longrightarrow> num_combine t ADD a b = nt_wrap t (a + b)"
  by (simp add: num_combine_def)

lemma seg_sum:
  assumes "nt_width t \<noteq> 1" "\<And>p. p \<le> m \<Longrightarrow> 0 \<le> u p" "nt_range t (\<Sum>p \<le> m. u p)"
  shows "seg (num_combine t ADD) u 0 m = (\<Sum>p \<le> m. u p)"
  using assms(2,3)
proof (induction m)
  case (Suc m)
  have nonneg: "0 \<le> u (Suc m)" "0 \<le> (\<Sum>p \<le> m. u p)" using Suc.prems(1) by (auto intro: sum_nonneg)
  have "nt_range t (\<Sum>p \<le> m. u p)"
    unfolding nt_range_def by (rule nt_range_below [OF Suc.prems(2)]) (use nonneg in simp_all)
  then have IH: "seg (num_combine t ADD) u 0 m = (\<Sum>p \<le> m. u p)" using Suc by simp
  show ?case
    unfolding seg.simps IH unfolding add_combine [OF assms(1)] using Suc.prems(2) by (simp add: nt_range_def)
qed simp

section \<open>Properties\<close>

lemma class_sel [simp]:
  "sc_dtype (portable_scan_class tg t alg w nw) = num_dtype t" "sc_threads (portable_scan_class tg t alg w nw) = w * nw"
  "sc_dtype (rocdl_scan_class rt t alg w nw) = num_dtype t" "sc_threads (rocdl_scan_class rt t alg w nw) = w * nw"
  by (simp_all add: portable_scan_class_def rocdl_scan_class_def sc_threads_def)

text \<open>A block of three logical warps of four lanes, and one of two gfx9 waves.\<close>

definition demo_storage :: "int scan_storage" where
  "demo_storage = \<lparr>ss_slots = (\<lambda>_. 0), ss_output = (\<lambda>_. 0), ss_aggregate = (\<lambda>_. 0), ss_callback = (\<lambda>_. 0)\<rparr>"

lemma demo_legal: "portable_legal demo_target int32 4 3"
  using is_pow2_power [of 2] by (simp add: portable_legal_def block_geometry_def)

lemma gfx9_legal: "rocdl_legal gfx9_target int32 64 2"
  using is_pow2_power [of 6] by (simp add: rocdl_legal_def block_geometry_def gpu_shuffle_law)

lemma small_int32 [simp]: "nt_range int32 (int (l mod 64))"
  unfolding nt_range_def nt_wrap_def int32_def Let_def by (simp add: signed_take_bit_int_eq_self)

lemma int32_add:
  "assoc_op (num_combine int32 ADD)" "closed_op (nt_range int32) (num_combine int32 ADD)"
  "nt_range int32 a \<Longrightarrow> num_combine int32 ADD (num_identity int32 ADD) a = a"
  by (simp_all add: int_closed num_identity_neutral)

text \<open>
  C3: the block scan on the portable warp operations, for each of the three algorithms, built-in
  and callable operators, items, seeds, explicit identities and prefix callbacks: every thread's
  items hold the seeded ordered fold of the block's items in blocked order, inclusive or
  exclusive, and every thread gets the block's total.
\<close>

theorem block_scan_portable:
  assumes "portable_legal tg t w nw"
    and "assoc_op (combine (num_dtype t) op)" "closed_op (nt_range t) (combine (num_dtype t) op)"
    and "tile_list tile = Inr items" "\<forall>i \<in> set items. \<forall>l. nt_range t (i l)"
    and "callback = None \<or> init = None" "\<forall>s x. init = Some s \<longrightarrow> nt_range t (s x)"
    and "\<forall>e a. init = None \<and> callback = None \<and> optional_identity (num_dtype t) op explicit = Some e
      \<and> nt_range t a \<longrightarrow> combine (num_dtype t) op e a = a"
  shows "\<exists>out aggregate. block_scan (portable_scan_class tg t alg w nw) op st inclusive init explicit None callback tile
      = Inr (pack_tile tile out, aggregate)
    \<and> (\<forall>x < w * nw. aggregate x = seg (combine (num_dtype t) op) (blocked items) 0 (w * nw * length items - 1)
      \<and> scan_spec (combine (num_dtype t) op) (case callback of None \<Rightarrow> init | Some cb \<Rightarrow> Some (\<lambda>_. cb aggregate 0))
          (optional_identity (num_dtype t) op explicit) (blocked items) inclusive (length items) out x)"
  using portable.block_scan_correct [where tg = tg and t = t and w = w and nw = nw and alg = alg and op = op
      and tile = tile and items = items and callback = callback and init = init and explicit = explicit and st = st and inclusive = inclusive] assms
  by simp

theorem block_scan_portable_witness:
  "\<exists>out aggregate. block_scan (portable_scan_class demo_target int32 RAKING_MEMOIZE 4 3) (Builtin ADD) demo_storage True None None None None
       (Items [\<lambda>l. int (l mod 64), \<lambda>l. int (l mod 64)]) = Inr (Items out, aggregate)
     \<and> aggregate 7 = 132 \<and> (out ! 0) 2 = 4"
proof -
  let ?i = "\<lambda>l :: nat. int (l mod 64)" and ?f = "num_combine int32 ADD"
  have n: "optional_identity (num_dtype int32) (Builtin ADD) None = Some (num_identity int32 ADD)"
    by (simp add: optional_identity_def)
  obtain out aggregate where o: "block_scan (portable_scan_class demo_target int32 RAKING_MEMOIZE 4 3) (Builtin ADD) demo_storage True None None None None
       (Items [?i, ?i]) = Inr (Items out, aggregate)"
    "\<forall>x < 12. aggregate x = seg ?f (blocked [?i, ?i]) 0 23 \<and> scan_spec ?f None (Some (num_identity int32 ADD)) (blocked [?i, ?i]) True 2 out x"
    using block_scan_portable [OF demo_legal, of "Builtin ADD" "Items [?i, ?i]" "[?i, ?i]" None None None RAKING_MEMOIZE demo_storage True]
      int32_add by (auto simp: n tile_list_def pack_tile_def numeral_2_eq_2)
  have "seg ?f (blocked [?i, ?i]) 0 23 = 132" "seg ?f (blocked [?i, ?i]) 0 4 = 4" by code_simp+
  then show ?thesis using o by (auto simp: scan_spec_def seeded_def)
qed

text \<open>
  C19: the same for the ROCm warp operations on a gfx9 wave of 64 lanes: replacing the provider
  does not change what a block scan computes.
\<close>

theorem block_scan_rocdl:
  assumes "rocdl_legal tg t w nw"
    and "assoc_op (combine (num_dtype t) op)" "closed_op (nt_range t) (combine (num_dtype t) op)"
    and "tile_list tile = Inr items" "\<forall>i \<in> set items. \<forall>l. nt_range t (i l)"
    and "callback = None \<or> init = None" "\<forall>s x. init = Some s \<longrightarrow> nt_range t (s x)"
    and "\<forall>e a. init = None \<and> callback = None \<and> optional_identity (num_dtype t) op explicit = Some e
      \<and> nt_range t a \<longrightarrow> combine (num_dtype t) op e a = a"
  shows "\<exists>out aggregate. block_scan (rocdl_scan_class tg t alg w nw) op st inclusive init explicit None callback tile
      = Inr (pack_tile tile out, aggregate)
    \<and> (\<forall>x < w * nw. aggregate x = seg (combine (num_dtype t) op) (blocked items) 0 (w * nw * length items - 1)
      \<and> scan_spec (combine (num_dtype t) op) (case callback of None \<Rightarrow> init | Some cb \<Rightarrow> Some (\<lambda>_. cb aggregate 0))
          (optional_identity (num_dtype t) op explicit) (blocked items) inclusive (length items) out x)"
  using rocdl.block_scan_correct [where tg = tg and t = t and w = w and nw = nw and alg = alg and op = op
      and tile = tile and items = items and callback = callback and init = init and explicit = explicit and st = st and inclusive = inclusive] assms
  by simp

theorem block_scan_rocdl_witness:
  "\<exists>out aggregate. block_scan (rocdl_scan_class gfx9_target int32 WARP_SCANS 64 2) (Builtin ADD) demo_storage False None None None None
       (Item (\<lambda>l. int (l mod 64))) = Inr (Item out, aggregate) \<and> out 0 = 0 \<and> out 5 = 10"
proof -
  let ?i = "\<lambda>l :: nat. int (l mod 64)" and ?f = "num_combine int32 ADD"
  have n: "optional_identity (num_dtype int32) (Builtin ADD) None = Some (num_identity int32 ADD)"
    by (simp add: optional_identity_def)
  obtain out aggregate where o: "block_scan (rocdl_scan_class gfx9_target int32 WARP_SCANS 64 2) (Builtin ADD) demo_storage False None None None None
       (Item ?i) = Inr (Item (hd out), aggregate)"
    "\<forall>x < 128. scan_spec ?f None (Some (num_identity int32 ADD)) (blocked [?i]) False 1 out x"
    using block_scan_rocdl [OF gfx9_legal, of "Builtin ADD" "Item ?i" "[?i]" None None None WARP_SCANS demo_storage False]
      int32_add by (auto simp: n tile_list_def pack_tile_def)
  have "seg ?f (blocked [?i]) 0 4 = 10" by code_simp
  moreover have "hd out = out ! 0" using spec [OF o(2), of 0] by (cases out) (auto simp: scan_spec_def)
  ultimately have "hd out 0 = 0" "hd out 5 = 10"
    using spec [OF o(2), of 0] spec [OF o(2), of 5]
    by (auto simp: scan_spec_def seeded_def first_value_def num_identity_def)
  then show ?thesis using o(1) by blast
qed



end
