(* ===== verification/Block_Tiles.thy ===== *)
theory Block_Tiles
  imports Warp_Scan Coop_Shared
begin

text \<open>
  A block's tile of items as one list in blocked order: thread \<open>t\<close> holds the elements
  \<open>t * n, \<dots>, t * n + n - 1\<close>. The sorting, exchange and flagging algorithms are specified on
  this list.
\<close>

definition tile_seq :: "nat \<Rightarrow> 'a lanes list \<Rightarrow> 'a list" where
  "tile_seq threads items = map (blocked items) [0..<threads * length items]"

lemma length_tile_seq [simp]: "length (tile_seq threads items) = threads * length items"
  by (simp add: tile_seq_def)

lemma tile_seq_nth [simp]: "p < threads * length items \<Longrightarrow> tile_seq threads items ! p = blocked items p"
  by (simp add: tile_seq_def)

lemma position_bound: "t < threads \<Longrightarrow> i < n \<Longrightarrow> t * n + i < threads * n" for t i n threads :: nat
proof -
  assume "t < threads" "i < n"
  then have "Suc t * n \<le> threads * n" by (intro mult_right_mono) simp_all
  then show ?thesis using \<open>i < n\<close> by simp
qed

lemma position_split:
  fixes p n threads :: nat
  assumes "p < threads * n"
  obtains t i where "p = t * n + i" "t < threads" "i < n"
proof
  have "0 < n" using assms by (cases n) simp_all
  then show "p mod n < n" by simp
  show "p = p div n * n + p mod n" by simp
  show "p div n < threads" using assms by (simp add: less_mult_imp_div_less)
qed

lemma position_cases:
  fixes p n threads :: nat
  assumes "p < threads * n"
  shows "p div n < threads" "p mod n < n" "0 < n" "p div n * n + p mod n = p"
proof -
  show "0 < n" using assms by (cases n) simp_all
  then show "p mod n < n" by simp
  show "p div n < threads" using assms by (simp add: less_mult_imp_div_less)
qed simp

lemma set_tile_seq: "x \<in> set (tile_seq threads items) \<longleftrightarrow> (\<exists>t < threads. \<exists>i < length items. x = (items ! i) t)"
proof
  assume "x \<in> set (tile_seq threads items)"
  then obtain p where p: "p < threads * length items" "x = blocked items p" by (auto simp: tile_seq_def)
  then show "\<exists>t < threads. \<exists>i < length items. x = (items ! i) t"
    using position_cases(1,2) [OF p(1)] unfolding blocked_def by blast
next
  assume "\<exists>t < threads. \<exists>i < length items. x = (items ! i) t"
  then obtain t i where ti: "t < threads" "i < length items" "x = blocked items (t * length items + i)" by auto
  then have "tile_seq threads items ! (t * length items + i) = x" by (simp add: position_bound)
  moreover have "t * length items + i < length (tile_seq threads items)" using ti by (simp add: position_bound)
  ultimately show "x \<in> set (tile_seq threads items)" by (metis nth_mem)
qed

lemma tile_seq_map: "tile_seq threads (map (\<lambda>item t. f (item t)) items) = map f (tile_seq threads items)"
proof (rule nth_equalityI)
  fix p assume "p < length (tile_seq threads (map (\<lambda>item t. f (item t)) items))"
  then have p: "p < threads * length items" by simp
  then have "p mod length items < length items" using position_cases by blast
  then show "tile_seq threads (map (\<lambda>item t. f (item t)) items) ! p = map f (tile_seq threads items) ! p"
    using p by (simp add: blocked_def)
qed simp

text \<open>A list with the right element at every position of the tile.\<close>

lemma tile_seq_eqI:
  assumes "length xs = threads * length items"
    and "\<And>t i. t < threads \<Longrightarrow> i < length items \<Longrightarrow> (items ! i) t = xs ! (t * length items + i)"
  shows "tile_seq threads items = xs"
proof (rule nth_equalityI)
  fix p assume "p < length (tile_seq threads items)"
  then have p: "p < threads * length items" by simp
  then show "tile_seq threads items ! p = xs ! p"
    using assms(2) [of "p div length items" "p mod length items"] position_cases [OF p] by (simp add: blocked_def)
qed (simp add: assms(1))

lemma map_upt_nth: "i < n \<Longrightarrow> map f [0..<n] ! i = f i"
  by simp

lemma split_unique:
  fixes n :: nat
  assumes "s * n + i = t * n + j" "i < n" "j < n"
  shows "s = t \<and> i = j"
proof -
  have "s = t" using arg_cong [OF assms(1), of "\<lambda>x. x div n"] group_split(1) [OF assms(2), of s]
    group_split(1) [OF assms(3), of t] by (simp only:)
  then show ?thesis using assms(1) by simp
qed

lemma scatter_inj_positions:
  assumes "inj_on f {..<threads * n}"
  shows "scatter_inj threads n (\<lambda>_ _. True) (\<lambda>t i. f (t * n + i))"
  unfolding scatter_inj_def
proof (intro allI impI)
  fix s i t j assume b: "s < threads" "i < n" "t < threads" "j < n" "True \<and> True \<and> f (s * n + i) = f (t * n + j)"
  have "s * n + i = t * n + j"
    by (rule inj_onD [OF assms]) (use b position_bound in auto)
  then show "s = t \<and> i = j" by (rule split_unique [OF _ b(2,4)])
qed

end
