(* ===== verification/Stable_Rank.thy ===== *)
theory Stable_Rank
  imports "HOL-Library.Multiset"
begin

text \<open>
  Counting ranks: the place an item takes in a stable sort is the number of smaller keys plus the
  number of equal keys before it. The radix sort computes such ranks with prefix sums.
\<close>

definition stable_rank :: "('a \<Rightarrow> 'o :: linorder) \<Rightarrow> 'a list \<Rightarrow> nat \<Rightarrow> nat" where
  "stable_rank d xs p = length (filter (\<lambda>x. d x < d (xs ! p)) xs)
     + length (filter (\<lambda>x. d x = d (xs ! p)) (take p xs))"

lemma sorted_three_way:
  "sorted (map d ys) \<Longrightarrow>
    ys = filter (\<lambda>x. d x < v) ys @ filter (\<lambda>x. d x = v) ys @ filter (\<lambda>x. v < d x) ys" for v :: "'o :: linorder"
proof (induction ys)
  case (Cons y ys)
  then have IH: "ys = filter (\<lambda>x. d x < v) ys @ filter (\<lambda>x. d x = v) ys @ filter (\<lambda>x. v < d x) ys" by simp
  have ge: "\<And>x. x \<in> set ys \<Longrightarrow> d y \<le> d x" using Cons.prems by simp
  consider "d y < v" | "d y = v" | "v < d y" using less_linear by blast
  then show ?case
  proof cases
    case 1
    then have "d y \<noteq> v" "\<not> v < d y" by auto
    then show ?thesis using 1 IH by simp
  next
    case 2
    then have "filter (\<lambda>x. d x < v) ys = []" using ge by (force simp: filter_empty_conv)
    then show ?thesis using 2 IH by simp
  next
    case 3
    then have "filter (\<lambda>x. d x < v) ys = []" "filter (\<lambda>x. d x = v) ys = []"
      using ge by (force simp: filter_empty_conv)+
    moreover have "d y \<noteq> v" "\<not> d y < v" using 3 by auto
    ultimately show ?thesis using 3 IH by simp
  qed
qed simp

lemma filter_nth_take:
  assumes "p < length xs" "P (xs ! p)"
  shows "filter P xs ! length (filter P (take p xs)) = xs ! p"
    "length (filter P (take p xs)) < length (filter P xs)"
proof -
  have "xs = take p xs @ xs ! p # drop (Suc p) xs" using assms(1) by (rule id_take_nth_drop)
  then have e: "filter P xs = filter P (take p xs) @ xs ! p # filter P (drop (Suc p) xs)"
    using assms(2) by (metis filter.simps(2) filter_append)
  show "filter P xs ! length (filter P (take p xs)) = xs ! p"
    "length (filter P (take p xs)) < length (filter P xs)"
    unfolding e by simp_all
qed

lemma sort_key_nth_rank:
  assumes "p < length xs"
  shows "sort_key d xs ! stable_rank d xs p = xs ! p" "stable_rank d xs p < length xs"
proof -
  let ?v = "d (xs ! p)" and ?ys = "sort_key d xs"
  have "sorted (map d ?ys)" by simp
  note split = sorted_three_way [OF this, of ?v]
  have len: "length (filter P ?ys) = length (filter P xs)" for P
    by (metis mset_filter mset_sort size_mset)
  have mid: "filter (\<lambda>x. d x = ?v) ?ys = filter (\<lambda>x. d x = ?v) xs" by (rule sort_key_stable)
  note t = filter_nth_take [OF assms, of "\<lambda>x. d x = ?v"]
  have "?ys ! stable_rank d xs p = (filter (\<lambda>x. d x = ?v) xs @ filter (\<lambda>x. ?v < d x) ?ys)
      ! length (filter (\<lambda>x. d x = ?v) (take p xs))"
    by (subst split) (simp add: stable_rank_def mid len nth_append)
  then show "?ys ! stable_rank d xs p = xs ! p" using t by (simp add: nth_append)
  have "length xs = length ?ys" by simp
  also have "\<dots> = length (filter (\<lambda>x. d x < ?v) xs) + (length (filter (\<lambda>x. d x = ?v) xs) + length (filter (\<lambda>x. ?v < d x) xs))"
    by (subst split) (simp add: len)
  finally show "stable_rank d xs p < length xs" using t(2) by (simp add: stable_rank_def)
qed

text \<open>Ranks do not collide: sort the positions along with the items.\<close>

lemma stable_rank_inj:
  assumes "p < length xs" "q < length xs" "stable_rank d xs p = stable_rank d xs q"
  shows "p = q"
proof -
  let ?zs = "zip [0..<length xs] xs"
  have z: "stable_rank (d \<circ> snd) ?zs r = stable_rank d xs r" if "r < length xs" for r
  proof -
    have f: "length (filter (P \<circ> snd) (zip is ys)) = length (filter P ys)" if "length is = length ys" for P "is" ys
      using that by (induction "is" ys rule: list_induct2) simp_all
    have "take r ?zs = zip (take r [0..<length xs]) (take r xs)" by (rule take_zip)
    then show ?thesis
      using that f [of "[0..<length xs]" xs "\<lambda>x. d x < d (xs ! r)"]
        f [of "take r [0..<length xs]" "take r xs" "\<lambda>x. d x = d (xs ! r)"]
      by (simp add: stable_rank_def comp_def)
  qed
  have "?zs ! p = ?zs ! q"
    using sort_key_nth_rank(1) [of p ?zs "d \<circ> snd"] sort_key_nth_rank(1) [of q ?zs "d \<circ> snd"] assms z by simp
  then show ?thesis using assms by simp
qed

text \<open>A list that holds every item at its rank is the stable sort.\<close>

lemma sort_key_by_rank:
  assumes "length ys = length xs" "\<And>p. p < length xs \<Longrightarrow> ys ! stable_rank d xs p = xs ! p"
  shows "ys = sort_key d xs"
proof (rule nth_equalityI)
  fix q assume q: "q < length ys"
  have "inj_on (stable_rank d xs) {..<length xs}" using stable_rank_inj by (intro inj_onI) auto
  moreover have "stable_rank d xs ` {..<length xs} \<subseteq> {..<length xs}" using sort_key_nth_rank(2) by auto
  ultimately have "stable_rank d xs ` {..<length xs} = {..<length xs}" by (intro endo_inj_surj) simp_all
  then obtain p where "p < length xs" "stable_rank d xs p = q" using q assms(1) by (auto simp: image_iff) (metis image_iff lessThan_iff)
  then show "ys ! q = sort_key d xs ! q" using assms(2) sort_key_nth_rank(1) by metis
qed (simp add: assms(1))

lemma sorted_map_nth: "sorted (map f zs) \<Longrightarrow> a \<le> c \<Longrightarrow> c < length zs \<Longrightarrow> f (zs ! a) \<le> f (zs ! c)"
  using sorted_nth_mono [of "map f zs" a c] by simp

text \<open>Sorting by a low digit and then by a high one sorts by both.\<close>

lemma sort_key_digits:
  assumes "\<And>x. x \<in> set xs \<Longrightarrow> lo x < (b :: nat)" "0 < b"
  shows "sort_key hi (sort_key lo xs) = sort_key (\<lambda>x. hi x * b + lo x) xs"
proof (rule properties_for_sort_key [symmetric])
  let ?ys = "sort_key hi (sort_key lo xs)" and ?k = "\<lambda>x. hi x * b + lo x"
  show "mset ?ys = mset xs" by simp
  have key: "?k x = ?k y \<longleftrightarrow> hi x = hi y \<and> lo x = lo y" if "lo x < b" "lo y < b" for x y
  proof
    assume e: "?k x = ?k y"
    have "?k x div b = hi x" "?k y div b = hi y" using that by simp_all
    then have "hi x = hi y" using e by metis
    then show "hi x = hi y \<and> lo x = lo y" using e by simp
  qed simp
  have filt: "filter (\<lambda>x. hi x = h \<and> lo x = l) ?ys = filter (\<lambda>x. hi x = h \<and> lo x = l) xs" for h l
  proof -
    have "filter (\<lambda>x. lo x = l) (filter (\<lambda>x. hi x = h) ?ys) = filter (\<lambda>x. lo x = l) (filter (\<lambda>x. hi x = h) (sort_key lo xs))"
      by (simp only: sort_key_stable)
    also have "\<dots> = filter (\<lambda>x. hi x = h) (filter (\<lambda>x. lo x = l) (sort_key lo xs))"
      by (simp add: conj_commute)
    also have "\<dots> = filter (\<lambda>x. hi x = h) (filter (\<lambda>x. lo x = l) xs)" by (simp only: sort_key_stable)
    finally show ?thesis by (simp add: conj_commute)
  qed
  show "filter (\<lambda>x. ?k k = ?k x) ?ys = filter (\<lambda>x. ?k k = ?k x) xs" if "k \<in> set ?ys" for k
  proof -
    have k: "lo k < b" using that assms(1) by simp
    have "filter (\<lambda>x. ?k k = ?k x) zs = filter (\<lambda>x. hi x = hi k \<and> lo x = lo k) zs" if "set zs \<subseteq> set xs" for zs
    proof (rule filter_cong [OF refl])
      fix x assume "x \<in> set zs"
      then have "lo x < b" using that assms(1) by blast
      then show "(?k k = ?k x) = (hi x = hi k \<and> lo x = lo k)" using key [OF k] by auto
    qed
    from this [of ?ys] this [of xs] filt [of "hi k" "lo k"] show ?thesis by simp
  qed
  show "sorted (map ?k ?ys)"
    unfolding sorted_map
  proof -
    have hs: "sorted_wrt (\<lambda>x y. hi x \<le> hi y) ?ys" using sorted_sort_key [of hi "sort_key lo xs"] by (simp add: sorted_map)
    have "?k (?ys ! i) \<le> ?k (?ys ! j)" if ij: "i < j" "j < length ?ys" for i j
    proof -
      let ?x = "?ys ! i" and ?y = "?ys ! j"
      have l: "lo ?x < b" "lo ?y < b" using assms(1) nth_mem [of i ?ys] nth_mem [of j ?ys] ij by simp_all
      have h: "hi ?x \<le> hi ?y" using hs ij by (simp add: sorted_wrt_iff_nth_less)
      show ?thesis
      proof (cases "hi ?x = hi ?y")
        case True
        let ?P = "\<lambda>x. hi x = hi ?x"
        have f: "filter ?P ?ys = filter ?P (sort_key lo xs)" by (rule sort_key_stable)
        have s: "sorted (map lo (filter ?P ?ys))" unfolding f by (simp add: sorted_filter)
        have lt: "length (filter ?P (take i ?ys)) < length (filter ?P (take j ?ys))"
        proof -
          have "length (filter ?P (take i (take j ?ys))) < length (filter ?P (take j ?ys))"
            by (rule filter_nth_take(2)) (use ij in simp_all)
          moreover have "take i (take j ?ys) = take i ?ys" using ij by (simp add: min_absorb1)
          ultimately show ?thesis by (simp only:)
        qed
        note fj = filter_nth_take [where P = ?P and p = j and xs = ?ys, OF ij(2) True [symmetric]]
        have il: "i < length ?ys" using ij by (rule less_trans)
        note fi = filter_nth_take [where P = ?P and p = i and xs = ?ys, OF il refl]
        have "lo (filter ?P ?ys ! length (filter ?P (take i ?ys))) \<le> lo (filter ?P ?ys ! length (filter ?P (take j ?ys)))"
          by (rule sorted_map_nth [OF s less_imp_le [OF lt] fj(2)])
        then have "lo ?x \<le> lo ?y" unfolding fi(1) fj(1) .
        then show ?thesis using True by simp
      next
        case False
        then have "Suc (hi ?x) * b \<le> hi ?y * b" using h by (intro mult_right_mono) simp_all
        then have "hi ?x * b + b \<le> hi ?y * b" by simp
        then show ?thesis using l by linarith
      qed
    qed
    then show "sorted_wrt (\<lambda>x y. ?k x \<le> ?k y) ?ys" by (simp only: sorted_wrt_iff_nth_less) blast
  qed
qed

text \<open>Counting with sums of flags.\<close>

lemma sum_flags:
  "p \<le> length xs \<Longrightarrow> (\<Sum>q<p. if P (xs ! q) then 1 else 0 :: int) = int (length (filter P (take p xs)))"
  by (induction p) (simp_all add: take_Suc_conv_app_nth)

lemma sort_key_cong:
  assumes "\<And>x. x \<in> set xs \<Longrightarrow> f x = (g x :: 'o :: linorder)"
  shows "sort_key f xs = sort_key g xs"
proof (rule properties_for_sort_key)
  show "filter (\<lambda>x. f k = f x) (sort_key g xs) = filter (\<lambda>x. f k = f x) xs" if "k \<in> set (sort_key g xs)" for k
  proof -
    have "filter (\<lambda>x. f k = f x) ys = filter (\<lambda>x. g x = g k) ys" if "set ys \<subseteq> set xs" for ys
      using that \<open>k \<in> set (sort_key g xs)\<close> assms by (intro filter_cong) auto
    from this [of "sort_key g xs"] this [of xs] show ?thesis by (simp add: sort_key_stable)
  qed
  have "map f (sort_key g xs) = map g (sort_key g xs)" by (rule map_cong [OF refl]) (use assms in simp)
  then show "sorted (map f (sort_key g xs))" by (simp only: sorted_sort_key)
qed simp

lemma sort_key_const [simp]: "sort_key (\<lambda>_. c :: 'o :: linorder) xs = xs"
  by (rule sort_key_id_if_sorted) (induction xs; simp)

text \<open>The rank counts the items that come first, by key and then by position.\<close>

definition precedes :: "('a \<Rightarrow> 'o :: linorder) \<Rightarrow> 'a list \<Rightarrow> nat \<Rightarrow> nat \<Rightarrow> bool" where
  "precedes d xs p q \<longleftrightarrow> d (xs ! p) < d (xs ! q) \<or> d (xs ! p) = d (xs ! q) \<and> p < q"

lemma precedes_order:
  "\<not> precedes d xs p p" "precedes d xs p q \<Longrightarrow> precedes d xs q r \<Longrightarrow> precedes d xs p r"
  "p \<noteq> q \<Longrightarrow> precedes d xs p q \<or> precedes d xs q p"
  by (auto simp: precedes_def)

lemma stable_rank_card:
  assumes "p < length xs"
  shows "stable_rank d xs p = card {q. q < length xs \<and> precedes d xs q p}"
proof -
  have c: "length (filter P (take m xs)) = card {q. q < m \<and> P (xs ! q)}" if "m \<le> length xs" for P m
  proof -
    have "{i. i < length (take m xs) \<and> P (take m xs ! i)} = {q. q < m \<and> P (xs ! q)}" using that by auto
    then show ?thesis by (simp add: length_filter_conv_card)
  qed
  have "{q. q < length xs \<and> precedes d xs q p}
      = {q. q < length xs \<and> d (xs ! q) < d (xs ! p)} \<union> {q. q < p \<and> d (xs ! q) = d (xs ! p)}"
    using assms by (auto simp: precedes_def)
  moreover have "card ({q. q < length xs \<and> d (xs ! q) < d (xs ! p)} \<union> {q. q < p \<and> d (xs ! q) = d (xs ! p)})
      = card {q. q < length xs \<and> d (xs ! q) < d (xs ! p)} + card {q. q < p \<and> d (xs ! q) = d (xs ! p)}"
    by (rule card_Un_disjoint) auto
  ultimately show ?thesis
    using c [of "length xs" "\<lambda>x. d x < d (xs ! p)"] c [of p "\<lambda>x. d x = d (xs ! p)"] assms
    by (simp add: stable_rank_def)
qed

text \<open>An arrangement whose items follow each other in this order is the stable sort.\<close>

lemma sort_key_by_order:
  assumes len: "length ys = length xs" and bij: "inj_on s {..<length xs}"
    and at: "\<And>q. q < length xs \<Longrightarrow> s q < length xs \<and> ys ! q = xs ! s q"
    and ord: "\<And>q r. q < r \<Longrightarrow> r < length xs \<Longrightarrow> precedes d xs (s q) (s r)"
  shows "ys = sort_key d xs"
proof (rule sort_key_by_rank [OF len])
  let ?n = "length xs"
  have img: "s ` {..<?n} = {..<?n}" using at bij by (intro endo_inj_surj) auto
  have rank: "stable_rank d xs (s q) = q" if q: "q < ?n" for q
  proof -
    have "{p. p < ?n \<and> precedes d xs p (s q)} = s ` {..<q}"
    proof (intro equalityI subsetI)
      fix p assume "p \<in> {p. p < ?n \<and> precedes d xs p (s q)}"
      then obtain r where r: "r < ?n" "p = s r" "precedes d xs (s r) (s q)" using img by (auto simp: image_iff) (metis image_iff lessThan_iff)
      have "r < q"
        using r(1,3) ord [of q r] q precedes_order by (metis linorder_cases)
      then show "p \<in> s ` {..<q}" using r(2) by simp
    next
      fix p assume "p \<in> s ` {..<q}"
      then show "p \<in> {p. p < ?n \<and> precedes d xs p (s q)}" using at ord q by auto
    qed
    moreover have "card (s ` {..<q}) = q" using bij q by (subst card_image) (auto simp: inj_on_def)
    ultimately show ?thesis using stable_rank_card [of "s q" xs d] at [OF q] by simp
  qed
  fix p assume "p < ?n"
  then obtain q where "q < ?n" "p = s q" using img by (metis imageE lessThan_iff)
  then show "ys ! stable_rank d xs p = xs ! p" using rank at by simp
qed

text \<open>Counting ranks in a finite set with a strict total order.\<close>

lemma card_rank_less:
  assumes "finite C" "x \<in> C" "y \<in> C" "R x y" and trans: "\<And>z. z \<in> C \<Longrightarrow> R z x \<Longrightarrow> R z y" and irr: "\<not> R x x"
  shows "card {z \<in> C. R z x} < card {z \<in> C. R z y}"
proof (rule psubset_card_mono)
  show "finite {z \<in> C. R z y}" using assms(1) by simp
  have "x \<in> {z \<in> C. R z y}" "x \<notin> {z \<in> C. R z x}" using assms(2,4) irr by simp_all
  moreover have "{z \<in> C. R z x} \<subseteq> {z \<in> C. R z y}" using trans by auto
  ultimately show "{z \<in> C. R z x} \<subset> {z \<in> C. R z y}" by blast
qed

lemma stable_rank_less:
  assumes "p < length xs" "q < length xs" "precedes d xs p q"
  shows "stable_rank d xs p < stable_rank d xs q"
proof -
  have "card {r \<in> {..<length xs}. precedes d xs r p} < card {r \<in> {..<length xs}. precedes d xs r q}"
    by (rule card_rank_less) (use assms precedes_order in auto)
  then show ?thesis using assms by (simp add: stable_rank_card)
qed

text \<open>The stable sort is such an arrangement.\<close>

lemma sort_key_order:
  obtains s where "inj_on s {..<length xs}" "\<And>q. q < length xs \<Longrightarrow> s q < length xs"
    "\<And>q. q < length xs \<Longrightarrow> sort_key d xs ! q = xs ! s q"
    "\<And>q r. q < r \<Longrightarrow> r < length xs \<Longrightarrow> precedes d xs (s q) (s r)"
proof -
  let ?n = "length xs" and ?r = "stable_rank d xs"
  have inj: "inj_on ?r {..<?n}" using stable_rank_inj by (intro inj_onI) auto
  have img: "?r ` {..<?n} = {..<?n}" using sort_key_nth_rank(2) inj by (intro endo_inj_surj) auto
  define s where "s = the_inv_into {..<?n} ?r"
  have s: "s q < ?n" "?r (s q) = q" if "q < ?n" for q
  proof -
    have "q \<in> ?r ` {..<?n}" using that img by simp
    then show "s q < ?n" "?r (s q) = q"
      using the_inv_into_into [OF inj _ order_refl, of q] f_the_inv_into_f [OF inj] by (auto simp: s_def)
  qed
  show ?thesis
  proof
    show "inj_on s {..<?n}" using s(2) by (intro inj_onI) (metis lessThan_iff)
    show "sort_key d xs ! q = xs ! s q" if "q < ?n" for q
      using sort_key_nth_rank(1) [OF s(1) [OF that], of d] s(2) [OF that] by simp
    show "precedes d xs (s q) (s r)" if "q < r" "r < ?n" for q r
    proof (rule ccontr)
      assume n: "\<not> precedes d xs (s q) (s r)"
      have "s q \<noteq> s r" using s(2) that by (metis less_trans nat_neq_iff)
      then have "precedes d xs (s r) (s q)" using n precedes_order(3) by blast
      then have "?r (s r) < ?r (s q)" using s(1) that by (intro stable_rank_less) auto
      then show False using s(2) that by simp
    qed
  qed (rule s(1))
qed

end
