(* ===== verification/Coop_Sorting.thy ===== *)
theory Coop_Sorting
  imports Coop_Common Stable_Rank "HOL-Library.Product_Lexorder"
begin

text \<open>
  What the sorting algorithms share (\<open>coop/_sorting.py\<close>): keys and values as item lists, the
  comparison that puts invalid entries last, and the insertion sort of one thread's items.
\<close>

section \<open>Tiles of keys and values\<close>

fun is_items :: "'a tile \<Rightarrow> bool" where
  "is_items (Item _) = False"
| "is_items (Items _) = True"

fun as_items :: "'a tile \<Rightarrow> 'a list" where
  "as_items (Item v) = [v]"
| "as_items (Items vs) = vs"

definition sort_unpack :: "'k tile \<Rightarrow> 'v tile option \<Rightarrow> ('k list \<times> 'v list option \<times> bool) res" where
  "sort_unpack keys vals =
     (let vector = is_items keys; items = as_items keys; payload = map_option as_items vals in
      rbind (guard ValueError (case (vals, payload) of
          (Some vs, Some ps) \<Rightarrow> \<not> (length ps \<noteq> length items \<or> is_items vs \<noteq> vector)
        | _ \<Rightarrow> True)) (\<lambda>_. Inr (items, payload, vector)))"

definition sort_pack :: "'k list \<Rightarrow> 'v list option \<Rightarrow> bool \<Rightarrow> 'k tile \<times> 'v tile option" where
  "sort_pack items payload vector =
     (if vector then Items items else Item (hd items),
      map_option (\<lambda>payload. if vector then Items payload else Item (hd payload)) payload)"

section \<open>Comparing\<close>

text \<open>
  An entry of a thread: its key, its value if there are values, and whether it is valid.
  \<open>lt\<close> is \<open>compare_op\<close>, or \<open><\<close> on the keys.
\<close>

type_synonym ('k, 'v) entry = "'k \<times> 'v option \<times> bool"

definition before :: "('k \<Rightarrow> 'k \<Rightarrow> bool) \<Rightarrow> bool \<Rightarrow> 'k \<Rightarrow> 'k \<Rightarrow> bool" where
  "before lt descending a b = (if descending then lt b a else lt a b)"

definition valid_before :: "('k \<Rightarrow> 'k \<Rightarrow> bool) \<Rightarrow> bool \<Rightarrow> ('k, 'v) entry \<Rightarrow> ('k, 'v) entry \<Rightarrow> bool" where
  "valid_before lt descending x y =
     (case (x, y) of ((a, _, va), (b, _, vb)) \<Rightarrow>
       if va \<and> vb then before lt descending a b else va \<and> \<not> vb)"

text \<open>\<open>_prepare\<close>: entries at or beyond the valid count are invalid and may be overwritten.\<close>

definition prepare ::
  "'k list \<Rightarrow> 'v list option \<Rightarrow> nat list \<Rightarrow> int option \<Rightarrow> 'k option \<Rightarrow> 'v \<Rightarrow> ('k, 'v) entry list" where
  "prepare items payload indices valid_items oob_default zero =
     map (\<lambda>i. let valid = (case valid_items of None \<Rightarrow> True | Some n \<Rightarrow> int (indices ! i) < n) in
         (case oob_default of
            None \<Rightarrow> (items ! i, map_option (\<lambda>vs. vs ! i) payload, valid)
          | Some e \<Rightarrow> (if valid then items ! i else e, map_option (\<lambda>vs. if valid then vs ! i else zero) payload, valid)))
       [0..<length items]"

section \<open>The insertion sort\<close>

definition sift_step :: "('e \<Rightarrow> 'e \<Rightarrow> bool) \<Rightarrow> nat \<Rightarrow> 'e list \<Rightarrow> 'e list" where
  "sift_step bf j xs =
     (let a = xs ! (j - 1); b = xs ! j in if bf b a then xs[j - 1 := b, j := a] else xs)"

definition local_sort :: "('e \<Rightarrow> 'e \<Rightarrow> bool) \<Rightarrow> 'e list \<Rightarrow> 'e list" where
  "local_sort bf xs = fold (\<lambda>i xs. fold (sift_step bf) (rev [1..<Suc i]) xs) [1..<length xs] xs"

subsection \<open>It is the stable sort\<close>

text \<open>
  The order of a comparison is given by a key: \<open>bf x y \<longleftrightarrow> d x < d y\<close>. Every strict weak order
  of finitely many keys is of this form.
\<close>

text \<open>The place behind all smaller and equal elements.\<close>

definition insert_right :: "('e \<Rightarrow> 'o :: linorder) \<Rightarrow> 'e \<Rightarrow> 'e list \<Rightarrow> 'e list" where
  "insert_right d x p = takeWhile (\<lambda>y. d y \<le> d x) p @ x # dropWhile (\<lambda>y. d y \<le> d x) p"

lemma insert_right_split:
  assumes "sorted (map d p)"
  obtains A B where "p = A @ B" "insert_right d x p = A @ x # B"
    "\<forall>y \<in> set A. d y \<le> d x" "\<forall>y \<in> set B. d x < d y"
proof
  let ?B = "dropWhile (\<lambda>y. d y \<le> d x) p"
  show "p = takeWhile (\<lambda>y. d y \<le> d x) p @ ?B" "insert_right d x p = takeWhile (\<lambda>y. d y \<le> d x) p @ x # ?B"
    by (simp_all add: insert_right_def)
  show "\<forall>y \<in> set (takeWhile (\<lambda>y. d y \<le> d x) p). d y \<le> d x" by (auto dest: set_takeWhileD)
  show "\<forall>y \<in> set ?B. d x < d y"
  proof (cases ?B)
    case (Cons z zs)
    have "d x < d z" using hd_dropWhile [of "\<lambda>y. d y \<le> d x" p] Cons by simp
    moreover have "sorted (map d (z # zs))"
    proof -
      have "sorted (map d (takeWhile (\<lambda>y. d y \<le> d x) p @ ?B))" using assms by simp
      then have "sorted (map d ?B)" unfolding map_append sorted_append by blast
      then show ?thesis unfolding Cons .
    qed
    ultimately show ?thesis using Cons by auto
  next
    case Nil
    then show ?thesis unfolding Nil by simp
  qed
qed

lemma sort_key_snoc: "sort_key d (xs @ [x]) = insert_right d x (sort_key d xs)"
proof -
  let ?p = "sort_key d xs"
  obtain A B where AB: "?p = A @ B" "insert_right d x ?p = A @ x # B"
    "\<forall>y \<in> set A. d y \<le> d x" "\<forall>y \<in> set B. d x < d y"
    by (rule insert_right_split [OF sorted_sort_key])
  have s: "sorted (map d (A @ B))" unfolding AB(1) [symmetric] by simp
  have st: "filter (\<lambda>y. d y = k) A @ filter (\<lambda>y. d y = k) B = filter (\<lambda>y. d y = k) xs" for k
    using sort_key_stable [of d k xs] unfolding AB(1) by simp
  show ?thesis
    unfolding AB(2)
  proof (rule properties_for_sort_key)
    have "mset (A @ B) = mset xs" unfolding AB(1) [symmetric] by simp
    then show "mset (A @ x # B) = mset (xs @ [x])" by simp
    show "sorted (map d (A @ x # B))" using s AB(3,4) by (auto simp: sorted_append)
    fix k
    have "filter (\<lambda>y. d y = d k) B = []" if "d k = d x" using AB(4) that by (auto simp: filter_empty_conv)
    then show "filter (\<lambda>y. d k = d y) (A @ x # B) = filter (\<lambda>y. d k = d y) (xs @ [x])"
      using st [of "d k"] by (auto simp: eq_commute [of "d k"])
  qed
qed

lemma sift_skip:
  assumes "\<And>x y. bf x y \<longleftrightarrow> d x < (d y :: 'o :: linorder)" "sorted (map d (take (Suc n) xs))" "n < length xs"
  shows "fold (sift_step bf) (rev [1..<Suc n]) xs = xs"
  using assms(2,3)
proof (induction n)
  case (Suc n)
  have "d ((take (Suc (Suc n)) xs) ! n) \<le> d ((take (Suc (Suc n)) xs) ! Suc n)"
    by (rule sorted_map_nth [OF Suc.prems(1)]) (use Suc.prems in simp_all)
  then have "\<not> bf (xs ! Suc n) (xs ! n)" by (simp add: assms(1) not_less)
  then have "sift_step bf (Suc n) xs = xs" by (simp add: sift_step_def)
  moreover have "sorted (map d (take (Suc n) xs))"
    using Suc.prems by (simp add: take_Suc_conv_app_nth sorted_append)
  ultimately show ?case using Suc by simp
qed simp

lemma sift_down:
  assumes b: "\<And>x y. bf x y \<longleftrightarrow> d x < (d y :: 'o :: linorder)"
  shows "sorted (map d p) \<Longrightarrow> fold (sift_step bf) (rev [1..<Suc (length p)]) (p @ x # rest) = insert_right d x p @ rest"
proof (induction p arbitrary: rest rule: rev_induct)
  case Nil
  then show ?case by (simp add: insert_right_def)
next
  case (snoc y p)
  let ?n = "length p"
  have step: "fold (sift_step bf) (rev [1..<Suc (length (p @ [y]))]) zs
      = fold (sift_step bf) (rev [1..<Suc ?n]) (sift_step bf (Suc ?n) zs)" for zs
    by simp
  have sp: "sorted (map d p)" using snoc.prems by (simp add: sorted_append)
  show ?case
  proof (cases "d x < d y")
    case True
    then have "sift_step bf (Suc ?n) ((p @ [y]) @ x # rest) = p @ x # (y # rest)"
      by (simp add: sift_step_def b nth_append list_update_append)
    then have "fold (sift_step bf) (rev [1..<Suc (length (p @ [y]))]) ((p @ [y]) @ x # rest)
        = insert_right d x p @ (y # rest)"
      unfolding step using snoc.IH [OF sp] by simp
    moreover have "insert_right d x (p @ [y]) = insert_right d x p @ [y]"
      using True by (simp add: insert_right_def takeWhile_append dropWhile_append)
        (auto intro: takeWhile_eq_all_conv [THEN iffD2, symmetric])
    ultimately show ?thesis by simp
  next
    case False
    then have all: "\<And>z. z \<in> set (p @ [y]) \<Longrightarrow> d z \<le> d x" using snoc.prems by (fastforce simp: sorted_append)
    have "sift_step bf (Suc ?n) ((p @ [y]) @ x # rest) = (p @ [y]) @ x # rest"
      using False by (simp add: sift_step_def b nth_append)
    moreover have "fold (sift_step bf) (rev [1..<Suc ?n]) ((p @ [y]) @ x # rest) = (p @ [y]) @ x # rest"
      by (rule sift_skip [OF b]) (use snoc.prems in \<open>simp_all\<close>)
    moreover have "insert_right d x (p @ [y]) = (p @ [y]) @ [x]"
      unfolding insert_right_def using all by (simp add: takeWhile_eq_all_conv [THEN iffD2] dropWhile_eq_Nil_conv [THEN iffD2])
    ultimately show ?thesis unfolding step by simp
  qed
qed

lemma local_sort_correct:
  assumes b: "\<And>x y. bf x y \<longleftrightarrow> d x < (d y :: 'o :: linorder)"
  shows "local_sort bf xs = sort_key d xs"
proof (cases xs)
  case Nil
  then show ?thesis by (simp add: local_sort_def)
next
  case (Cons z zs)
  let ?step = "\<lambda>i xs. fold (sift_step bf) (rev [1..<Suc i]) xs"
  have "fold ?step [1..<Suc i] xs = sort_key d (take (Suc i) xs) @ drop (Suc i) xs" if "i < length xs" for i
    using that
  proof (induction i)
    case 0
    then show ?case by (simp add: Cons)
  next
    case (Suc i)
    let ?p = "sort_key d (take (Suc i) xs)"
    have l: "length ?p = Suc i" using Suc.prems by simp
    have "fold ?step [1..<Suc (Suc i)] xs = ?step (Suc i) (?p @ drop (Suc i) xs)"
      using Suc by simp
    also have "drop (Suc i) xs = xs ! Suc i # drop (Suc (Suc i)) xs" using Suc.prems by (simp add: Cons_nth_drop_Suc)
    also have "?step (Suc i) (?p @ xs ! Suc i # drop (Suc (Suc i)) xs) = insert_right d (xs ! Suc i) ?p @ drop (Suc (Suc i)) xs"
      using sift_down [where p = ?p and x = "xs ! Suc i" and rest = "drop (Suc (Suc i)) xs", OF b] unfolding l by simp
    also have "insert_right d (xs ! Suc i) ?p = sort_key d (take (Suc (Suc i)) xs)"
      using Suc.prems by (simp add: take_Suc_conv_app_nth [of "Suc i"] sort_key_snoc del: take_Suc)
    finally show ?case .
  qed
  from this [of "length xs - 1"] show ?thesis by (simp add: local_sort_def Cons)
qed

text \<open>The order of entries: the valid ones by their keys, then the invalid ones.\<close>

definition entry_key :: "('k \<Rightarrow> int) \<Rightarrow> ('k, 'v) entry \<Rightarrow> nat \<times> int" where
  "entry_key d e = (case e of (k, _, valid) \<Rightarrow> if valid then (0, d k) else (1, 0))"

lemma valid_before_key:
  assumes "\<And>a b. before lt descending a b \<longleftrightarrow> d a < d b"
  shows "valid_before lt descending x y \<longleftrightarrow> entry_key d x < entry_key d y"
  using assms by (cases x; cases y) (auto simp: valid_before_def entry_key_def split: if_splits)

lemma sort_key_entries:
  "sort_key (entry_key d) es = sort_key (\<lambda>(k, _). d k) (filter (\<lambda>(_, _, valid). valid) es) @ filter (\<lambda>(_, _, valid). \<not> valid) es"
proof (rule properties_for_sort_key)
  let ?V = "filter (\<lambda>(_, _, valid). valid) es" and ?I = "filter (\<lambda>(_, _, valid). \<not> valid) es"
  let ?s = "sort_key (\<lambda>(k, _). d k) ?V"
  have key: "entry_key d e = (0, d (fst e))" if "e \<in> set ?s" for e using that by (auto simp: entry_key_def split: prod.splits)
  have key': "entry_key d e = (1, 0)" if "e \<in> set ?I" for e using that by (auto simp: entry_key_def split: prod.splits)
  show "mset (?s @ ?I) = mset es"
    by (induction es) (auto split: prod.splits)
  have m: "map (entry_key d) ?s = map (Pair 0) (map (\<lambda>(k, _). d k) ?s)" using key by (auto split: prod.splits)
  have "sorted (map (Pair (0 :: nat)) xs)" if "sorted xs" for xs :: "int list"
    using that by (induction xs) auto
  then have s: "sorted (map (entry_key d) ?s)" unfolding m by (simp only: sorted_sort_key)
  have "map (entry_key d) ?I = replicate (length ?I) (1, 0)" using key' by (simp add: map_replicate_const [symmetric] cong: map_cong)
  then have "sorted (map (entry_key d) ?I)" by simp
  then show "sorted (map (entry_key d) (?s @ ?I))"
    using s key key' by (fastforce simp: sorted_append)
  fix k assume "k \<in> set (?s @ ?I)"
  have eq: "filter (\<lambda>x. entry_key d k = entry_key d x) ?s = filter (\<lambda>x. entry_key d k = entry_key d x) ?V"
  proof -
    have c: "filter (\<lambda>x. entry_key d k = entry_key d x) zs = (if fst (entry_key d k) = 0
        then filter (\<lambda>x. (\<lambda>(k, _). d k) x = snd (entry_key d k)) zs else [])" if "set zs \<subseteq> set ?s" for zs
    proof (cases "fst (entry_key d k) = 0")
      case True
      then show ?thesis using that key by (auto intro!: filter_cong simp: prod_eq_iff split: prod.splits)
    next
      case False
      then show ?thesis using that key by (auto simp: filter_empty_conv)
    qed
    show ?thesis using c [of ?s] c [of ?V] sort_key_stable [of "\<lambda>(k, _). d k" "snd (entry_key d k)" ?V] by simp
  qed
  show "filter (\<lambda>x. entry_key d k = entry_key d x) (?s @ ?I) = filter (\<lambda>x. entry_key d k = entry_key d x) es"
  proof -
    have "filter P (filter Q zs) @ filter P (filter (\<lambda>x. \<not> Q x) zs) = filter P zs"
      if "(\<forall>x \<in> set zs. P x \<longrightarrow> Q x) \<or> (\<forall>x \<in> set zs. P x \<longrightarrow> \<not> Q x)" for P Q and zs :: "('a \<times> 'b option \<times> bool) list"
      using that
    proof
      assume "\<forall>x \<in> set zs. P x \<longrightarrow> Q x"
      then have "filter P (filter (\<lambda>x. \<not> Q x) zs) = []" "filter P (filter Q zs) = filter P zs"
        by (auto simp: filter_empty_conv intro!: filter_cong)
      then show ?thesis by (simp only: append_Nil2)
    next
      assume "\<forall>x \<in> set zs. P x \<longrightarrow> \<not> Q x"
      then have "filter P (filter Q zs) = []" "filter P (filter (\<lambda>x. \<not> Q x) zs) = filter P zs"
        by (auto simp: filter_empty_conv intro!: filter_cong)
      then show ?thesis by (simp only: append_Nil)
    qed
    moreover have "(\<forall>x \<in> set es. entry_key d k = entry_key d x \<longrightarrow> snd (snd x))
        \<or> (\<forall>x \<in> set es. entry_key d k = entry_key d x \<longrightarrow> \<not> snd (snd x))"
      by (cases k) (auto simp: entry_key_def split: if_splits prod.splits)
    ultimately show ?thesis unfolding filter_append eq by (simp add: split_beta')
  qed
qed

end
