(* ===== verification/Block_Radix_Sort.thy ===== *)
theory Block_Radix_Sort
  imports Block_Scan Block_Tiles Coop_Sorting
begin

text \<open>
  The block radix sort (\<open>coop/block/radix_sort.py\<close>): keys as raw bit patterns, their
  order-preserving bits, digits of decomposed keys, ranks from block scans, and the exchange of
  words through shared memory. The block scan is an argument (\<open>cls.scan_type\<close>), specified by the
  locale \<open>add_scan\<close>.
\<close>

section \<open>Definitions\<close>

subsection \<open>Ordered bits and digits\<close>

text \<open>
  A numeric field: its width, whether it is a float and whether it is signed. A key is the bit
  pattern \<open>key.bitcast(unsigned)\<close>; a float compares equal to zero when all bits but the sign are
  clear.
\<close>

record field_type =
  ft_width :: nat
  ft_float :: bool
  ft_signed :: bool

definition field_ok :: "field_type \<Rightarrow> bool" where
  "field_ok f \<longleftrightarrow> ft_width f \<in> {1, 8, 16, 32, 64, 128} \<and> (ft_width f = 1 \<longrightarrow> \<not> ft_float f)"

definition ordered_bits :: "field_type \<Rightarrow> bool \<Rightarrow> nat \<Rightarrow> nat" where
  "ordered_bits f transform bits =
     (if ft_width f = 1 then (if bits \<noteq> 0 then 1 else 0)
      else if \<not> transform \<or> (\<not> ft_float f \<and> \<not> ft_signed f) then bits
      else let sign = 2 ^ (ft_width f - 1) in
        if ft_float f
        then let bits = (if take_bit (ft_width f - 1) bits = 0 then 0 else bits)
             in if and bits sign \<noteq> 0 then xor bits (2 ^ ft_width f - 1) else xor bits sign
        else xor bits sign)"

text \<open>\<open>_bit_range\<close>: the end of the sorted bits.\<close>

definition bit_range :: "nat \<Rightarrow> int \<Rightarrow> int option \<Rightarrow> nat res" where
  "bit_range width begin_bit end_bit =
     (let e = (case end_bit of None \<Rightarrow> int width | Some e \<Rightarrow> e)
      in if \<not> (0 \<le> begin_bit \<and> begin_bit \<le> e \<and> e \<le> int width) then Inl ValueError else Inr (nat e))"

text \<open>
  \<open>_digit\<close>: the fields of a decomposed key, most significant first, are read from the last one up;
  each contributes the part of \<open>[begin, begin + bits)\<close> that lies in it.
\<close>

definition digit_step :: "nat \<Rightarrow> nat \<Rightarrow> bool \<Rightarrow> field_type \<times> nat \<Rightarrow> nat \<times> nat \<Rightarrow> nat \<times> nat" where
  "digit_step begin bits transform field state =
     (case (field, state) of ((f, key), (result, offset)) \<Rightarrow>
       let lo = max begin offset; hi = min (begin + bits) (offset + ft_width f) in
       (if lo < hi
        then or result (push_bit (lo - begin) (take_bit (hi - lo) (drop_bit (lo - offset) (ordered_bits f transform key))))
        else result,
        offset + ft_width f))"

definition digit :: "(field_type \<times> nat) list \<Rightarrow> nat \<Rightarrow> nat \<Rightarrow> bool \<Rightarrow> nat" where
  "digit fs begin bits transform = fst (fold (digit_step begin bits transform) (rev fs) (0, 0))"

subsection \<open>Exchanging words\<close>

definition publish_words ::
  "nat \<Rightarrow> nat \<Rightarrow> nat lanes list \<Rightarrow> int lanes list \<Rightarrow> nat shared \<Rightarrow> nat shared" where
  "publish_words threads n words ranks storage =
     barrier_phase threads
       (scatter_writes n (\<lambda>_ _. True) (\<lambda>t i. nat ((ranks ! i) t)) (\<lambda>t i. (words ! i) t)) storage"

definition word_of :: "nat \<Rightarrow> nat \<Rightarrow> nat \<Rightarrow> nat" where
  "word_of width start item = (if width = 1 then (if item \<noteq> 0 then 1 else 0) else take_bit 32 (drop_bit start item))"

definition exchange_words ::
  "nat \<Rightarrow> nat \<Rightarrow> nat lanes list \<Rightarrow> int lanes list \<Rightarrow> int lanes list \<Rightarrow> nat shared \<Rightarrow> nat lanes list \<times> nat shared" where
  "exchange_words threads width items ranks positions storage =
     fold (\<lambda>bit (result, storage).
       let storage = publish_words threads (length items) (map (\<lambda>item t. word_of width bit (item t)) items) ranks storage;
           result = map2 (\<lambda>old position t. or (old t) (push_bit bit (shared_load storage (nat (position t)))))
             result positions
       in (result, storage))
     (map (\<lambda>k. 32 * k) [0..<(width + 31) div 32]) (replicate (length items) (\<lambda>_. 0), storage)"

subsection \<open>Ranks\<close>

type_synonym sum_scan = "int lanes tile \<Rightarrow> (int lanes tile \<times> int lanes) res"

definition binary_flags :: "bool \<Rightarrow> nat lanes list \<Rightarrow> int lanes list" where
  "binary_flags descending digits =
     map (\<lambda>digit t. if (if descending then digit t \<noteq> 0 else digit t = 0) then 1 else 0) digits"

definition binary_ranks :: "sum_scan \<Rightarrow> bool \<Rightarrow> nat lanes list \<Rightarrow> int lanes list res" where
  "binary_ranks scan descending digits =
     (let n = length digits; flags = binary_flags descending digits in
      rbind (scan (Items flags)) (\<lambda>(prefix, aggregate).
      rbind (tile_list prefix) (\<lambda>prefix.
        Inr (map (\<lambda>i t. if (flags ! i) t \<noteq> 0 then (prefix ! i) t
             else i32 (aggregate t + int (t * n + i) - (prefix ! i) t)) [0..<n]))))"

text \<open>One bin of \<open>_digit_ranks\<close>: rank the items of one digit behind all bins before it.\<close>

definition bin_step ::
  "sum_scan \<Rightarrow> bool \<Rightarrow> nat \<Rightarrow> nat lanes list \<Rightarrow> nat \<Rightarrow> int lanes list \<times> int lanes \<Rightarrow> (int lanes list \<times> int lanes) res" where
  "bin_step scan descending bins digits bin state =
     (case state of (ranks, offset) \<Rightarrow>
       let n = length digits; value = (if descending then bins - 1 - bin else bin);
           flags = map (\<lambda>key t. if key t = value then 1 else (0 :: int)) digits;
           histogram = (\<lambda>t. sum_list (map (\<lambda>flag. flag t) flags)) in
       rbind (scan (Item histogram)) (\<lambda>(prefix, bin_total).
       rbind (tile_list prefix) (\<lambda>prefix.
         Inr (map (\<lambda>i t. if (flags ! i) t \<noteq> 0
                then i32 (offset t + (hd prefix) t + sum_list (map (\<lambda>flag. flag t) (take i flags)))
                else (ranks ! i) t) [0..<n],
              \<lambda>t. i32 (offset t + bin_total t)))))"

fun fold_res :: "('b \<Rightarrow> 'a \<Rightarrow> 'a res) \<Rightarrow> 'b list \<Rightarrow> 'a \<Rightarrow> 'a res" where
  "fold_res f [] s = Inr s"
| "fold_res f (x # xs) s = rbind (f x s) (fold_res f xs)"

definition digit_ranks :: "sum_scan \<Rightarrow> bool \<Rightarrow> nat \<Rightarrow> nat lanes list \<Rightarrow> int lanes list res" where
  "digit_ranks scan descending bins digits =
     rbind (fold_res (bin_step scan descending bins digits) [0..<bins]
         (replicate (length digits) (\<lambda>_. 0), \<lambda>_. 0))
       (\<lambda>state. Inr (fst state))"

subsection \<open>The sort\<close>

text \<open>
  A specialized class; \<open>decompose\<close> is the \<open>decomposer\<close> (or the key itself), given on raw keys.
\<close>

record sort_class =
  rs_threads :: nat
  rs_items :: nat
  rs_key_width :: nat
  rs_value_width :: nat
  rs_pairs :: bool
  rs_scan :: sum_scan
  rs_radix_scan :: bool

text \<open>Keys, optional payload and the scratch words.\<close>

type_synonym sort_state = "nat lanes list \<times> nat lanes list option \<times> nat shared"

definition move_items :: "sort_class \<Rightarrow> int lanes list \<Rightarrow> int lanes list \<Rightarrow> sort_state \<Rightarrow> sort_state" where
  "move_items c ranks positions state =
     (case state of (items, payload, storage) \<Rightarrow>
       let (items, storage) = exchange_words (rs_threads c) (rs_key_width c) items ranks positions storage in
       case payload of
         None \<Rightarrow> (items, None, storage)
       | Some vs \<Rightarrow>
          (let (vs, storage) = exchange_words (rs_threads c) (rs_value_width c) vs ranks positions storage
           in (items, Some vs, storage)))"

definition blocked_positions :: "nat \<Rightarrow> int lanes list" where
  "blocked_positions n = map (\<lambda>i t. int (t * n + i)) [0..<n]"

definition striped_positions :: "nat \<Rightarrow> nat \<Rightarrow> int lanes list" where
  "striped_positions threads n = map (\<lambda>i t. int (t + i * threads)) [0..<n]"

definition radix_pass ::
  "sort_class \<Rightarrow> (nat \<Rightarrow> (field_type \<times> nat) list) \<Rightarrow> bool \<Rightarrow> nat \<Rightarrow> nat \<Rightarrow> nat \<Rightarrow> sort_state \<Rightarrow> sort_state res" where
  "radix_pass c decompose descending radix_bits end_bit start state =
     (let bits = min radix_bits (end_bit - start);
          digits = map (\<lambda>item t. digit (decompose (item t)) start bits True) (fst state) in
      rbind (if bits = 1 then binary_ranks (rs_scan c) descending digits
             else digit_ranks (rs_scan c) descending (2 ^ bits) digits) (\<lambda>ranks.
        Inr (move_items c ranks (blocked_positions (rs_items c)) state)))"

definition sort_bits :: "nat \<Rightarrow> nat \<Rightarrow> nat \<Rightarrow> nat list" where
  "sort_bits begin_bit end_bit radix_bits =
     map (\<lambda>k. begin_bit + k * radix_bits) [0..<(end_bit - begin_bit + radix_bits - 1) div radix_bits]"

definition radix_sort ::
  "sort_class \<Rightarrow> (nat \<Rightarrow> (field_type \<times> nat) list) \<Rightarrow> nat \<Rightarrow> bool \<Rightarrow> int \<Rightarrow> int option \<Rightarrow> int option \<Rightarrow> bool
     \<Rightarrow> sort_state \<Rightarrow> sort_state res" where
  "radix_sort c decompose total_width descending begin_bit end_bit radix_bits striped state =
     rbind (bit_range total_width begin_bit end_bit) (\<lambda>end_bit.
     let radix = (case radix_bits of None \<Rightarrow> (if rs_radix_scan c then 1 else 4) | Some r \<Rightarrow> r) in
     rbind (guard ValueError (\<not> radix < 1)) (\<lambda>_.
     rbind (guard ValueError (\<not> radix \<ge> 31)) (\<lambda>_.
     rbind (fold_res (radix_pass c decompose descending (nat radix) end_bit)
         (sort_bits (nat begin_bit) end_bit (nat radix)) state) (\<lambda>state.
       Inr (if striped
            then move_items c (blocked_positions (rs_items c)) (striped_positions (rs_threads c) (rs_items c)) state
            else state)))))"

text \<open>
  The entry points: the class must be specialized, keys have the class's number of items, and values
  are only accepted by a class of pairs.
\<close>

definition radix_sort_call ::
  "sort_class option \<Rightarrow> (nat \<Rightarrow> (field_type \<times> nat) list) \<Rightarrow> nat \<Rightarrow> bool \<Rightarrow> int \<Rightarrow> int option \<Rightarrow> int option \<Rightarrow> bool
     \<Rightarrow> nat lanes tile \<Rightarrow> nat lanes tile option \<Rightarrow> nat shared \<Rightarrow> (nat lanes tile \<times> nat lanes tile option) res" where
  "radix_sort_call cls decompose total_width descending begin_bit end_bit radix_bits striped keys vals storage =
     (case cls of None \<Rightarrow> Inl TypeError
      | Some c \<Rightarrow>
         rbind (guard ValueError (length (as_items keys) = rs_items c)) (\<lambda>_.
         rbind (sort_unpack keys vals) (\<lambda>(items, payload, vector).
         rbind (guard TypeError (\<not> (payload \<noteq> None \<and> \<not> rs_pairs c))) (\<lambda>_.
         rbind (radix_sort c decompose total_width descending begin_bit end_bit radix_bits striped (items, payload, storage))
           (\<lambda>(items, payload, storage). Inr (sort_pack items payload vector))))))"

definition sort_blocked_to_striped ::
  "sort_class option \<Rightarrow> (nat \<Rightarrow> (field_type \<times> nat) list) \<Rightarrow> nat \<Rightarrow> bool \<Rightarrow> int \<Rightarrow> int option \<Rightarrow> int option
     \<Rightarrow> nat lanes tile \<Rightarrow> nat lanes tile option \<Rightarrow> nat shared \<Rightarrow> (nat lanes tile \<times> nat lanes tile option) res" where
  "sort_blocked_to_striped cls decompose total_width descending begin_bit end_bit radix_bits keys vals storage =
     radix_sort_call cls decompose total_width descending begin_bit end_bit radix_bits True keys vals storage"

section \<open>Words put back together\<close>

lemma word_of_eq:
  "item < 2 ^ width \<Longrightarrow> (width = 1 \<Longrightarrow> start = 0) \<Longrightarrow> word_of width start item = take_bit 32 (drop_bit start item)"
proof (cases "width = 1")
  case True
  assume "item < 2 ^ width" "width = 1 \<Longrightarrow> start = 0"
  then have "item \<in> {0, 1}" "start = 0" using True by auto
  then show ?thesis using True by (auto simp: word_of_def)
qed (simp add: word_of_def)

lemma take_bit_chunk:
  "or (take_bit (32 * k) x) (push_bit (32 * k) (take_bit 32 (drop_bit (32 * k) x))) = take_bit (32 * Suc k) x" for x :: nat
  by (auto simp: bit_eq_iff bit_simps)

section \<open>Exchanging words moves every item to its rank\<close>

definition rank_perm :: "nat \<Rightarrow> int lanes list \<Rightarrow> bool" where
  "rank_perm threads ranks \<longleftrightarrow> inj_on (\<lambda>p. nat (blocked ranks p)) {..<threads * length ranks}"

lemma rank_perm_scatter:
  "rank_perm threads ranks \<Longrightarrow> scatter_inj threads (length ranks) (\<lambda>_ _. True) (\<lambda>t i. nat ((ranks ! i) t))"
  unfolding scatter_inj_def
proof (intro allI impI, goal_cases)
  case (1 s i t j)
  let ?n = "length ranks"
  have bounds: "s < threads" "t < threads" "i < ?n" "j < ?n" using 1 by simp_all
  have "nat (blocked ranks (s * ?n + i)) = nat (blocked ranks (t * ?n + j))" using 1 by simp
  moreover have "s * ?n + i \<in> {..<threads * ?n}" "t * ?n + j \<in> {..<threads * ?n}"
    using position_bound bounds by simp_all
  ultimately have e: "s * ?n + i = t * ?n + j"
    by (rule inj_onD [OF 1(1) [unfolded rank_perm_def]])
  have "s = t" using arg_cong [OF e, of "\<lambda>x. x div ?n"]
      group_split(1) [OF bounds(3), of s] group_split(1) [OF bounds(4), of t] by (simp only:)
  then show ?case using e by simp
qed

lemma exchange_words_correct:
  assumes n: "length ranks = length items" "length positions = length items" and perm: "rank_perm threads ranks"
    and bits: "\<And>p. p < threads * length items \<Longrightarrow> blocked items p < 2 ^ width"
  shows "length (fst (exchange_words threads width items ranks positions storage)) = length items"
    "\<And>t i p. t < threads \<Longrightarrow> i < length items \<Longrightarrow> p < threads * length items \<Longrightarrow>
      nat ((positions ! i) t) = nat (blocked ranks p) \<Longrightarrow>
      (fst (exchange_words threads width items ranks positions storage) ! i) t = blocked items p"
proof -
  let ?n = "length items"
  let ?step = "\<lambda>bit (result, storage).
       let storage = publish_words threads ?n (map (\<lambda>item t. word_of width bit (item t)) items) ranks storage;
           result = map2 (\<lambda>old position t. or (old t) (push_bit bit (shared_load storage (nat (position t)))))
             result positions
       in (result, storage)"
  let ?run = "\<lambda>k. fold ?step (map (\<lambda>k. 32 * k) [0..<k]) (replicate ?n (\<lambda>_. 0), storage)"
  have inv: "length (fst (?run k)) = ?n \<and> (\<forall>t < threads. \<forall>i < ?n. \<forall>p < threads * ?n.
      nat ((positions ! i) t) = nat (blocked ranks p) \<longrightarrow> (fst (?run k) ! i) t = take_bit (32 * k) (blocked items p))"
    if "k \<le> (width + 31) div 32" for k
    using that
  proof (induction k)
    case (Suc k)
    obtain result st where r: "?run k = (result, st)" by (cases "?run k")
    have IH: "length result = ?n" "\<And>t i p. t < threads \<Longrightarrow> i < ?n \<Longrightarrow> p < threads * ?n \<Longrightarrow>
      nat ((positions ! i) t) = nat (blocked ranks p) \<Longrightarrow> (result ! i) t = take_bit (32 * k) (blocked items p)"
      using Suc unfolding r by simp_all
    have one: "32 * k = 0" if "width = 1" using Suc.prems that by simp
    define st' where "st' = publish_words threads ?n (map (\<lambda>item t. word_of width (32 * k) (item t)) items) ranks st"
    have run: "?run (Suc k) = (map2 (\<lambda>old position t. or (old t) (push_bit (32 * k) (shared_load st' (nat (position t)))))
             result positions, st')"
      using r by (simp add: Let_def st'_def)
    have pub: "st' (nat (blocked ranks p)) = take_bit 32 (drop_bit (32 * k) (blocked items p))" if p: "p < threads * ?n" for p
    proof -
      obtain t i where ti: "p = t * ?n + i" "t < threads" "i < ?n" using position_split [OF p] .
      have "nat (blocked ranks p) = nat ((ranks ! i) t)" using ti n(1) by (metis blocked_nth)
      then have "st' (nat (blocked ranks p)) = word_of width (32 * k) (blocked items p)"
        using scatter_hit [OF rank_perm_scatter [OF perm] ti(2), of i "\<lambda>t i. (map (\<lambda>item t. word_of width (32 * k) (item t)) items ! i) t" st]
          ti n(1) by (simp add: st'_def publish_words_def)
      then show ?thesis using word_of_eq [OF bits [OF p] one] by simp
    qed
    show ?case
    proof (intro conjI allI impI)
      show "length (fst (?run (Suc k))) = ?n" unfolding run using IH(1) n(2) by simp
      fix t i p assume tip: "t < threads" "i < ?n" "p < threads * ?n" "nat ((positions ! i) t) = nat (blocked ranks p)"
      have "(fst (?run (Suc k)) ! i) t = or ((result ! i) t) (push_bit (32 * k) (st' (nat ((positions ! i) t))))"
        unfolding run using IH(1) n(2) tip(2) by (simp add: shared_load_def)
      then show "(fst (?run (Suc k)) ! i) t = take_bit (32 * Suc k) (blocked items p)"
        using IH(2) [OF tip] pub [OF tip(3)] take_bit_chunk [of k "blocked items p"] unfolding tip(4) by simp
    qed
  qed simp
  have "width \<le> 32 * ((width + 31) div 32)" by presburger
  then have "(2::nat) ^ width \<le> 2 ^ (32 * ((width + 31) div 32))" by (intro power_increasing) simp_all
  then have all: "take_bit (32 * ((width + 31) div 32)) (blocked items p) = blocked items p" if "p < threads * ?n" for p
    using bits [OF that] by (intro take_bit_nat_eq_self) linarith
  note final = inv [OF order_refl]
  show "length (fst (exchange_words threads width items ranks positions storage)) = length items"
    using final unfolding exchange_words_def by simp
  show "(fst (exchange_words threads width items ranks positions storage) ! i) t = blocked items p"
    if "t < threads" "i < length items" "p < threads * length items" "nat ((positions ! i) t) = nat (blocked ranks p)" for t i p
    using final that all [OF that(3)] unfolding exchange_words_def by simp
qed

end
