(* ===== verification/Radix_Digits.thy ===== *)
theory Radix_Digits
  imports Block_Radix_Sort
begin

text \<open>
  The digits of the block radix sort: \<open>_ordered_bits\<close> turns the order of the values into the order
  of bit patterns, the fields of a decomposed key are written one after the other, and \<open>_digit\<close>
  reads a range of the bits of that number.
\<close>

section \<open>Digits\<close>

fun fields_width :: "(field_type \<times> nat) list \<Rightarrow> nat" where
  "fields_width [] = 0"
| "fields_width ((f, key) # fs) = ft_width f + fields_width fs"

lemma fold_digit_offset: "snd (fold (digit_step b n transform) (rev fs) (r, off)) = off + fields_width fs"
proof (induction fs)
  case (Cons a fs)
  obtain f key where a: "a = (f, key)" by (cases a)
  show ?case
    using Cons by (simp add: a digit_step_def split_beta Let_def)
qed simp

text \<open>The key the fields make when they are written one after the other.\<close>

fun composite :: "bool \<Rightarrow> (field_type \<times> nat) list \<Rightarrow> nat" where
  "composite transform [] = 0"
| "composite transform ((f, key) # fs) =
     or (push_bit (fields_width fs) (ordered_bits f transform key)) (composite transform fs)"

definition fields_ok :: "bool \<Rightarrow> (field_type \<times> nat) list \<Rightarrow> bool" where
  "fields_ok transform fs \<longleftrightarrow> (\<forall>(f, key) \<in> set fs. ordered_bits f transform key < 2 ^ ft_width f)"

lemma bit_lt_pow: "x < 2 ^ w \<Longrightarrow> bit x i \<Longrightarrow> i < w" for x :: nat
proof -
  assume "x < 2 ^ w" "bit x i"
  then have "take_bit w x = x" by (simp add: take_bit_nat_eq_self)
  then have "bit (take_bit w x) i" using \<open>bit x i\<close> by simp
  then show "i < w" by (simp add: bit_take_bit_iff)
qed

lemma composite_bound: "fields_ok transform fs \<Longrightarrow> composite transform fs < 2 ^ fields_width fs"
proof (induction fs)
  case (Cons a fs)
  obtain f key where a: "a = (f, key)" by (cases a)
  let ?w = "fields_width fs"
  have key: "ordered_bits f transform key < 2 ^ ft_width f" and IH: "composite transform fs < 2 ^ ?w"
    using Cons by (auto simp: fields_ok_def a)
  let ?c = "or (push_bit ?w (ordered_bits f transform key)) (composite transform fs)"
  have "n < ft_width f + ?w" if c: "bit ?c n" for n
  proof -
    consider "?w \<le> n" "bit (ordered_bits f transform key) (n - ?w)" | "bit (composite transform fs) n"
      using c unfolding bit_or_iff bit_push_bit_iff_nat by blast
    then show ?thesis
    proof cases
      case 1
      then show ?thesis using bit_lt_pow [OF key 1(2)] by linarith
    next
      case 2
      then show ?thesis using bit_lt_pow [OF IH 2] by simp
    qed
  qed
  then have "take_bit (ft_width f + ?w) ?c = ?c" by (intro bit_eqI) (auto simp only: bit_take_bit_iff)
  then have "?c < 2 ^ (ft_width f + ?w)" unfolding take_bit_nat_eq_self_iff .
  then show ?case by (simp add: a)
qed simp

lemma bit_digit:
  assumes "fields_ok transform fs"
  shows "bit (fst (fold (digit_step b n transform) (rev fs) (0, 0))) i
    \<longleftrightarrow> i < n \<and> bit (composite transform fs) (b + i)"
  using assms
proof (induction fs)
  case (Cons a fs)
  obtain f key where a: "a = (f, key)" by (cases a)
  let ?w = "fields_width fs" and ?o = "ordered_bits f transform key"
  have key: "?o < 2 ^ ft_width f" and rest: "fields_ok transform fs" using Cons.prems by (auto simp: fields_ok_def a)
  obtain r where r: "fold (digit_step b n transform) (rev fs) (0, 0) = (r, ?w)"
    using fold_digit_offset [of b n transform fs 0 0] by (metis add.left_neutral prod.collapse)
  have IH: "bit r i \<longleftrightarrow> i < n \<and> bit (composite transform fs) (b + i)" using Cons.IH [OF rest] by (simp add: r)
  have part: "bit (push_bit (max b ?w - b) (take_bit (min (b + n) (?w + ft_width f) - max b ?w) (drop_bit (max b ?w - ?w) ?o))) i
      \<longleftrightarrow> i < n \<and> ?w \<le> b + i \<and> bit ?o (b + i - ?w)" if "max b ?w < min (b + n) (?w + ft_width f)"
    using that bit_lt_pow [OF key, of "b + i - ?w"]
    by (auto simp: bit_simps max_def min_def add.commute [of i b] split: if_splits)
  have none: "\<not> (i < n \<and> ?w \<le> b + i \<and> bit ?o (b + i - ?w))" if "\<not> max b ?w < min (b + n) (?w + ft_width f)"
    using that bit_lt_pow [OF key, of "b + i - ?w"] by auto
  have step: "fold (digit_step b n transform) (rev (a # fs)) (0, 0) = digit_step b n transform (f, key) (r, ?w)"
    by (simp add: a r)
  show ?case
  proof (cases "max b ?w < min (b + n) (?w + ft_width f)")
    case True
    then show ?thesis
      unfolding step using IH part [OF True] by (simp add: a digit_step_def Let_def bit_or_iff bit_push_bit_iff_nat) blast
  next
    case False
    then show ?thesis
      unfolding step using IH none [OF False]
      by (simp add: a digit_step_def Let_def bit_or_iff bit_push_bit_iff_nat del: max_less_iff_conj min_less_iff_conj) blast
  qed
qed simp

lemma digit_eq: "fields_ok transform fs \<Longrightarrow> digit fs b n transform = take_bit n (drop_bit b (composite transform fs))"
  unfolding digit_def by (rule bit_eqI) (auto simp: bit_digit bit_simps)

lemma digit_bound: "fields_ok transform fs \<Longrightarrow> digit fs b n transform < 2 ^ n"
  by (simp add: digit_eq)

section \<open>Ordered bits follow the order of the values\<close>

text \<open>
  The value a bit pattern stands for, as far as its order goes: two's complement for the signed
  integers, sign and magnitude for floats (so that the two zeros are one value).
\<close>

definition order_value :: "field_type \<Rightarrow> nat \<Rightarrow> int" where
  "order_value f bits =
     (if ft_float f then (let magnitude = int (take_bit (ft_width f - 1) bits)
        in if bit bits (ft_width f - 1) then - magnitude else magnitude)
      else if ft_signed f \<and> ft_width f \<noteq> 1 then signed_take_bit (ft_width f - 1) (int bits)
      else int bits)"

lemma top_bit:
  fixes a :: nat
  assumes "a < 2 ^ Suc k"
  shows "bit a k \<longleftrightarrow> 2 ^ k \<le> a" "take_bit k a = (if 2 ^ k \<le> a then a - 2 ^ k else a)"
    "and a (2 ^ k) \<noteq> 0 \<longleftrightarrow> 2 ^ k \<le> a" "xor a (2 ^ k) = (if 2 ^ k \<le> a then a - 2 ^ k else a + 2 ^ k)"
    "xor a (2 ^ Suc k - 1) = 2 ^ Suc k - 1 - a"
proof -
  have d: "a div 2 ^ k = (if 2 ^ k \<le> a then 1 else 0)"
  proof (cases "2 ^ k \<le> a")
    case True
    then have "a = 2 ^ k * 1 + (a - 2 ^ k)" "a - 2 ^ k < 2 ^ k" using assms by simp_all
    then show ?thesis using True by (metis div_mult_self4 div_less add_0_right one_neq_zero power_not_zero zero_neq_numeral)
  qed simp
  show b: "bit a k \<longleftrightarrow> 2 ^ k \<le> a" by (simp add: bit_iff_odd d)
  have m: "a = a div 2 ^ k * 2 ^ k + take_bit k a" unfolding take_bit_eq_mod by (rule div_mult_mod_eq [symmetric])
  show t: "take_bit k a = (if 2 ^ k \<le> a then a - 2 ^ k else a)" using m d by (auto split: if_splits)
  have pw: "(2 :: nat) ^ k = push_bit k 1" by simp
  show "and a (2 ^ k) \<noteq> 0 \<longleftrightarrow> 2 ^ k \<le> a"
    unfolding b [symmetric] by (simp add: and_exp_eq_0_iff_not_bit)
  have low: "bit a i \<Longrightarrow> i \<le> k" for i using bit_lt_pow [OF assms, of i] by simp
  show "xor a (2 ^ k) = (if 2 ^ k \<le> a then a - 2 ^ k else a + 2 ^ k)"
  proof (cases "2 ^ k \<le> a")
    case True
    have "xor a (2 ^ k) = take_bit k a"
    proof (rule bit_eqI)
      fix i show "bit (xor a (2 ^ k)) i \<longleftrightarrow> bit (take_bit k a) i"
        using b True low [of i] by (cases i k rule: linorder_cases) (auto simp: bit_simps)
    qed
    then show ?thesis using True t by simp
  next
    case False
    then have n: "\<not> bit a k" using b by simp
    then have "and a (2 ^ k) = 0" by (simp add: and_exp_eq_0_iff_not_bit)
    then have "a + 2 ^ k = or a (2 ^ k)" by (simp add: disjunctive_add_eq_or)
    moreover have "xor a (2 ^ k) = or a (2 ^ k)" using \<open>and a (2 ^ k) = 0\<close> by (rule disjunctive_xor_eq_or)
    ultimately show ?thesis using False by simp
  qed
  have "int (xor a (2 ^ Suc k - 1)) = xor (int a) (mask (Suc k))"
    by (simp add: of_nat_xor_eq mask_eq_exp_minus_1 of_nat_diff)
  also have "\<dots> = take_bit (Suc k) (not (int a))"
  proof (rule bit_eqI)
    fix i show "bit (xor (int a) (mask (Suc k))) i \<longleftrightarrow> bit (take_bit (Suc k) (not (int a))) i"
      using bit_lt_pow [OF assms, of i] by (auto simp: bit_simps bit_of_nat_iff_bit)
  qed
  also have "\<dots> = mask (Suc k) - int a"
    using assms by (simp only: take_bit_not_eq_mask_diff) (simp add: take_bit_of_nat take_bit_nat_eq_self del: power_Suc)
  also have "\<dots> = int (2 ^ Suc k - 1 - a)" using assms by (simp add: mask_eq_exp_minus_1 of_nat_diff)
  finally show "xor a (2 ^ Suc k - 1) = 2 ^ Suc k - 1 - a" by (simp only: of_nat_eq_iff)
qed

lemma ordered_bits_value:
  assumes "field_ok f" "a < 2 ^ ft_width f"
  shows "int (ordered_bits f True a) =
    (if ft_float f then 2 ^ (ft_width f - 1) + order_value f a - (if order_value f a < 0 then 1 else 0)
     else if ft_signed f \<and> ft_width f \<noteq> 1 then 2 ^ (ft_width f - 1) + order_value f a else order_value f a)"
    "ordered_bits f True a < 2 ^ ft_width f"
proof -
  obtain k where k: "ft_width f = Suc k" using assms(1) by (cases "ft_width f") (auto simp: field_ok_def)
  note a = assms(2) [unfolded k]
  note tb = top_bit [OF a]
  have n: "int a < 2 * 2 ^ k" using a of_nat_less_iff [of a "2 * 2 ^ k", where 'a = int] by simp
  have s: "signed_take_bit k (int a) = (if 2 ^ k \<le> a then int a - 2 * 2 ^ k else int a)"
  proof -
    have "(int a + 2 ^ k) mod (2 * 2 ^ k) = (if 2 ^ k \<le> int a then int a - 2 ^ k else int a + 2 ^ k)"
      by (rule mod_shift) (use n in simp_all)
    then show ?thesis by (simp add: signed_take_bit_eq_take_bit_shift take_bit_eq_mod)
  qed
  have w1: "k = 0 \<longleftrightarrow> ft_width f = 1" and nf: "ft_width f = 1 \<Longrightarrow> \<not> ft_float f" using k assms(1) by (auto simp: field_ok_def)
  have ob: "ordered_bits f True a = (if k = 0 then a
      else if ft_float f then (if 2 ^ k < a then 2 * 2 ^ k - 1 - a else if a = 2 ^ k then 2 ^ k else a + 2 ^ k)
      else if ft_signed f then (if 2 ^ k \<le> a then a - 2 ^ k else a + 2 ^ k) else a)"
  proof (cases "k = 0")
    case True
    then show ?thesis using a k by (auto simp: ordered_bits_def)
  next
    case False
    then have "ft_width f \<noteq> 1" using k by simp
    then show ?thesis
      unfolding ordered_bits_def Let_def k diff_Suc_1 tb(2)
      using a False tb(3-5) by (auto simp: not_le)
  qed
  show "int (ordered_bits f True a) =
    (if ft_float f then 2 ^ (ft_width f - 1) + order_value f a - (if order_value f a < 0 then 1 else 0)
     else if ft_signed f \<and> ft_width f \<noteq> 1 then 2 ^ (ft_width f - 1) + order_value f a else order_value f a)"
    unfolding ob order_value_def k diff_Suc_1 tb s Let_def using a w1 nf by (auto simp: k not_le of_nat_diff)
  show "ordered_bits f True a < 2 ^ ft_width f"
    unfolding ob k using a by (cases "k = 0") (auto simp: not_le)
qed


lemma ordered_bits_le:
  assumes "field_ok f" "a < 2 ^ ft_width f" "b < 2 ^ ft_width f"
  shows "ordered_bits f True a \<le> ordered_bits f True b \<longleftrightarrow> order_value f a \<le> order_value f b"
  using ordered_bits_value(1) [OF assms(1,2)] ordered_bits_value(1) [OF assms(1,3)]
  by (simp only: of_nat_le_iff [where 'a = int, symmetric]) (auto split: if_splits)

text \<open>Lists of fields compare like their values, the first field first.\<close>

fun fields_le :: "(field_type \<times> nat) list \<Rightarrow> (field_type \<times> nat) list \<Rightarrow> bool" where
  "fields_le ((f, a) # fs) ((g, b) # gs) \<longleftrightarrow> order_value f a < order_value g b
     \<or> (order_value f a = order_value g b \<and> fields_le fs gs)"
| "fields_le _ _ \<longleftrightarrow> True"

definition raw_ok :: "(field_type \<times> nat) list \<Rightarrow> bool" where
  "raw_ok fs \<longleftrightarrow> (\<forall>(f, a) \<in> set fs. field_ok f \<and> a < 2 ^ ft_width f)"

lemma raw_ok_fields: "raw_ok fs \<Longrightarrow> fields_ok True fs"
  unfolding raw_ok_def fields_ok_def using ordered_bits_value(2) by fast

lemma fields_width_eq: "fields_width fs = sum_list (map ft_width (map fst fs))"
  by (induction fs rule: fields_width.induct) simp_all

lemma composite_le:
  assumes "raw_ok fs" "raw_ok gs" "map fst fs = map fst gs"
  shows "composite True fs \<le> composite True gs \<longleftrightarrow> fields_le fs gs"
  using assms
proof (induction fs gs rule: fields_le.induct)
  case (1 f a fs g b gs)
  let ?w = "fields_width fs"
  have "g = f" "map fst fs = map fst gs" using 1(4) by simp_all
  then have w: "fields_width gs = ?w" "g = f" using fields_width_eq by metis+
  have ok: "raw_ok fs" "raw_ok gs" "field_ok f" "a < 2 ^ ft_width f" "b < 2 ^ ft_width f"
    using 1(2,3) w by (auto simp: raw_ok_def)
  let ?o = "ordered_bits f True a" and ?p = "ordered_bits f True b"
  let ?c = "composite True fs" and ?d = "composite True gs"
  have bound: "?c < 2 ^ ?w" "?d < 2 ^ ?w"
    using composite_bound [OF raw_ok_fields [OF ok(1)]] composite_bound [OF raw_ok_fields [OF ok(2)]] w by simp_all
  have join: "or (push_bit ?w x) y = x * 2 ^ ?w + y" if "y < 2 ^ ?w" for x y :: nat
  proof -
    have "and (push_bit ?w x) y = 0"
      using bit_lt_pow [OF that] by (auto simp: bit_eq_iff bit_and_iff bit_push_bit_iff_nat) fastforce
    then have "push_bit ?w x + y = or (push_bit ?w x) y" by (rule disjunctive_add_eq_or)
    then show ?thesis by (simp add: push_bit_eq_mult)
  qed
  have cmp: "x * m + y \<le> x' * m + y' \<longleftrightarrow> x < x' \<or> x = x' \<and> y \<le> y'" if "y < m" "y' < m" for x y x' y' m :: nat
  proof (cases x x' rule: linorder_cases)
    case less
    then have "Suc x * m \<le> x' * m" by (intro mult_right_mono) simp_all
    then show ?thesis using less that by simp
  next
    case greater
    then have "Suc x' * m \<le> x * m" by (intro mult_right_mono) simp_all
    then show ?thesis using greater that by simp
  qed simp
  have ord: "?o < ?p \<longleftrightarrow> order_value f a < order_value f b" "?o = ?p \<longleftrightarrow> order_value f a = order_value f b"
    using ordered_bits_le [OF ok(3-5)] ordered_bits_le [OF ok(3,5,4)] by linarith+
  show ?case
    using 1(1) [OF ok(1,2)] 1(4) cmp [OF bound, of ?o ?p] by (simp add: w join bound ord)
qed simp_all


end
