(* ===== verification/Radix_Ranks.thy ===== *)
theory Radix_Ranks
  imports Radix_Digits
begin

text \<open>
  Why the block radix sort sorts: the ranks its scans compute are the stable ranks of the digits,
  one pass is a stable sort by a digit, and the passes together are a stable sort by all the bits
  asked for. The scan is specified by the locale \<open>add_scan\<close>; \<open>Radix_Providers\<close> interprets it on
  the block scans.
\<close>

section \<open>The contract of the counting scan\<close>

text \<open>
  Exclusive sums of non-negative 32-bit counters over the block in blocked order, with the total
  in every thread, as long as the total does not wrap.
\<close>

definition sums_ok :: "nat \<Rightarrow> int lanes list \<Rightarrow> int lanes list \<Rightarrow> int lanes \<Rightarrow> bool" where
  "sums_ok threads items out aggregate \<longleftrightarrow> length out = length items \<and> (\<forall>t < threads.
     aggregate t = (\<Sum>p < threads * length items. blocked items p)
     \<and> (\<forall>i < length items. (out ! i) t = (\<Sum>p < t * length items + i. blocked items p)))"

locale add_scan =
  fixes legal :: bool and threads :: nat and scan :: sum_scan
  assumes threads_pos: "legal \<Longrightarrow> 0 < threads"
    and scan_sums: "legal \<Longrightarrow> tile_list tile = Inr items \<Longrightarrow> \<forall>i \<in> set items. \<forall>l. 0 \<le> i l \<and> i l < 2 ^ 31
      \<Longrightarrow> (\<Sum>p < threads * length items. blocked items p) < 2 ^ 31
      \<Longrightarrow> \<exists>out aggregate. scan tile = Inr (pack_tile tile out, aggregate) \<and> sums_ok threads items out aggregate"

section \<open>Counting digits\<close>

definition digit_key :: "bool \<Rightarrow> nat \<Rightarrow> nat \<Rightarrow> nat" where
  "digit_key descending bins v = (if descending then bins - 1 - v else v)"

lemma stable_rank_map: "p < length xs \<Longrightarrow> stable_rank (\<lambda>x. d (g x)) xs p = stable_rank d (map g xs) p"
  by (simp add: stable_rank_def take_map filter_map comp_def)

lemma flag_sum:
  assumes "m \<le> threads * length digits"
    and "\<And>t i. t < threads \<Longrightarrow> i < length digits \<Longrightarrow> (flags ! i) t = (if P ((digits ! i) t) then 1 else 0)"
    and "length flags = length digits"
  shows "(\<Sum>p < m. blocked flags p) = int (length (filter P (take m (tile_seq threads digits))))"
proof -
  have "blocked flags p = (if P (tile_seq threads digits ! p) then 1 else 0)" if "p < m" for p
  proof -
    have p: "p < threads * length digits" using that assms(1) by simp
    show ?thesis using position_cases [OF p] assms(2) [of "p div length digits" "p mod length digits"] p
      by (simp add: blocked_def assms(3))
  qed
  then have "(\<Sum>p < m. blocked flags p) = (\<Sum>p < m. if P (tile_seq threads digits ! p) then 1 else 0)"
    by (intro sum.cong) simp_all
  also have "\<dots> = int (length (filter P (take m (tile_seq threads digits))))"
    by (rule sum_flags) (simp add: assms(1))
  finally show ?thesis .
qed

lemma filter_length_mono: "length (filter P (take m xs)) \<le> length (filter P xs)"
  by (metis append_take_drop_id filter_append length_append le_add1)

context add_scan
begin

lemma binary_ranks_stable:
  assumes legal and n: "digits \<noteq> []" and small: "threads * length digits < 2 ^ 31"
    and bits: "\<And>x. x \<in> set (tile_seq threads digits) \<Longrightarrow> x < 2"
  shows "\<exists>ranks. binary_ranks scan descending digits = Inr ranks \<and> length ranks = length digits
    \<and> (\<forall>p < threads * length digits. blocked ranks p = int (stable_rank (digit_key descending 2) (tile_seq threads digits) p))"
proof -
  let ?n = "length digits" and ?xs = "tile_seq threads digits" and ?k = "digit_key descending 2"
  let ?flags = "binary_flags descending digits"
  let ?P = "\<lambda>x. ?k x = 0"
  have len: "length ?flags = ?n" by (simp add: binary_flags_def)
  have flag: "(?flags ! i) t = (if ?P ((digits ! i) t) then 1 else 0)" if "t < threads" "i < ?n" for t i
  proof -
    have "(digits ! i) t < 2" using bits that by (auto simp: set_tile_seq)
    then show ?thesis using that by (auto simp: binary_flags_def digit_key_def)
  qed
  have sums: "(\<Sum>p < m. blocked ?flags p) = int (length (filter ?P (take m ?xs)))" if "m \<le> threads * ?n" for m
    by (rule flag_sum [OF that flag len])
  have total: "(\<Sum>p < threads * ?n. blocked ?flags p) = int (length (filter ?P ?xs))"
    using sums [of "threads * ?n"] by simp
  have "length (filter ?P ?xs) \<le> threads * ?n" by (metis length_filter_le length_tile_seq)
  then have lt: "int (length (filter ?P ?xs)) < 2 ^ 31" using small by (intro int_small(2)) linarith
  obtain out aggregate where s: "scan (Items ?flags) = Inr (Items out, aggregate)" and ok: "sums_ok threads ?flags out aggregate"
  proof -
    have "tile_list (Items ?flags) = Inr ?flags" using n len by (auto simp: tile_list_def)
    moreover have "\<forall>i \<in> set ?flags. \<forall>l. 0 \<le> i l \<and> i l < 2 ^ 31" by (auto simp: binary_flags_def)
    ultimately show ?thesis
      using scan_sums [OF \<open>legal\<close>, of "Items ?flags" ?flags] total lt len that by (auto simp: pack_tile_def)
  qed
  let ?ranks = "map (\<lambda>i t. if (?flags ! i) t \<noteq> 0 then (out ! i) t
             else i32 (aggregate t + int (t * ?n + i) - (out ! i) t)) [0..<?n]"
  have ol: "length out = ?n" using ok len by (simp add: sums_ok_def)
  have on: "out \<noteq> []" using ol n by auto
  have r: "binary_ranks scan descending digits = Inr ?ranks"
    using s on by (simp add: binary_ranks_def Let_def tile_list_def)
  have "blocked ?ranks p = int (stable_rank ?k ?xs p)" if p: "p < threads * ?n" for p
  proof -
    obtain t i where ti: "p = t * ?n + i" "t < threads" "i < ?n" using position_split [OF p] .
    have o: "(out ! i) t = int (length (filter ?P (take p ?xs)))" "aggregate t = int (length (filter ?P ?xs))"
      using ok ti p sums [of p] total len by (simp_all add: sums_ok_def)
    have x: "?xs ! p = (digits ! i) t" using ti p by simp
    have xb: "?xs ! p < 2" using bits p by (metis length_tile_seq nth_mem)
    have b: "blocked ?ranks p = (?ranks ! i) t" using blocked_nth [of i ?ranks t] ti by simp
    show ?thesis
    proof (cases "?P (?xs ! p)")
      case True
      then have "stable_rank ?k ?xs p = length (filter ?P (take p ?xs))" by (simp add: stable_rank_def)
      then show ?thesis using True flag [OF ti(2,3)] o x ti(3) unfolding b by simp
    next
      case False
      have one: "?k x = 0 \<or> ?k x = 1" if "x \<in> set ?xs" for x
        using bits [OF that] by (auto simp: digit_key_def)
      have "?k (?xs ! p) = 1" using False one p by (metis length_tile_seq nth_mem)
      moreover have "filter (\<lambda>x. ?k x = 1) (take p ?xs) = filter (\<lambda>x. \<not> ?P x) (take p ?xs)"
        by (rule filter_cong) (use one in \<open>force dest: in_set_takeD\<close>)+
      ultimately have rank: "stable_rank ?k ?xs p = length (filter ?P ?xs) + length (filter (\<lambda>x. \<not> ?P x) (take p ?xs))"
        by (simp add: stable_rank_def)
      have "length (filter ?P (take p ?xs)) + length (filter (\<lambda>x. \<not> ?P x) (take p ?xs)) = p"
        using sum_length_filter_compl [of ?P "take p ?xs"] p by simp
      then have e: "aggregate t + int (t * ?n + i) - (out ! i) t = int (stable_rank ?k ?xs p)"
        unfolding o rank ti(1) [symmetric] by linarith
      have "stable_rank ?k ?xs p < threads * ?n" using sort_key_nth_rank(2) [of p ?xs] p by simp
      then have "i32 (int (stable_rank ?k ?xs p)) = int (stable_rank ?k ?xs p)"
        using small by (intro signed_small int_small) linarith+
      then show ?thesis using False flag [OF ti(2,3)] x ti(3) e unfolding b by simp
    qed
  qed
  then show ?thesis using r by simp
qed

end

section \<open>Digits of several bits\<close>

lemma fold_res_append: "fold_res f (xs @ ys) s = rbind (fold_res f xs s) (fold_res f ys)"
proof (induction xs arbitrary: s)
  case (Cons x xs)
  then show ?case by (cases "f x s") simp_all
qed simp

lemma fold_res_upt:
  assumes "\<And>b s. b < n \<Longrightarrow> I b s \<Longrightarrow> \<exists>s'. f b s = Inr s' \<and> I (Suc b) s'" "I 0 s"
  shows "\<exists>s'. fold_res f [0..<n] s = Inr s' \<and> I n s'"
  using assms(1)
proof (induction n)
  case (Suc n)
  then obtain s' where "fold_res f [0..<n] s = Inr s'" "I n s'" by auto
  moreover obtain s'' where "f n s' = Inr s''" "I (Suc n) s''" using Suc.prems [of n s'] \<open>I n s'\<close> by auto
  ultimately show ?case by (simp add: fold_res_append)
qed (simp add: assms(2))

lemma sum_item:
  assumes "i \<le> length flags"
  shows "(\<Sum>p < t * length flags + i. blocked flags p)
    = (\<Sum>p < t * length flags. blocked flags p) + (sum_list (map (\<lambda>flag. flag t) (take i flags)) :: int)"
  using assms
proof (induction i)
  case (Suc i)
  then show ?case by (simp add: take_Suc_conv_app_nth)
qed simp

lemma sum_threads:
  "(\<Sum>q < t. sum_list (map (\<lambda>flag. flag q) flags)) = (\<Sum>p < t * length flags. blocked flags p :: int)"
proof (induction t)
  case (Suc t)
  have "(\<Sum>p < t * length flags + length flags. blocked flags p)
      = (\<Sum>p < t * length flags. blocked flags p) + sum_list (map (\<lambda>flag. flag t) flags)"
    using sum_item [of "length flags" flags t] by simp
  then show ?case using Suc by (simp add: add.commute)
qed simp

definition bins_inv :: "nat \<Rightarrow> ('a \<Rightarrow> nat) \<Rightarrow> nat \<Rightarrow> 'a list \<Rightarrow> nat \<Rightarrow> int lanes list \<times> int lanes \<Rightarrow> bool" where
  "bins_inv threads k n xs b state \<longleftrightarrow> (case state of (ranks, offset) \<Rightarrow> length ranks = n
     \<and> (\<forall>p < threads * n. k (xs ! p) < b \<longrightarrow> blocked ranks p = int (stable_rank k xs p))
     \<and> (\<forall>t < threads. offset t = int (length (filter (\<lambda>x. k x < b) xs))))"

lemma filter_lt_Suc:
  "length (filter (\<lambda>x. k x < Suc b) xs) = length (filter (\<lambda>x. k x < b) xs) + length (filter (\<lambda>x. k x = b) xs)"
  by (induction xs) auto

context add_scan
begin

lemma bin_step_inv:
  assumes legal and n: "digits \<noteq> []" and small: "threads * length digits < 2 ^ 31"
    and bits: "\<And>x. x \<in> set (tile_seq threads digits) \<Longrightarrow> x < bins" and b: "b < bins"
    and inv: "bins_inv threads (digit_key descending bins) (length digits) (tile_seq threads digits) b state"
  shows "\<exists>state'. bin_step scan descending bins digits b state = Inr state'
    \<and> bins_inv threads (digit_key descending bins) (length digits) (tile_seq threads digits) (Suc b) state'"
proof -
  let ?n = "length digits" and ?xs = "tile_seq threads digits" and ?k = "digit_key descending bins"
  obtain ranks offset where st: "state = (ranks, offset)" by (cases state)
  define v where "v = (if descending then bins - 1 - b else b)"
  define flags where "flags = map (\<lambda>key t. if key t = v then 1 else (0 :: int)) digits"
  define hist where "hist = (\<lambda>t. sum_list (map (\<lambda>flag. flag t) flags))"
  let ?P = "\<lambda>x. ?k x = b"
  have len: "length flags = ?n" by (simp add: flags_def)
  have flag: "(flags ! i) t = (if ?P ((digits ! i) t) then 1 else 0)" if "t < threads" "i < ?n" for t i
  proof -
    have "(digits ! i) t < bins" using bits that by (auto simp: set_tile_seq)
    then show ?thesis using that b by (auto simp: flags_def v_def digit_key_def)
  qed
  have sums: "(\<Sum>p < m. blocked flags p) = int (length (filter ?P (take m ?xs)))" if "m \<le> threads * ?n" for m
    by (rule flag_sum [OF that flag len])
  have total: "(\<Sum>p < threads * ?n. blocked flags p) = int (length (filter ?P ?xs))"
    using sums [of "threads * ?n"] by simp
  have le: "length (filter Q ?xs) \<le> threads * ?n" for Q by (metis length_filter_le length_tile_seq)
  have hb: "0 \<le> hist l \<and> hist l \<le> int ?n" for l
  proof -
    have "0 \<le> sum_list (map (\<lambda>flag. flag l) (map (\<lambda>key t. if key t = v then 1 else (0 :: int)) ks))
        \<and> sum_list (map (\<lambda>flag. flag l) (map (\<lambda>key t. if key t = v then 1 else (0 :: int)) ks)) \<le> int (length ks)" for ks
      by (induction ks) auto
    then show ?thesis unfolding hist_def flags_def .
  qed
  have hist: "blocked [hist] q = hist q" for q by (simp add: blocked_def)
  have hsum: "(\<Sum>q < t. hist q) = (\<Sum>p < t * ?n. blocked flags p)" for t
    unfolding hist_def sum_threads len ..
  obtain out aggregate where s: "scan (Item hist) = Inr (Item (hd out), aggregate)" and ok: "sums_ok threads [hist] out aggregate"
  proof -
    have "1 * ?n \<le> threads * ?n" using threads_pos [OF \<open>legal\<close>] by (intro mult_right_mono) simp_all
    then have "?n < 2 ^ 31" using small unfolding mult_1_left by (rule le_less_trans)
    then have "int ?n < 2 ^ 31" by (rule int_small(2))
    then have "0 \<le> hist l \<and> hist l < 2 ^ 31" for l using hb [of l] le_less_trans by blast
    then have "\<forall>i \<in> set [hist]. \<forall>l. 0 \<le> i l \<and> i l < 2 ^ 31" by simp
    moreover have "(\<Sum>p < threads * length [hist]. blocked [hist] p) < 2 ^ 31"
      using le [of ?P] small by (simp only: list.size hist add_0 mult_1_right One_nat_def [symmetric] hsum total) (intro int_small(2), linarith)
    ultimately show ?thesis
      using scan_sums [OF \<open>legal\<close>, of "Item hist" "[hist]"] that by (auto simp: pack_tile_def tile_list_def)
  qed
  have at: "aggregate t = int (length (filter ?P ?xs))" "hd out t = (\<Sum>p < t * ?n. blocked flags p)" if "t < threads" for t
  proof -
    have "out \<noteq> []" using ok by (auto simp: sums_ok_def)
    then show "aggregate t = int (length (filter ?P ?xs))" "hd out t = (\<Sum>p < t * ?n. blocked flags p)"
      using ok that by (simp_all add: sums_ok_def hist hsum total hd_conv_nth)
  qed
  let ?ranks = "map (\<lambda>i t. if (flags ! i) t \<noteq> 0
                then i32 (offset t + hd out t + sum_list (map (\<lambda>flag. flag t) (take i flags)))
                else (ranks ! i) t) [0..<?n]"
  let ?offset = "\<lambda>t. i32 (offset t + aggregate t)"
  have r: "bin_step scan descending bins digits b state = Inr (?ranks, ?offset)"
    unfolding bin_step_def st Let_def prod.case v_def [symmetric] flags_def [symmetric] hist_def [symmetric] s
    by (simp add: tile_list_def cong: if_cong)
  have I: "length ranks = ?n" "\<And>p. p < threads * ?n \<Longrightarrow> ?k (?xs ! p) < b \<Longrightarrow> blocked ranks p = int (stable_rank ?k ?xs p)"
    "\<And>t. t < threads \<Longrightarrow> offset t = int (length (filter (\<lambda>x. ?k x < b) ?xs))"
    using inv by (simp_all add: bins_inv_def st)
  have "?offset t = int (length (filter (\<lambda>x. ?k x < Suc b) ?xs))" if "t < threads" for t
  proof -
    have "i32 (int (length (filter (\<lambda>x. ?k x < Suc b) ?xs))) = int (length (filter (\<lambda>x. ?k x < Suc b) ?xs))"
      using le small by (intro signed_small int_small) (meson le_less_trans)+
    then show ?thesis using at(1) [OF that] I(3) [OF that] filter_lt_Suc [of ?k b ?xs] by simp
  qed
  moreover have "blocked ?ranks p = int (stable_rank ?k ?xs p)" if p: "p < threads * ?n" and lt: "?k (?xs ! p) < Suc b" for p
  proof -
    obtain t i where ti: "p = t * ?n + i" "t < threads" "i < ?n" using position_split [OF p] .
    have x: "?xs ! p = (digits ! i) t" using ti p by simp
    have bl: "blocked ?ranks p = (?ranks ! i) t" using blocked_nth [of i ?ranks t] ti by simp
    show ?thesis
    proof (cases "?k (?xs ! p) = b")
      case True
      have "hd out t + sum_list (map (\<lambda>flag. flag t) (take i flags)) = int (length (filter ?P (take p ?xs)))"
        using at(2) [OF ti(2)] sum_item [of i flags t] sums [of p] ti p len by simp
      then have "offset t + hd out t + sum_list (map (\<lambda>flag. flag t) (take i flags)) = int (stable_rank ?k ?xs p)"
        using I(3) [OF ti(2)] True by (simp add: stable_rank_def)
      moreover have "stable_rank ?k ?xs p < threads * ?n" using sort_key_nth_rank(2) [of p ?xs] p by simp
      then have "i32 (int (stable_rank ?k ?xs p)) = int (stable_rank ?k ?xs p)"
        using small by (intro signed_small int_small) linarith+
      ultimately show ?thesis using True flag [OF ti(2,3)] x ti(3) unfolding bl by simp
    next
      case False
      then have "blocked ranks p = int (stable_rank ?k ?xs p)" using I(2) [OF p] lt by simp
      moreover have "blocked ranks p = (ranks ! i) t" using blocked_nth [of i ranks t] ti I(1) by simp
      ultimately show ?thesis using False flag [OF ti(2,3)] x ti(3) unfolding bl by simp
    qed
  qed
  ultimately have "bins_inv threads ?k ?n ?xs (Suc b) (?ranks, ?offset)" by (simp add: bins_inv_def)
  then show ?thesis using r by blast
qed

lemma digit_ranks_stable:
  assumes legal and n: "digits \<noteq> []" and small: "threads * length digits < 2 ^ 31"
    and bits: "\<And>x. x \<in> set (tile_seq threads digits) \<Longrightarrow> x < bins"
  shows "\<exists>ranks. digit_ranks scan descending bins digits = Inr ranks \<and> length ranks = length digits
    \<and> (\<forall>p < threads * length digits. blocked ranks p = int (stable_rank (digit_key descending bins) (tile_seq threads digits) p))"
proof -
  let ?I = "bins_inv threads (digit_key descending bins) (length digits) (tile_seq threads digits)"
  have "?I 0 (replicate (length digits) (\<lambda>_. 0), \<lambda>_. 0)" by (simp add: bins_inv_def)
  then obtain state where s: "fold_res (bin_step scan descending bins digits) [0..<bins]
      (replicate (length digits) (\<lambda>_. 0), \<lambda>_. 0) = Inr state" "?I bins state"
    using fold_res_upt [of bins ?I "bin_step scan descending bins digits" "(replicate (length digits) (\<lambda>_. 0), \<lambda>_. 0)"]
      bin_step_inv [OF assms] by blast
  have "digit_key descending bins (tile_seq threads digits ! p) < bins" if "p < threads * length digits" for p
  proof -
    have "tile_seq threads digits ! p < bins" using bits that by (metis length_tile_seq nth_mem)
    then show ?thesis by (simp add: digit_key_def)
  qed
  then show ?thesis using s by (auto simp: digit_ranks_def bins_inv_def)
qed

end
section \<open>One pass\<close>

text \<open>What thread \<open>t\<close> holds as its item \<open>i\<close>: a key and its value; the block in blocked and in striped order.\<close>

definition record_at :: "sort_state \<Rightarrow> nat \<Rightarrow> nat \<Rightarrow> nat \<times> nat option" where
  "record_at state t i = (case state of (items, payload, _) \<Rightarrow>
     ((items ! i) t, map_option (\<lambda>vs. (vs ! i) t) payload))"

definition tile_records :: "sort_class \<Rightarrow> sort_state \<Rightarrow> (nat \<times> nat option) list" where
  "tile_records c state = map (\<lambda>p. record_at state (p div rs_items c) (p mod rs_items c)) [0..<rs_threads c * rs_items c]"

definition striped_records :: "sort_class \<Rightarrow> sort_state \<Rightarrow> (nat \<times> nat option) list" where
  "striped_records c state = map (\<lambda>p. record_at state (p mod rs_threads c) (p div rs_threads c)) [0..<rs_threads c * rs_items c]"

definition column_ok :: "sort_class \<Rightarrow> nat \<Rightarrow> nat lanes list \<Rightarrow> bool" where
  "column_ok c width items \<longleftrightarrow> length items = rs_items c \<and> (\<forall>x \<in> set (tile_seq (rs_threads c) items). x < 2 ^ width)"

definition state_ok :: "sort_class \<Rightarrow> sort_state \<Rightarrow> bool" where
  "state_ok c state \<longleftrightarrow> (case state of (items, payload, _) \<Rightarrow> column_ok c (rs_key_width c) items
     \<and> (\<forall>vs. payload = Some vs \<longrightarrow> column_ok c (rs_value_width c) vs))"

lemma length_records [simp]:
  "length (tile_records c state) = rs_threads c * rs_items c" "length (striped_records c state) = rs_threads c * rs_items c"
  by (simp_all add: tile_records_def striped_records_def)

text \<open>Ranks that are a permutation of the block's positions.\<close>

definition ranks_ok :: "sort_class \<Rightarrow> int lanes list \<Rightarrow> (nat \<Rightarrow> nat) \<Rightarrow> bool" where
  "ranks_ok c ranks r \<longleftrightarrow> length ranks = rs_items c
     \<and> (\<forall>p < rs_threads c * rs_items c. blocked ranks p = int (r p) \<and> r p < rs_threads c * rs_items c)
     \<and> inj_on r {..<rs_threads c * rs_items c}"

lemma ranks_ok_onto: "ranks_ok c ranks r \<Longrightarrow> q < rs_threads c * rs_items c \<Longrightarrow> \<exists>p < rs_threads c * rs_items c. r p = q"
proof -
  assume r: "ranks_ok c ranks r" and q: "q < rs_threads c * rs_items c"
  then have "r ` {..<rs_threads c * rs_items c} = {..<rs_threads c * rs_items c}"
    by (intro endo_inj_surj) (auto simp: ranks_ok_def)
  then show ?thesis using q by (metis imageE lessThan_iff)
qed

text \<open>\<open>place\<close> says which position of the block a thread's item is read from.\<close>

lemma exchange_column:
  assumes r: "ranks_ok c ranks r" and col: "column_ok c width items"
    and pos: "positions = map (\<lambda>i t. int (place t i)) [0..<rs_items c]"
    and place: "\<And>t i. t < rs_threads c \<Longrightarrow> i < rs_items c \<Longrightarrow> place t i < rs_threads c * rs_items c"
    and e: "exchange_words (rs_threads c) width items ranks positions storage = (items', storage')"
  shows "column_ok c width items'"
    "\<And>t i p. t < rs_threads c \<Longrightarrow> i < rs_items c \<Longrightarrow> p < rs_threads c * rs_items c \<Longrightarrow> place t i = r p \<Longrightarrow>
      (items' ! i) t = (items ! (p mod rs_items c)) (p div rs_items c)"
proof -
  have len: "length ranks = length items" "length positions = length items" "length items = rs_items c"
    using r col pos by (simp_all add: ranks_ok_def column_ok_def)
  have "rank_perm (rs_threads c) ranks"
    using r unfolding rank_perm_def ranks_ok_def by (auto simp: inj_on_def)
  moreover have "blocked items p < 2 ^ width" if p: "p < rs_threads c * length items" for p
  proof -
    have "tile_seq (rs_threads c) items ! p \<in> set (tile_seq (rs_threads c) items)" using p by (intro nth_mem) simp
    then show ?thesis using col p unfolding column_ok_def by auto
  qed
  ultimately have c: "length items' = length items"
    "\<And>t i p. t < rs_threads c \<Longrightarrow> i < length items \<Longrightarrow> p < rs_threads c * length items \<Longrightarrow>
      nat ((positions ! i) t) = nat (blocked ranks p) \<Longrightarrow> (items' ! i) t = blocked items p"
    using exchange_words_correct [OF len(1,2), where threads = "rs_threads c" and width = width and storage = storage] by (auto simp: e)
  show m: "(items' ! i) t = (items ! (p mod rs_items c)) (p div rs_items c)"
    if "t < rs_threads c" "i < rs_items c" "p < rs_threads c * rs_items c" "place t i = r p" for t i p
  proof -
    have "nat ((positions ! i) t) = nat (blocked ranks p)" using that r by (simp add: pos ranks_ok_def)
    then show ?thesis using c(2) [of t i p] that len(3) by (simp add: blocked_def)
  qed
  show "column_ok c width items'"
    unfolding column_ok_def
  proof (intro conjI ballI)
    show "length items' = rs_items c" using c(1) len(3) by simp
    fix x assume "x \<in> set (tile_seq (rs_threads c) items')"
    then obtain t i where ti: "t < rs_threads c" "i < rs_items c" "x = (items' ! i) t"
      using c(1) len(3) by (auto simp: set_tile_seq)
    obtain p where p: "p < rs_threads c * rs_items c" "place t i = r p"
      using ranks_ok_onto [OF r place [OF ti(1,2)]] by metis
    have "x = (items ! (p mod rs_items c)) (p div rs_items c)" using m ti p by simp
    then have "x \<in> set (tile_seq (rs_threads c) items)"
      using position_cases [OF p(1)] len(3) unfolding set_tile_seq by metis
    then show "x < 2 ^ width" using col by (simp add: column_ok_def)
  qed
qed

lemma move_items_correct:
  assumes r: "ranks_ok c ranks r" and ok: "state_ok c state"
    and pos: "positions = map (\<lambda>i t. int (place t i)) [0..<rs_items c]"
    and place: "\<And>t i. t < rs_threads c \<Longrightarrow> i < rs_items c \<Longrightarrow> place t i < rs_threads c * rs_items c"
  shows "state_ok c (move_items c ranks positions state)"
    "\<And>t i p. t < rs_threads c \<Longrightarrow> i < rs_items c \<Longrightarrow> p < rs_threads c * rs_items c \<Longrightarrow> place t i = r p \<Longrightarrow>
      record_at (move_items c ranks positions state) t i = record_at state (p div rs_items c) (p mod rs_items c)"
proof -
  obtain items payload storage where s: "state = (items, payload, storage)" by (cases state)
  obtain items' st where e: "exchange_words (rs_threads c) (rs_key_width c) items ranks positions storage = (items', st)"
    by fastforce
  have col: "column_ok c (rs_key_width c) items" using ok by (simp add: state_ok_def s)
  note k = exchange_column [OF r col pos place e]
  have "state_ok c (move_items c ranks positions state) \<and> (\<forall>t i p. t < rs_threads c \<longrightarrow> i < rs_items c \<longrightarrow>
      p < rs_threads c * rs_items c \<longrightarrow> place t i = r p \<longrightarrow>
      record_at (move_items c ranks positions state) t i = record_at state (p div rs_items c) (p mod rs_items c))"
  proof (cases payload)
    case None
    then show ?thesis using k(1) k(2) by (simp add: move_items_def s e state_ok_def record_at_def)
  next
    case (Some vs)
    obtain vs' st' where e': "exchange_words (rs_threads c) (rs_value_width c) vs ranks positions st = (vs', st')"
      by fastforce
    have col': "column_ok c (rs_value_width c) vs" using ok Some by (simp add: state_ok_def s)
    note v = exchange_column [OF r col' pos place e']
    show ?thesis using k(1) v(1) k(2) v(2) by (simp add: move_items_def s e e' Some state_ok_def record_at_def)
  qed
  then show "state_ok c (move_items c ranks positions state)"
    "\<And>t i p. t < rs_threads c \<Longrightarrow> i < rs_items c \<Longrightarrow> p < rs_threads c * rs_items c \<Longrightarrow> place t i = r p \<Longrightarrow>
      record_at (move_items c ranks positions state) t i = record_at state (p div rs_items c) (p mod rs_items c)"
    by blast+
qed
text \<open>Moving every record to its stable rank sorts the block.\<close>

lemma move_to_rank:
  assumes ok: "state_ok c state" and len: "length ranks = rs_items c"
    and rank: "\<And>p. p < rs_threads c * rs_items c \<Longrightarrow> blocked ranks p = int (stable_rank k (tile_records c state) p)"
  shows "state_ok c (move_items c ranks (blocked_positions (rs_items c)) state)"
    "tile_records c (move_items c ranks (blocked_positions (rs_items c)) state) = sort_key k (tile_records c state)"
proof -
  let ?n = "rs_items c" and ?N = "rs_threads c * rs_items c" and ?r = "stable_rank k (tile_records c state)"
  let ?s = "move_items c ranks (blocked_positions (rs_items c)) state"
  have bound: "?r p < ?N" if "p < ?N" for p using sort_key_nth_rank(2) [of p "tile_records c state" k] that by simp
  have "inj_on ?r {..<?N}" using stable_rank_inj [where xs = "tile_records c state" and d = k] by (intro inj_onI) simp
  then have r: "ranks_ok c ranks ?r" using len rank bound by (simp add: ranks_ok_def)
  note mv = move_items_correct [where place = "\<lambda>t i. t * ?n + i", OF r ok]
  have pos: "blocked_positions ?n = map (\<lambda>i t. int (t * ?n + i)) [0..<?n]" by (simp add: blocked_positions_def)
  show "state_ok c ?s" using mv(1) [OF pos] position_bound by blast
  show "tile_records c ?s = sort_key k (tile_records c state)"
  proof (rule sort_key_by_rank)
    fix p assume "p < length (tile_records c state)"
    then have p: "p < ?N" by simp
    note q = position_cases [OF bound [OF p]]
    have "record_at ?s (?r p div ?n) (?r p mod ?n) = record_at state (p div ?n) (p mod ?n)"
      using mv(2) [OF pos _ q(1,2) p] position_bound q(4) by blast
    then show "tile_records c ?s ! ?r p = tile_records c state ! p" using p bound [OF p] by (simp add: tile_records_def)
  qed simp
qed

lemma move_to_striped:
  assumes "state_ok c state"
  shows "state_ok c (move_items c (blocked_positions (rs_items c)) (striped_positions (rs_threads c) (rs_items c)) state)"
    "striped_records c (move_items c (blocked_positions (rs_items c)) (striped_positions (rs_threads c) (rs_items c)) state)
      = tile_records c state"
proof -
  let ?n = "rs_items c" and ?h = "rs_threads c"
  let ?s = "move_items c (blocked_positions ?n) (striped_positions ?h ?n) state"
  have r: "ranks_ok c (blocked_positions ?n) (\<lambda>p. p)"
  proof -
    have "blocked (blocked_positions ?n) p = int p" if "p < ?h * ?n" for p
      using position_cases [OF that] by (simp add: blocked_positions_def blocked_def flip: of_nat_mult of_nat_add)
    then show ?thesis by (simp add: ranks_ok_def) (simp add: blocked_positions_def)
  qed
  have pos: "striped_positions ?h ?n = map (\<lambda>i t. int (t + i * ?h)) [0..<?n]" by (simp add: striped_positions_def)
  have place: "t + i * ?h < ?h * ?n" if "t < ?h" "i < ?n" for t i
    using position_bound [OF that(2,1)] by (simp add: ac_simps)
  note mv = move_items_correct [where place = "\<lambda>t i. t + i * ?h", OF r assms pos place]
  show "state_ok c ?s" by (rule mv(1))
  show "striped_records c ?s = tile_records c state"
  proof (rule nth_equalityI)
    fix p assume "p < length (striped_records c ?s)"
    then have p: "p < ?h * ?n" by simp
    then have "p < ?n * ?h" by (simp add: mult.commute)
    note q = position_cases [OF this]
    have "record_at ?s (p mod ?h) (p div ?h) = record_at state (p div ?n) (p mod ?n)"
      by (rule mv(2)) (use q p in \<open>simp_all add: add.commute\<close>)
    then show "striped_records c ?s ! p = tile_records c state ! p" using p by (simp add: tile_records_def striped_records_def)
  qed simp
qed

section \<open>The passes\<close>

definition passes_key :: "bool \<Rightarrow> nat \<Rightarrow> nat \<Rightarrow> nat \<Rightarrow> nat" where
  "passes_key descending begin stop key = digit_key descending (2 ^ (stop - begin)) (take_bit (stop - begin) (drop_bit begin key))"

lemma passes_key_bound: "passes_key descending b e key < 2 ^ (e - b)"
  by (simp add: passes_key_def digit_key_def)

lemma passes_key_step:
  assumes "b \<le> m"
  shows "digit_key descending (2 ^ k) (take_bit k (drop_bit m key)) * 2 ^ (m - b) + passes_key descending b m key
    = passes_key descending b (m + k) key"
proof -
  let ?h = "take_bit k (drop_bit m key)" and ?l = "take_bit (m - b) (drop_bit b key)"
  have k: "m + k - b = m - b + k" using assms by simp
  have "take_bit (m - b + k) (drop_bit b key) = or ?l (push_bit (m - b) ?h)"
    using assms by (intro bit_eqI) (auto simp: bit_simps add.commute [of b])
  also have "\<dots> = ?l + push_bit (m - b) ?h"
    by (rule disjunctive_add_eq_or [symmetric]) (auto simp: bit_eq_iff bit_simps)
  finally have split: "take_bit (m - b + k) (drop_bit b key) = ?l + ?h * 2 ^ (m - b)" by (simp add: push_bit_eq_mult)
  have h: "Suc ?h \<le> 2 ^ k" and l: "Suc ?l \<le> 2 ^ (m - b)" by (simp_all add: Suc_le_eq)
  have "(2 ^ k - 1 - ?h) * B + (B - 1 - ?l) = B * 2 ^ k - 1 - (?l + ?h * B)" if B: "Suc ?l \<le> B" for B
  proof -
    obtain x y where x: "2 ^ k = Suc ?h + x" and y: "B = Suc ?l + y" using h B le_Suc_ex by metis
    have "(2 ^ k - 1 - ?h) * B + (B - 1 - ?l) = x * B + y" by (simp add: x y)
    moreover have "B * 2 ^ k = ?h * B + B + x * B" by (simp add: x algebra_simps)
    ultimately show ?thesis using y by simp
  qed
  then show ?thesis
    using l by (simp add: passes_key_def digit_key_def k split power_add)
qed

text \<open>What the sort asks of its arguments.\<close>

definition sort_ok :: "sort_class \<Rightarrow> (nat \<Rightarrow> (field_type \<times> nat) list) \<Rightarrow> bool" where
  "sort_ok c decompose \<longleftrightarrow> 0 < rs_items c \<and> rs_threads c * rs_items c < 2 ^ 31
     \<and> (\<forall>key < 2 ^ rs_key_width c. fields_ok True (decompose key))"

definition sort_value :: "(nat \<Rightarrow> (field_type \<times> nat) list) \<Rightarrow> bool \<Rightarrow> nat \<Rightarrow> nat \<Rightarrow> nat \<times> nat option \<Rightarrow> nat" where
  "sort_value decompose descending b e r = passes_key descending b e (composite True (decompose (fst r)))"

context add_scan
begin

lemma radix_pass_correct:
  assumes legal and c: "rs_threads c = threads" "rs_scan c = scan" and ok: "sort_ok c decompose" "state_ok c state"
    and m: "m < e" "0 < radix" and b: "b \<le> m"
    and sorted: "tile_records c state = sort_key (sort_value decompose descending b m) xs"
    and keys: "\<And>r. r \<in> set xs \<Longrightarrow> fst r < 2 ^ rs_key_width c"
  shows "\<exists>state'. radix_pass c decompose descending radix e m state = Inr state' \<and> state_ok c state'
    \<and> tile_records c state' = sort_key (sort_value decompose descending b (min e (m + radix))) xs"
proof -
  let ?bits = "min radix (e - m)"
  let ?d = "\<lambda>key. digit (decompose key) m ?bits True"
  let ?k = "digit_key descending (2 ^ ?bits)"
  obtain items payload st where s: "state = (items, payload, st)" by (cases state)
  let ?digits = "map (\<lambda>item t. ?d (item t)) items"
  have col: "column_ok c (rs_key_width c) items" using ok(2) by (simp add: state_ok_def s)
  then have len: "length items = rs_items c" by (simp add: column_ok_def)
  have seq: "tile_seq threads ?digits = map (\<lambda>r. ?d (fst r)) (tile_records c state)"
  proof -
    have "tile_seq threads ?digits = map ?d (tile_seq threads items)" by (rule tile_seq_map)
    then show ?thesis by (simp add: tile_seq_def tile_records_def record_at_def s blocked_def c len comp_def)
  qed
  have small: "threads * length ?digits < 2 ^ 31" and ne: "?digits \<noteq> []"
    using ok(1) c len by (auto simp: sort_ok_def)
  have eq: "?d key = take_bit ?bits (drop_bit m (composite True (decompose key)))" if "key < 2 ^ rs_key_width c" for key
    using that ok(1) by (simp add: sort_ok_def digit_eq)
  have dig: "x < 2 ^ ?bits" if x: "x \<in> set (tile_seq threads ?digits)" for x
  proof -
    obtain r where "r \<in> set (tile_records c state)" "x = ?d (fst r)" using x unfolding seq by auto
    then show ?thesis using keys eq sorted by simp
  qed
  obtain ranks where r: "(if ?bits = 1 then binary_ranks (rs_scan c) descending ?digits
             else digit_ranks (rs_scan c) descending (2 ^ ?bits) ?digits) = Inr ranks" "length ranks = rs_items c"
    "\<And>p. p < threads * rs_items c \<Longrightarrow> blocked ranks p = int (stable_rank ?k (tile_seq threads ?digits) p)"
  proof (cases "?bits = 1")
    case True
    then have d2: "x < 2" if "x \<in> set (tile_seq threads ?digits)" for x using dig [OF that] by simp
    show ?thesis
      using binary_ranks_stable [OF \<open>legal\<close> ne small d2, of descending] that True c len by auto
  next
    case False
    show ?thesis
      using digit_ranks_stable [OF \<open>legal\<close> ne small dig, of descending] that False c len by auto
  qed
  let ?key = "\<lambda>r. ?k (?d (fst r))"
  have rank: "blocked ranks p = int (stable_rank ?key (tile_records c state) p)" if "p < rs_threads c * rs_items c" for p
    using r(3) [of p] that stable_rank_map [of p "tile_records c state" ?k "\<lambda>r. ?d (fst r)"] c seq by simp
  note mv = move_to_rank [where k = ?key, OF ok(2) r(2) rank]
  have "radix_pass c decompose descending radix e m state = Inr (move_items c ranks (blocked_positions (rs_items c)) state)"
    using r(1) by (simp add: radix_pass_def s Let_def)
  moreover have "sort_key ?key (tile_records c state) = sort_key (sort_value decompose descending b (min e (m + radix))) xs"
  proof -
    have "sort_key ?key (tile_records c state)
        = sort_key (\<lambda>r. ?key r * 2 ^ (m - b) + sort_value decompose descending b m r) xs"
      unfolding sorted by (rule sort_key_digits) (simp_all add: sort_value_def passes_key_bound)
    also have "\<dots> = sort_key (sort_value decompose descending b (min e (m + radix))) xs"
    proof (rule sort_key_cong)
      fix r assume "r \<in> set xs"
      then have "?d (fst r) = take_bit ?bits (drop_bit m (composite True (decompose (fst r))))" using eq keys by blast
      moreover have "m + ?bits = min e (m + radix)" using m by simp
      ultimately show "?key r * 2 ^ (m - b) + sort_value decompose descending b m r
          = sort_value decompose descending b (min e (m + radix)) r"
        using passes_key_step [OF b, of descending ?bits "composite True (decompose (fst r))"]
        by (simp only: sort_value_def)
    qed
    finally show ?thesis .
  qed
  ultimately show ?thesis using mv by simp
qed

lemma radix_sort_correct:
  assumes legal and c: "rs_threads c = threads" "rs_scan c = scan" and ok: "sort_ok c decompose" "state_ok c state"
    and range: "bit_range width begin_bit end_bit = Inr e"
    and radix: "(case radix_bits of None \<Rightarrow> True | Some r \<Rightarrow> 1 \<le> r \<and> r < 31)"
  shows "\<exists>state'. radix_sort c decompose width descending begin_bit end_bit radix_bits striped state = Inr state'
    \<and> state_ok c state' \<and> (if striped then striped_records c state' else tile_records c state')
      = sort_key (sort_value decompose descending (nat begin_bit) e) (tile_records c state)"
proof -
  define r where "r = (case radix_bits of None \<Rightarrow> (if rs_radix_scan c then 1 else 4) | Some r \<Rightarrow> r)"
  define n where "n = nat r"
  have r1: "1 \<le> r" "r < 31" using radix by (auto simp: r_def split: option.splits)
  then have n: "0 < n" by (simp add: n_def)
  let ?b = "nat begin_bit" and ?xs = "tile_records c state"
  have be: "?b \<le> e" using range by (auto simp: bit_range_def Let_def split: if_splits)
  have keys: "fst x < 2 ^ rs_key_width c" if x: "x \<in> set ?xs" for x
  proof -
    obtain items payload st where s: "state = (items, payload, st)" by (cases state)
    obtain p where p: "p < rs_threads c * rs_items c" "fst x = (items ! (p mod rs_items c)) (p div rs_items c)"
      using x unfolding tile_records_def s record_at_def by auto
    have "length items = rs_items c" using ok(2) by (simp add: state_ok_def s column_ok_def)
    then have "fst x \<in> set (tile_seq (rs_threads c) items)"
      unfolding set_tile_seq using position_cases(1,2) [OF p(1)] p(2) by metis
    then show ?thesis using ok(2) by (simp add: state_ok_def s column_ok_def)
  qed
  let ?count = "(e - ?b + n - 1) div n"
  let ?m = "\<lambda>k. min e (?b + k * n)"
  let ?I = "\<lambda>k s. state_ok c s \<and> tile_records c s = sort_key (sort_value decompose descending ?b (?m k)) ?xs"
  have "\<exists>s'. (radix_pass c decompose descending n e \<circ> (\<lambda>k. ?b + k * n)) k s = Inr s' \<and> ?I (Suc k) s'" if k: "k < ?count" and I: "?I k s" for k s
  proof -
    have "Suc k * n \<le> ?count * n" using k by (intro mult_right_mono) simp_all
    also have "\<dots> \<le> e - ?b + n - 1" by simp
    finally have lt: "?b + k * n < e" using n by simp
    then have mk: "?m k = ?b + k * n" by simp
    have "?m (Suc k) = min e (?b + k * n + n)" by (simp add: ac_simps)
    then show ?thesis
      using radix_pass_correct [where state = s and b = ?b and m = "?b + k * n" and e = e and radix = n and xs = ?xs
          and descending = descending, OF \<open>legal\<close> c ok(1)] I lt n keys unfolding mk by simp
  qed
  moreover have "?I 0 state"
  proof -
    have "sort_value decompose descending ?b ?b = (\<lambda>_. 0)"
      by (simp add: fun_eq_iff sort_value_def passes_key_def digit_key_def)
    then show ?thesis using ok(2) be by (simp add: min_absorb2)
  qed
  ultimately obtain s' where s': "fold_res (radix_pass c decompose descending n e \<circ> (\<lambda>k. ?b + k * n)) [0..<?count] state = Inr s'"
    "?I ?count s'"
    using fold_res_upt [of ?count ?I "radix_pass c decompose descending n e \<circ> (\<lambda>k. ?b + k * n)" state] by blast
  have fm: "fold_res f (map g xs) s = fold_res (f \<circ> g) xs s" for f :: "nat \<Rightarrow> sort_state \<Rightarrow> sort_state res" and g :: "nat \<Rightarrow> nat" and xs s
  proof (induction xs arbitrary: s)
    case (Cons x xs)
    then show ?case by (cases "f (g x) s") simp_all
  qed simp
  have "e \<le> ?b + ?count * n"
  proof -
    have "?count * n + (e - ?b + n - 1) mod n = e - ?b + n - 1" by (rule div_mult_mod_eq)
    moreover have "(e - ?b + n - 1) mod n < n" using n by simp
    ultimately show ?thesis by linarith
  qed
  then have I: "state_ok c s'" "tile_records c s' = sort_key (sort_value decompose descending ?b e) ?xs"
    using s'(2) by (simp_all add: min_absorb1)
  have run: "radix_sort c decompose width descending begin_bit end_bit radix_bits striped state
      = Inr (if striped then move_items c (blocked_positions (rs_items c)) (striped_positions (rs_threads c) (rs_items c)) s' else s')"
    using s'(1) r1 by (simp add: radix_sort_def range Let_def r_def [symmetric] sort_bits_def n_def [symmetric] fm)
  show ?thesis
    unfolding run using I move_to_striped [OF I(1)] by simp
qed

end
end
