(* ===== verification/Radix_Providers.thy ===== *)
theory Radix_Providers
  imports Radix_Ranks Scan_Providers
begin

text \<open>
  The counting scan of the block radix sort on the block scans: \<open>exclusive_with_aggregate\<close> with
  \<open>ADD\<close> over 32-bit integers keeps the contract \<open>add_scan\<close>, on the portable and on the ROCm warp
  operations. The properties of the sort follow.
\<close>

section \<open>32-bit sums\<close>

definition counter_scan :: "int block_scan_class \<Rightarrow> int scan_storage \<Rightarrow> sum_scan" where
  "counter_scan c st tile = block_exclusive_with_aggregate c (Builtin ADD) st None None None None tile"

lemma int32_small: "0 \<le> x \<Longrightarrow> x < 2 ^ 31 \<Longrightarrow> nt_wrap int32 x = x"
  by (simp add: nt_wrap_def int32_def signed_take_bit_int_eq_self)

lemma int32_width: "nt_width int32 \<noteq> 1"
  by (simp add: int32_def)

lemma spec_sums:
  assumes "items \<noteq> []" "0 < threads" "\<forall>i \<in> set items. \<forall>l. 0 \<le> i l \<and> i l < (2 :: int) ^ 31"
    and total: "(\<Sum>p < threads * length items. blocked items p) < 2 ^ 31"
    and spec: "\<forall>x < threads. aggregate x = seg (num_combine int32 ADD) (blocked items) 0 (threads * length items - 1)
      \<and> scan_spec (num_combine int32 ADD) None (Some 0) (blocked items) False (length items) out x"
  shows "sums_ok threads items out aggregate"
proof -
  let ?n = "length items" and ?N = "threads * length items"
  have n: "0 < ?n" "0 < ?N" using assms(1,2) by simp_all
  have nonneg: "0 \<le> blocked items p" for p
    using assms(3) n(1) nth_mem [of "p mod ?n" items] by (simp add: blocked_def)
  have sums: "seg (num_combine int32 ADD) (blocked items) 0 (m - 1) = (\<Sum>p < m. blocked items p)" if "0 < m" "m \<le> ?N" for m
  proof -
    have "{..m - 1} = {..<m}" using that(1) by auto
    moreover have "(\<Sum>p < m. blocked items p) \<le> (\<Sum>p < ?N. blocked items p)"
      using that(2) nonneg by (intro sum_mono2) auto
    moreover have "0 \<le> (\<Sum>p < m. blocked items p)" using nonneg by (intro sum_nonneg) simp
    ultimately show ?thesis
      using seg_sum [of int32 "m - 1" "blocked items"] nonneg total int32_width by (simp add: nt_range_def int32_small)
  qed
  have "aggregate t = (\<Sum>p < ?N. blocked items p)" if "t < threads" for t
    using spec that sums [OF n(2)] by simp
  moreover have "(out ! i) t = (\<Sum>p < t * ?n + i. blocked items p)" if ti: "t < threads" "i < ?n" for t i
  proof (cases "t * ?n + i = 0")
    case True
    then show ?thesis using spec ti by (auto simp: scan_spec_def first_value_def)
  next
    case False
    then show ?thesis
      using spec ti sums [of "t * ?n + i"] position_bound [OF ti] by (auto simp: scan_spec_def seeded_def)
  qed
  moreover have "length out = ?n" using spec assms(2) by (auto simp: scan_spec_def)
  ultimately show ?thesis by (simp add: sums_ok_def)
qed

lemma counter_neutral: "optional_identity (num_dtype int32) (Builtin ADD) None = Some 0"
  by (simp add: optional_identity_def num_identity_def)

lemma tile_list_not_Nil: "tile_list tile = Inr items \<Longrightarrow> items \<noteq> []"
  by (auto simp: tile_list_def split: tile.splits if_splits)

lemma counter_range: "\<forall>i \<in> set items. \<forall>l. 0 \<le> i l \<and> i l < (2 :: int) ^ 31 \<Longrightarrow> \<forall>i \<in> set items. \<forall>l. nt_range int32 (i l)"
  by (simp add: nt_range_def int32_small)

interpretation portable_counts: add_scan "portable_legal tg int32 w nw" "w * nw"
  "counter_scan (portable_scan_class tg int32 alg w nw) st"
proof (unfold_locales, goal_cases)
  case 1
  then show ?case by (auto simp: portable_legal_def block_geometry_def is_pow2_pos)
next
  case (2 tile items)
  note n = tile_list_not_Nil [OF 2(2)]
  obtain out aggregate where o: "block_scan (portable_scan_class tg int32 alg w nw) (Builtin ADD) st False None None None None tile
      = Inr (pack_tile tile out, aggregate)"
    "\<forall>x < w * nw. aggregate x = seg (num_combine int32 ADD) (blocked items) 0 (w * nw * length items - 1)
      \<and> scan_spec (num_combine int32 ADD) None (Some 0) (blocked items) False (length items) out x"
    using portable.block_scan_correct [where tg = tg and t = int32 and w = w and nw = nw and alg = alg and op = "Builtin ADD"
        and tile = tile and items = items and callback = None and init = None and explicit = None and st = st and inclusive = False]
      2(1,2) counter_range [OF 2(3)] int32_add counter_neutral by (auto simp: num_identity_def)
  have "0 < w * nw" using 2(1) by (auto simp: portable_legal_def block_geometry_def is_pow2_pos)
  from spec_sums [OF n this 2(3) 2(4) o(2)] show ?case
    using o(1) by (auto simp: counter_scan_def block_exclusive_with_aggregate_def)
qed

interpretation rocdl_counts: add_scan "rocdl_legal tg int32 w nw" "w * nw"
  "counter_scan (rocdl_scan_class tg int32 alg w nw) st"
proof (unfold_locales, goal_cases)
  case 1
  then show ?case by (auto simp: rocdl_legal_def block_geometry_def is_pow2_pos)
next
  case (2 tile items)
  note n = tile_list_not_Nil [OF 2(2)]
  obtain out aggregate where o: "block_scan (rocdl_scan_class tg int32 alg w nw) (Builtin ADD) st False None None None None tile
      = Inr (pack_tile tile out, aggregate)"
    "\<forall>x < w * nw. aggregate x = seg (num_combine int32 ADD) (blocked items) 0 (w * nw * length items - 1)
      \<and> scan_spec (num_combine int32 ADD) None (Some 0) (blocked items) False (length items) out x"
    using rocdl.block_scan_correct [where tg = tg and t = int32 and w = w and nw = nw and alg = alg and op = "Builtin ADD"
        and tile = tile and items = items and callback = None and init = None and explicit = None and st = st and inclusive = False]
      2(1,2) counter_range [OF 2(3)] int32_add counter_neutral by (auto simp: num_identity_def)
  have "0 < w * nw" using 2(1) by (auto simp: rocdl_legal_def block_geometry_def is_pow2_pos)
  from spec_sums [OF n this 2(3) 2(4) o(2)] show ?case
    using o(1) by (auto simp: counter_scan_def block_exclusive_with_aggregate_def)
qed

section \<open>Properties\<close>

text \<open>
  C1: \<open>BlockRadixSort\<close> on either provider of warp operations is a stable sort of the block's records
  (keys with their optional values) by the bits \<open>[begin_bit, end_bit)\<close> of the decomposed keys, or by
  their complement when descending, for every digit width, in blocked or in striped order.
\<close>

theorem radix_sort_sorts:
  assumes "(portable_legal tg int32 w nw \<and> rs_scan c = counter_scan (portable_scan_class tg int32 alg w nw) st)
      \<or> (rocdl_legal rt int32 w nw \<and> rs_scan c = counter_scan (rocdl_scan_class rt int32 alg w nw) st)"
    and "rs_threads c = w * nw" "sort_ok c decompose" "state_ok c state"
    and "bit_range width begin_bit end_bit = Inr e"
    and "case radix_bits of None \<Rightarrow> True | Some r \<Rightarrow> 1 \<le> r \<and> r < 31"
  shows "\<exists>state'. radix_sort c decompose width descending begin_bit end_bit radix_bits striped state = Inr state'
    \<and> state_ok c state' \<and> (if striped then striped_records c state' else tile_records c state')
      = sort_key (sort_value decompose descending (nat begin_bit) e) (tile_records c state)"
  using assms(1)
proof (elim disjE conjE)
  assume "portable_legal tg int32 w nw" "rs_scan c = counter_scan (portable_scan_class tg int32 alg w nw) st"
  then show ?thesis by (rule portable_counts.radix_sort_correct [OF _ assms(2) _ assms(3-6)])
next
  assume "rocdl_legal rt int32 w nw" "rs_scan c = counter_scan (rocdl_scan_class rt int32 alg w nw) st"
  then show ?thesis by (rule rocdl_counts.radix_sort_correct [OF _ assms(2) _ assms(3-6)])
qed

definition uint8_field :: field_type where
  "uint8_field = \<lparr>ft_width = 8, ft_float = False, ft_signed = False\<rparr>"

definition demo_sort :: sort_class where
  "demo_sort = \<lparr>rs_threads = 12, rs_items = 1, rs_key_width = 8, rs_value_width = 8, rs_pairs = True,
     rs_scan = counter_scan (portable_scan_class demo_target int32 RAKING 4 3) demo_storage, rs_radix_scan = False\<rparr>"

theorem radix_sort_sorts_witness:
  "\<exists>state'. radix_sort demo_sort (\<lambda>key. [(uint8_field, key)]) 8 False 0 None None False
      ([\<lambda>t. (t * 5) mod 7], Some [\<lambda>t. t mod 16], \<lambda>_. 0) = Inr state'
    \<and> take 4 (tile_records demo_sort state') = [(0, Some 0), (0, Some 7), (1, Some 3), (1, Some 10)]"
proof -
  let ?s = "([\<lambda>t. (t * 5) mod 7], Some [\<lambda>t. t mod 16], \<lambda>_. 0) :: sort_state"
  have legal: "(portable_legal demo_target int32 4 3 \<and> rs_scan demo_sort = counter_scan (portable_scan_class demo_target int32 RAKING 4 3) demo_storage)
      \<or> (rocdl_legal gfx9_target int32 4 3 \<and> rs_scan demo_sort = counter_scan (rocdl_scan_class gfx9_target int32 RAKING 4 3) demo_storage)"
    using demo_legal by (simp add: demo_sort_def)
  have ok: "sort_ok demo_sort (\<lambda>key. [(uint8_field, key)])"
    by (simp add: sort_ok_def demo_sort_def fields_ok_def ordered_bits_def uint8_field_def)
  have st: "state_ok demo_sort ?s"
  proof -
    have "t * 5 mod 7 < 256" "t mod 16 < 256" for t :: nat
      using mod_less_divisor [of 7 "t * 5"] mod_less_divisor [of 16 t] by linarith+
    then show ?thesis by (auto simp: state_ok_def demo_sort_def column_ok_def set_tile_seq)
  qed
  have e: "bit_range 8 0 None = Inr 8" by (simp add: bit_range_def)
  obtain s' where s: "radix_sort demo_sort (\<lambda>key. [(uint8_field, key)]) 8 False 0 None None False ?s = Inr s'"
    "tile_records demo_sort s' = sort_key (sort_value (\<lambda>key. [(uint8_field, key)]) False 0 8) (tile_records demo_sort ?s)"
    using radix_sort_sorts [OF legal _ ok st e, of None False False] by (auto simp: demo_sort_def)
  have "tile_records demo_sort ?s = map (\<lambda>p. (p * 5 mod 7, Some (p mod 16))) [0..<12]"
    by (simp add: tile_records_def record_at_def demo_sort_def)
  moreover have "take 4 (sort_key (sort_value (\<lambda>key. [(uint8_field, key)]) False 0 8) (map (\<lambda>p. (p * 5 mod 7, Some (p mod 16))) [0..<12]))
      = [(0, Some 0), (0, Some 7), (1, Some 3), (1, Some 10)]" by code_simp
  ultimately show ?thesis using s by simp
qed

text \<open>
  C29: the order is the order of the values: all bits sorted, a key comes before another exactly when
  its fields are lexicographically smaller, each compared as the integer or float it is; descending
  reverses it.
\<close>

theorem radix_order_is_value_order:
  assumes "raw_ok (decompose (fst r))" "raw_ok (decompose (fst s))"
    and "map fst (decompose (fst r)) = types" "map fst (decompose (fst s)) = types"
    and "e = sum_list (map ft_width types)"
  shows "(sort_value decompose False 0 e r \<le> sort_value decompose False 0 e s \<longleftrightarrow> fields_le (decompose (fst r)) (decompose (fst s)))
    \<and> (sort_value decompose True 0 e r \<le> sort_value decompose True 0 e s \<longleftrightarrow> fields_le (decompose (fst s)) (decompose (fst r)))"
proof -
  have w: "fields_width (decompose (fst r)) = e" "fields_width (decompose (fst s)) = e"
    using assms(3-5) by (simp_all add: fields_width_eq)
  have b: "composite True (decompose (fst r)) < 2 ^ e" "composite True (decompose (fst s)) < 2 ^ e"
    using composite_bound [OF raw_ok_fields [OF assms(1)]] composite_bound [OF raw_ok_fields [OF assms(2)]] w by simp_all
  have "2 ^ e - Suc x \<le> 2 ^ e - Suc y \<longleftrightarrow> y \<le> x" if "x < 2 ^ e" "y < (2 :: nat) ^ e" for x y
    using that by linarith
  then show ?thesis
    using composite_le [OF assms(1,2)] composite_le [OF assms(2,1)] assms(3,4) b
    by (simp add: sort_value_def passes_key_def digit_key_def take_bit_nat_eq_self)
qed

definition float16_field :: field_type where
  "float16_field = \<lparr>ft_width = 16, ft_float = True, ft_signed = True\<rparr>"

theorem radix_order_is_value_order_witness:
  "sort_value (\<lambda>key. [(float16_field, key)]) False 0 16 (49152, None) \<le> sort_value (\<lambda>key. [(float16_field, key)]) False 0 16 (15360, None)
    \<and> order_value float16_field 49152 = - 16384 \<and> order_value float16_field 15360 = 15360"
proof -
  have ok: "raw_ok [(float16_field, 49152)]" "raw_ok [(float16_field, 15360)]"
    by (simp_all add: raw_ok_def field_ok_def float16_field_def)
  have v: "order_value float16_field 49152 = - 16384" "order_value float16_field 15360 = 15360"
    by (simp_all add: order_value_def float16_field_def take_bit_eq_mod bit_iff_odd)
  have w: "ft_width float16_field = 16" by (simp add: float16_field_def)
  have "sort_value (\<lambda>key. [(float16_field, key)]) False 0 16 (49152, None) \<le> sort_value (\<lambda>key. [(float16_field, key)]) False 0 16 (15360, None)"
    by (rule iffD2 [OF conjunct1 [OF radix_order_is_value_order [where types = "[float16_field]"]]]) (simp_all add: ok v w)
  then show ?thesis using v by blast
qed

text \<open>
  A digit is the slice of the written-out key and fits its number of bits, so that ranking has a
  counter for every digit.
\<close>

theorem digit_is_slice:
  assumes "raw_ok fs"
  shows "digit fs begin bits True = take_bit bits (drop_bit begin (composite True fs)) \<and> digit fs begin bits True < 2 ^ bits"
  using raw_ok_fields [OF assms] by (simp add: digit_eq)

theorem digit_is_slice_witness:
  "digit [(uint8_field, 165), (float16_field, 15360)] 12 8 True = 91 \<and> digit [(uint8_field, 165), (float16_field, 15360)] 12 8 True < 2 ^ 8"
proof -
  have ok: "raw_ok [(uint8_field, 165), (float16_field, 15360)]"
    by (simp add: raw_ok_def field_ok_def uint8_field_def float16_field_def)
  have "take_bit 8 (drop_bit 12 (composite True [(uint8_field, 165), (float16_field, 15360)])) = 91"
    by (simp add: ordered_bits_def uint8_field_def float16_field_def take_bit_eq_mod drop_bit_eq_div push_bit_eq_mult)
  then show ?thesis using digit_is_slice [OF ok, of 12 8] by simp
qed

text \<open>
  A class that is not specialized, a wrong number of keys, values of another shape than the keys,
  values without a value type, a bit range outside the key, and a digit width that is not positive or
  does not fit the signed counters are rejected with the errors the code raises, before any thread
  writes.
\<close>

theorem radix_sort_rejects:
  "radix_sort_call None decompose width descending b e r striped keys vals storage = Inl TypeError
    \<and> (length (as_items keys) \<noteq> rs_items c \<longrightarrow>
        radix_sort_call (Some c) decompose width descending b e r striped keys vals storage = Inl ValueError)
    \<and> (length (as_items keys) = rs_items c \<and> (length (as_items vs) \<noteq> rs_items c \<or> is_items vs \<noteq> is_items keys) \<longrightarrow>
        radix_sort_call (Some c) decompose width descending b e r striped keys (Some vs) storage = Inl ValueError)
    \<and> (length (as_items keys) = rs_items c \<and> length (as_items vs) = rs_items c \<and> is_items vs = is_items keys \<and> \<not> rs_pairs c \<longrightarrow>
        radix_sort_call (Some c) decompose width descending b e r striped keys (Some vs) storage = Inl TypeError)
    \<and> (length (as_items keys) = rs_items c \<and> (\<not> (0 \<le> b \<and> b \<le> (case e of None \<Rightarrow> int width | Some e \<Rightarrow> e) \<and> (case e of None \<Rightarrow> int width | Some e \<Rightarrow> e) \<le> int width)
          \<or> (case r of None \<Rightarrow> False | Some r \<Rightarrow> r < 1 \<or> 31 \<le> r)) \<longrightarrow>
        radix_sort_call (Some c) decompose width descending b e r striped keys None storage = Inl ValueError)"
proof (intro conjI impI, goal_cases)
  case 5
  then have "radix_sort c decompose width descending b e r striped (as_items keys, None, storage) = Inl ValueError"
    by (auto simp: radix_sort_def bit_range_def Let_def guard_def split: option.splits)
  then show ?case using 5 by (simp add: radix_sort_call_def sort_unpack_def)
qed (auto simp: radix_sort_call_def sort_unpack_def guard_def)

theorem radix_sort_rejects_witness:
  "radix_sort_call (Some demo_sort) (\<lambda>key. [(uint8_field, key)]) 8 False 3 (Some 2) (Some 4) False (Item (\<lambda>_. 7)) None (\<lambda>_. 0)
    = Inl ValueError"
  using radix_sort_rejects [where c = demo_sort and keys = "Item (\<lambda>_. 7)" and b = 3 and e = "Some 2"] by (simp add: demo_sort_def)

end
