(* ===== verification/Block_Shuffle.thy ===== *)
theory Block_Shuffle
  imports Coop_Shared Coop_Spec Block_Tiles
begin

text \<open>
  Moving elements between neighboring threads (\<open>coop/block/shuffle.py\<close>) and what is built on it:
  marking discontinuities (\<open>coop/block/discontinuity.py\<close>) and adjacent differences
  (\<open>coop/block/adjacent_difference.py\<close>). Everything is stated on the block's items in blocked order.
\<close>

section \<open>Definitions\<close>

subsection \<open>Shuffles\<close>

record 'a shuffle_storage =
  sh_first :: "'a shared"
  sh_last :: "'a shared"

text \<open>\<open>_publish\<close>: every thread stores its first and its last item, then the barrier.\<close>

definition publish_ends :: "nat \<Rightarrow> 'a lanes \<Rightarrow> 'a lanes \<Rightarrow> 'a shuffle_storage \<Rightarrow> 'a shuffle_storage" where
  "publish_ends threads first final st =
     \<lparr>sh_first = barrier_phase threads (store_if (\<lambda>_. True) (\<lambda>t. t) first) (sh_first st),
      sh_last = barrier_phase threads (store_if (\<lambda>_. True) (\<lambda>t. t) final) (sh_last st)\<rparr>"

text \<open>The published items and, for each thread, the last item of the thread before it and the first of the one after.\<close>

record 'a neighbors_result =
  nb_items :: "'a lanes list"
  nb_left :: "'a lanes"
  nb_right :: "'a lanes"
  nb_storage :: "'a shuffle_storage"

definition neighbors :: "nat \<Rightarrow> 'a lanes tile \<Rightarrow> 'a shuffle_storage \<Rightarrow> 'a neighbors_result res" where
  "neighbors threads tile st =
     rbind (tile_list tile) (\<lambda>items.
       let st = publish_ends threads (hd items) (last items) st in
       Inr \<lparr>nb_items = items,
            nb_left = (\<lambda>t. shared_load (sh_last st) ((t + threads - 1) mod threads)),
            nb_right = (\<lambda>t. shared_load (sh_first st) ((t + 1) mod threads)),
            nb_storage = st\<rparr>)"

definition only_element :: "'a tile \<Rightarrow> 'a res" where
  "only_element tile = (case tile of Item v \<Rightarrow> Inr v | Items _ \<Rightarrow> Inl TypeError)"

definition block_offset ::
  "nat \<Rightarrow> 'a lanes tile \<Rightarrow> int lanes \<Rightarrow> 'a option \<Rightarrow> 'a shuffle_storage \<Rightarrow> 'a lanes res" where
  "block_offset threads tile distance fill st =
     rbind (only_element tile) (\<lambda>v.
       let st = publish_ends threads v v st;
           source = (\<lambda>t. i32 (int t + distance t));
           valid = (\<lambda>t. 0 \<le> source t \<and> source t < int threads);
           moved = (\<lambda>t. shared_load (sh_first st) (nat (if valid t then source t else int t)))
       in Inr (select_value valid moved (\<lambda>t. case fill of None \<Rightarrow> v t | Some f \<Rightarrow> f)))"

definition block_rotate :: "nat \<Rightarrow> 'a lanes tile \<Rightarrow> count lanes \<Rightarrow> 'a shuffle_storage \<Rightarrow> 'a lanes res" where
  "block_rotate threads tile distance st =
     rbind (only_element tile) (\<lambda>v.
       let st = publish_ends threads v v st;
           shift = (\<lambda>t. (i32 (count_mod (distance t) (int threads) + int threads)) mod int threads);
           source = (\<lambda>t. i32 (int t + shift t) mod int threads)
       in Inr (\<lambda>t. shared_load (sh_first st) (nat (source t))))"

definition block_up ::
  "nat \<Rightarrow> 'a lanes tile \<Rightarrow> 'a option \<Rightarrow> 'a shuffle_storage \<Rightarrow> ('a lanes tile \<times> 'a) res" where
  "block_up threads tile predecessor st =
     rbind (neighbors threads tile st) (\<lambda>nb.
       let items = nb_items nb;
           boundary = (case predecessor of None \<Rightarrow> hd items | Some p \<Rightarrow> (\<lambda>_. p));
           result = select_value (\<lambda>t. t = 0) boundary (nb_left nb) # butlast items
       in Inr (pack_tile tile result, shared_load (sh_last (nb_storage nb)) (threads - 1)))"

definition block_down ::
  "nat \<Rightarrow> 'a lanes tile \<Rightarrow> 'a option \<Rightarrow> 'a shuffle_storage \<Rightarrow> ('a lanes tile \<times> 'a) res" where
  "block_down threads tile successor st =
     rbind (neighbors threads tile st) (\<lambda>nb.
       let items = nb_items nb;
           boundary = (case successor of None \<Rightarrow> last items | Some p \<Rightarrow> (\<lambda>_. p));
           result = tl items @ [select_value (\<lambda>t. t = threads - 1) boundary (nb_right nb)]
       in Inr (pack_tile tile result, shared_load (sh_first (nb_storage nb)) 0))"

subsection \<open>Discontinuities\<close>

text \<open>
  \<open>_indexed\<close> finds out whether the predicate also takes the index of the right element; \<open>_apply\<close>
  calls it and converts the result.
\<close>

datatype 'a flag_op = Plain "'a \<Rightarrow> 'a \<Rightarrow> int" | Indexed "'a \<Rightarrow> 'a \<Rightarrow> int \<Rightarrow> int"

definition apply_flag :: "'a flag_op \<Rightarrow> 'a \<Rightarrow> 'a \<Rightarrow> nat \<Rightarrow> int" where
  "apply_flag op left right index = (case op of Plain f \<Rightarrow> f left right | Indexed f \<Rightarrow> f left right (int index))"

definition apply_boundary :: "bool \<Rightarrow> 'a flag_op \<Rightarrow> 'a \<Rightarrow> 'a \<Rightarrow> nat \<Rightarrow> int" where
  "apply_boundary active op left right index = (if active then apply_flag op left right index else 1)"

definition different :: "'a flag_op" where
  "different = Plain (\<lambda>left right. if left \<noteq> right then 1 else 0)"

definition head_flags :: "nat \<Rightarrow> 'a flag_op \<Rightarrow> 'a option \<Rightarrow> 'a lanes list \<Rightarrow> 'a lanes \<Rightarrow> int lanes list" where
  "head_flags threads op predecessor items left =
     (\<lambda>t. case predecessor of
            None \<Rightarrow> apply_boundary (t > 0) op (left t) (hd items t) (t * length items)
          | Some _ \<Rightarrow> apply_flag op (left t) (hd items t) (t * length items))
     # map (\<lambda>i t. apply_flag op ((items ! (i - 1)) t) ((items ! i) t) (t * length items + i)) [1..<length items]"

definition tail_flags :: "nat \<Rightarrow> 'a flag_op \<Rightarrow> 'a option \<Rightarrow> 'a lanes list \<Rightarrow> 'a lanes \<Rightarrow> int lanes list" where
  "tail_flags threads op successor items right =
     map (\<lambda>i t. apply_flag op ((items ! i) t) ((items ! (i + 1)) t) (t * length items + i + 1)) [0..<length items - 1]
     @ [\<lambda>t. case successor of
            None \<Rightarrow> apply_boundary (t < threads - 1) op (last items t) (right t) ((t + 1) * length items)
          | Some _ \<Rightarrow> apply_flag op (last items t) (right t) ((t + 1) * length items)]"

definition discontinuity_flags ::
  "nat \<Rightarrow> 'a lanes tile \<Rightarrow> 'a flag_op \<Rightarrow> 'a option \<Rightarrow> 'a option \<Rightarrow> 'a shuffle_storage
     \<Rightarrow> (int lanes tile \<times> int lanes tile \<times> 'a lanes tile) res" where
  "discontinuity_flags threads tile op predecessor successor st =
     rbind (neighbors threads tile st) (\<lambda>nb.
       let items = nb_items nb;
           left = (case predecessor of None \<Rightarrow> nb_left nb | Some p \<Rightarrow> select_value (\<lambda>t. t = 0) (\<lambda>_. p) (nb_left nb));
           right = (case successor of None \<Rightarrow> nb_right nb
             | Some s \<Rightarrow> select_value (\<lambda>t. t = threads - 1) (\<lambda>_. s) (nb_right nb))
       in Inr (pack_tile tile (head_flags threads op predecessor items left),
               pack_tile tile (tail_flags threads op successor items right),
               pack_tile tile (left # butlast items)))"

definition flag_heads ::
  "nat \<Rightarrow> 'a lanes tile \<Rightarrow> 'a flag_op \<Rightarrow> 'a option \<Rightarrow> 'a shuffle_storage \<Rightarrow> (int lanes tile \<times> 'a lanes tile) res" where
  "flag_heads threads tile op predecessor st =
     rbind (discontinuity_flags threads tile op predecessor None st) (\<lambda>(heads, _, predecessors). Inr (heads, predecessors))"

definition flag_tails ::
  "nat \<Rightarrow> 'a lanes tile \<Rightarrow> 'a flag_op \<Rightarrow> 'a option \<Rightarrow> 'a shuffle_storage \<Rightarrow> int lanes tile res" where
  "flag_tails threads tile op successor st =
     rbind (discontinuity_flags threads tile op None successor st) (\<lambda>(_, tails, _). Inr tails)"

definition flag_heads_and_tails ::
  "nat \<Rightarrow> 'a lanes tile \<Rightarrow> 'a flag_op \<Rightarrow> 'a option \<Rightarrow> 'a option \<Rightarrow> 'a shuffle_storage
     \<Rightarrow> (int lanes tile \<times> int lanes tile \<times> 'a lanes tile) res" where
  "flag_heads_and_tails threads tile op predecessor successor st =
     discontinuity_flags threads tile op predecessor successor st"

subsection \<open>Adjacent differences\<close>

text \<open>\<open>_apply_if\<close>: \<open>cast\<close> converts an element to the output type.\<close>

definition apply_if :: "('a \<Rightarrow> 'b) \<Rightarrow> bool \<Rightarrow> ('a \<Rightarrow> 'a \<Rightarrow> 'b) \<Rightarrow> 'a \<Rightarrow> 'a \<Rightarrow> 'b" where
  "apply_if cast active op current neighbor = (if active then op current neighbor else cast current)"

definition subtract_left ::
  "nat \<Rightarrow> 'a lanes tile \<Rightarrow> ('a \<Rightarrow> 'b) \<Rightarrow> ('a \<Rightarrow> 'a \<Rightarrow> 'b) \<Rightarrow> 'a option \<Rightarrow> count option \<Rightarrow> 'a shuffle_storage
     \<Rightarrow> 'b lanes tile res" where
  "subtract_left threads tile cast op predecessor valid_items st =
     rbind (neighbors threads tile st) (\<lambda>nb.
       let items = nb_items nb; n = length items in
       rbind (validate_valid_items valid_items (threads * n)) (\<lambda>_.
         let limit = (case valid_items of None \<Rightarrow> int (threads * n) | Some v \<Rightarrow> count_value v);
             left = (case predecessor of None \<Rightarrow> nb_left nb | Some p \<Rightarrow> select_value (\<lambda>t. t = 0) (\<lambda>_. p) (nb_left nb));
             out = map (\<lambda>i t. apply_if cast
                 (int (t * n + i) < limit \<and> (predecessor = None \<longrightarrow> t * n + i > 0)) op
                 ((items ! i) t) (if i = 0 then left t else (items ! (i - 1)) t)) [0..<n]
         in Inr (pack_tile tile out)))"

definition subtract_right ::
  "nat \<Rightarrow> 'a lanes tile \<Rightarrow> ('a \<Rightarrow> 'b) \<Rightarrow> ('a \<Rightarrow> 'a \<Rightarrow> 'b) \<Rightarrow> 'a option \<Rightarrow> count option \<Rightarrow> 'a shuffle_storage
     \<Rightarrow> 'b lanes tile res" where
  "subtract_right threads tile cast op successor valid_items st =
     rbind (neighbors threads tile st) (\<lambda>nb.
       let items = nb_items nb; n = length items in
       rbind (validate_valid_items valid_items (threads * n)) (\<lambda>_.
         let limit = (case valid_items of None \<Rightarrow> int (threads * n) | Some v \<Rightarrow> count_value v);
             out = map (\<lambda>i t.
                 let index = int (t * n + i);
                     neighbor = (if i = n - 1 then nb_right nb t else (items ! (i + 1)) t);
                     neighbor = (case successor of None \<Rightarrow> neighbor | Some s \<Rightarrow> if index = limit - 1 then s else neighbor);
                     active = (case successor of None \<Rightarrow> index + 1 < limit | Some _ \<Rightarrow> index < limit)
                 in apply_if cast active op ((items ! i) t) neighbor) [0..<n]
         in Inr (pack_tile tile out)))"

definition subtract_left_partial_tile ::
  "nat \<Rightarrow> 'a lanes tile \<Rightarrow> count \<Rightarrow> ('a \<Rightarrow> 'b) \<Rightarrow> ('a \<Rightarrow> 'a \<Rightarrow> 'b) \<Rightarrow> 'a option \<Rightarrow> 'a shuffle_storage \<Rightarrow> 'b lanes tile res" where
  "subtract_left_partial_tile threads tile valid_items cast op predecessor st =
     subtract_left threads tile cast op predecessor (Some valid_items) st"

definition subtract_right_partial_tile ::
  "nat \<Rightarrow> 'a lanes tile \<Rightarrow> count \<Rightarrow> ('a \<Rightarrow> 'b) \<Rightarrow> ('a \<Rightarrow> 'a \<Rightarrow> 'b) \<Rightarrow> 'a option \<Rightarrow> 'a shuffle_storage \<Rightarrow> 'b lanes tile res" where
  "subtract_right_partial_tile threads tile valid_items cast op successor st =
     subtract_right threads tile cast op successor (Some valid_items) st"

section \<open>Neighbors\<close>

lemma publish_ends_load:
  assumes "t < threads"
  shows "sh_first (publish_ends threads first final st) t = first t" "sh_last (publish_ends threads first final st) t = final t"
  using assms by (simp_all add: publish_ends_def store_all)

text \<open>A tile that holds \<open>f p\<close> at every position \<open>p\<close> of the block.\<close>

definition tile_is :: "nat \<Rightarrow> nat \<Rightarrow> 'a lanes list \<Rightarrow> (nat \<Rightarrow> 'a) \<Rightarrow> bool" where
  "tile_is threads n out f \<longleftrightarrow> length out = n \<and> (\<forall>p < threads * n. blocked out p = f p)"

lemma tile_isI:
  assumes "length out = n" "\<And>t i. t < threads \<Longrightarrow> i < n \<Longrightarrow> (out ! i) t = f (t * n + i)"
  shows "tile_is threads n out f"
  unfolding tile_is_def
proof (intro conjI allI impI)
  fix p assume "p < threads * n"
  from position_cases [OF this] assms(2) show "blocked out p = f p"
    unfolding blocked_def assms(1) by metis
qed (rule assms(1))

lemma first_of_thread: "items \<noteq> [] \<Longrightarrow> hd items t = blocked items (t * length items)"
  using blocked_nth [of 0 items t] by (simp add: hd_conv_nth)

lemma last_before:
  assumes "items \<noteq> []" "0 < t"
  shows "last items (t - 1) = blocked items (t * length items - 1)"
proof -
  obtain s where s: "t = Suc s" using assms(2) by (cases t) simp_all
  obtain m where m: "length items = Suc m" using assms(1) by (cases items) simp_all
  then have n: "0 < length items" by simp
  have "t * length items - 1 = s * length items + (length items - 1)" by (simp add: s m)
  then show ?thesis using blocked_nth [of "length items - 1" items s] n s assms(1) by (simp add: last_conv_nth)
qed

lemma neighbors_correct:
  assumes "0 < threads" "tile_list tile = Inr items"
  obtains nb where "neighbors threads tile st = Inr nb" "nb_items nb = items" "items \<noteq> []"
    "\<And>t. 0 < t \<Longrightarrow> t < threads \<Longrightarrow> nb_left nb t = blocked items (t * length items - 1)"
    "\<And>t. t + 1 < threads \<Longrightarrow> nb_right nb t = blocked items ((t + 1) * length items)"
    "sh_last (nb_storage nb) (threads - 1) = blocked items (threads * length items - 1)"
    "sh_first (nb_storage nb) 0 = blocked items 0"
proof -
  have ne: "items \<noteq> []" using assms(2) by (auto simp: tile_list_def split: tile.splits if_splits)
  let ?st = "publish_ends threads (hd items) (last items) st"
  let ?nb = "\<lparr>nb_items = items, nb_left = (\<lambda>t. shared_load (sh_last ?st) ((t + threads - 1) mod threads)),
      nb_right = (\<lambda>t. shared_load (sh_first ?st) ((t + 1) mod threads)), nb_storage = ?st\<rparr>"
  have l: "nb_left ?nb t = blocked items (t * length items - 1)" if "0 < t" "t < threads" for t
  proof -
    have "(t + threads - 1) mod threads = t - 1"
      using that by (metis Nat.add_diff_assoc2 One_nat_def Suc_leI less_imp_diff_less mod_add_self2 mod_less)
    then show ?thesis using that last_before [OF ne that(1)] by (simp add: shared_load_def publish_ends_load)
  qed
  have r: "nb_right ?nb t = blocked items ((t + 1) * length items)" if "t + 1 < threads" for t
    using that first_of_thread [OF ne, of "t + 1"] by (simp add: shared_load_def publish_ends_load)
  show ?thesis
  proof (rule that [of ?nb])
    show "neighbors threads tile st = Inr ?nb" by (simp add: neighbors_def assms(2) Let_def)
    show "sh_last (nb_storage ?nb) (threads - 1) = blocked items (threads * length items - 1)"
      using assms(1) last_before [OF ne assms(1)] by (simp add: publish_ends_load)
    show "sh_first (nb_storage ?nb) 0 = blocked items 0"
      using assms(1) first_of_thread [OF ne, of 0] by (simp add: publish_ends_load)
  qed (use ne l r in simp_all)
qed

section \<open>Shuffles\<close>

lemma block_offset_correct:
  assumes "t < threads" "threads < 2 ^ 31" "- (2 ^ 31) \<le> distance t" "distance t < 2 ^ 31"
  shows "\<exists>out. block_offset threads (Item v) distance fill st = Inr out
    \<and> out t = (if 0 \<le> int t + distance t \<and> int t + distance t < int threads then v (nat (int t + distance t))
        else case fill of None \<Rightarrow> v t | Some f \<Rightarrow> f)"
proof -
  have valid: "0 \<le> i32 (int t + distance t) \<and> i32 (int t + distance t) < int threads
      \<longleftrightarrow> 0 \<le> int t + distance t \<and> int t + distance t < int threads"
    "0 \<le> int t + distance t \<and> int t + distance t < int threads \<Longrightarrow> i32 (int t + distance t) = int t + distance t"
  proof -
    have th: "int threads < 2 ^ 31" "int t < int threads" using assms by simp_all
    show e: "i32 (int t + distance t) = int t + distance t" if "0 \<le> int t + distance t \<and> int t + distance t < int threads"
      using that th by (intro signed_small) linarith+
    show "0 \<le> i32 (int t + distance t) \<and> i32 (int t + distance t) < int threads
      \<longleftrightarrow> 0 \<le> int t + distance t \<and> int t + distance t < int threads"
    proof (cases "int t + distance t < 2 ^ 31")
      case True
      then have "i32 (int t + distance t) = int t + distance t" using assms(3) by (intro signed_small) linarith+
      then show ?thesis by (simp only:)
    next
      case False
      then have "i32 (int t + distance t) = int t + distance t - 2 ^ 32" using th assms(4) by (intro i32_wrap) simp_all
      then have "i32 (int t + distance t) < 0" using th assms(4) by simp
      moreover have "int threads \<le> int t + distance t" using False th by linarith
      ultimately show ?thesis by linarith
    qed
  qed
  show ?thesis
    using valid assms(1)
    by (auto simp: block_offset_def only_element_def Let_def select_value_def shared_load_def publish_ends_load)
qed

lemma block_rotate_correct:
  assumes "t < threads" "threads < 2 ^ 30"
  shows "\<exists>out. block_rotate threads (Item v) distance st = Inr out
    \<and> out t = v (nat ((int t + count_value (distance t)) mod int threads))"
proof -
  let ?n = "int threads" and ?d = "distance t"
  have n: "0 < ?n" "2 * ?n < 2 ^ 31" using assms by simp_all
  have b: "- ?n < count_mod ?d ?n" "count_mod ?d ?n < ?n" using count_mod_bound [OF n(1)] by blast+
  have "i32 (count_mod ?d ?n + ?n) = count_mod ?d ?n + ?n"
    using b n by (intro signed_small) linarith+
  moreover have "(count_mod ?d ?n + ?n) mod ?n = count_value ?d mod ?n"
    using count_mod_cong [OF n(1), of ?d 0] by simp
  ultimately have s: "i32 (count_mod ?d ?n + ?n) mod ?n = count_value ?d mod ?n" by simp
  have m: "0 \<le> count_value ?d mod ?n" "count_value ?d mod ?n < ?n" using n(1) by simp_all
  have "i32 (int t + count_value ?d mod ?n) = int t + count_value ?d mod ?n"
    using m n assms(1) by (intro signed_small) linarith+
  then have "i32 (int t + (i32 (count_mod ?d ?n + ?n) mod ?n)) mod ?n = (int t + count_value ?d) mod ?n"
    unfolding s by (simp add: mod_simps)
  moreover have "nat ((int t + count_value ?d) mod ?n) < threads" using n(1) by (simp add: nat_less_iff)
  ultimately show ?thesis
    by (simp add: block_rotate_def only_element_def Let_def shared_load_def publish_ends_load)
qed

lemma block_up_correct:
  assumes "0 < threads" "tile_list tile = Inr items"
  shows "\<exists>out suffix. block_up threads tile predecessor st = Inr (pack_tile tile out, suffix)
    \<and> tile_is threads (length items) out (\<lambda>p. if p = 0
        then (case predecessor of None \<Rightarrow> blocked items 0 | Some x \<Rightarrow> x) else blocked items (p - 1))
    \<and> suffix = blocked items (threads * length items - 1)"
proof -
  obtain nb where nb: "neighbors threads tile st = Inr nb" "nb_items nb = items" and ne: "items \<noteq> []"
    and left: "\<And>t. 0 < t \<Longrightarrow> t < threads \<Longrightarrow> nb_left nb t = blocked items (t * length items - 1)"
    and suf: "sh_last (nb_storage nb) (threads - 1) = blocked items (threads * length items - 1)"
    using neighbors_correct [OF assms] by metis
  let ?out = "select_value (\<lambda>t. t = 0) (case predecessor of None \<Rightarrow> hd items | Some p \<Rightarrow> (\<lambda>_. p)) (nb_left nb) # butlast items"
  have "tile_is threads (length items) ?out (\<lambda>p. if p = 0
        then (case predecessor of None \<Rightarrow> blocked items 0 | Some x \<Rightarrow> x) else blocked items (p - 1))"
  proof (rule tile_isI)
    show "length ?out = length items" using ne by simp
    fix t i assume ti: "t < threads" "i < length items"
    show "(?out ! i) t = (if t * length items + i = 0
        then (case predecessor of None \<Rightarrow> blocked items 0 | Some x \<Rightarrow> x) else blocked items (t * length items + i - 1))"
    proof (cases i)
      case 0
      then show ?thesis
        using ti left first_of_thread [OF ne, of 0] ne by (cases predecessor) (auto simp: select_value_def)
    next
      case (Suc j)
      then show ?thesis using ti blocked_nth [of j items t] by (simp add: nth_butlast)
    qed
  qed
  moreover have "block_up threads tile predecessor st = Inr (pack_tile tile ?out, blocked items (threads * length items - 1))"
    unfolding block_up_def nb(1) rbind_simps Let_def nb(2) shared_load_def suf ..
  ultimately show ?thesis by blast
qed

lemma block_down_correct:
  assumes "0 < threads" "tile_list tile = Inr items"
  shows "\<exists>out prefix. block_down threads tile successor st = Inr (pack_tile tile out, prefix)
    \<and> tile_is threads (length items) out (\<lambda>p. if p = threads * length items - 1
        then (case successor of None \<Rightarrow> blocked items p | Some x \<Rightarrow> x) else blocked items (p + 1))
    \<and> prefix = blocked items 0"
proof -
  obtain nb where nb: "neighbors threads tile st = Inr nb" "nb_items nb = items" and ne: "items \<noteq> []"
    and right: "\<And>t. t + 1 < threads \<Longrightarrow> nb_right nb t = blocked items ((t + 1) * length items)"
    and pre: "sh_first (nb_storage nb) 0 = blocked items 0"
    using neighbors_correct [OF assms] by metis
  let ?n = "length items"
  let ?out = "tl items @ [select_value (\<lambda>t. t = threads - 1) (case successor of None \<Rightarrow> last items | Some p \<Rightarrow> (\<lambda>_. p)) (nb_right nb)]"
  have "tile_is threads ?n ?out (\<lambda>p. if p = threads * ?n - 1
        then (case successor of None \<Rightarrow> blocked items p | Some x \<Rightarrow> x) else blocked items (p + 1))"
  proof (rule tile_isI)
    show "length ?out = ?n" using ne by simp
    fix t i assume ti: "t < threads" "i < ?n"
    have end_iff: "t * ?n + i = threads * ?n - 1 \<longleftrightarrow> t = threads - 1 \<and> i = ?n - 1"
    proof
      assume e: "t * ?n + i = threads * ?n - 1"
      have "threads * ?n - 1 = (threads - 1) * ?n + (?n - 1)" using assms(1) ne by (cases threads; cases items) simp_all
      then have "t * ?n + i = (threads - 1) * ?n + (?n - 1)" using e by simp
      then show "t = threads - 1 \<and> i = ?n - 1"
        using group_split [of i ?n t] group_split [of "?n - 1" ?n "threads - 1"] ti(2) by (metis diff_less length_greater_0_conv ne zero_less_one)
    qed (use assms(1) ne in \<open>cases threads; cases items; simp\<close>)
    show "(?out ! i) t = (if t * ?n + i = threads * ?n - 1
        then (case successor of None \<Rightarrow> blocked items (t * ?n + i) | Some x \<Rightarrow> x) else blocked items (t * ?n + i + 1))"
    proof (cases "i = ?n - 1")
      case True
      have l: "last items t = blocked items (t * ?n + i)" using blocked_nth [OF ti(2), of t] ne True by (simp add: last_conv_nth)
      have o: "?out ! i = select_value (\<lambda>t. t = threads - 1) (case successor of None \<Rightarrow> last items | Some p \<Rightarrow> (\<lambda>_. p)) (nb_right nb)"
        using True by (simp add: nth_append)
      have nx: "t * ?n + i + 1 = (t + 1) * ?n" using True ne by (cases items) simp_all
      show ?thesis
        unfolding o end_iff nx using True l right [of t] ti by (cases successor) (auto simp: select_value_def)
    next
      case False
      then have "i < length (tl items)" using ti by simp
      then have "(?out ! i) t = (items ! (i + 1)) t" using False ti by (simp add: nth_append nth_tl)
      then show ?thesis unfolding end_iff using False ti blocked_nth [of "i + 1" items t] by simp
    qed
  qed
  moreover have "block_down threads tile successor st = Inr (pack_tile tile ?out, blocked items 0)"
    unfolding block_down_def nb(1) rbind_simps Let_def nb(2) shared_load_def pre ..
  ultimately show ?thesis by blast
qed
section \<open>Discontinuities and differences\<close>

text \<open>The neighbors with the boundary elements in place.\<close>

lemma left_of_item:
  assumes "items \<noteq> []" "\<And>t. 0 < t \<Longrightarrow> t < threads \<Longrightarrow> left t = blocked items (t * length items - 1)"
    and "t < threads" "i < length items" "0 < t * length items + i"
  shows "(if i = 0 then left t else (items ! (i - 1)) t) = blocked items (t * length items + i - 1)"
proof (cases i)
  case 0
  then show ?thesis using assms by simp
next
  case (Suc j)
  then show ?thesis using assms(4) blocked_nth [of j items t] by simp
qed

lemma right_of_item:
  assumes "items \<noteq> []" "\<And>t. t + 1 < threads \<Longrightarrow> right t = blocked items ((t + 1) * length items)"
    and "t < threads" "i < length items" "t * length items + i + 1 < threads * length items"
  shows "(if i = length items - 1 then right t else (items ! (i + 1)) t) = blocked items (t * length items + i + 1)"
proof (cases "i = length items - 1")
  case True
  then have e: "t * length items + i + 1 = (t + 1) * length items" using assms(1) by (cases items) simp_all
  then have "t + 1 < threads" using assms(5) by (metis mult_less_cancel2)
  then show ?thesis using True assms(2) unfolding e by simp
next
  case False
  then have "i + 1 < length items" using assms(4) by simp
  then show ?thesis using False blocked_nth [of "i + 1" items t] by simp
qed

lemma last_position:
  assumes "0 < threads" "items \<noteq> []" "i < length items"
  shows "t * length items + i = threads * length items - 1 \<longleftrightarrow> t = threads - 1 \<and> i = length items - 1"
proof
  obtain s m where s: "threads = Suc s" "length items = Suc m" using assms(1,2) by (cases threads; cases items) auto
  assume "t * length items + i = threads * length items - 1"
  then have "t * Suc m + i = s * Suc m + m" using s by simp
  moreover have "(t * Suc m + i) div Suc m = t" "(s * Suc m + m) div Suc m = s"
    using group_split(1) [of i "Suc m" t] group_split(1) [of m "Suc m" s] assms(3) s by simp_all
  ultimately have "t = s" by (simp only:)
  then show "t = threads - 1 \<and> i = length items - 1" using \<open>t * Suc m + i = s * Suc m + m\<close> s by simp
next
  assume "t = threads - 1 \<and> i = length items - 1"
  then show "t * length items + i = threads * length items - 1" using assms(1,2) by (cases threads; cases items) simp_all
qed

lemma head_flags_correct:
  assumes "items \<noteq> []" "\<And>t. 0 < t \<Longrightarrow> t < threads \<Longrightarrow> left t = blocked items (t * length items - 1)"
    and "\<And>x. predecessor = Some x \<Longrightarrow> left 0 = x"
  shows "tile_is threads (length items) (head_flags threads op predecessor items left) (\<lambda>p.
    if p = 0 then (case predecessor of None \<Rightarrow> 1 | Some x \<Rightarrow> apply_flag op x (blocked items 0) 0)
    else apply_flag op (blocked items (p - 1)) (blocked items p) p)"
proof (rule tile_isI)
  have "0 < length items" using assms(1) by simp
  then show "length (head_flags threads op predecessor items left) = length items"
    unfolding head_flags_def list.size length_map by simp
  fix t i assume ti: "t < threads" "i < length items"
  note l = left_of_item [where left = left, OF assms(1,2) ti]
  have h: "hd items t = blocked items (t * length items)" by (rule first_of_thread [OF assms(1)])
  show "(head_flags threads op predecessor items left ! i) t = (if t * length items + i = 0
      then (case predecessor of None \<Rightarrow> 1 | Some x \<Rightarrow> apply_flag op x (blocked items 0) 0)
      else apply_flag op (blocked items (t * length items + i - 1)) (blocked items (t * length items + i)) (t * length items + i))"
  proof (cases i)
    case 0
    then show ?thesis
      using l h assms(1,3) by (cases predecessor; cases "t = 0") (auto simp: head_flags_def apply_boundary_def)
  next
    case (Suc j)
    then have "(head_flags threads op predecessor items left ! i) t
        = apply_flag op ((items ! j) t) ((items ! i) t) (t * length items + i)"
      using ti(2) by (simp add: head_flags_def)
    then show ?thesis using Suc l blocked_nth [OF ti(2), of t] by simp
  qed
qed

lemma tail_flags_correct:
  assumes "0 < threads" "items \<noteq> []" "\<And>t. t + 1 < threads \<Longrightarrow> right t = blocked items ((t + 1) * length items)"
    and "\<And>x. successor = Some x \<Longrightarrow> right (threads - 1) = x"
  shows "tile_is threads (length items) (tail_flags threads op successor items right) (\<lambda>p.
    if p = threads * length items - 1
    then (case successor of None \<Rightarrow> 1 | Some x \<Rightarrow> apply_flag op (blocked items p) x (p + 1))
    else apply_flag op (blocked items p) (blocked items (p + 1)) (p + 1))"
proof (rule tile_isI)
  let ?n = "length items"
  have "0 < ?n" using assms(2) by simp
  then show "length (tail_flags threads op successor items right) = ?n"
    unfolding tail_flags_def length_append length_map by simp
  fix t i assume ti: "t < threads" "i < ?n"
  note lp = last_position [OF assms(1,2) ti(2), of t]
  have u: "(items ! i) t = blocked items (t * ?n + i)" using blocked_nth [OF ti(2), of t] by simp
  have pn: "t * ?n + i < threads * ?n" by (rule position_bound [OF ti])
  show "(tail_flags threads op successor items right ! i) t = (if t * ?n + i = threads * ?n - 1
    then (case successor of None \<Rightarrow> 1 | Some x \<Rightarrow> apply_flag op (blocked items (t * ?n + i)) x (t * ?n + i + 1))
    else apply_flag op (blocked items (t * ?n + i)) (blocked items (t * ?n + i + 1)) (t * ?n + i + 1))"
  proof (cases "i = ?n - 1")
    case True
    have l: "last items t = blocked items (t * ?n + i)" using u True assms(2) by (simp add: last_conv_nth)
    have o: "tail_flags threads op successor items right ! i = (\<lambda>t. case successor of
            None \<Rightarrow> apply_boundary (t < threads - 1) op (last items t) (right t) ((t + 1) * ?n)
          | Some _ \<Rightarrow> apply_flag op (last items t) (right t) ((t + 1) * ?n))"
      using True by (simp add: tail_flags_def nth_append)
    define q where "q = (t + 1) * ?n"
    have nx: "t * ?n + i + 1 = q" unfolding q_def using True assms(2) by (cases items) simp_all
    have r: "t + 1 < threads \<Longrightarrow> right t = blocked items q" using assms(3) by (simp add: q_def)
    show ?thesis
      unfolding o lp nx q_def [symmetric] using True l r assms(4) ti
      by (cases successor) (auto simp: apply_boundary_def)
  next
    case False
    then have "i < ?n - 1" using ti by simp
    then have "(tail_flags threads op successor items right ! i) t
        = apply_flag op ((items ! i) t) ((items ! (i + 1)) t) (t * ?n + i + 1)"
      by (simp add: tail_flags_def nth_append)
    moreover have "(items ! (i + 1)) t = blocked items (t * ?n + i + 1)"
      using \<open>i < ?n - 1\<close> blocked_nth [of "i + 1" items t] by simp
    ultimately show ?thesis unfolding lp using False u by simp
  qed
qed

lemma discontinuity_flags_correct:
  assumes "0 < threads" "tile_list tile = Inr items"
  shows "\<exists>heads tails preds. discontinuity_flags threads tile op predecessor successor st
      = Inr (pack_tile tile heads, pack_tile tile tails, pack_tile tile preds)
    \<and> tile_is threads (length items) heads (\<lambda>p.
        if p = 0 then (case predecessor of None \<Rightarrow> 1 | Some x \<Rightarrow> apply_flag op x (blocked items 0) 0)
        else apply_flag op (blocked items (p - 1)) (blocked items p) p)
    \<and> tile_is threads (length items) tails (\<lambda>p.
        if p = threads * length items - 1
        then (case successor of None \<Rightarrow> 1 | Some x \<Rightarrow> apply_flag op (blocked items p) x (p + 1))
        else apply_flag op (blocked items p) (blocked items (p + 1)) (p + 1))
    \<and> length preds = length items \<and> (\<forall>p < threads * length items. 0 < p \<longrightarrow> blocked preds p = blocked items (p - 1))
    \<and> (\<forall>x. predecessor = Some x \<longrightarrow> blocked preds 0 = x)"
proof -
  obtain nb where nb: "neighbors threads tile st = Inr nb" "nb_items nb = items" and ne: "items \<noteq> []"
    and left: "\<And>t. 0 < t \<Longrightarrow> t < threads \<Longrightarrow> nb_left nb t = blocked items (t * length items - 1)"
    and right: "\<And>t. t + 1 < threads \<Longrightarrow> nb_right nb t = blocked items ((t + 1) * length items)"
    using neighbors_correct [OF assms] by metis
  let ?left = "case predecessor of None \<Rightarrow> nb_left nb | Some p \<Rightarrow> select_value (\<lambda>t. t = 0) (\<lambda>_. p) (nb_left nb)"
  let ?right = "case successor of None \<Rightarrow> nb_right nb | Some s \<Rightarrow> select_value (\<lambda>t. t = threads - 1) (\<lambda>_. s) (nb_right nb)"
  have L: "?left t = blocked items (t * length items - 1)" if "0 < t" "t < threads" for t
    using left that by (cases predecessor) (simp_all add: select_value_def)
  have R: "?right t = blocked items ((t + 1) * length items)" if "t + 1 < threads" for t
  proof -
    have "t \<noteq> threads - 1" using that by linarith
    then show ?thesis using right [OF that] by (cases successor) (simp_all only: option.case select_value_def if_False)
  qed
  have L0: "?left 0 = x" if "predecessor = Some x" for x using that by (simp add: select_value_def)
  have R0: "?right (threads - 1) = x" if "successor = Some x" for x using that by (simp add: select_value_def)
  have bp: "(\<forall>p < threads * length items. 0 < p \<longrightarrow> blocked (?left # butlast items) p = blocked items (p - 1))"
  proof (intro allI impI)
    fix p assume p: "p < threads * length items" "0 < p"
    note pc = position_cases [OF p(1)]
    have len: "length (?left # butlast items) = length items" using ne by simp
    have "blocked (?left # butlast items) p = (if p mod length items = 0 then ?left (p div length items)
        else (items ! (p mod length items - 1)) (p div length items))"
      unfolding blocked_def len using pc(2) by (cases "p mod length items") (simp_all add: nth_butlast)
    also have "\<dots> = blocked items (p - 1)"
      using left_of_item [where left = ?left, OF ne L pc(1,2)] p(2) pc(4) by simp
    finally show "blocked (?left # butlast items) p = blocked items (p - 1)" .
  qed
  have b0: "\<forall>x. predecessor = Some x \<longrightarrow> blocked (?left # butlast items) 0 = x"
    using L0 by (simp add: blocked_def)
  have "discontinuity_flags threads tile op predecessor successor st
      = Inr (pack_tile tile (head_flags threads op predecessor items ?left),
             pack_tile tile (tail_flags threads op successor items ?right), pack_tile tile (?left # butlast items))"
    unfolding discontinuity_flags_def nb(1) rbind_simps Let_def nb(2) ..
  then show ?thesis
    using head_flags_correct [where left = ?left, OF ne L L0] tail_flags_correct [where right = ?right, OF assms(1) ne R R0]
      bp b0 ne by (intro exI conjI) (assumption | simp)+
qed

lemma subtract_left_correct:
  assumes "0 < threads" "tile_list tile = Inr items"
    and "validate_valid_items valid_items (threads * length items) = Inr ()"
  shows "\<exists>out. subtract_left threads tile cast op predecessor valid_items st = Inr (pack_tile tile out)
    \<and> tile_is threads (length items) out (\<lambda>p.
        if int p < (case valid_items of None \<Rightarrow> int (threads * length items) | Some v \<Rightarrow> count_value v) \<and> (predecessor = None \<longrightarrow> 0 < p)
        then op (blocked items p) (if p = 0 then the predecessor else blocked items (p - 1))
        else cast (blocked items p))"
proof -
  let ?n = "length items"
  let ?limit = "case valid_items of None \<Rightarrow> int (threads * ?n) | Some v \<Rightarrow> count_value v"
  obtain nb where nb: "neighbors threads tile st = Inr nb" "nb_items nb = items" and ne: "items \<noteq> []"
    and left: "\<And>t. 0 < t \<Longrightarrow> t < threads \<Longrightarrow> nb_left nb t = blocked items (t * ?n - 1)"
    using neighbors_correct [OF assms(1,2)] by metis
  let ?left = "case predecessor of None \<Rightarrow> nb_left nb | Some p \<Rightarrow> select_value (\<lambda>t. t = 0) (\<lambda>_. p) (nb_left nb)"
  have L: "?left t = blocked items (t * ?n - 1)" if "0 < t" "t < threads" for t
    using left that by (cases predecessor) (simp_all add: select_value_def)
  let ?out = "map (\<lambda>i t. apply_if cast
                 (int (t * ?n + i) < ?limit \<and> (predecessor = None \<longrightarrow> t * ?n + i > 0)) op
                 ((items ! i) t) (if i = 0 then ?left t else (items ! (i - 1)) t)) [0..<?n]"
  have "tile_is threads ?n ?out (\<lambda>p. if int p < ?limit \<and> (predecessor = None \<longrightarrow> 0 < p)
        then op (blocked items p) (if p = 0 then the predecessor else blocked items (p - 1)) else cast (blocked items p))"
  proof (rule tile_isI)
    fix t i assume ti: "t < threads" "i < ?n"
    let ?p = "t * ?n + i"
    have u: "(items ! i) t = blocked items ?p" using blocked_nth [OF ti(2), of t] by simp
    have o: "(?out ! i) t = apply_if cast (int ?p < ?limit \<and> (predecessor = None \<longrightarrow> ?p > 0)) op
        (blocked items ?p) (if i = 0 then ?left t else (items ! (i - 1)) t)" unfolding map_upt_nth [OF ti(2)] u ..
    have nb: "(if i = 0 then ?left t else (items ! (i - 1)) t) = (if ?p = 0 then the predecessor else blocked items (?p - 1))"
      if "predecessor = None \<longrightarrow> ?p > 0"
    proof (cases "?p = 0")
      case True
      then have "i = 0" "t = 0" using ne by simp_all
      then show ?thesis using that by (cases predecessor) (simp_all add: select_value_def)
    next
      case False
      then have "0 < ?p" by simp
      from left_of_item [where left = ?left, OF ne L ti this] show ?thesis using False by (simp only: if_False)
    qed
    show "(?out ! i) t = (if int ?p < ?limit \<and> (predecessor = None \<longrightarrow> 0 < ?p)
        then op (blocked items ?p) (if ?p = 0 then the predecessor else blocked items (?p - 1)) else cast (blocked items ?p))"
      unfolding o unfolding apply_if_def by (rule if_cong [OF refl _ refl], drule conjunct2, drule nb, erule arg_cong)
  qed simp
  moreover have "subtract_left threads tile cast op predecessor valid_items st = Inr (pack_tile tile ?out)"
    unfolding subtract_left_def nb(1) rbind_simps Let_def nb(2) assms(3) ..
  ultimately show ?thesis by blast
qed

lemma subtract_right_correct:
  assumes "0 < threads" "tile_list tile = Inr items"
    and "validate_valid_items valid_items (threads * length items) = Inr ()"
    and limit: "(case valid_items of None \<Rightarrow> int (threads * length items) | Some v \<Rightarrow> count_value v) \<le> int (threads * length items)"
  shows "\<exists>out. subtract_right threads tile cast op successor valid_items st = Inr (pack_tile tile out)
    \<and> tile_is threads (length items) out (\<lambda>p.
        let limit = (case valid_items of None \<Rightarrow> int (threads * length items) | Some v \<Rightarrow> count_value v)
        in if int p + 1 < limit then op (blocked items p) (blocked items (p + 1))
           else if int p + 1 = limit then (case successor of None \<Rightarrow> cast (blocked items p) | Some x \<Rightarrow> op (blocked items p) x)
           else cast (blocked items p))"
proof -
  let ?n = "length items"
  let ?limit = "case valid_items of None \<Rightarrow> int (threads * ?n) | Some v \<Rightarrow> count_value v"
  obtain nb where nb: "neighbors threads tile st = Inr nb" "nb_items nb = items" and ne: "items \<noteq> []"
    and right: "\<And>t. t + 1 < threads \<Longrightarrow> nb_right nb t = blocked items ((t + 1) * ?n)"
    using neighbors_correct [OF assms(1,2)] by metis
  let ?out = "map (\<lambda>i t. apply_if cast (case successor of None \<Rightarrow> int (t * ?n + i) + 1 < ?limit | Some _ \<Rightarrow> int (t * ?n + i) < ?limit) op
     ((items ! i) t) (case successor of None \<Rightarrow> (if i = ?n - 1 then nb_right nb t else (items ! (i + 1)) t)
       | Some s \<Rightarrow> if int (t * ?n + i) = ?limit - 1 then s else (if i = ?n - 1 then nb_right nb t else (items ! (i + 1)) t))) [0..<?n]"
  have "tile_is threads ?n ?out (\<lambda>p. if int p + 1 < ?limit then op (blocked items p) (blocked items (p + 1))
           else if int p + 1 = ?limit then (case successor of None \<Rightarrow> cast (blocked items p) | Some x \<Rightarrow> op (blocked items p) x)
           else cast (blocked items p))"
  proof (rule tile_isI)
    fix t i assume ti: "t < threads" "i < ?n"
    let ?p = "t * ?n + i" and ?next = "if i = ?n - 1 then nb_right nb t else (items ! (i + 1)) t"
    have u: "(items ! i) t = blocked items ?p" using blocked_nth [OF ti(2), of t] by simp
    have nx: "?next = blocked items (?p + 1)" if "int ?p + 1 < ?limit"
    proof -
      have "int (?p + 1) < int (threads * ?n)" using that limit by linarith
      then have "?p + 1 < threads * ?n" by (simp only: of_nat_less_iff)
      then show ?thesis using right_of_item [where right = "nb_right nb", OF ne right ti] by simp
    qed
    have o: "(?out ! i) t = apply_if cast (case successor of None \<Rightarrow> int ?p + 1 < ?limit | Some _ \<Rightarrow> int ?p < ?limit) op
     (blocked items ?p) (case successor of None \<Rightarrow> ?next | Some s \<Rightarrow> if int ?p = ?limit - 1 then s else ?next)"
      unfolding map_upt_nth [OF ti(2)] u ..
    consider "int ?p + 1 < ?limit" | "int ?p + 1 = ?limit" | "?limit < int ?p + 1" by linarith
    then show "(?out ! i) t = (if int ?p + 1 < ?limit then op (blocked items ?p) (blocked items (?p + 1))
           else if int ?p + 1 = ?limit then (case successor of None \<Rightarrow> cast (blocked items ?p) | Some x \<Rightarrow> op (blocked items ?p) x)
           else cast (blocked items ?p))"
    proof cases
      case 1
      then show ?thesis unfolding o nx [OF 1] by (cases successor) (auto simp: apply_if_def)
    qed (unfold o, (cases successor; auto simp: apply_if_def)+)
  qed simp
  moreover have "subtract_right threads tile cast op successor valid_items st = Inr (pack_tile tile ?out)"
    unfolding subtract_right_def nb(1) rbind_simps Let_def nb(2) assms(3) ..
  ultimately show ?thesis unfolding Let_def by blast
qed
section \<open>Properties\<close>

text \<open>
  C31: \<open>up\<close> and \<open>down\<close> shift the whole block by one item across the threads, with the given element
  (or the block's own end) at the boundary, and hand every thread the item that falls off.
\<close>

theorem block_shift_correct:
  assumes "0 < threads" "tile_list tile = Inr items"
  shows "(\<exists>out suffix. block_up threads tile predecessor st = Inr (pack_tile tile out, suffix)
      \<and> tile_is threads (length items) out (\<lambda>p. if p = 0
          then (case predecessor of None \<Rightarrow> blocked items 0 | Some x \<Rightarrow> x) else blocked items (p - 1))
      \<and> suffix = blocked items (threads * length items - 1))
    \<and> (\<exists>out prefix. block_down threads tile successor st = Inr (pack_tile tile out, prefix)
      \<and> tile_is threads (length items) out (\<lambda>p. if p = threads * length items - 1
          then (case successor of None \<Rightarrow> blocked items p | Some x \<Rightarrow> x) else blocked items (p + 1))
      \<and> prefix = blocked items 0)"
  using block_up_correct [OF assms] block_down_correct [OF assms] by blast

definition demo_ends :: "nat shuffle_storage" where
  "demo_ends = \<lparr>sh_first = (\<lambda>_. 0), sh_last = (\<lambda>_. 0)\<rparr>"

definition demo_tile :: "nat lanes tile" where
  "demo_tile = Items [\<lambda>t. 10 * t, \<lambda>t. 10 * t + 1]"

theorem block_shift_correct_witness:
  "\<exists>out suffix. block_up 4 demo_tile (Some 7) demo_ends = Inr (Items out, suffix)
    \<and> blocked out 0 = 7 \<and> blocked out 4 = 11 \<and> suffix = 31"
proof -
  have l: "tile_list demo_tile = Inr [\<lambda>t. 10 * t, \<lambda>t. 10 * t + 1]" by (simp add: demo_tile_def tile_list_def)
  obtain out suffix where "block_up 4 demo_tile (Some 7) demo_ends = Inr (pack_tile demo_tile out, suffix)"
    "tile_is 4 (Suc (Suc 0)) out (\<lambda>p. if p = 0 then 7 else blocked [\<lambda>t. 10 * t, \<lambda>t. 10 * t + 1] (p - 1))"
    "suffix = blocked [\<lambda>t. 10 * t, \<lambda>t. 10 * t + 1] 7"
    using conjunct1 [OF block_shift_correct [of 4 demo_tile _ "Some 7" demo_ends, OF _ l]] by (auto cong: if_cong)
  moreover have "blocked [\<lambda>t. 10 * t, \<lambda>t. 10 * t + 1] 3 = (11 :: nat)" "blocked [\<lambda>t. 10 * t, \<lambda>t. 10 * t + 1] 7 = (31 :: nat)"
    by code_simp+
  ultimately have "block_up 4 demo_tile (Some 7) demo_ends = Inr (Items out, suffix)" "blocked out 0 = 7" "blocked out 4 = 11" "suffix = 31"
    by (simp_all add: tile_is_def pack_tile_def demo_tile_def)
  then show ?thesis by blast
qed

text \<open>
  Rotating the block by any distance, static or computed by the kernel, and back by its opposite
  restores every thread's element.
\<close>

theorem block_rotate_roundtrip:
  assumes "threads < 2 ^ 30" "t < threads" "\<forall>s. distance s = d" "\<forall>s. undo s = b" "count_value b = - count_value d"
  shows "\<exists>moved restored. block_rotate threads (Item v) distance st = Inr moved
    \<and> block_rotate threads (Item moved) undo st' = Inr restored \<and> restored t = v t"
proof -
  obtain moved where m: "block_rotate threads (Item v) distance st = Inr moved"
    "\<And>s. s < threads \<Longrightarrow> moved s = v (nat ((int s + count_value d) mod int threads))"
  proof -
    obtain moved where "block_rotate threads (Item v) distance st = Inr moved"
      using block_rotate_correct [OF assms(2,1), of v distance st] by blast
    then show ?thesis
      using that block_rotate_correct [OF _ assms(1), of _ v distance st] assms(3) by (metis sum.inject(2))
  qed
  obtain restored where r: "block_rotate threads (Item moved) undo st' = Inr restored"
    "restored t = moved (nat ((int t + count_value b) mod int threads))"
    using block_rotate_correct [OF assms(2,1), of moved undo st'] assms(4) by metis
  let ?s = "nat ((int t - count_value d) mod int threads)"
  have n: "0 < int threads" using assms(2) by simp
  then have "0 \<le> (int t - count_value d) mod int threads" "(int t - count_value d) mod int threads < int threads" by simp_all
  then have s: "?s < threads" "int ?s = (int t - count_value d) mod int threads" by (simp_all add: nat_less_iff)
  have "(int ?s + count_value d) mod int threads = int t"
    unfolding s(2) using assms(2) by (simp add: mod_simps)
  then have "restored t = v t" using r(2) m(2) [OF s(1)] assms(5) by simp
  then show ?thesis using m(1) r(1) by blast
qed

theorem block_rotate_roundtrip_witness:
  "\<exists>moved restored. block_rotate 6 (Item (\<lambda>t. t)) (\<lambda>_. Runtime 15) demo_ends = Inr moved
    \<and> block_rotate 6 (Item moved) (\<lambda>_. Runtime (- 15)) demo_ends = Inr restored \<and> restored 5 = (5 :: nat)"
  by (rule block_rotate_roundtrip [where d = "Runtime 15" and b = "Runtime (- 15)"]) simp_all



text \<open>
  C33: the head flag of an item compares it with the item before it in the block, the tail flag with
  the one after it, boundary elements included; without a boundary element the first head and the
  last tail are set.
\<close>

theorem discontinuity_correct:
  assumes "0 < threads" "tile_list tile = Inr items"
  shows "\<exists>heads tails preds. flag_heads_and_tails threads tile op predecessor successor st
      = Inr (pack_tile tile heads, pack_tile tile tails, pack_tile tile preds)
    \<and> tile_is threads (length items) heads (\<lambda>p.
        if p = 0 then (case predecessor of None \<Rightarrow> 1 | Some x \<Rightarrow> apply_flag op x (blocked items 0) 0)
        else apply_flag op (blocked items (p - 1)) (blocked items p) p)
    \<and> tile_is threads (length items) tails (\<lambda>p.
        if p = threads * length items - 1
        then (case successor of None \<Rightarrow> 1 | Some x \<Rightarrow> apply_flag op (blocked items p) x (p + 1))
        else apply_flag op (blocked items p) (blocked items (p + 1)) (p + 1))
    \<and> length preds = length items \<and> (\<forall>p < threads * length items. 0 < p \<longrightarrow> blocked preds p = blocked items (p - 1))
    \<and> (\<forall>x. predecessor = Some x \<longrightarrow> blocked preds 0 = x)"
  unfolding flag_heads_and_tails_def using assms by (rule discontinuity_flags_correct)

theorem discontinuity_correct_witness:
  "\<exists>heads tails preds. flag_heads_and_tails 3 (Items [\<lambda>t. t div 2, \<lambda>t. t]) different None (Some 2) demo_ends
      = Inr (Items heads, Items tails, Items preds)
    \<and> map (blocked heads) [0..<6] = [1, 0, 0, 1, 0, 1] \<and> map (blocked tails) [0..<6] = [0, 0, 1, 0, 1, 0]"
proof -
  let ?i = "[\<lambda>t. t div 2, \<lambda>t. t] :: nat lanes list"
  have l: "tile_list (Items ?i) = Inr ?i" by (simp add: tile_list_def)
  obtain heads tails preds where o: "flag_heads_and_tails 3 (Items ?i) different None (Some 2) demo_ends
      = Inr (Items heads, Items tails, Items preds)"
    "tile_is 3 (Suc (Suc 0)) heads (\<lambda>p. if p = 0 then 1 else apply_flag different (blocked ?i (p - 1)) (blocked ?i p) p)"
    "tile_is 3 (Suc (Suc 0)) tails (\<lambda>p. if p = 5 then apply_flag different (blocked ?i p) 2 (p + 1)
        else apply_flag different (blocked ?i p) (blocked ?i (p + 1)) (p + 1))"
    using discontinuity_correct [of 3 "Items ?i" ?i different None "Some 2" demo_ends, OF _ l]
    by (auto simp: pack_tile_def cong: if_cong)
  have "map (blocked heads) [0..<6] = map (\<lambda>p. if p = 0 then 1 else apply_flag different (blocked ?i (p - 1)) (blocked ?i p) p) [0..<6]"
    "map (blocked tails) [0..<6] = map (\<lambda>p. if p = 5 then apply_flag different (blocked ?i p) 2 (p + 1)
        else apply_flag different (blocked ?i p) (blocked ?i (p + 1)) (p + 1)) [0..<6]"
    using o(2,3) by (auto simp: tile_is_def)
  moreover have "map (\<lambda>p. if p = 0 then 1 else apply_flag different (blocked ?i (p - 1)) (blocked ?i p) p) [0..<6] = [1, 0, 0, 1, 0, 1]"
    "map (\<lambda>p. if p = 5 then apply_flag different (blocked ?i p) 2 (p + 1)
        else apply_flag different (blocked ?i p) (blocked ?i (p + 1)) (p + 1)) [0..<6] = [0, 0, 1, 0, 1, 0]"
    by code_simp+
  ultimately have "map (blocked heads) [0..<6] = [1, 0, 0, 1, 0, 1]" "map (blocked tails) [0..<6] = [0, 0, 1, 0, 1, 0]"
    by (simp_all only:)
  with o(1) show ?thesis by (intro exI conjI)
qed

text \<open>
  Adjacent differences: every valid item is combined with its left (right) neighbor in the block,
  the boundary item with the given element; all others are passed through, converted.
\<close>

theorem adjacent_difference_correct:
  assumes "0 < threads" "tile_list tile = Inr items"
    and "validate_valid_items valid_items (threads * length items) = Inr ()"
    and "limit = (case valid_items of None \<Rightarrow> int (threads * length items) | Some v \<Rightarrow> count_value v)"
    and "limit \<le> int (threads * length items)"
  shows "(\<exists>out. subtract_left threads tile cast op predecessor valid_items st = Inr (pack_tile tile out)
      \<and> tile_is threads (length items) out (\<lambda>p. if int p < limit \<and> (predecessor = None \<longrightarrow> 0 < p)
          then op (blocked items p) (if p = 0 then the predecessor else blocked items (p - 1))
          else cast (blocked items p)))
    \<and> (\<exists>out. subtract_right threads tile cast op successor valid_items st = Inr (pack_tile tile out)
      \<and> tile_is threads (length items) out (\<lambda>p. if int p + 1 < limit then op (blocked items p) (blocked items (p + 1))
           else if int p + 1 = limit then (case successor of None \<Rightarrow> cast (blocked items p) | Some x \<Rightarrow> op (blocked items p) x)
           else cast (blocked items p)))"
  using subtract_left_correct [OF assms(1-3), of cast op predecessor st]
    subtract_right_correct [OF assms(1-3), of cast op successor st] assms(5)
  unfolding assms(4) Let_def by blast

theorem adjacent_difference_correct_witness:
  "\<exists>out. subtract_right 3 (Items [\<lambda>t. int (t * t), \<lambda>t. 5]) (\<lambda>x. x) (\<lambda>a b. a - b) (Some 100) (Some (Runtime 5))
      \<lparr>sh_first = (\<lambda>_. 0), sh_last = (\<lambda>_. 0)\<rparr> = Inr (Items out)
    \<and> map (blocked out) [0..<6] = [- 5, 4, - 4, 1, - 96, 5]"
proof -
  let ?i = "[\<lambda>t. int (t * t), \<lambda>t. 5] :: int lanes list" and ?st = "\<lparr>sh_first = (\<lambda>_. 0), sh_last = (\<lambda>_. 0)\<rparr> :: int shuffle_storage"
  have l: "tile_list (Items ?i) = Inr ?i" by (simp add: tile_list_def)
  let ?f = "\<lambda>p. if int p + 1 < 5 then blocked ?i p - blocked ?i (p + 1)
           else if int p + 1 = 5 then blocked ?i p - 100 else blocked ?i p"
  obtain out where o: "subtract_right 3 (Items ?i) (\<lambda>x. x) (\<lambda>a b. a - b) (Some 100) (Some (Runtime 5)) ?st = Inr (Items out)"
    "tile_is 3 (Suc (Suc 0)) out ?f"
    using conjunct2 [OF adjacent_difference_correct [of 3 "Items ?i" ?i "Some (Runtime 5)" 5 "\<lambda>x. x" "\<lambda>a b. a - b" None ?st "Some 100", OF _ l]]
    by (auto simp: pack_tile_def cong: if_cong)
  have "map (blocked out) [0..<6] = map ?f [0..<6]" using o(2) by (auto simp: tile_is_def)
  moreover have "map ?f [0..<6] = [- 5, 4, - 4, 1, - 96, 5]" by code_simp
  ultimately have "map (blocked out) [0..<6] = [- 5, 4, - 4, 1, - 96, 5]" by (rule trans)
  with o(1) show ?thesis by (intro exI conjI)
qed
end
