(* ===== verification/Block_Exchange.thy ===== *)
theory Block_Exchange
  imports Coop_Shared Coop_Spec Block_Tiles
begin

text \<open>
  Rearranging the items of a block through shared memory (\<open>coop/block/exchange.py\<close>): between
  blocked, striped and warp-striped layouts and by ranks, in one window of shared memory or in
  windows of one warp's items (\<open>WARP_TIME_SLICING\<close>).
\<close>

section \<open>Definitions\<close>

datatype exchange_algorithm = SHARED_MEMORY | WARP_TIME_SLICING

record exchange_class =
  ex_threads :: nat
  ex_items :: nat
  ex_warp :: nat
  ex_algorithm :: exchange_algorithm

definition ex_size :: "exchange_class \<Rightarrow> nat" where
  "ex_size c = ex_threads c * ex_items c"

text \<open>\<open>_warp_layout\<close>: first item of the warp's tile, lane, and threads of this warp.\<close>

definition warp_layout :: "nat \<Rightarrow> nat \<Rightarrow> nat \<Rightarrow> nat \<Rightarrow> nat \<times> nat \<times> nat" where
  "warp_layout tid threads warp items =
     (let first = tid div warp * warp in (first * items, tid mod warp, min (threads - first) warp))"

datatype layout = Blocked | Striped | WarpStriped

definition layout_index :: "exchange_class \<Rightarrow> layout \<Rightarrow> nat \<Rightarrow> nat \<Rightarrow> nat" where
  "layout_index c l t i = (case l of
       Blocked \<Rightarrow> t * ex_items c + i
     | Striped \<Rightarrow> t + i * ex_threads c
     | WarpStriped \<Rightarrow> (case warp_layout t (ex_threads c) (ex_warp c) (ex_items c) of
         (base, lane, extent) \<Rightarrow> base + lane + i * extent))"

definition layout_indices :: "exchange_class \<Rightarrow> layout \<Rightarrow> int lanes list" where
  "layout_indices c l = map (\<lambda>i t. int (layout_index c l t i)) [0..<ex_items c]"

text \<open>
  A window \<open>[first, first + extent)\<close> of the block's positions: written by the flagged items whose
  rank lies in it, read by the threads whose source lies in it.
\<close>

definition in_window :: "nat \<Rightarrow> nat \<Rightarrow> int \<Rightarrow> bool" where
  "in_window first extent index \<longleftrightarrow> int first \<le> index \<and> index < int (first + extent)"

definition write_window ::
  "nat \<Rightarrow> 'a lanes list \<Rightarrow> int lanes list \<Rightarrow> int lanes list \<Rightarrow> nat \<Rightarrow> nat \<Rightarrow> 'a shared \<Rightarrow> 'a shared" where
  "write_window threads items ranks flags first extent slots =
     barrier_phase threads
       (scatter_writes (length items) (\<lambda>t i. (flags ! i) t \<noteq> 0 \<and> in_window first extent ((ranks ! i) t))
         (\<lambda>t i. nat ((ranks ! i) t) - first) (\<lambda>t i. (items ! i) t)) slots"

definition read_window :: "'a shared \<Rightarrow> int \<Rightarrow> nat \<Rightarrow> nat \<Rightarrow> 'a \<Rightarrow> 'a" where
  "read_window slots index first extent previous =
     (if in_window first extent index then shared_load slots (nat index - first) else previous)"

definition clear_window :: "nat \<Rightarrow> nat \<Rightarrow> nat \<Rightarrow> 'a \<Rightarrow> 'a shared \<Rightarrow> 'a shared" where
  "clear_window threads n extent fill slots =
     barrier_phase threads
       (scatter_writes n (\<lambda>t i. t + i * threads < extent) (\<lambda>t i. t + i * threads) (\<lambda>_ _. fill)) slots"

definition exchange_step ::
  "exchange_class \<Rightarrow> 'a lanes list \<Rightarrow> int lanes list \<Rightarrow> int lanes list \<Rightarrow> int lanes list option \<Rightarrow> 'a \<Rightarrow> nat \<Rightarrow> nat
     \<Rightarrow> 'a lanes list \<times> 'a shared \<Rightarrow> 'a lanes list \<times> 'a shared" where
  "exchange_step c items destinations sources flags fill window first state =
     (case state of (out, slots) \<Rightarrow>
       let extent = min window (ex_size c - first);
           slots = (if flags \<noteq> None then clear_window (ex_threads c) (ex_items c) extent fill slots else slots);
           fs = (case flags of None \<Rightarrow> replicate (ex_items c) (\<lambda>_. 1) | Some fs \<Rightarrow> fs);
           slots = write_window (ex_threads c) items destinations fs first extent slots
       in (map2 (\<lambda>index prior t. read_window slots (index t) first extent (prior t)) sources out, slots))"

definition exchange_window :: "exchange_class \<Rightarrow> nat" where
  "exchange_window c = (if ex_algorithm c = WARP_TIME_SLICING then ex_warp c * ex_items c else ex_size c)"

definition exchange ::
  "exchange_class \<Rightarrow> 'a lanes tile \<Rightarrow> int lanes list \<Rightarrow> int lanes list \<Rightarrow> 'a shared \<Rightarrow> int lanes list option \<Rightarrow> 'a
     \<Rightarrow> 'a lanes tile res" where
  "exchange c tile destinations sources slots flags fill =
     rbind (tile_list tile) (\<lambda>items.
     rbind (guard ValueError (length items = ex_items c)) (\<lambda>_.
       let window = exchange_window c;
           firsts = map (\<lambda>k. k * window) [0..<(ex_size c + window - 1) div window];
           out = fst (fold (exchange_step c items destinations sources flags fill window) firsts
             (replicate (ex_items c) (\<lambda>_. fill), slots))
       in Inr (pack_tile tile out)))"

definition blocked_to_striped :: "exchange_class \<Rightarrow> 'a lanes tile \<Rightarrow> 'a shared \<Rightarrow> 'a \<Rightarrow> 'a lanes tile res" where
  "blocked_to_striped c tile slots zero =
     exchange c tile (layout_indices c Blocked) (layout_indices c Striped) slots None zero"

definition striped_to_blocked :: "exchange_class \<Rightarrow> 'a lanes tile \<Rightarrow> 'a shared \<Rightarrow> 'a \<Rightarrow> 'a lanes tile res" where
  "striped_to_blocked c tile slots zero =
     exchange c tile (layout_indices c Striped) (layout_indices c Blocked) slots None zero"

definition blocked_to_warp_striped :: "exchange_class \<Rightarrow> 'a lanes tile \<Rightarrow> 'a shared \<Rightarrow> 'a \<Rightarrow> 'a lanes tile res" where
  "blocked_to_warp_striped c tile slots zero =
     exchange c tile (layout_indices c Blocked) (layout_indices c WarpStriped) slots None zero"

definition warp_striped_to_blocked :: "exchange_class \<Rightarrow> 'a lanes tile \<Rightarrow> 'a shared \<Rightarrow> 'a \<Rightarrow> 'a lanes tile res" where
  "warp_striped_to_blocked c tile slots zero =
     exchange c tile (layout_indices c WarpStriped) (layout_indices c Blocked) slots None zero"

definition exchange_scatter ::
  "exchange_class \<Rightarrow> 'a lanes tile \<Rightarrow> int lanes list \<Rightarrow> 'a shared \<Rightarrow> bool \<Rightarrow> int lanes list option \<Rightarrow> 'a \<Rightarrow> bool
     \<Rightarrow> 'a lanes tile res" where
  "exchange_scatter c tile ranks slots striped flags fill guarded =
     rbind (tile_list tile) (\<lambda>items.
     rbind (guard ValueError (length items = ex_items c)) (\<lambda>_.
     rbind (guard TypeError (length ranks = ex_items c)) (\<lambda>_.
     rbind (guard TypeError (case flags of None \<Rightarrow> True | Some fs \<Rightarrow> length fs = ex_items c)) (\<lambda>_.
       let flags = (if guarded then Some (map (\<lambda>rank t. if rank t \<ge> 0 then 1 else 0) ranks) else flags);
           sources = layout_indices c (if striped then Striped else Blocked)
       in exchange c tile ranks sources slots flags fill))))"

definition scatter_to_blocked ::
  "exchange_class \<Rightarrow> 'a lanes tile \<Rightarrow> int lanes list \<Rightarrow> 'a shared \<Rightarrow> 'a \<Rightarrow> 'a lanes tile res" where
  "scatter_to_blocked c tile ranks slots zero = exchange_scatter c tile ranks slots False None zero False"

definition scatter_to_striped ::
  "exchange_class \<Rightarrow> 'a lanes tile \<Rightarrow> int lanes list \<Rightarrow> 'a shared \<Rightarrow> 'a \<Rightarrow> 'a lanes tile res" where
  "scatter_to_striped c tile ranks slots zero = exchange_scatter c tile ranks slots True None zero False"

definition scatter_to_striped_guarded ::
  "exchange_class \<Rightarrow> 'a lanes tile \<Rightarrow> int lanes list \<Rightarrow> 'a shared \<Rightarrow> 'a \<Rightarrow> 'a lanes tile res" where
  "scatter_to_striped_guarded c tile ranks slots fill = exchange_scatter c tile ranks slots True None fill True"

definition scatter_to_striped_flagged ::
  "exchange_class \<Rightarrow> 'a lanes tile \<Rightarrow> int lanes list \<Rightarrow> int lanes list \<Rightarrow> 'a shared \<Rightarrow> 'a \<Rightarrow> 'a lanes tile res" where
  "scatter_to_striped_flagged c tile ranks is_valid slots fill =
     exchange_scatter c tile ranks slots True (Some is_valid) fill False"

section \<open>Layouts are bijections\<close>

definition class_ok :: "exchange_class \<Rightarrow> bool" where
  "class_ok c \<longleftrightarrow> 0 < ex_threads c \<and> 0 < ex_items c \<and> 0 < ex_warp c"

lemma warp_lane:
  fixes t h w :: nat
  assumes "t < h" "0 < w"
  shows "t mod w < min (h - t div w * w) w" "t div w * w + min (h - t div w * w) w \<le> h"
proof -
  define a r where "a = t div w * w" and "r = t mod w"
  have "a + r = t" "r < w" using assms(2) by (simp_all add: a_def r_def)
  then have "r < min (h - a) w" "a + min (h - a) w \<le> h" using assms(1) by (simp_all add: min_def, linarith+)
  then show "t mod w < min (h - t div w * w) w" "t div w * w + min (h - t div w * w) w \<le> h"
    by (simp_all add: a_def r_def)
qed

lemma layout_bound:
  assumes "class_ok c" "t < ex_threads c" "i < ex_items c"
  shows "layout_index c l t i < ex_size c"
proof (cases l)
  case Blocked
  then show ?thesis using position_bound [OF assms(2,3)] by (simp add: layout_index_def ex_size_def)
next
  case Striped
  then show ?thesis using position_bound [OF assms(3,2)] by (simp add: layout_index_def ex_size_def ac_simps)
next
  case WarpStriped
  let ?w = "ex_warp c" and ?n = "ex_items c" and ?h = "ex_threads c"
  let ?f = "t div ?w * ?w" and ?e = "min (?h - t div ?w * ?w) ?w"
  have w: "0 < ?w" using assms(1) by (simp add: class_ok_def)
  note lane = warp_lane [OF assms(2) w]
  have "i * ?e + t mod ?w < ?n * ?e" by (rule position_bound [OF assms(3) lane(1)])
  then have "t mod ?w + i * ?e < ?e * ?n" by (simp only: add.commute mult.commute)
  then have "?f * ?n + t mod ?w + i * ?e < (?f + ?e) * ?n" by (simp add: add_mult_distrib)
  also have "\<dots> \<le> ?h * ?n" using lane(2) by (rule mult_right_mono) simp
  finally show ?thesis by (simp add: WarpStriped layout_index_def warp_layout_def Let_def ex_size_def)
qed

lemma layout_inj:
  assumes "class_ok c" "s < ex_threads c" "i < ex_items c" "t < ex_threads c" "j < ex_items c"
    and e: "layout_index c l s i = layout_index c l t j"
  shows "s = t \<and> i = j"
proof (cases l)
  case Blocked
  then have "s * ex_items c + i = t * ex_items c + j" using e by (simp add: layout_index_def)
  then show ?thesis using assms(3,5) by (rule split_unique)
next
  case Striped
  then have "i * ex_threads c + s = j * ex_threads c + t" using e by (simp add: layout_index_def ac_simps)
  then show ?thesis using split_unique assms(2,4) by blast
next
  case WarpStriped
  let ?w = "ex_warp c" and ?n = "ex_items c" and ?h = "ex_threads c"
  let ?e = "\<lambda>t. min (?h - t div ?w * ?w) ?w"
  have w: "0 < ?w" using assms(1) by (simp add: class_ok_def)
  have lane: "t mod ?w < ?e t \<and> ?e t \<le> ?w" if "t < ?h" for t
    using warp_lane(1) [OF that w] by simp
  have inside: "t mod ?w + i * ?e t < ?w * ?n" if "t < ?h" "i < ?n" for t i
  proof -
    have "i * ?e t + t mod ?w < ?n * ?e t" using position_bound [OF that(2) conjunct1 [OF lane [OF that(1)]]] .
    then have "t mod ?w + i * ?e t < ?e t * ?n" by (simp only: add.commute mult.commute)
    also have "\<dots> \<le> ?w * ?n" using lane [OF that(1)] by (intro mult_right_mono) simp_all
    finally show ?thesis .
  qed
  have "s div ?w * (?w * ?n) + (s mod ?w + i * ?e s) = t div ?w * (?w * ?n) + (t mod ?w + j * ?e t)"
    using e by (simp add: WarpStriped layout_index_def warp_layout_def Let_def ac_simps)
  then have q: "s div ?w = t div ?w" "s mod ?w + i * ?e s = t mod ?w + j * ?e t"
    using split_unique [OF _ inside [OF assms(2,3)] inside [OF assms(4,5)]] by blast+
  have "i * ?e t + s mod ?w = j * ?e t + t mod ?w" using q by (simp add: add.commute)
  then have "i = j \<and> s mod ?w = t mod ?w"
    using split_unique [of i "?e t" "s mod ?w" j "t mod ?w"] lane [OF assms(2)] lane [OF assms(4)] q(1) by simp
  then show ?thesis using q(1) by (metis div_mult_mod_eq)
qed

lemma layout_onto:
  assumes "class_ok c" "p < ex_size c"
  obtains t i where "t < ex_threads c" "i < ex_items c" "layout_index c l t i = p"
proof -
  let ?D = "{..<ex_threads c} \<times> {..<ex_items c}"
  have "inj_on (\<lambda>(t, i). layout_index c l t i) ?D"
    using layout_inj [OF assms(1)] by (auto simp: inj_on_def)
  then have "card ((\<lambda>(t, i). layout_index c l t i) ` ?D) = ex_size c"
    by (simp add: card_image ex_size_def)
  moreover have "(\<lambda>(t, i). layout_index c l t i) ` ?D \<subseteq> {..<ex_size c}"
    using layout_bound [OF assms(1)] by auto
  ultimately have "(\<lambda>(t, i). layout_index c l t i) ` ?D = {..<ex_size c}"
    by (intro card_subset_eq) simp_all
  then have "p \<in> (\<lambda>(t, i). layout_index c l t i) ` ?D" using assms(2) by simp
  then show ?thesis using that by auto
qed

section \<open>What an exchange delivers\<close>

definition active :: "int lanes list option \<Rightarrow> nat \<Rightarrow> nat \<Rightarrow> bool" where
  "active flags t i \<longleftrightarrow> (case flags of None \<Rightarrow> True | Some fs \<Rightarrow> (fs ! i) t \<noteq> 0)"

text \<open>No two active items are sent to one position of the block.\<close>

definition ranks_distinct :: "exchange_class \<Rightarrow> int lanes list \<Rightarrow> int lanes list option \<Rightarrow> bool" where
  "ranks_distinct c ranks flags \<longleftrightarrow> (\<forall>s < ex_threads c. \<forall>i < ex_items c. \<forall>t < ex_threads c. \<forall>j < ex_items c.
     active flags s i \<and> active flags t j \<and> (ranks ! i) s = (ranks ! j) t
       \<and> 0 \<le> (ranks ! i) s \<and> (ranks ! i) s < int (ex_size c) \<longrightarrow> s = t \<and> i = j)"

text \<open>Position \<open>s\<close> of the block holds the item sent there; nothing sent leaves the fill if there are flags.\<close>

definition delivered ::
  "exchange_class \<Rightarrow> 'a lanes list \<Rightarrow> int lanes list \<Rightarrow> int lanes list option \<Rightarrow> 'a \<Rightarrow> nat \<Rightarrow> 'a \<Rightarrow> bool" where
  "delivered c items ranks flags fill s x \<longleftrightarrow>
     (\<forall>t < ex_threads c. \<forall>i < ex_items c. active flags t i \<and> (ranks ! i) t = int s \<longrightarrow> x = (items ! i) t)
     \<and> (flags \<noteq> None \<and> \<not> (\<exists>t < ex_threads c. \<exists>i < ex_items c. active flags t i \<and> (ranks ! i) t = int s) \<longrightarrow> x = fill)"

lemma in_window_nat: "in_window first extent (int s) \<longleftrightarrow> first \<le> s \<and> s < first + extent"
  by (simp only: in_window_def of_nat_le_iff of_nat_less_iff)

lemma clear_window_fill:
  assumes "0 < threads" "a < extent" "extent \<le> threads * n"
  shows "clear_window threads n extent fill slots a = fill"
proof -
  let ?g = "\<lambda>t i. t + i * threads < extent" and ?r = "\<lambda>t i. t + i * threads"
  have inj: "scatter_inj threads n ?g ?r"
    unfolding scatter_inj_def
  proof (intro allI impI, goal_cases)
    case (1 s i t j)
    then have "i * threads + s = j * threads + t" by simp
    then show ?case using split_unique 1 by blast
  qed
  have "a < n * threads" using assms by (simp add: mult.commute)
  note pc = position_cases [OF this]
  have a: "?r (a mod threads) (a div threads) = a" using pc(4) by simp
  show ?thesis
    using scatter_hit [where val = "\<lambda>_ _. fill" and slots = slots, OF inj pc(2,1)] assms(2) by (simp add: clear_window_def a)
qed

lemma window_step:
  assumes ok: "class_ok c" and items: "length items = ex_items c" and dist: "ranks_distinct c ranks flags"
    and s: "in_window first extent (int s)" and ext: "first + extent \<le> ex_size c"
    and flen: "\<And>fs. flags = Some fs \<Longrightarrow> length fs = ex_items c"
  shows "delivered c items ranks flags fill s
    (write_window (ex_threads c) items ranks (case flags of None \<Rightarrow> replicate (ex_items c) (\<lambda>_. 1) | Some fs \<Rightarrow> fs) first extent
      (if flags \<noteq> None then clear_window (ex_threads c) (ex_items c) extent fill slots else slots) (s - first))"
proof -
  let ?fs = "case flags of None \<Rightarrow> replicate (ex_items c) (\<lambda>_. 1) | Some fs \<Rightarrow> fs"
  let ?g = "\<lambda>t i. (?fs ! i) t \<noteq> 0 \<and> in_window first extent ((ranks ! i) t)"
  let ?r = "\<lambda>t i. nat ((ranks ! i) t) - first" and ?v = "\<lambda>t i. (items ! i) t"
  let ?sl = "if flags \<noteq> None then clear_window (ex_threads c) (ex_items c) extent fill slots else slots"
  have act: "(?fs ! i) t \<noteq> 0 \<longleftrightarrow> active flags t i" if "i < ex_items c" for t i
    using that by (cases flags) (simp_all add: active_def)
  have w: "first \<le> s" "s < first + extent" using s by (simp_all add: in_window_def)
  have inj: "scatter_inj (ex_threads c) (length items) ?g ?r"
    unfolding scatter_inj_def items
  proof (intro allI impI, goal_cases)
    case (1 p i q j)
    then have win: "in_window first extent ((ranks ! i) p)" "in_window first extent ((ranks ! j) q)"
      and r: "nat ((ranks ! i) p) - first = nat ((ranks ! j) q) - first" and a: "active flags p i" "active flags q j"
      using act by blast+
    have "(ranks ! i) p = (ranks ! j) q" using win r unfolding in_window_def by linarith
    moreover have "0 \<le> (ranks ! i) p" "(ranks ! i) p < int (ex_size c)" using win(1) ext unfolding in_window_def by linarith+
    ultimately show ?case using dist a 1 unfolding ranks_distinct_def by blast
  qed
  have W: "write_window (ex_threads c) items ranks ?fs first extent ?sl
      = barrier_phase (ex_threads c) (scatter_writes (length items) ?g ?r ?v) ?sl"
    by (simp add: write_window_def)
  have hit: "write_window (ex_threads c) items ranks ?fs first extent ?sl (s - first) = (items ! i) t"
    if "t < ex_threads c" "i < ex_items c" "active flags t i" "(ranks ! i) t = int s" for t i
  proof -
    have "?g t i" using that act s by simp
    from scatter_hit [where val = ?v and slots = ?sl, OF inj that(1) that(2) [folded items] this]
    show ?thesis unfolding W using that(4) by simp
  qed
  have miss: "write_window (ex_threads c) items ranks ?fs first extent ?sl (s - first) = fill"
    if n: "flags \<noteq> None" "\<not> (\<exists>t < ex_threads c. \<exists>i < ex_items c. active flags t i \<and> (ranks ! i) t = int s)"
  proof -
    have "?r t i \<noteq> s - first" if "t < ex_threads c" "i < length items" "?g t i" for t i
    proof
      assume "?r t i = s - first"
      then have "(ranks ! i) t = int s" using that(3) w unfolding in_window_def by linarith
      then show False using n(2) that act unfolding items by blast
    qed
    then have "write_window (ex_threads c) items ranks ?fs first extent ?sl (s - first) = ?sl (s - first)"
      unfolding W by (intro scatter_miss) blast
    moreover have "s - first < extent" using w by linarith
    ultimately show ?thesis
      using clear_window_fill [of "ex_threads c" "s - first" extent "ex_items c" fill slots] n(1) ok ext
      by (simp add: class_ok_def ex_size_def)
  qed
  show ?thesis unfolding delivered_def using hit miss by blast
qed

lemma exchange_correct:
  assumes ok: "class_ok c" and tile: "tile_list tile = Inr items" "length items = ex_items c"
    and srcs: "length sources = ex_items c" and dist: "ranks_distinct c ranks flags"
    and flen: "\<And>fs. flags = Some fs \<Longrightarrow> length fs = ex_items c"
  shows "\<exists>out. exchange c tile ranks sources slots flags fill = Inr (pack_tile tile out) \<and> length out = ex_items c
    \<and> (\<forall>t < ex_threads c. \<forall>i < ex_items c. \<forall>s < ex_size c. (sources ! i) t = int s \<longrightarrow>
        delivered c items ranks flags fill s ((out ! i) t))"
proof -
  let ?W = "exchange_window c" and ?N = "ex_size c"
  let ?count = "(?N + ?W - 1) div ?W"
  let ?run = "\<lambda>k. fold (exchange_step c items ranks sources flags fill ?W) (map (\<lambda>k. k * ?W) [0..<k])
    (replicate (ex_items c) (\<lambda>_. fill), slots)"
  have W: "0 < ?W" using ok by (simp add: exchange_window_def class_ok_def ex_size_def)
  have inv: "length (fst (?run k)) = ex_items c \<and> (\<forall>t < ex_threads c. \<forall>i < ex_items c. \<forall>s < ?N.
      (sources ! i) t = int s \<and> s < k * ?W \<longrightarrow> delivered c items ranks flags fill s ((fst (?run k) ! i) t))"
    if "k \<le> ?count" for k
    using that
  proof (induction k)
    case (Suc k)
    obtain out sl where r: "?run k = (out, sl)" by (cases "?run k")
    have IH: "length out = ex_items c" "\<And>t i s. t < ex_threads c \<Longrightarrow> i < ex_items c \<Longrightarrow> s < ?N \<Longrightarrow>
      (sources ! i) t = int s \<Longrightarrow> s < k * ?W \<Longrightarrow> delivered c items ranks flags fill s ((out ! i) t)"
      using Suc unfolding r by simp_all
    have "Suc k * ?W \<le> ?count * ?W" using Suc.prems by (intro mult_right_mono) simp_all
    also have "\<dots> \<le> ?N + ?W - 1" by simp
    finally have kN: "k * ?W < ?N" using W by simp
    let ?ext = "min ?W (?N - k * ?W)"
    let ?fs = "case flags of None \<Rightarrow> replicate (ex_items c) (\<lambda>_. 1) | Some fs \<Rightarrow> fs"
    let ?sl = "write_window (ex_threads c) items ranks ?fs (k * ?W) ?ext
      (if flags \<noteq> None then clear_window (ex_threads c) (ex_items c) ?ext fill sl else sl)"
    let ?out = "map2 (\<lambda>index prior t. read_window ?sl (index t) (k * ?W) ?ext (prior t)) sources out"
    have step: "?run (Suc k) = (?out, ?sl)"
      using r by (simp add: exchange_step_def Let_def)
    have o: "(?out ! i) t = read_window ?sl ((sources ! i) t) (k * ?W) ?ext ((out ! i) t)" if "i < ex_items c" for t i
      using that IH(1) srcs by simp
    have "delivered c items ranks flags fill s ((?out ! i) t)"
      if a: "t < ex_threads c" "i < ex_items c" "s < ?N" "(sources ! i) t = int s" "s < Suc k * ?W" for t i s
    proof (cases "in_window (k * ?W) ?ext (int s)")
      case True
      have "delivered c items ranks flags fill s (?sl (s - k * ?W))"
        by (rule window_step [OF ok tile(2) dist True _ flen]) (use kN in simp_all)
      then show ?thesis unfolding o [OF a(2)] unfolding a(4) read_window_def shared_load_def nat_int if_P [OF True] .
    next
      case False
      have "s < k * ?W"
      proof (rule ccontr)
        assume "\<not> s < k * ?W"
        then have "in_window (k * ?W) ?ext (int s)" using a(3,5) kN unfolding in_window_nat by (simp add: min_def)
        then show False using False by simp
      qed
      then have "delivered c items ranks flags fill s ((out ! i) t)" using IH(2) a by blast
      then show ?thesis unfolding o [OF a(2)] unfolding a(4) read_window_def if_not_P [OF False] .
    qed
    then show ?case unfolding step using IH(1) srcs by simp
  qed simp
  have "?N \<le> ?count * ?W"
  proof -
    have "?count * ?W + (?N + ?W - 1) mod ?W = ?N + ?W - 1" by (rule div_mult_mod_eq)
    moreover have "(?N + ?W - 1) mod ?W < ?W" using W by simp
    ultimately show ?thesis by linarith
  qed
  then have "(\<forall>t < ex_threads c. \<forall>i < ex_items c. \<forall>s < ?N. (sources ! i) t = int s \<longrightarrow>
        delivered c items ranks flags fill s ((fst (?run ?count) ! i) t))"
    using inv [OF order_refl] by (meson order_less_le_trans)
  moreover have "exchange c tile ranks sources slots flags fill = Inr (pack_tile tile (fst (?run ?count)))"
    by (simp add: exchange_def tile Let_def)
  ultimately show ?thesis using inv [OF order_refl] by blast
qed

section \<open>Changing layouts\<close>

lemma layout_indices_nth [simp]:
  "i < ex_items c \<Longrightarrow> (layout_indices c l ! i) t = int (layout_index c l t i)"
  "length (layout_indices c l) = ex_items c"
  by (simp_all add: layout_indices_def)

lemma layout_distinct: "class_ok c \<Longrightarrow> ranks_distinct c (layout_indices c l) None"
  unfolding ranks_distinct_def using layout_inj by fastforce

lemma exchange_layout:
  assumes ok: "class_ok c" and tile: "tile_list tile = Inr items" "length items = ex_items c"
  shows "\<exists>out. exchange c tile (layout_indices c l) (layout_indices c m) slots None fill = Inr (pack_tile tile out)
    \<and> length out = ex_items c \<and> (\<forall>t < ex_threads c. \<forall>i < ex_items c. \<forall>s < ex_threads c. \<forall>j < ex_items c.
        layout_index c m t i = layout_index c l s j \<longrightarrow> (out ! i) t = (items ! j) s)"
proof -
  obtain out where o: "exchange c tile (layout_indices c l) (layout_indices c m) slots None fill = Inr (pack_tile tile out)"
    "length out = ex_items c"
    "\<forall>t < ex_threads c. \<forall>i < ex_items c. \<forall>s < ex_size c. (layout_indices c m ! i) t = int s \<longrightarrow>
        delivered c items (layout_indices c l) None fill s ((out ! i) t)"
    using exchange_correct [where flags = None and sources = "layout_indices c m" and slots = slots and fill = fill,
        OF ok tile _ layout_distinct [OF ok, of l]] by auto
  have "(out ! i) t = (items ! j) s"
    if a: "t < ex_threads c" "i < ex_items c" "s < ex_threads c" "j < ex_items c" "layout_index c m t i = layout_index c l s j" for t i s j
  proof -
    have "delivered c items (layout_indices c l) None fill (layout_index c m t i) ((out ! i) t)"
      using o(3) [rule_format, OF a(1,2) layout_bound [OF ok a(1,2), of m]] a(2) by simp
    then show ?thesis using a unfolding delivered_def by (simp add: active_def)
  qed
  then show ?thesis using o by blast
qed

lemma pack_tile_again: "tile_list tile = Inr items \<Longrightarrow> length out = length items \<Longrightarrow> tile_list (pack_tile tile out) = Inr out"
  by (cases tile) (auto simp: tile_list_def pack_tile_def split: if_splits, metis length_Suc_conv length_0_conv list.sel(1))
section \<open>Properties\<close>

lemma roundtrip:
  assumes ok: "class_ok c" and tile: "tile_list tile = Inr items" "length items = ex_items c"
  shows "\<exists>mid restored. exchange c tile (layout_indices c l) (layout_indices c m) slots None zero = Inr mid
    \<and> exchange c mid (layout_indices c m) (layout_indices c l) slots' None zero = Inr (pack_tile tile restored)
    \<and> (\<forall>t < ex_threads c. \<forall>i < ex_items c. (restored ! i) t = (items ! i) t)"
proof -
  obtain out where o: "exchange c tile (layout_indices c l) (layout_indices c m) slots None zero = Inr (pack_tile tile out)"
    "length out = ex_items c" "\<And>t i s j. t < ex_threads c \<Longrightarrow> i < ex_items c \<Longrightarrow> s < ex_threads c \<Longrightarrow> j < ex_items c \<Longrightarrow>
      layout_index c m t i = layout_index c l s j \<Longrightarrow> (out ! i) t = (items ! j) s"
    using exchange_layout [where l = l and m = m and slots = slots and fill = zero, OF ok tile] by blast
  have tile': "tile_list (pack_tile tile out) = Inr out" using pack_tile_again [OF tile(1)] o(2) tile(2) by simp
  obtain restored where b: "exchange c (pack_tile tile out) (layout_indices c m) (layout_indices c l) slots' None zero
      = Inr (pack_tile (pack_tile tile out) restored)"
    "\<And>t i s j. t < ex_threads c \<Longrightarrow> i < ex_items c \<Longrightarrow> s < ex_threads c \<Longrightarrow> j < ex_items c \<Longrightarrow>
      layout_index c l t i = layout_index c m s j \<Longrightarrow> (restored ! i) t = (out ! j) s"
    using exchange_layout [where l = m and m = l and slots = slots' and fill = zero, OF ok tile' o(2)] by blast
  have "(restored ! i) t = (items ! i) t" if ti: "t < ex_threads c" "i < ex_items c" for t i
  proof -
    obtain s j where s: "s < ex_threads c" "j < ex_items c" "layout_index c m s j = layout_index c l t i"
      using layout_onto [OF ok layout_bound [OF ok ti]] by metis
    show ?thesis using b(2) [OF ti s(1,2)] o(3) [OF s(1,2) ti] s(3) by simp
  qed
  moreover have "pack_tile (pack_tile tile out) restored = pack_tile tile restored" by (cases tile) (simp_all add: pack_tile_def)
  ultimately show ?thesis using o(1) b(1) by auto
qed

text \<open>
  C12: converting a tile to striped or to warp-striped layout and back restores every thread's items,
  with either algorithm and any contents of the scratch memory.
\<close>

theorem exchange_roundtrip:
  assumes "class_ok c" "tile_list tile = Inr items" "length items = ex_items c"
  shows "(\<exists>mid restored. blocked_to_striped c tile slots zero = Inr mid
      \<and> striped_to_blocked c mid slots' zero = Inr (pack_tile tile restored)
      \<and> (\<forall>t < ex_threads c. \<forall>i < ex_items c. (restored ! i) t = (items ! i) t))
    \<and> (\<exists>mid restored. blocked_to_warp_striped c tile slots zero = Inr mid
      \<and> warp_striped_to_blocked c mid slots' zero = Inr (pack_tile tile restored)
      \<and> (\<forall>t < ex_threads c. \<forall>i < ex_items c. (restored ! i) t = (items ! i) t))"
  unfolding blocked_to_striped_def striped_to_blocked_def blocked_to_warp_striped_def warp_striped_to_blocked_def
  using roundtrip [OF assms] by blast

definition demo_exchange :: exchange_class where
  "demo_exchange = \<lparr>ex_threads = 6, ex_items = 2, ex_warp = 4, ex_algorithm = WARP_TIME_SLICING\<rparr>"

theorem exchange_roundtrip_witness:
  "\<exists>mid restored. blocked_to_warp_striped demo_exchange (Items [\<lambda>t. 2 * t, \<lambda>t. 2 * t + 1]) (\<lambda>_. 0) 0 = Inr mid
    \<and> warp_striped_to_blocked demo_exchange mid (\<lambda>_. 0) 0 = Inr (Items restored) \<and> (restored ! 1) 5 = (11 :: nat)"
proof -
  let ?i = "[\<lambda>t. 2 * t, \<lambda>t. 2 * t + 1] :: nat lanes list"
  have "class_ok demo_exchange" "tile_list (Items ?i) = Inr ?i" "length ?i = ex_items demo_exchange"
    by (simp_all add: class_ok_def demo_exchange_def tile_list_def)
  from conjunct2 [OF exchange_roundtrip [OF this, of "\<lambda>_. 0" 0 "\<lambda>_. 0"]]
  obtain mid restored where o: "blocked_to_warp_striped demo_exchange (Items ?i) (\<lambda>_. 0) 0 = Inr mid"
    "warp_striped_to_blocked demo_exchange mid (\<lambda>_. 0) 0 = Inr (Items restored)"
    "\<forall>t < 6. \<forall>i < 2. (restored ! i) t = (?i ! i) t"
    by (auto simp: pack_tile_def demo_exchange_def)
  from o(3) have "(restored ! 1) 5 = 11" by simp
  with o(1,2) show ?thesis by (intro exI conjI)
qed

text \<open>
  The layouts: in striped order thread \<open>t\<close> holds items \<open>t, t + threads, \<dots>\<close> of the block; in
  warp-striped order a warp holds its own items, striped over its lanes, also when the last warp is
  not full.
\<close>

theorem exchange_layouts:
  assumes "class_ok c" "tile_list tile = Inr items" "length items = ex_items c"
  shows "(\<exists>out. blocked_to_striped c tile slots zero = Inr (pack_tile tile out)
      \<and> (\<forall>t < ex_threads c. \<forall>i < ex_items c. (out ! i) t = blocked items (t + i * ex_threads c)))
    \<and> (\<exists>out. blocked_to_warp_striped c tile slots zero = Inr (pack_tile tile out)
      \<and> (\<forall>t < ex_threads c. \<forall>i < ex_items c.
          let first = t div ex_warp c * ex_warp c; extent = min (ex_threads c - first) (ex_warp c)
          in (out ! i) t = blocked items (first * ex_items c + t mod ex_warp c + i * extent)))"
proof -
  have read: "\<exists>out. exchange c tile (layout_indices c Blocked) (layout_indices c m) slots None zero = Inr (pack_tile tile out)
      \<and> (\<forall>t < ex_threads c. \<forall>i < ex_items c. (out ! i) t = blocked items (layout_index c m t i))" for m
  proof -
    obtain out where o: "exchange c tile (layout_indices c Blocked) (layout_indices c m) slots None zero = Inr (pack_tile tile out)"
      "\<And>t i s j. t < ex_threads c \<Longrightarrow> i < ex_items c \<Longrightarrow> s < ex_threads c \<Longrightarrow> j < ex_items c \<Longrightarrow>
        layout_index c m t i = layout_index c Blocked s j \<Longrightarrow> (out ! i) t = (items ! j) s"
      using exchange_layout [where l = Blocked and m = m and slots = slots and fill = zero, OF assms] by blast
    have "(out ! i) t = blocked items (layout_index c m t i)" if ti: "t < ex_threads c" "i < ex_items c" for t i
    proof -
      obtain s j where s: "s < ex_threads c" "j < ex_items c" "layout_index c Blocked s j = layout_index c m t i"
        using layout_onto [OF assms(1) layout_bound [OF assms(1) ti]] by metis
      have "blocked items (layout_index c m t i) = (items ! j) s"
        using blocked_nth [of j items s] s assms(3) by (simp add: layout_index_def flip: s(3))
      then show ?thesis using o(2) [OF ti s(1,2)] s(3) by simp
    qed
    then show ?thesis using o(1) by blast
  qed
  show ?thesis
    using read [of Striped] read [of WarpStriped]
    unfolding blocked_to_striped_def blocked_to_warp_striped_def
    by (simp add: layout_index_def warp_layout_def Let_def)
qed

theorem exchange_layouts_witness:
  "\<exists>out. blocked_to_warp_striped demo_exchange (Items [\<lambda>t. 2 * t, \<lambda>t. 2 * t + 1]) (\<lambda>_. 0) 0 = Inr (Items out)
    \<and> (out ! 1) 1 = 5 \<and> (out ! 1) 4 = (10 :: nat)"
proof -
  let ?i = "[\<lambda>t. 2 * t, \<lambda>t. 2 * t + 1] :: nat lanes list"
  have "class_ok demo_exchange" "tile_list (Items ?i) = Inr ?i" "length ?i = ex_items demo_exchange"
    by (simp_all add: class_ok_def demo_exchange_def tile_list_def)
  from conjunct2 [OF exchange_layouts [OF this, of "\<lambda>_. 0" 0]]
  obtain out where o: "blocked_to_warp_striped demo_exchange (Items ?i) (\<lambda>_. 0) 0 = Inr (Items out)"
    "\<forall>t < 6. \<forall>i < 2. (out ! i) t = blocked ?i (t div 4 * 4 * 2 + t mod 4 + i * min (6 - t div 4 * 4) 4)"
    by (auto simp: pack_tile_def demo_exchange_def Let_def)
  have "blocked ?i 5 = 5" "blocked ?i 10 = 10" by code_simp+
  then have "(out ! 1) 1 = 5" "(out ! 1) 4 = 10" using o(2) by simp_all
  with o(1) show ?thesis by (intro exI conjI)
qed

text \<open>
  A guarded scatter sends every item with a non-negative rank, a flagged one every flagged item,
  to the striped position of its rank; positions nothing was sent to hold the fill, and ranks beyond
  the block are dropped without a write.
\<close>

theorem exchange_scatter_correct:
  assumes "class_ok c" "tile_list tile = Inr items" "length items = ex_items c" "length ranks = ex_items c"
    and "length is_valid = ex_items c" "ranks_distinct c ranks (Some is_valid)"
  shows "(\<exists>out. scatter_to_striped_flagged c tile ranks is_valid slots fill = Inr (pack_tile tile out)
      \<and> (\<forall>t < ex_threads c. \<forall>i < ex_items c.
          delivered c items ranks (Some is_valid) fill (t + i * ex_threads c) ((out ! i) t)))
    \<and> (is_valid = map (\<lambda>rank t. if rank t \<ge> 0 then 1 else 0) ranks \<longrightarrow>
        scatter_to_striped_guarded c tile ranks slots fill = scatter_to_striped_flagged c tile ranks is_valid slots fill)"
proof -
  obtain out where o: "exchange c tile ranks (layout_indices c Striped) slots (Some is_valid) fill = Inr (pack_tile tile out)"
    "\<forall>t < ex_threads c. \<forall>i < ex_items c. \<forall>s < ex_size c. (layout_indices c Striped ! i) t = int s \<longrightarrow>
        delivered c items ranks (Some is_valid) fill s ((out ! i) t)"
    using exchange_correct [where flags = "Some is_valid" and sources = "layout_indices c Striped" and slots = slots and fill = fill,
        OF assms(1-3) _ assms(6)] assms(5) by auto
  have "delivered c items ranks (Some is_valid) fill (t + i * ex_threads c) ((out ! i) t)"
    if "t < ex_threads c" "i < ex_items c" for t i
    using o(2) [rule_format, OF that layout_bound [OF assms(1) that, of Striped]] that by (simp add: layout_index_def)
  moreover have "scatter_to_striped_flagged c tile ranks is_valid slots fill = Inr (pack_tile tile out)"
    using o(1) assms(2-5) by (simp add: scatter_to_striped_flagged_def exchange_scatter_def)
  moreover have "scatter_to_striped_guarded c tile ranks slots fill = scatter_to_striped_flagged c tile ranks is_valid slots fill"
    if "is_valid = map (\<lambda>rank t. if rank t \<ge> 0 then 1 else 0) ranks"
    using that assms(2-5) by (simp add: scatter_to_striped_flagged_def scatter_to_striped_guarded_def exchange_scatter_def)
  ultimately show ?thesis by blast
qed

definition demo_ranks :: "int lanes list" where
  "demo_ranks = [\<lambda>t. int t - 1, \<lambda>t. 20 + int t]"

theorem exchange_scatter_correct_witness:
  "\<exists>out. scatter_to_striped_guarded demo_exchange (Items [\<lambda>t. 2 * t, \<lambda>t. 2 * t + 1]) demo_ranks (\<lambda>_. 0) 99 = Inr (Items out)
    \<and> (out ! 0) 2 = 6 \<and> (out ! 1) 3 = (99 :: nat)"
proof -
  let ?i = "[\<lambda>t. 2 * t, \<lambda>t. 2 * t + 1] :: nat lanes list"
  let ?f = "map (\<lambda>rank t. if rank t \<ge> 0 then 1 else 0) demo_ranks :: int lanes list"
  have c: "class_ok demo_exchange" "tile_list (Items ?i) = Inr ?i" "length ?i = ex_items demo_exchange"
    "length demo_ranks = ex_items demo_exchange" "length ?f = ex_items demo_exchange"
    by (simp_all add: class_ok_def demo_exchange_def tile_list_def demo_ranks_def)
  have "ranks_distinct demo_exchange demo_ranks (Some ?f)"
    by (auto simp: ranks_distinct_def demo_exchange_def demo_ranks_def ex_size_def active_def less_2_cases_iff)
  from exchange_scatter_correct [OF c this, of "\<lambda>_. 0" 99]
  obtain out where o: "scatter_to_striped_guarded demo_exchange (Items ?i) demo_ranks (\<lambda>_. 0) 99 = Inr (Items out)"
    "\<forall>t < 6. \<forall>i < 2. delivered demo_exchange ?i demo_ranks (Some ?f) 99 (t + i * 6) ((out ! i) t)"
    by (auto simp: pack_tile_def) (auto simp: demo_exchange_def)
  have d: "delivered demo_exchange ?i demo_ranks (Some ?f) 99 2 ((out ! 0) 2)" "delivered demo_exchange ?i demo_ranks (Some ?f) 99 9 ((out ! 1) 3)"
    using o(2) [rule_format, of 2 0] o(2) [rule_format, of 3 1] by simp_all
  have "(out ! 0) 2 = 6"
    using conjunct1 [OF d(1) [unfolded delivered_def], rule_format, of 3 0]
    by (simp add: active_def demo_ranks_def demo_exchange_def)
  moreover have "\<not> (\<exists>t < 6. \<exists>i < 2. active (Some ?f) t i \<and> (demo_ranks ! i) t = 9)"
    by (auto simp: demo_ranks_def dest!: less_2_cases)
  then have "(out ! 1) 3 = 99"
    using conjunct2 [OF d(2) [unfolded delivered_def]] by (simp add: demo_exchange_def)
  ultimately show ?thesis using o(1) by blast
qed


end
