(* ===== verification/Block_Merge_Sort.thy ===== *)
theory Block_Merge_Sort
  imports Coop_Shared Coop_Spec Block_Tiles Coop_Sorting
begin

text \<open>
  The block merge sort (\<open>coop/block/merge_sort.py\<close>): every thread sorts its own items, then runs of
  doubling length are merged by computing the rank of each item with a binary search in the
  neighboring run. Large tiles keep only one column of items in shared memory at a time
  (\<open>_compact_merge\<close>).

  The keys, values and validity flags of the source live in three arrays that are indexed alike;
  here they are one array of entries.
\<close>

section \<open>Definitions\<close>

subsection \<open>Ranks by binary search\<close>

text \<open>The other run of the pair: where it starts and how many of its items are in the block.\<close>

definition run_geometry :: "nat \<Rightarrow> nat \<Rightarrow> nat \<Rightarrow> bool \<times> nat \<times> nat \<times> nat" where
  "run_geometry index run tile_size =
     (let right = (index div run) mod 2 \<noteq> 0;
          base = index div (2 * run) * (2 * run);
          other = base + (if right then 0 else run);
          len = (if int tile_size - int other < int run then int tile_size - int other else int run)
      in (right, base, other, nat (if len > 0 then len else 0)))"

definition candidate_address :: "nat \<Rightarrow> nat \<Rightarrow> nat \<Rightarrow> nat \<Rightarrow> nat" where
  "candidate_address other mid len tile_size =
     (let address = int other + (if mid < len then int mid else int len - 1)
      in nat (if 0 \<le> address \<and> address < int tile_size then address else 0))"

definition search_step :: "('e \<Rightarrow> 'e \<Rightarrow> bool) \<Rightarrow> 'e shared \<Rightarrow> 'e \<Rightarrow> bool \<Rightarrow> nat \<Rightarrow> nat \<Rightarrow> nat \<Rightarrow> nat \<times> nat \<Rightarrow> nat \<times> nat" where
  "search_step bf slots entry right other len tile_size bounds =
     (case bounds of (low, high) \<Rightarrow>
       let mid = (low + high) div 2;
           candidate = shared_load slots (candidate_address other mid len tile_size);
           first = bf candidate entry;
           equivalent = (\<not> first \<and> \<not> bf entry candidate);
           advance = (mid < len \<and> (first \<or> (equivalent \<and> right)))
       in (if advance then mid + 1 else low, if advance then high else mid))"

definition merge_rank :: "('e \<Rightarrow> 'e \<Rightarrow> bool) \<Rightarrow> 'e shared \<Rightarrow> 'e \<Rightarrow> nat \<Rightarrow> nat \<Rightarrow> nat \<Rightarrow> nat" where
  "merge_rank bf slots entry index run tile_size =
     (case run_geometry index run tile_size of (right, base, other, len) \<Rightarrow>
       base + index mod run
         + fst ((search_step bf slots entry right other len tile_size ^^ bit_length run) (0, len)))"

subsection \<open>Merging with the tile in shared memory\<close>

definition stage_sort :: "nat \<Rightarrow> 'e lanes list \<Rightarrow> 'e shared \<Rightarrow> 'e shared" where
  "stage_sort threads items slots =
     barrier_phase threads
       (scatter_writes (length items) (\<lambda>_ _. True) (\<lambda>t i. t * length items + i) (\<lambda>t i. (items ! i) t)) slots"

definition scatter_sort :: "nat \<Rightarrow> 'e lanes list \<Rightarrow> (nat \<Rightarrow> nat \<Rightarrow> nat) \<Rightarrow> 'e shared \<Rightarrow> 'e shared" where
  "scatter_sort threads items ranks slots =
     barrier_phase threads
       (scatter_writes (length items) (\<lambda>_ _. True) ranks (\<lambda>t i. (items ! i) t)) slots"

definition merge_round ::
  "('e \<Rightarrow> 'e \<Rightarrow> bool) \<Rightarrow> nat \<Rightarrow> nat \<Rightarrow> 'e lanes list \<times> 'e shared \<Rightarrow> 'e lanes list \<times> 'e shared" where
  "merge_round bf threads run state =
     (case state of (items, slots) \<Rightarrow>
       let n = length items;
           slots = stage_sort threads items slots;
           ranks = (\<lambda>t i. merge_rank bf slots ((items ! i) t) (t * n + i) run (threads * n));
           slots = scatter_sort threads items ranks slots
       in (map (\<lambda>i t. shared_load slots (t * n + i)) [0..<n], slots))"

subsection \<open>Merging one column at a time\<close>

text \<open>\<open>_gather_columns\<close>: column \<open>item\<close> of all threads is staged, and the queries for it are answered.\<close>

definition stage_column :: "nat \<Rightarrow> 'e lanes \<Rightarrow> 'e shared \<Rightarrow> 'e shared" where
  "stage_column threads entry slots = barrier_phase threads (store_if (\<lambda>_. True) (\<lambda>t. t) entry) slots"

definition gather_columns ::
  "nat \<Rightarrow> 'e \<Rightarrow> 'e lanes list \<Rightarrow> nat lanes list \<Rightarrow> 'e shared \<Rightarrow> 'e lanes list \<times> 'e shared" where
  "gather_columns threads zero items queries slots =
     fold (\<lambda>item (out, slots).
       let slots = stage_column threads (items ! item) slots
       in (map2 (\<lambda>query old t. if query t mod length items = item
              then shared_load slots (query t div length items) else old t) queries out, slots))
     [0..<length items] (replicate (length queries) (\<lambda>_. zero), slots)"

text \<open>The element type of the permutation: 16 bits as long as the positions fit.\<close>

definition permutation_width :: "nat \<Rightarrow> nat" where
  "permutation_width tile_size = (if tile_size \<le> 65536 then 16 else 32)"

definition publish_permutation :: "nat \<Rightarrow> nat \<Rightarrow> (nat \<Rightarrow> nat \<Rightarrow> nat) \<Rightarrow> nat shared \<Rightarrow> nat shared" where
  "publish_permutation threads n ranks permutation =
     barrier_phase threads
       (scatter_writes n (\<lambda>_ _. True) ranks
         (\<lambda>t i. take_bit (permutation_width (threads * n)) (t * n + i))) permutation"

text \<open>
  One step of all searches. \<open>high\<close> and \<open>sizes\<close> are one list in the source
  (\<open>low, high = [Int32(0)] * count, sizes\<close>): narrowing \<open>high[i]\<close> narrows \<open>sizes[i]\<close> too.
\<close>

definition compact_step ::
  "('e \<Rightarrow> 'e \<Rightarrow> bool) \<Rightarrow> nat \<Rightarrow> 'e \<Rightarrow> 'e lanes list \<Rightarrow> nat \<Rightarrow> (nat \<Rightarrow> nat \<Rightarrow> nat \<times> nat) \<times> 'e shared
     \<Rightarrow> (nat \<Rightarrow> nat \<Rightarrow> nat \<times> nat) \<times> 'e shared" where
  "compact_step bf threads zero items run state =
     (case state of (bounds, slots) \<Rightarrow>
       let n = length items; tile_size = threads * n;
           sizes = (\<lambda>t i. snd (bounds t i));
           mids = (\<lambda>t i. (fst (bounds t i) + snd (bounds t i)) div 2);
           addresses = map (\<lambda>i t. case run_geometry (t * n + i) run tile_size of
             (right, base, other, _) \<Rightarrow> candidate_address other (mids t i) (sizes t i) tile_size) [0..<n];
           (candidates, slots) = gather_columns threads zero items addresses slots
       in (\<lambda>t i. case run_geometry (t * n + i) run tile_size of (right, base, other, _) \<Rightarrow>
             let first = bf ((candidates ! i) t) ((items ! i) t);
                 equal = (\<not> first \<and> \<not> bf ((items ! i) t) ((candidates ! i) t));
                 advance = (mids t i < sizes t i \<and> (first \<or> (equal \<and> right)))
             in (if advance then mids t i + 1 else fst (bounds t i), if advance then snd (bounds t i) else mids t i),
           slots))"

definition compact_round ::
  "('e \<Rightarrow> 'e \<Rightarrow> bool) \<Rightarrow> nat \<Rightarrow> 'e \<Rightarrow> nat \<Rightarrow> 'e lanes list \<times> 'e shared \<times> nat shared
     \<Rightarrow> 'e lanes list \<times> 'e shared \<times> nat shared" where
  "compact_round bf threads zero run state =
     (case state of (items, slots, permutation) \<Rightarrow>
       let n = length items; tile_size = threads * n;
           (bounds, slots) = (compact_step bf threads zero items run ^^ bit_length run)
             (\<lambda>t i. case run_geometry (t * n + i) run tile_size of (_, _, _, len) \<Rightarrow> (0, len), slots);
           ranks = (\<lambda>t i. case run_geometry (t * n + i) run tile_size of (_, base, _, _) \<Rightarrow>
             base + (t * n + i) mod run + fst (bounds t i));
           permutation = publish_permutation threads n ranks permutation;
           queries = map (\<lambda>i t. shared_load permutation (t * n + i)) [0..<n];
           (items, slots) = gather_columns threads zero items queries slots
       in (items, slots, permutation))"

subsection \<open>The sort\<close>

text \<open>The runs \<open>count, 2 count, \<dots>\<close> below the len of the tile (\<open>while run < tile_size\<close>).\<close>

function runs :: "nat \<Rightarrow> nat \<Rightarrow> nat list" where
  "runs run tile_size = (if 0 < run \<and> run < tile_size then run # runs (2 * run) tile_size else [])"
  by pat_completeness auto
termination by (relation "measure (\<lambda>(run, tile_size). tile_size - run)") auto

declare runs.simps [simp del]

text \<open>\<open>_storage\<close>: the compact layout is chosen by the footprint; \<open>array_size\<close> is \<open>dsl_size_of\<close>.\<close>

definition compact_layout :: "nat \<Rightarrow> nat option \<Rightarrow> nat \<Rightarrow> bool" where
  "compact_layout key_array value_array tile_size =
     (key_array + tile_size * 4 + (case value_array of Some v \<Rightarrow> v | None \<Rightarrow> 0) > 60 * 1024)"

definition merge_items ::
  "('e \<Rightarrow> 'e \<Rightarrow> bool) \<Rightarrow> bool \<Rightarrow> nat \<Rightarrow> 'e \<Rightarrow> 'e shared \<Rightarrow> nat shared \<Rightarrow> 'e lanes list \<Rightarrow> 'e lanes list" where
  "merge_items bf compact threads zero slots permutation items =
     (let n = length items;
          items = map (\<lambda>i t. local_sort bf (map (\<lambda>item. item t) items) ! i) [0..<n]
      in if compact
         then fst (fold (compact_round bf threads zero) (runs n (threads * n)) (items, slots, permutation))
         else fst (fold (merge_round bf threads) (runs n (threads * n)) (items, slots)))"

record ('k, 'v) merge_class =
  ms_threads :: nat
  ms_items :: nat
  ms_pairs :: bool
  ms_compact :: bool
  ms_zero_value :: 'v

text \<open>The entry point; \<open>zero\<close> is the default entry of \<open>_gather_columns\<close>.\<close>

definition block_merge_sort ::
  "('k, 'v) merge_class \<Rightarrow> ('k \<Rightarrow> 'k \<Rightarrow> bool) \<Rightarrow> bool \<Rightarrow> count option \<Rightarrow> 'k option \<Rightarrow> ('k, 'v) entry
     \<Rightarrow> ('k, 'v) entry shared \<Rightarrow> nat shared \<Rightarrow> 'k lanes tile \<Rightarrow> 'v lanes tile option
     \<Rightarrow> ('k lanes tile \<times> 'v lanes tile option) res" where
  "block_merge_sort c lt descending valid_items oob_default zero slots permutation keys vals =
     rbind (guard ValueError (length (as_items keys) = ms_items c)) (\<lambda>_.
     rbind (sort_unpack keys vals) (\<lambda>(items, payload, vector).
     rbind (guard TypeError (\<not> (payload \<noteq> None \<and> \<not> ms_pairs c))) (\<lambda>_.
     rbind (validate_valid_items valid_items (ms_threads c * ms_items c)) (\<lambda>_.
       let n = ms_items c;
           entries = map (\<lambda>i t. prepare (map (\<lambda>item. item t) items) (map_option (map (\<lambda>v. v t)) payload)
             (map (\<lambda>i. t * n + i) [0..<n]) (map_option count_value valid_items) oob_default (ms_zero_value c) ! i) [0..<n];
           entries = merge_items (valid_before lt descending) (ms_compact c) (ms_threads c) zero slots permutation entries
       in Inr (sort_pack (map (\<lambda>e t. fst (e t)) entries)
            (map_option (\<lambda>_. map (\<lambda>e t. the (fst (snd (e t)))) entries) payload) vector)))))"

section \<open>The binary search counts\<close>

lemma search_invariant:
  fixes len m low high :: nat
  assumes P: "\<And>i. i < len \<Longrightarrow> P i \<longleftrightarrow> i < m" "m \<le> len"
    and step: "\<And>low high. low \<le> m \<Longrightarrow> m \<le> high \<Longrightarrow> high \<le> len \<Longrightarrow> f (low, high) =
      (let mid = (low + high) div 2; advance = mid < len \<and> P mid
       in (if advance then mid + 1 else low, if advance then high else mid))"
  shows "low \<le> m \<Longrightarrow> m \<le> high \<Longrightarrow> high \<le> len \<Longrightarrow> high - low < 2 ^ k \<Longrightarrow> fst ((f ^^ k) (low, high)) = m"
proof (induction k arbitrary: low high)
  case (Suc k)
  let ?mid = "(low + high) div 2"
  have "fst ((f ^^ k) (f (low, high))) = m"
  proof (cases "low = high")
    case True
    then have e: "m = low" "?mid = low" using Suc.prems by simp_all
    have "\<not> (?mid < len \<and> P ?mid)" using P(1) [of low] e by auto
    then have "f (low, high) = (low, low)" by (simp add: step [OF Suc.prems(1-3)] Let_def e)
    then show ?thesis using Suc.IH [of low low] e Suc.prems True by simp
  next
    case False
    then have lt: "low < high" "?mid < high" "low \<le> ?mid" using Suc.prems by auto
    then have ms: "?mid < len" using Suc.prems by simp
    show ?thesis
    proof (cases "?mid < m")
      case True
      then have "f (low, high) = (?mid + 1, high)" using P(1) [OF ms] ms by (simp add: step [OF Suc.prems(1-3)] Let_def)
      moreover have "high - (?mid + 1) < 2 ^ k" using Suc.prems(4) by auto
      ultimately show ?thesis using Suc.IH [of "?mid + 1" high] True Suc.prems by simp
    next
      case False
      then have "f (low, high) = (low, ?mid)" using P(1) [OF ms] by (simp add: step [OF Suc.prems(1-3)] Let_def)
      moreover have "?mid - low < 2 ^ k" using Suc.prems(4) by auto
      ultimately show ?thesis using Suc.IH [of low ?mid] False Suc.prems ms by simp
    qed
  qed
  then show ?case by (simp add: funpow_swap1)
qed simp

section \<open>Ranks in merged runs\<close>

text \<open>
  The state of the merging: position \<open>q\<close> of the block holds the item that was at \<open>s q\<close>; runs keep
  to their part of the block and are in stable order.
\<close>

definition sorted_runs :: "('e \<Rightarrow> 'o :: linorder) \<Rightarrow> 'e list \<Rightarrow> nat \<Rightarrow> (nat \<Rightarrow> nat) \<Rightarrow> bool" where
  "sorted_runs d xs run s \<longleftrightarrow> inj_on s {..<length xs}
     \<and> (\<forall>q < length xs. s q < length xs \<and> s q div run = q div run)
     \<and> (\<forall>q r. q < r \<and> r < length xs \<and> q div run = r div run \<longrightarrow> precedes d xs (s q) (s r))"

text \<open>The rank of \<open>q\<close> in its pair of runs.\<close>

definition pair_rank :: "('e \<Rightarrow> 'o :: linorder) \<Rightarrow> 'e list \<Rightarrow> nat \<Rightarrow> (nat \<Rightarrow> nat) \<Rightarrow> nat \<Rightarrow> nat" where
  "pair_rank d xs run s q = q div (2 * run) * (2 * run)
     + card {r \<in> {r. r < length xs \<and> r div (2 * run) = q div (2 * run)}. precedes d xs (s r) (s q)}"

lemma down_closed_card:
  assumes "\<And>i j. j < i \<Longrightarrow> i < n \<Longrightarrow> P i \<Longrightarrow> P j" "i < (n :: nat)"
  shows "P i \<longleftrightarrow> i < card {j \<in> {..<n}. P j}"
proof
  assume "P i"
  then have "{..i} \<subseteq> {j \<in> {..<n}. P j}" using assms by (auto simp: le_less)
  then have "card {..i} \<le> card {j \<in> {..<n}. P j}" by (intro card_mono) simp_all
  then show "i < card {j \<in> {..<n}. P j}" by simp
next
  assume lt: "i < card {j \<in> {..<n}. P j}"
  show "P i"
  proof (rule ccontr)
    assume "\<not> P i"
    then have "j < i" if "j < n" "P j" for j
      using that assms(1) [of i j] by (cases i j rule: linorder_cases) simp_all
    then have "{j \<in> {..<n}. P j} \<subseteq> {..<i}" by auto
    then have "card {j \<in> {..<n}. P j} \<le> card {..<i}" by (intro card_mono) simp_all
    then show False using lt by simp
  qed
qed

lemma div_between:
  fixes r w k :: nat
  assumes "0 < w"
  shows "r div w = k \<longleftrightarrow> k * w \<le> r \<and> r < k * w + w"
proof
  assume "r div w = k"
  then show "k * w \<le> r \<and> r < k * w + w"
    using dividend_less_times_div [OF assms, of r] by (auto simp: ac_simps)
next
  assume r: "k * w \<le> r \<and> r < k * w + w"
  then have "r - k * w < w" "k * w + (r - k * w) = r" by linarith+
  then show "r div w = k" using group_split(1) [of "r - k * w" w k] by simp
qed
lemma run_geometry_eq:
  "run_geometry q run n = (let right = odd (q div run); base = q div (2 * run) * (2 * run);
     other = base + (if right then 0 else run) in (right, base, other, min run (n - other)))"
proof -
  have c: "nat (if 0 < (if a - b < r then a - b else r) then (if a - b < r then a - b else r) else 0) = min (nat r) (nat (a - b))"
    if "0 \<le> r" for a b r :: int
    using that by (simp add: min_def nat_le_iff) 
  show ?thesis
    unfolding run_geometry_def Let_def by (simp only: c of_nat_0_le_iff nat_int nat_diff_distrib' odd_iff_mod_2_eq_one)
      (auto simp: nat_minus_as_int)
qed

text \<open>What the search for an item finds: the items of the other run that come before it are its first ones.\<close>

lemma search_counts:
  assumes bf: "\<And>x y. bf x y \<longleftrightarrow> d x < (d y :: 'o :: linorder)" and run: "0 < run"
    and sr: "sorted_runs d xs run s" and q: "q < length xs"
    and slots: "\<And>p. p < length xs \<Longrightarrow> slots p = xs ! s p"
  obtains right base other m c where "run_geometry q run (length xs) = (right, base, other, m)" "c \<le> m" "m \<le> run"
    "\<And>i. i < m \<Longrightarrow> other + i < length xs"
    "\<And>i. i < m \<Longrightarrow> bf (slots (other + i)) (xs ! s q)
        \<or> (\<not> bf (slots (other + i)) (xs ! s q) \<and> \<not> bf (xs ! s q) (slots (other + i))) \<and> right \<longleftrightarrow> i < c"
    "pair_rank d xs run s q = base + q mod run + c"
proof -
  let ?N = "length xs" and ?e = "xs ! s q"
  define right where "right = odd (q div run)"
  define B where "B = q div (2 * run)"
  define other where "other = B * (2 * run) + (if right then 0 else run)"
  define m where "m = min run (?N - other)"
  let ?P = "\<lambda>i. precedes d xs (s (other + i)) (s q)"
  have geo: "run_geometry q run ?N = (right, B * (2 * run), other, m)"
    by (simp add: run_geometry_eq Let_def right_def B_def other_def m_def)
  have S: "s r < ?N" "s r div run = r div run" if "r < ?N" for r using sr that by (simp_all add: sorted_runs_def)
  have ord: "precedes d xs (s p) (s r)" if "p < r" "r < ?N" "p div run = r div run" for p r
    using sr that unfolding sorted_runs_def by blast
  have half: "q div run = 2 * B + (if right then 1 else 0)"
  proof -
    have "q div run div 2 = B" unfolding B_def by (simp add: div_mult2_eq mult.commute)
    then show ?thesis using div_mult_mod_eq [of "q div run" 2] by (auto simp: right_def odd_iff_mod_2_eq_one)
  qed
  have otherq: "other = (2 * B + (if right then 0 else 1)) * run" by (simp add: other_def algebra_simps)
  have chunk: "(other + i) div run = 2 * B + (if right then 0 else 1)" if "i < m" for i
    unfolding otherq using that by (intro group_split(1)) (simp add: m_def)
  have inN: "other + i < ?N" if "i < m" for i using that unfolding m_def by linarith
  have side: "if right then s (other + i) < s q else s q < s (other + i)" if "i < m" for i
  proof -
    have "s (other + i) div run = 2 * B + (if right then 0 else 1)" "s q div run = 2 * B + (if right then 1 else 0)"
      using S(2) [OF inN [OF that]] S(2) [OF q] chunk [OF that] half by simp_all
    then have "if right then s (other + i) div run < s q div run else s q div run < s (other + i) div run" by simp
    then show ?thesis by (metis div_le_mono not_less)
  qed
  have P: "?P i \<longleftrightarrow> d (xs ! s (other + i)) < d ?e \<or> (d (xs ! s (other + i)) = d ?e \<and> right)" if "i < m" for i
    using side [OF that] by (auto simp: precedes_def split: if_splits)
  have closed: "?P j" if "j < i" "i < m" "?P i" for i j
  proof -
    have "precedes d xs (s (other + j)) (s (other + i))"
      using that chunk [of i] chunk [of j] by (intro ord inN) simp_all
    then show ?thesis using that(3) precedes_order(2) by blast
  qed
  let ?c = "card {i \<in> {..<m}. ?P i}"
  have cm: "?c \<le> m"
  proof -
    have "?c \<le> card {..<m}" by (rule card_mono) auto
    then show ?thesis by simp
  qed
  have Pc: "?P i \<longleftrightarrow> i < ?c" if "i < m" for i by (rule down_closed_card [OF closed that])
  let ?C = "{r. r < ?N \<and> r div (2 * run) = B}"
  have own: "{r \<in> ?C. r div run = q div run \<and> precedes d xs (s r) (s q)} = {q div run * run..<q}"
  proof (intro equalityI subsetI)
    fix r assume "r \<in> {r \<in> ?C. r div run = q div run \<and> precedes d xs (s r) (s q)}"
    then have r: "r < ?N" "r div run = q div run" "precedes d xs (s r) (s q)" by simp_all
    have "\<not> q \<le> r"
      using r ord [of q r] precedes_order by (metis le_eq_less_or_eq)
    then show "r \<in> {q div run * run..<q}" using r(2) by (metis atLeastLessThan_iff div_times_less_eq_dividend not_le)
  next
    fix r assume r: "r \<in> {q div run * run..<q}"
    then have "r div run = q div run"
      using div_between [OF run, of r "q div run"] div_between [OF run, of q "q div run"] by simp
    moreover from this have "r div (2 * run) = B"
      unfolding B_def by (metis div_mult2_eq mult.commute)
    ultimately show "r \<in> {r \<in> ?C. r div run = q div run \<and> precedes d xs (s r) (s q)}"
      using r q ord by simp
  qed
  have oth: "{r \<in> ?C. r div run \<noteq> q div run \<and> precedes d xs (s r) (s q)} = (\<lambda>i. other + i) ` {i \<in> {..<m}. ?P i}"
  proof (intro equalityI subsetI)
    fix r assume "r \<in> {r \<in> ?C. r div run \<noteq> q div run \<and> precedes d xs (s r) (s q)}"
    then have r: "r < ?N" "r div (2 * run) = B" "r div run \<noteq> q div run" "precedes d xs (s r) (s q)" by simp_all
    have "r div run div 2 = B" using r(2) by (simp add: div_mult2_eq mult.commute)
    then have "r div run = 2 * B + (if right then 0 else 1)"
      using r(3) half div_mult_mod_eq [of "r div run" 2] by (auto split: if_splits)
    then have "other \<le> r" "r < other + run" using div_between [OF run] unfolding otherq by blast+
    then show "r \<in> (\<lambda>i. other + i) ` {i \<in> {..<m}. ?P i}"
      using r(1,4) by (intro image_eqI [of _ _ "r - other"]) (auto simp: m_def)
  next
    fix r assume "r \<in> (\<lambda>i. other + i) ` {i \<in> {..<m}. ?P i}"
    then obtain i where i: "i < m" "?P i" "r = other + i" by blast
    have "(other + i) div run div 2 = B" using chunk [OF i(1)] by simp
    then have "(other + i) div (2 * run) = B" by (simp add: div_mult2_eq mult.commute)
    then show "r \<in> {r \<in> ?C. r div run \<noteq> q div run \<and> precedes d xs (s r) (s q)}"
      using i inN chunk half by simp
  qed
  have split: "card A = card {r \<in> A. Q r} + card {r \<in> A. \<not> Q r}" if "finite A" for A :: "nat set" and Q
    using that card_Un_disjoint [of "{r \<in> A. Q r}" "{r \<in> A. \<not> Q r}"] by (simp add: Un_def Int_def conj_disj_distribL [symmetric])
  have "card {r \<in> ?C. precedes d xs (s r) (s q)}
      = card {r \<in> {r \<in> ?C. precedes d xs (s r) (s q)}. r div run = q div run}
        + card {r \<in> {r \<in> ?C. precedes d xs (s r) (s q)}. r div run \<noteq> q div run}"
    by (rule split) simp
  also have "{r \<in> {r \<in> ?C. precedes d xs (s r) (s q)}. r div run = q div run}
      = {r \<in> ?C. r div run = q div run \<and> precedes d xs (s r) (s q)}" by blast
  also have "{r \<in> {r \<in> ?C. precedes d xs (s r) (s q)}. r div run \<noteq> q div run}
      = {r \<in> ?C. r div run \<noteq> q div run \<and> precedes d xs (s r) (s q)}" by blast
  finally have "card {r \<in> ?C. precedes d xs (s r) (s q)} = card {q div run * run..<q} + card ((\<lambda>i. other + i) ` {i \<in> {..<m}. ?P i})"
    unfolding own oth .
  moreover have "card {q div run * run..<q} = q mod run" by (simp add: minus_div_mult_eq_mod)
  moreover have "card ((\<lambda>i. other + i) ` {i \<in> {..<m}. ?P i}) = ?c" by (rule card_image) simp
  ultimately have "pair_rank d xs run s q = B * (2 * run) + q mod run + ?c"
    unfolding pair_rank_def B_def [symmetric] by (simp only: add.assoc)
  moreover have "bf (slots (other + i)) ?e \<or> (\<not> bf (slots (other + i)) ?e \<and> \<not> bf ?e (slots (other + i))) \<and> right
      \<longleftrightarrow> i < ?c" if "i < m" for i
    unfolding Pc [OF that, symmetric] P [OF that] slots [OF inN [OF that]] bf by auto
  moreover have "m \<le> run" by (simp add: m_def)
  ultimately show ?thesis using that geo cm inN by blast
qed

lemma search_step_counts:
  assumes "\<And>i. i < len \<Longrightarrow> bf (slots (other + i)) e \<or> (\<not> bf (slots (other + i)) e \<and> \<not> bf e (slots (other + i))) \<and> right \<longleftrightarrow> i < c"
    and "\<And>i. i < len \<Longrightarrow> other + i < tile_size" "high \<le> len" "low \<le> c" "c \<le> high" "width = len \<or> width = high"
  shows "search_step bf slots e right other width tile_size (low, high)
      = (let mid = (low + high) div 2; advance = mid < len \<and> mid < c
         in (if advance then mid + 1 else low, if advance then high else mid))"
proof -
  let ?mid = "(low + high) div 2"
  have "mid < width \<and> (let x = shared_load slots (candidate_address other mid width tile_size)
      in bf x e \<or> (\<not> bf x e \<and> \<not> bf e x) \<and> right) \<longleftrightarrow> mid < len \<and> mid < c" if m: "mid = ?mid" for mid
  proof (cases "mid < width")
    case True
    then have l: "mid < len" using assms(3,6) by auto
    then have "int other + int mid < int tile_size" using assms(2) [of mid] by linarith
    then have "candidate_address other mid width tile_size = other + mid"
      using True by (simp add: candidate_address_def nat_int_add)
    then show ?thesis using True l assms(1) [OF l] by (simp add: shared_load_def Let_def)
  next
    case False
    then show ?thesis using assms(3-6) m by auto
  qed
  from this [OF refl] show ?thesis unfolding search_step_def prod.case Let_def by (simp only:)
qed

lemma merge_rank_eq:
  assumes bf: "\<And>x y. bf x y \<longleftrightarrow> d x < (d y :: 'o :: linorder)" and run: "0 < run"
    and sr: "sorted_runs d xs run s" and q: "q < length xs"
    and slots: "\<And>p. p < length xs \<Longrightarrow> slots p = xs ! s p"
  shows "merge_rank bf slots (xs ! s q) q run (length xs) = pair_rank d xs run s q"
    and "case run_geometry q run (length xs) of (right, base, other, len) \<Rightarrow>
      base + q mod run + fst (((\<lambda>(low, high). search_step bf slots (xs ! s q) right other high (length xs) (low, high))
        ^^ bit_length run) (0, len)) = pair_rank d xs run s q"
proof -
  obtain right base other m c where geo: "run_geometry q run (length xs) = (right, base, other, m)" "c \<le> m" "m \<le> run"
    and inN: "\<And>i. i < m \<Longrightarrow> other + i < length xs"
    and c: "\<And>i. i < m \<Longrightarrow> bf (slots (other + i)) (xs ! s q)
        \<or> (\<not> bf (slots (other + i)) (xs ! s q) \<and> \<not> bf (xs ! s q) (slots (other + i))) \<and> right \<longleftrightarrow> i < c"
    and rank: "pair_rank d xs run s q = base + q mod run + c"
    by (rule search_counts [OF bf run sr q slots]) blast+
  have k: "m - 0 < 2 ^ bit_length run" using lt_two_pow_bit_length [of run] geo(3) by simp
  have "fst ((search_step bf slots (xs ! s q) right other m (length xs) ^^ bit_length run) (0, m)) = c"
    by (rule search_invariant [where P = "\<lambda>i. i < c" and len = m])
      (use geo k in \<open>simp_all add: search_step_counts [where c = c and len = m, OF c inN]\<close>)
  then show "merge_rank bf slots (xs ! s q) q run (length xs) = pair_rank d xs run s q"
    by (simp add: merge_rank_def geo(1) rank)
  have "fst (((\<lambda>(low, high). search_step bf slots (xs ! s q) right other high (length xs) (low, high)) ^^ bit_length run) (0, m)) = c"
    by (rule search_invariant [where P = "\<lambda>i. i < c" and len = m])
      (use geo k in \<open>simp_all add: search_step_counts [where c = c and len = m, OF c inN]\<close>)
  then show "case run_geometry q run (length xs) of (right, base, other, len) \<Rightarrow>
      base + q mod run + fst (((\<lambda>(low, high). search_step bf slots (xs ! s q) right other high (length xs) (low, high))
        ^^ bit_length run) (0, len)) = pair_rank d xs run s q"
    by (simp add: geo(1) rank)
qed

lemma pair_rank_bounds:
  assumes run: "0 < run" and q: "q < length xs"
  shows "pair_rank d xs run s q < length xs" "pair_rank d xs run s q div (2 * run) = q div (2 * run)"
proof -
  let ?B = "q div (2 * run) * (2 * run)"
  let ?C = "{r. r < length xs \<and> r div (2 * run) = q div (2 * run)}"
  let ?c = "card {r \<in> ?C. precedes d xs (s r) (s q)}"
  have C: "?C = {?B..<min (?B + 2 * run) (length xs)}"
    using div_between [of "2 * run"] run by auto
  have "?c < card ?C" using q precedes_order(1) by (intro psubset_card_mono) auto
  then have c: "?c < min (?B + 2 * run) (length xs) - ?B" unfolding C by simp
  then show "pair_rank d xs run s q < length xs" by (simp add: pair_rank_def)
  have "0 < 2 * run" using run by simp
  then show "pair_rank d xs run s q div (2 * run) = q div (2 * run)"
    unfolding pair_rank_def by (intro div_between [THEN iffD2]) (use run c in auto)
qed

lemma pair_rank_less:
  assumes "q < length xs" "r < length xs" "q div (2 * run) = r div (2 * run)" "precedes d xs (s q) (s r)"
  shows "pair_rank d xs run s q < pair_rank d xs run s r"
proof -
  have "card {p \<in> {p. p < length xs \<and> p div (2 * run) = q div (2 * run)}. precedes d xs (s p) (s q)}
      < card {p \<in> {p. p < length xs \<and> p div (2 * run) = q div (2 * run)}. precedes d xs (s p) (s r)}"
    by (rule card_rank_less) (use assms precedes_order in auto)
  then show ?thesis using assms(3) by (simp add: pair_rank_def)
qed

text \<open>Sending every item to its rank doubles the runs.\<close>

lemma sorted_runs_merge:
  assumes run: "0 < run" and sr: "sorted_runs d xs run s"
  obtains s' where "sorted_runs d xs (2 * run) s'"
    "\<And>q. q < length xs \<Longrightarrow> s' (pair_rank d xs run s q) = s q"
    "inj_on (pair_rank d xs run s) {..<length xs}"
    "pair_rank d xs run s ` {..<length xs} = {..<length xs}"
proof -
  let ?N = "length xs" and ?r = "pair_rank d xs run s"
  have S: "inj_on s {..<?N}" "\<And>q. q < ?N \<Longrightarrow> s q < ?N \<and> s q div run = q div run"
    using sr by (auto simp: sorted_runs_def)
  have inj: "inj_on ?r {..<?N}"
  proof (rule inj_onI, rule ccontr)
    fix x y assume xy: "x \<in> {..<?N}" "y \<in> {..<?N}" "?r x = ?r y" "x \<noteq> y"
    have "x div (2 * run) = y div (2 * run)"
      using pair_rank_bounds(2) [OF run, of x xs d s] pair_rank_bounds(2) [OF run, of y xs d s] xy by simp
    moreover have "s x \<noteq> s y" using S(1) xy by (auto dest: inj_onD)
    ultimately have "?r x < ?r y \<or> ?r y < ?r x"
      using xy precedes_order(3) [of "s x" "s y" d xs] pair_rank_less [of x xs y run d s] pair_rank_less [of y xs x run d s] by auto
    then show False using xy(3) by simp
  qed
  have img: "?r ` {..<?N} = {..<?N}" using pair_rank_bounds(1) [OF run] inj by (intro endo_inj_surj) auto
  define g where "g = the_inv_into {..<?N} ?r"
  have g: "g (?r q) = q" if "q < ?N" for q using that by (simp add: g_def the_inv_into_f_f [OF inj])
  have g': "g p < ?N" "?r (g p) = p" if "p < ?N" for p
    using that img g f_the_inv_into_f [OF inj, of p] the_inv_into_into [OF inj, of p "{..<?N}"] by (auto simp: g_def)
  have gd: "g p div (2 * run) = p div (2 * run)" if "p < ?N" for p
    using pair_rank_bounds(2) [OF run g'(1) [OF that], of d s] g'(2) [OF that] by simp
  have sg: "g q = g r" if "s (g q) = s (g r)" "q < ?N" "r < ?N" for q r
    using inj_onD [OF S(1) that(1)] g'(1) [OF that(2)] g'(1) [OF that(3)] by simp
  have "sorted_runs d xs (2 * run) (s \<circ> g)"
    unfolding sorted_runs_def
  proof (intro conjI allI impI)
    show "inj_on (s \<circ> g) {..<?N}"
    proof (rule inj_onI)
      fix x y assume xy: "x \<in> {..<?N}" "y \<in> {..<?N}" "(s \<circ> g) x = (s \<circ> g) y"
      then have "g x = g y" using sg [of x y] by simp
      then show "x = y" using g'(2) xy(1,2) by (metis lessThan_iff)
    qed
    fix q assume q: "q < ?N"
    show "(s \<circ> g) q < ?N" using S(2) g'(1) [OF q] by simp
    have "s (g q) div run div 2 = g q div run div 2" using S(2) g'(1) [OF q] by simp
    then show "(s \<circ> g) q div (2 * run) = q div (2 * run)"
      using gd [OF q] by (simp add: div_mult2_eq mult.commute)
  next
    fix q r assume qr: "q < r \<and> r < ?N \<and> q div (2 * run) = r div (2 * run)"
    have "s (g q) \<noteq> s (g r)"
    proof
      assume "s (g q) = s (g r)"
      then have "g q = g r" using sg [of q r] qr by simp
      then show False using g'(2) qr by (metis less_irrefl less_trans)
    qed
    then have "precedes d xs (s (g q)) (s (g r)) \<or> precedes d xs (s (g r)) (s (g q))" by (rule precedes_order(3))
    moreover have "\<not> precedes d xs (s (g r)) (s (g q))"
    proof
      assume "precedes d xs (s (g r)) (s (g q))"
      then have "?r (g r) < ?r (g q)" using g'(1) gd qr by (intro pair_rank_less) auto
      then show False using g'(2) qr by simp
    qed
    ultimately show "precedes d xs ((s \<circ> g) q) ((s \<circ> g) r)" by simp
  qed
  moreover have "(s \<circ> g) (?r q) = s q" if "q < ?N" for q using g [OF that] by simp
  ultimately show ?thesis using inj img that by blast
qed
section \<open>The rounds\<close>

text \<open>The registers of the threads hold the tile in the order \<open>s\<close>.\<close>

definition holds_order :: "('e \<Rightarrow> 'o :: linorder) \<Rightarrow> 'e list \<Rightarrow> nat \<Rightarrow> nat \<Rightarrow> nat \<Rightarrow> 'e lanes list \<Rightarrow> (nat \<Rightarrow> nat) \<Rightarrow> bool" where
  "holds_order d xs threads n run items s \<longleftrightarrow> length items = n \<and> length xs = threads * n \<and> sorted_runs d xs run s
     \<and> (\<forall>t < threads. \<forall>i < n. (items ! i) t = xs ! s (t * n + i))"

lemma stage_sort_at:
  assumes "t < threads" "i < length items"
  shows "stage_sort threads items slots (t * length items + i) = (items ! i) t"
proof -
  have "scatter_inj threads (length items) (\<lambda>_ _. True) (\<lambda>t i. id (t * length items + i))"
    by (rule scatter_inj_positions) simp
  then have "scatter_inj threads (length items) (\<lambda>_ _. True) (\<lambda>t i. t * length items + i)" by simp
  from scatter_hit [OF this assms TrueI] show ?thesis by (simp add: stage_sort_def)
qed

lemma merge_round_order:
  assumes bf: "\<And>x y. bf x y \<longleftrightarrow> d x < (d y :: 'o :: linorder)" and run: "0 < run"
    and st: "holds_order d xs threads n run items s"
  shows "\<exists>s'. holds_order d xs threads n (2 * run) (fst (merge_round bf threads run (items, slots))) s'"
proof -
  have n_def: "n = length items" using st by (simp add: holds_order_def)
  define staged where "staged = stage_sort threads items slots"
  let ?ranks = "\<lambda>t i. merge_rank bf staged ((items ! i) t) (t * n + i) run (threads * n)"
  have at:
    "(items ! i) t = xs ! s (t * n + i)" if "t < threads" "i < n" for t i
    using st that by (simp_all add: holds_order_def n_def)
  have N: "length xs = threads * n" and sr: "sorted_runs d xs run s" using st by (simp_all add: holds_order_def n_def)
  have slot: "staged p = xs ! s p" if "p < length xs" for p
    using that unfolding N
    by (elim position_split) (simp add: staged_def at stage_sort_at [where items = items, folded n_def])
  have rank: "?ranks t i = pair_rank d xs run s (t * n + i)" if "t < threads" "i < n" for t i
    using merge_rank_eq(1) [of bf d run xs s "t * n + i" staged] bf run sr slot that
    by (simp add: N at position_bound)
  obtain s' where s': "sorted_runs d xs (2 * run) s'" "\<And>q. q < length xs \<Longrightarrow> s' (pair_rank d xs run s q) = s q"
    "inj_on (pair_rank d xs run s) {..<length xs}" "pair_rank d xs run s ` {..<length xs} = {..<length xs}"
    by (rule sorted_runs_merge [OF run sr]) blast
  let ?P = "\<lambda>t i. pair_rank d xs run s (t * n + i)"
  define after where "after = scatter_sort threads items ?ranks staged"
  have inj: "scatter_inj threads n (\<lambda>_ _. True) ?ranks"
    using scatter_inj_positions [of "pair_rank d xs run s" threads n] s'(3) rank by (simp add: scatter_inj_def N)
  have val: "after p = xs ! s' p" if p: "p < length xs" for p
  proof -
    obtain q where q: "q < length xs" "p = pair_rank d xs run s q" using p s'(4) by (metis imageE lessThan_iff)
    obtain t i where ti: "q = t * n + i" "t < threads" "i < n" using q(1) unfolding N by (rule position_split)
    have "after (?ranks t i) = (items ! i) t"
      unfolding after_def scatter_sort_def n_def [symmetric] by (rule scatter_hit [OF inj ti(2,3) TrueI])
    then show ?thesis using q s'(2) [OF q(1)] rank [OF ti(2,3)] at [OF ti(2,3)] ti(1) by simp
  qed
  have e: "merge_round bf threads run (items, slots) = (map (\<lambda>i t. shared_load after (t * n + i)) [0..<n], after)"
    by (simp add: merge_round_def Let_def after_def staged_def n_def)
  have "holds_order d xs threads n (2 * run) (fst (merge_round bf threads run (items, slots))) s'"
    unfolding holds_order_def e using s'(1) by (simp add: N shared_load_def val position_bound)
  then show ?thesis by blast
qed

lemma fold_runs:
  assumes "\<And>run st. 0 < run \<Longrightarrow> run < N \<Longrightarrow> P run st \<Longrightarrow> P (2 * run) (f run st)" "0 < run" "P run st"
  shows "\<exists>R \<ge> N. P R (fold f (runs run N) st)"
  using assms
proof (induction run N arbitrary: st rule: runs.induct)
  case (1 run N)
  show ?case
  proof (cases "run < N")
    case True
    then have "\<exists>R \<ge> N. P R (fold f (runs (2 * run) N) (f run st))"
      using 1 by simp
    then show ?thesis using True 1 by (simp add: runs.simps [of run N])
  next
    case False
    then show ?thesis using 1(4) by (intro exI [of _ run]) (simp add: runs.simps [of run N])
  qed
qed

section \<open>One column at a time\<close>

lemma stage_column_at: "t < threads \<Longrightarrow> stage_column threads entry slots t = entry t"
  unfolding stage_column_def by (rule phase_store_if [where index = "\<lambda>t. t"]) simp_all

lemma gather_columns_at:
  "length (fst (gather_columns threads zero items queries slots)) = length queries"
  "\<And>j t. j < length queries \<Longrightarrow> (queries ! j) t < threads * length items \<Longrightarrow>
     (fst (gather_columns threads zero items queries slots) ! j) t = blocked items ((queries ! j) t)"
proof -
  let ?n = "length items"
  define f where "f = (\<lambda>item (out, slots). let slots = stage_column threads (items ! item) slots
       in (map2 (\<lambda>query old t. if query t mod ?n = item
              then shared_load slots (query t div ?n) else old t) queries out, slots))"
  let ?st = "\<lambda>k. fold f [0..<k] (replicate (length queries) (\<lambda>_. zero), slots)"
  have g: "gather_columns threads zero items queries slots = ?st ?n" by (simp add: gather_columns_def f_def)
  have inv: "length (fst (?st k)) = length queries
      \<and> (\<forall>j t. j < length queries \<and> (queries ! j) t < threads * ?n \<and> (queries ! j) t mod ?n < k \<longrightarrow>
        (fst (?st k) ! j) t = blocked items ((queries ! j) t))" for k
  proof (induction k)
    case (Suc k)
    obtain out sl where os: "?st k = (out, sl)" by fastforce
    have len: "length out = length queries" using Suc os by simp
    have nxt: "fst (?st (Suc k)) = map2 (\<lambda>query old t. if query t mod ?n = k
        then shared_load (stage_column threads (items ! k) sl) (query t div ?n) else old t) queries out"
    proof -
      have "?st (Suc k) = f k (out, sl)" by (simp add: os)
      then show ?thesis by (simp add: f_def Let_def)
    qed
    show ?case
    proof (intro conjI allI impI)
      show "length (fst (?st (Suc k))) = length queries" unfolding nxt by (simp add: len)
      fix j t assume q: "j < length queries \<and> (queries ! j) t < threads * ?n \<and> (queries ! j) t mod ?n < Suc k"
      have lane: "(queries ! j) t div ?n < threads" using q position_cases(1) by blast
      show "(fst (?st (Suc k)) ! j) t = blocked items ((queries ! j) t)"
      proof (cases "(queries ! j) t mod ?n = k")
        case True
        then show ?thesis unfolding nxt using q lane by (simp add: len shared_load_def stage_column_at blocked_def)
      next
        case False
        then have "(out ! j) t = blocked items ((queries ! j) t)" using q Suc os by simp
        then show ?thesis unfolding nxt using q False by (simp add: len)
      qed
    qed
  qed simp
  show "length (fst (gather_columns threads zero items queries slots)) = length queries"
    using inv [of ?n] by (simp add: g)
  show "(fst (gather_columns threads zero items queries slots) ! j) t = blocked items ((queries ! j) t)"
    if "j < length queries" "(queries ! j) t < threads * length items" for j t
    using inv [of ?n] that position_cases(2) [OF that(2)] by (simp add: g)
qed

lemma candidate_address_bound: "0 < tile_size \<Longrightarrow> candidate_address other mid len tile_size < tile_size"
  by (auto simp: candidate_address_def Let_def nat_less_iff)

text \<open>A step of the compact search is the search step of every item, on the tile in registers.\<close>

lemma compact_step_search:
  assumes "t < threads" "i < length items"
    and geo: "run_geometry (t * length items + i) run (threads * length items) = (right, base, other, len)"
  shows "fst (compact_step bf threads zero items run (bounds, slots)) t i
    = (\<lambda>(low, high). search_step bf (blocked items) ((items ! i) t) right other high (threads * length items) (low, high)) (bounds t i)"
proof -
  let ?n = "length items"
  let ?N = "threads * ?n"
  let ?mid = "\<lambda>t i. (fst (bounds t i) + snd (bounds t i)) div 2"
  define addresses where "addresses = map (\<lambda>i t. case run_geometry (t * ?n + i) run ?N of
    (right, base, other, _) \<Rightarrow> candidate_address other (?mid t i) (snd (bounds t i)) ?N) [0..<?n]"
  obtain candidates slots' where g: "gather_columns threads zero items addresses slots = (candidates, slots')" by fastforce
  have N: "0 < ?N" using position_bound [OF assms(1,2)] by linarith
  have a: "(addresses ! i) t = candidate_address other (?mid t i) (snd (bounds t i)) ?N"
    using assms(2) by (simp add: addresses_def geo)
  then have c: "(candidates ! i) t = blocked items (candidate_address other (?mid t i) (snd (bounds t i)) ?N)"
    using gather_columns_at(2) [of i addresses t threads items zero slots] assms(2) candidate_address_bound [OF N]
    unfolding g fst_conv a by (simp add: addresses_def)
  have "fst (compact_step bf threads zero items run (bounds, slots)) t i
      = (let first = bf ((candidates ! i) t) ((items ! i) t);
                 equal = (\<not> first \<and> \<not> bf ((items ! i) t) ((candidates ! i) t));
                 advance = (?mid t i < snd (bounds t i) \<and> (first \<or> (equal \<and> right)))
             in (if advance then ?mid t i + 1 else fst (bounds t i), if advance then snd (bounds t i) else ?mid t i))"
    unfolding compact_step_def prod.case Let_def addresses_def [symmetric] g by (simp only: geo prod.case fst_conv)
  then show ?thesis
    unfolding c search_step_def shared_load_def Let_def by (cases "bounds t i") (simp only: prod.case fst_conv snd_conv)
qed

lemma compact_steps_search:
  assumes "t < threads" "i < length items"
    and geo: "run_geometry (t * length items + i) run (threads * length items) = (right, base, other, len)"
  shows "fst ((compact_step bf threads zero items run ^^ k) (bounds, slots)) t i
    = ((\<lambda>(low, high). search_step bf (blocked items) ((items ! i) t) right other high (threads * length items) (low, high)) ^^ k) (bounds t i)"
proof (induction k)
  case (Suc k)
  obtain b sl where b: "(compact_step bf threads zero items run ^^ k) (bounds, slots) = (b, sl)" by fastforce
  have "fst (compact_step bf threads zero items run (b, sl)) t i
    = (\<lambda>(low, high). search_step bf (blocked items) ((items ! i) t) right other high (threads * length items) (low, high)) (b t i)"
    by (rule compact_step_search [OF assms])
  then show ?case using Suc b by simp
qed simp

lemma publish_permutation_at:
  assumes inj: "scatter_inj threads n (\<lambda>_ _. True) ranks" and t: "t < threads" "i < n" and N: "threads * n \<le> 2 ^ 32"
  shows "publish_permutation threads n ranks permutation (ranks t i) = t * n + i"
proof -
  have "publish_permutation threads n ranks permutation (ranks t i) = take_bit (permutation_width (threads * n)) (t * n + i)"
    unfolding publish_permutation_def by (rule scatter_hit [OF inj t TrueI])
  moreover have "t * n + i < 2 ^ permutation_width (threads * n)"
    using position_bound [OF t] N by (simp add: permutation_width_def)
  ultimately show ?thesis by (simp add: take_bit_nat_eq_self)
qed

lemma compact_round_order:
  assumes bf: "\<And>x y. bf x y \<longleftrightarrow> d x < (d y :: 'o :: linorder)" and run: "0 < run"
    and st: "holds_order d xs threads n run items s" and small: "length xs \<le> 2 ^ 32"
  shows "\<exists>s'. holds_order d xs threads n (2 * run) (fst (compact_round bf threads zero run (items, slots, permutation))) s'"
proof -
  have n_def: "n = length items" using st by (simp add: holds_order_def)
  have at: "length xs = threads * n" "sorted_runs d xs run s" "\<And>t i. t < threads \<Longrightarrow> i < n \<Longrightarrow> (items ! i) t = xs ! s (t * n + i)"
    using st by (simp_all add: holds_order_def n_def)
  note N = at(1)
  have slot: "blocked items p = xs ! s p" if "p < length xs" for p
    using that position_cases [of p threads n] at(3) [of "p div n" "p mod n"] unfolding N by (simp add: blocked_def n_def)
  let ?start = "\<lambda>t i. case run_geometry (t * n + i) run (threads * n) of (_, _, _, len) \<Rightarrow> (0, len)"
  obtain bounds slots1 where b: "(compact_step bf threads zero items run ^^ bit_length run) (?start, slots) = (bounds, slots1)"
    by fastforce
  define ranks where "ranks = (\<lambda>t i. case run_geometry (t * n + i) run (threads * n) of (_, base, _, _) \<Rightarrow>
             base + (t * n + i) mod run + fst (bounds t i))"
  have rank: "ranks t i = pair_rank d xs run s (t * n + i)" if ti: "t < threads" "i < n" for t i
  proof -
    obtain right base other len where geo: "run_geometry (t * n + i) run (threads * n) = (right, base, other, len)"
      using prod_cases4 by blast
    have "bounds t i = ((\<lambda>(low, high). search_step bf (blocked items) ((items ! i) t) right other high (threads * n) (low, high)) ^^ bit_length run) (0, len)"
      using compact_steps_search [where t = t and i = i and items = items and threads = threads and run = run and bounds = ?start
        and bf = bf and zero = zero and k = "bit_length run" and slots = slots and base = base] ti geo b
      by (simp add: n_def)
    then show ?thesis
      using merge_rank_eq(2) [of bf d run xs s "t * n + i" "blocked items"] bf run at slot ti geo
      by (simp add: N position_bound ranks_def)
  qed
  obtain s' where s': "sorted_runs d xs (2 * run) s'" "\<And>q. q < length xs \<Longrightarrow> s' (pair_rank d xs run s q) = s q"
    "inj_on (pair_rank d xs run s) {..<length xs}" "pair_rank d xs run s ` {..<length xs} = {..<length xs}"
    by (rule sorted_runs_merge [OF run at(2)]) blast
  define perm where "perm = publish_permutation threads n ranks permutation"
  define queries where "queries = map (\<lambda>i t. shared_load perm (t * n + i)) [0..<n]"
  have inj: "scatter_inj threads n (\<lambda>_ _. True) ranks"
    using scatter_inj_positions [of "pair_rank d xs run s" threads n] s'(3) rank by (simp add: scatter_inj_def N)
  have perm: "perm p < length xs \<and> xs ! s (perm p) = xs ! s' p" if p: "p < length xs" for p
  proof -
    obtain q where q: "q < length xs" "p = pair_rank d xs run s q" using p s'(4) by (metis imageE lessThan_iff)
    obtain t i where ti: "q = t * n + i" "t < threads" "i < n" using q(1) unfolding N by (rule position_split)
    have "perm (ranks t i) = q"
      unfolding perm_def ti(1) using small by (intro publish_permutation_at inj ti) (simp add: N)
    then show ?thesis using q s'(2) [OF q(1)] rank [OF ti(2,3)] ti(1) by simp
  qed
  obtain items' slots2 where g: "gather_columns threads zero items queries slots1 = (items', slots2)" by fastforce
  have e: "compact_round bf threads zero run (items, slots, permutation) = (items', slots2, perm)"
    unfolding compact_round_def prod.case Let_def n_def [symmetric] b ranks_def [symmetric] perm_def [symmetric] queries_def [symmetric] g ..
  have len: "length items' = n"
    using gather_columns_at(1) [of threads zero items queries slots1] unfolding g fst_conv by (simp add: queries_def)
  have val: "(items' ! i) t = xs ! s' (t * n + i)" if ti: "t < threads" "i < n" for t i
  proof -
    have pos: "t * n + i < length xs" using ti by (simp add: N position_bound)
    have q: "(queries ! i) t = perm (t * n + i)" using ti by (simp add: queries_def shared_load_def)
    have "(items' ! i) t = blocked items (perm (t * n + i))"
      using gather_columns_at(2) [of i queries t threads items zero slots1] perm [OF pos] ti
      unfolding g fst_conv q n_def [symmetric] N by (simp add: queries_def)
    then show ?thesis using slot perm [OF pos] by simp
  qed
  have "holds_order d xs threads n (2 * run) (fst (compact_round bf threads zero run (items, slots, permutation))) s'"
    unfolding holds_order_def e using s'(1) val by (simp add: N len)
  then show ?thesis by blast
qed

section \<open>The whole sort\<close>

lemma local_order:
  assumes bf: "\<And>x y. bf x y \<longleftrightarrow> d x < (d y :: 'o :: linorder)" and n: "n = length items" "0 < n"
  shows "\<exists>s. holds_order d (tile_seq threads items) threads n n
    (map (\<lambda>i t. local_sort bf (map (\<lambda>item. item t) items) ! i) [0..<n]) s"
proof -
  let ?c = "\<lambda>t. map (\<lambda>item. item t) items" and ?xs = "tile_seq threads items"
  have ex: "\<exists>s. inj_on s {..<n} \<and> (\<forall>q < n. s q < n) \<and> (\<forall>q < n. sort_key d (?c t) ! q = ?c t ! s q)
      \<and> (\<forall>q r. q < r \<and> r < n \<longrightarrow> precedes d (?c t) (s q) (s r))" for t
    by (rule sort_key_order [of "?c t" d]) (use n(1) in auto)
  then obtain f where f: "inj_on (f t) {..<n}" "\<And>q. q < n \<Longrightarrow> f t q < n" "\<And>q. q < n \<Longrightarrow> sort_key d (?c t) ! q = ?c t ! f t q"
      "\<And>q r. q < r \<Longrightarrow> r < n \<Longrightarrow> precedes d (?c t) (f t q) (f t r)" for t
    by metis
  define s where "s q = q div n * n + f (q div n) (q mod n)" for q
  have mod: "q mod n < n" for q using n(2) by simp
  have sdm: "s q div n = q div n" "s q mod n = f (q div n) (q mod n)" for q
    using group_split [OF f(2) [OF mod]] by (simp_all add: s_def)
  have cell: "?xs ! (t * n + i) = ?c t ! i" if "t < threads" "i < n" for t i
    using that n(1) position_bound by simp
  have sN: "s q < threads * n" if "q < threads * n" for q
    using position_bound [of "q div n" threads "f (q div n) (q mod n)" n] f(2) [OF mod] position_cases(1) [OF that] by (simp add: s_def)
  have "sorted_runs d ?xs n s"
    unfolding sorted_runs_def
  proof (intro conjI allI impI)
    show "inj_on s {..<length ?xs}"
    proof (rule inj_onI)
      fix x y assume e: "s x = s y"
      then have "x div n = y div n" using sdm(1) by metis
      moreover from this e have "f (x div n) (x mod n) = f (x div n) (y mod n)" using sdm(2) by metis
      then have "x mod n = y mod n" by (rule inj_onD [OF f(1)]) (use mod in simp_all)
      ultimately show "x = y" by (metis div_mult_mod_eq)
    qed
    show "s q < length ?xs" if "q < length ?xs" for q using sN that n(1) by simp
    show "s q div n = q div n" for q by (rule sdm)
    fix q r assume qr: "q < r \<and> r < length ?xs \<and> q div n = r div n"
    have rN: "r < threads * n" "q < threads * n" using qr n(1) by simp_all
    note t = position_cases(1) [OF rN(1)]
    have "q mod n < r mod n" using qr div_mult_mod_eq [of q n] div_mult_mod_eq [of r n] by (metis add_less_cancel_left)
    then have "precedes d (?c (r div n)) (f (r div n) (q mod n)) (f (r div n) (r mod n))" using f(4) mod by blast
    then show "precedes d ?xs (s q) (s r)"
      using qr cell [OF t f(2) [OF mod]] by (simp add: precedes_def s_def)
  qed
  moreover have "(map (\<lambda>i t. local_sort bf (?c t) ! i) [0..<n] ! i) t = ?xs ! s (t * n + i)" if "t < threads" "i < n" for t i
    using that cell [OF that(1) f(2) [OF that(2)], of t] f(3) [OF that(2), of t]
    by (simp add: local_sort_correct [of bf d, OF bf] s_def)
  ultimately show ?thesis by (intro exI [of _ s]) (simp add: holds_order_def n(1))
qed

lemma sorted_runs_all:
  assumes "holds_order d xs threads n R items s" "length xs \<le> R"
  shows "tile_seq threads items = sort_key d xs"
proof -
  have h: "length items = n" "length xs = threads * n" "sorted_runs d xs R s"
    "\<And>t i. t < threads \<Longrightarrow> i < n \<Longrightarrow> (items ! i) t = xs ! s (t * n + i)"
    using assms(1) by (simp_all add: holds_order_def)
  have q: "q div R = 0" if "q < length xs" for q using that assms(2) by simp
  show ?thesis
  proof (rule sort_key_by_order [where s = s])
    show "inj_on s {..<length xs}" using h(3) by (simp add: sorted_runs_def)
    show "precedes d xs (s q) (s r)" if "q < r" "r < length xs" for q r
      using h(3) that q [of q] q [of r] unfolding sorted_runs_def by (metis less_trans)
    show "s q < length xs \<and> tile_seq threads items ! q = xs ! s q" if b: "q < length xs" for q
      using h(3) b h(4) [of "q div n" "q mod n"] position_cases [of q threads n]
      by (simp add: sorted_runs_def blocked_def h(1,2))
  qed (simp add: h)
qed

lemma merge_items_sort:
  assumes bf: "\<And>x y. bf x y \<longleftrightarrow> d x < (d y :: 'o :: linorder)" and n: "0 < length items"
    and small: "compact \<Longrightarrow> threads * length items \<le> 2 ^ 32"
  shows "tile_seq threads (merge_items bf compact threads zero slots permutation items) = sort_key d (tile_seq threads items)"
    "length (merge_items bf compact threads zero slots permutation items) = length items"
proof -
  let ?n = "length items" and ?xs = "tile_seq threads items"
  define items0 where "items0 = map (\<lambda>i t. local_sort bf (map (\<lambda>item. item t) items) ! i) [0..<?n]"
  let ?out = "merge_items bf compact threads zero slots permutation items"
  have start: "\<exists>s. holds_order d ?xs threads ?n ?n items0 s"
    unfolding items0_def by (rule local_order [OF bf refl n])
  have "\<exists>R \<ge> threads * ?n. \<exists>s. holds_order d ?xs threads ?n R ?out s"
  proof (cases compact)
    case True
    have "\<exists>R \<ge> threads * ?n. \<exists>s. holds_order d ?xs threads ?n R
        (fst (fold (compact_round bf threads zero) (runs ?n (threads * ?n)) (items0, slots, permutation))) s"
    proof (rule fold_runs [where P = "\<lambda>R st. \<exists>s. holds_order d ?xs threads ?n R (fst st) s"])
      fix run and st :: "'a lanes list \<times> 'a shared \<times> nat shared"
      assume a: "0 < run" "\<exists>s. holds_order d ?xs threads ?n run (fst st) s"
      then show "\<exists>s. holds_order d ?xs threads ?n (2 * run) (fst (compact_round bf threads zero run st)) s"
        using compact_round_order [OF bf a(1), where xs = ?xs and threads = threads and n = ?n and items = "fst st"] small [OF True] by (cases st) auto
    qed (use n start in simp_all)
    then show ?thesis using True by (simp add: merge_items_def Let_def items0_def)
  next
    case False
    have "\<exists>R \<ge> threads * ?n. \<exists>s. holds_order d ?xs threads ?n R
        (fst (fold (merge_round bf threads) (runs ?n (threads * ?n)) (items0, slots))) s"
    proof (rule fold_runs [where P = "\<lambda>R st. \<exists>s. holds_order d ?xs threads ?n R (fst st) s"])
      fix run and st :: "'a lanes list \<times> 'a shared"
      assume a: "0 < run" "\<exists>s. holds_order d ?xs threads ?n run (fst st) s"
      then show "\<exists>s. holds_order d ?xs threads ?n (2 * run) (fst (merge_round bf threads run st)) s"
        using merge_round_order [OF bf a(1), where xs = ?xs and threads = threads and n = ?n and items = "fst st"] by (cases st) auto
    qed (use n start in simp_all)
    then show ?thesis using False by (simp add: merge_items_def Let_def items0_def)
  qed
  then obtain R s where R: "threads * ?n \<le> R" "holds_order d ?xs threads ?n R ?out s" by blast
  then show "tile_seq threads ?out = sort_key d ?xs" by (intro sorted_runs_all) simp_all
  show "length ?out = ?n" using R(2) by (simp add: holds_order_def)
qed
section \<open>The sort of records\<close>

text \<open>The tile's records in blocked order: a key and, for pairs, its value.\<close>

definition tile_pairs :: "nat \<Rightarrow> 'k lanes list \<Rightarrow> 'v lanes list option \<Rightarrow> ('k \<times> 'v option) list" where
  "tile_pairs threads items payload =
     map (\<lambda>p. (blocked items p, map_option (\<lambda>vals. blocked vals p) payload)) [0..<threads * length items]"

definition valid_prefix :: "nat \<Rightarrow> count option \<Rightarrow> nat" where
  "valid_prefix tile_size valid_items =
     (case valid_items of None \<Rightarrow> tile_size | Some v \<Rightarrow> min tile_size (nat (count_value v)))"

text \<open>What replaces an invalid record: nothing without an out-of-bounds default.\<close>

definition fill_record :: "'k option \<Rightarrow> 'v \<Rightarrow> 'k \<times> 'v option \<Rightarrow> 'k \<times> 'v option" where
  "fill_record oob_default zero r =
     (case oob_default of None \<Rightarrow> r | Some k \<Rightarrow> (k, map_option (\<lambda>_. zero) (snd r)))"

definition as_entry :: "bool \<Rightarrow> 'k \<times> 'v option \<Rightarrow> ('k, 'v) entry" where
  "as_entry valid r = (fst r, snd r, valid)"

lemma sort_key_map_list: "sort_key d (map f xs) = map f (sort_key (\<lambda>x. d (f x) :: 'o :: linorder) xs)"
proof -
  have "insort_key d (f x) (map f ys) = map f (insort_key (\<lambda>x. d (f x)) x ys)" for x ys
    by (induction ys) simp_all
  then show ?thesis by (induction xs) simp_all
qed

lemma sort_key_valid_first:
  "sort_key (entry_key d) (map (as_entry True) rs @ map (as_entry False) us)
    = map (as_entry True) (sort_key (\<lambda>r. d (fst r)) rs) @ map (as_entry False) us"
proof -
  have f: "filter (\<lambda>(_, _, valid). valid) (map (as_entry True) rs) = map (as_entry True) rs"
    "filter (\<lambda>(_, _, valid). valid) (map (as_entry False) us) = []"
    "filter (\<lambda>(_, _, valid). \<not> valid) (map (as_entry True) rs) = []"
    "filter (\<lambda>(_, _, valid). \<not> valid) (map (as_entry False) us) = map (as_entry False) us"
    by (simp_all add: as_entry_def filter_empty_conv filter_id_conv)
  show ?thesis
    unfolding sort_key_entries filter_append f by (simp add: sort_key_map_list as_entry_def)
qed

lemma prepared_entries:
  assumes "length items = n" "case payload of None \<Rightarrow> True | Some vals \<Rightarrow> length vals = n"
  shows "tile_seq threads (map (\<lambda>i t. prepare (map (\<lambda>item. item t) items) (map_option (map (\<lambda>v. v t)) payload)
        (map (\<lambda>i. t * n + i) [0..<n]) (map_option count_value valid_items) oob_default zero ! i) [0..<n])
    = map (as_entry True) (take (valid_prefix (threads * n) valid_items) (tile_pairs threads items payload))
      @ map (as_entry False) (map (fill_record oob_default zero)
          (drop (valid_prefix (threads * n) valid_items) (tile_pairs threads items payload)))"
    (is "tile_seq threads ?es = map ?T (take ?m ?R) @ map ?F (map ?fill (drop ?m ?R))")
proof (rule tile_seq_eqI)
  have len: "length ?R = threads * n" by (simp add: tile_pairs_def assms(1))
  have m: "?m \<le> threads * n" by (simp add: valid_prefix_def split: option.split)
  show "length (map ?T (take ?m ?R) @ map ?F (map ?fill (drop ?m ?R))) = threads * length ?es" using m by (simp add: len)
  fix t i assume t: "t < threads" "i < length ?es"
  then have i: "i < n" by simp
  define p where "p = t * n + i"
  have p: "p < threads * n" "p div n = t" "p mod n = i" using position_bound [OF t(1) i] i by (simp_all add: p_def)
  have R: "?R ! p = ((items ! i) t, map_option (\<lambda>vals. (vals ! i) t) payload)"
    using p assms by (auto simp: tile_pairs_def blocked_def split: option.splits)
  have valid: "(case map_option count_value valid_items of None \<Rightarrow> True | Some v \<Rightarrow> int p < v) \<longleftrightarrow> p < ?m"
    using p(1) by (auto simp: valid_prefix_def split: option.split)
  have "(?es ! i) t = (if p < ?m then ?T (?R ! p) else ?F (?fill (?R ! p)))"
    using i assms valid unfolding R
    by (auto simp: prepare_def p_def [symmetric] as_entry_def fill_record_def Let_def split: option.splits)
  also have "\<dots> = (map ?T (take ?m ?R) @ map ?F (map ?fill (drop ?m ?R))) ! p"
    using p(1) m by (simp add: nth_append len)
  finally show "(?es ! i) t = (map ?T (take ?m ?R) @ map ?F (map ?fill (drop ?m ?R))) ! (t * length ?es + i)"
    by (simp add: p_def)
qed

lemma merge_sort_records:
  assumes ord: "\<And>a b. before lt descending a b \<longleftrightarrow> d a < (d b :: int)"
    and un: "sort_unpack keys vals = Inr (items, payload, vector)"
    and ok: "length items = ms_items c" "0 < ms_items c" "payload = None \<or> ms_pairs c"
    and valid: "validate_valid_items valid_items (ms_threads c * ms_items c) = Inr ()"
    and small: "ms_compact c \<Longrightarrow> ms_threads c * ms_items c \<le> 2 ^ 32"
  shows "\<exists>items' payload'. block_merge_sort c lt descending valid_items oob_default zero slots permutation keys vals
        = Inr (sort_pack items' payload' vector)
    \<and> length items' = ms_items c \<and> (payload' = None \<longleftrightarrow> payload = None)
    \<and> tile_pairs (ms_threads c) items' payload'
        = sort_key (\<lambda>r. d (fst r)) (take (valid_prefix (ms_threads c * ms_items c) valid_items) (tile_pairs (ms_threads c) items payload))
          @ map (fill_record oob_default (ms_zero_value c))
              (drop (valid_prefix (ms_threads c * ms_items c) valid_items) (tile_pairs (ms_threads c) items payload))"
proof -
  let ?n = "ms_items c" and ?w = "ms_threads c"
  let ?R = "tile_pairs ?w items payload" and ?m = "valid_prefix (?w * ?n) valid_items"
  let ?fill = "fill_record oob_default (ms_zero_value c)"
  define es where "es = map (\<lambda>i t. prepare (map (\<lambda>item. item t) items) (map_option (map (\<lambda>v. v t)) payload)
             (map (\<lambda>i. t * ?n + i) [0..<?n]) (map_option count_value valid_items) oob_default (ms_zero_value c) ! i) [0..<?n]"
  define out where "out = merge_items (valid_before lt descending) (ms_compact c) ?w zero slots permutation es"
  have k: "as_items keys = items" "payload = map_option as_items vals"
    "case payload of None \<Rightarrow> True | Some vs \<Rightarrow> length vs = ?n"
    using un ok(1) by (auto simp: sort_unpack_def Let_def rbind_def guard_def split: option.splits if_splits)
  have run: "block_merge_sort c lt descending valid_items oob_default zero slots permutation keys vals
      = Inr (sort_pack (map (\<lambda>e t. fst (e t)) out) (map_option (\<lambda>_. map (\<lambda>e t. the (fst (snd (e t)))) out) payload) vector)"
    using ok valid un k by (auto simp: block_merge_sort_def guard_def rbind_def Let_def out_def es_def)
  have E: "tile_seq ?w es = map (as_entry True) (take ?m ?R) @ map (as_entry False) (map ?fill (drop ?m ?R))"
    unfolding es_def by (rule prepared_entries [OF ok(1) k(3)])
  have len: "length es = ?n" by (simp add: es_def)
  have sorted: "tile_seq ?w out = sort_key (entry_key d) (tile_seq ?w es)" "length out = ?n"
    unfolding out_def len [symmetric]
    by (rule merge_items_sort [OF valid_before_key [OF ord]]; use small ok(2) len in simp)+
  have some: "fst (snd e) = None \<longleftrightarrow> payload = None" if "e \<in> set (tile_seq ?w out)" for e
  proof -
    have "snd r = None \<longleftrightarrow> payload = None" if "r \<in> set ?R" for r using that by (auto simp: tile_pairs_def)
    moreover have "set (take ?m ?R) \<subseteq> set ?R" "set (drop ?m ?R) \<subseteq> set ?R" by (simp_all add: set_take_subset set_drop_subset)
    ultimately show ?thesis using that unfolding sorted(1) E
      by (auto simp: as_entry_def fill_record_def split: option.splits)
  qed
  have "tile_pairs ?w (map (\<lambda>e t. fst (e t)) out) (map_option (\<lambda>_. map (\<lambda>e t. the (fst (snd (e t)))) out) payload)
      = map (\<lambda>e. (fst e, fst (snd e))) (tile_seq ?w out)"
  proof (rule nth_equalityI)
    fix p assume "p < length (tile_pairs ?w (map (\<lambda>e t. fst (e t)) out) (map_option (\<lambda>_. map (\<lambda>e t. the (fst (snd (e t)))) out) payload))"
    then have p: "p < ?w * length out" by (simp add: tile_pairs_def)
    then have "blocked out p \<in> set (tile_seq ?w out)" using nth_mem [of p "tile_seq ?w out"] by simp
    then have "fst (snd (blocked out p)) = None \<longleftrightarrow> payload = None" by (rule some)
    then show "tile_pairs ?w (map (\<lambda>e t. fst (e t)) out) (map_option (\<lambda>_. map (\<lambda>e t. the (fst (snd (e t)))) out) payload) ! p
        = map (\<lambda>e. (fst e, fst (snd e))) (tile_seq ?w out) ! p"
      using p position_cases(2) [OF p] by (cases payload) (auto simp: tile_pairs_def blocked_def)
  qed (simp add: tile_pairs_def)
  also have "map (\<lambda>e. (fst e, fst (snd e))) (tile_seq ?w out) = sort_key (\<lambda>r. d (fst r)) (take ?m ?R) @ map ?fill (drop ?m ?R)"
    unfolding sorted(1) E sort_key_valid_first by (simp add: as_entry_def comp_def)
  finally show ?thesis
    unfolding run by (intro exI conjI) (rule refl, simp_all add: sorted(2))
qed
section \<open>Properties\<close>

text \<open>
  C5: \<open>BlockMergeSort\<close> with any strict weak order (a comparison given by a key \<open>d\<close>) is a stable
  sort: the records before the valid count come out in stable order, the others behind them, replaced
  by the default if there is one. This holds for both memory layouts.
\<close>

theorem merge_sort_sorts:
  assumes "\<And>a b. before lt descending a b \<longleftrightarrow> d a < (d b :: int)"
    and "sort_unpack keys vals = Inr (items, payload, vector)"
    and "length items = ms_items c" "0 < ms_items c" "payload = None \<or> ms_pairs c"
    and "validate_valid_items valid_items (ms_threads c * ms_items c) = Inr ()"
    and "ms_compact c \<Longrightarrow> ms_threads c * ms_items c \<le> 2 ^ 32"
  shows "\<exists>items' payload'. block_merge_sort c lt descending valid_items oob_default zero slots permutation keys vals
        = Inr (sort_pack items' payload' vector)
    \<and> length items' = ms_items c \<and> (payload' = None \<longleftrightarrow> payload = None)
    \<and> tile_pairs (ms_threads c) items' payload'
        = sort_key (\<lambda>r. d (fst r)) (take (valid_prefix (ms_threads c * ms_items c) valid_items) (tile_pairs (ms_threads c) items payload))
          @ map (fill_record oob_default (ms_zero_value c))
              (drop (valid_prefix (ms_threads c * ms_items c) valid_items) (tile_pairs (ms_threads c) items payload))"
  by (rule merge_sort_records [OF assms])

definition demo_merge :: "(nat, nat) merge_class" where
  "demo_merge = \<lparr>ms_threads = 3, ms_items = 2, ms_pairs = True, ms_compact = True, ms_zero_value = 0\<rparr>"

theorem merge_sort_sorts_witness:
  "\<exists>items' payload'. block_merge_sort demo_merge (<) True (Some (Static 5)) (Some 0) (0, None, False) (\<lambda>_. (0, None, False)) (\<lambda>_. 0)
      (Items [\<lambda>t. (2 * t * 5) mod 7, \<lambda>t. ((2 * t + 1) * 5) mod 7]) (Some (Items [\<lambda>t. 2 * t, \<lambda>t. 2 * t + 1]))
        = Inr (sort_pack items' payload' True)
    \<and> tile_pairs 3 items' payload' = [(6, Some 4), (5, Some 1), (3, Some 2), (1, Some 3), (0, Some 0), (0, Some 0)]"
proof -
  let ?items = "[\<lambda>t :: nat. (2 * t * 5) mod 7, \<lambda>t. ((2 * t + 1) * 5) mod 7]"
  let ?vals = "Some [\<lambda>t :: nat. 2 * t, \<lambda>t. 2 * t + 1]"
  have ord: "before (<) True a b \<longleftrightarrow> - int a < - int b" for a b :: nat by (simp add: before_def)
  have un: "sort_unpack (Items ?items) (Some (Items [\<lambda>t :: nat. 2 * t, \<lambda>t. 2 * t + 1])) = Inr (?items, ?vals, True)"
    by (simp add: sort_unpack_def rbind_def guard_def)
  obtain items' payload' where
    "block_merge_sort demo_merge (<) True (Some (Static 5)) (Some 0) (0, None, False) (\<lambda>_. (0, None, False)) (\<lambda>_. 0)
      (Items ?items) (Some (Items [\<lambda>t :: nat. 2 * t, \<lambda>t. 2 * t + 1])) = Inr (sort_pack items' payload' True)"
    "tile_pairs 3 items' payload' = sort_key (\<lambda>r. - int (fst r)) (take (valid_prefix 6 (Some (Static 5))) (tile_pairs 3 ?items ?vals))
          @ map (fill_record (Some 0) 0) (drop (valid_prefix 6 (Some (Static 5))) (tile_pairs 3 ?items ?vals))"
    using merge_sort_sorts [where c = demo_merge and valid_items = "Some (Static 5)" and oob_default = "Some 0"
        and zero = "(0, None, False)" and slots = "\<lambda>_. (0, None, False)" and permutation = "\<lambda>_. 0", OF ord un]
    by (auto simp: demo_merge_def)
  moreover have "valid_prefix 6 (Some (Static 5)) = 5" by (simp add: valid_prefix_def)
  moreover have "tile_pairs 3 ?items ?vals = [(0, Some 0), (5, Some 1), (3, Some 2), (1, Some 3), (6, Some 4), (4, Some 5)]"
    by code_simp
  moreover have "sort_key (\<lambda>r. - int (fst r)) [(0 :: nat, Some (0 :: nat)), (5, Some 1), (3, Some 2), (1, Some 3), (6, Some 4)]
    = [(6, Some 4), (5, Some 1), (3, Some 2), (1, Some 3), (0, Some 0)]" by simp
  ultimately show ?thesis by (auto simp: fill_record_def)
qed

text \<open>
  C25: the compact layout, which keeps one column of the tile in shared memory and sends positions
  through a 16-bit permutation, computes the same tile as the layout with the whole tile in memory.
\<close>

theorem compact_merge_equivalent:
  assumes "\<And>x y. bf x y \<longleftrightarrow> d x < (d y :: 'o :: linorder)" "0 < length items" "threads * length items \<le> 2 ^ 32"
    and "t < threads" "i < length items"
  shows "(merge_items bf True threads zero slots permutation items ! i) t
    = (merge_items bf False threads zero' slots' permutation' items ! i) t"
proof -
  let ?a = "merge_items bf True threads zero slots permutation items"
  let ?b = "merge_items bf False threads zero' slots' permutation' items"
  have len: "length ?a = length items" "length ?b = length items"
    by (rule merge_items_sort(2) [OF assms(1,2)]; use assms(3) in simp)+
  have "tile_seq threads ?a = tile_seq threads ?b"
    using merge_items_sort(1) [of bf d items True threads zero slots permutation]
      merge_items_sort(1) [of bf d items False threads zero' slots' permutation'] assms(1-3) by simp
  from arg_cong [OF this, of "\<lambda>xs. xs ! (t * length items + i)"]
  show ?thesis using assms(4,5) position_bound [OF assms(4,5)] group_split [OF assms(5), of t]
    by (simp add: len blocked_def)
qed

theorem compact_merge_equivalent_witness:
  "(merge_items (<) True 2 0 (\<lambda>_. 0) (\<lambda>_. 0) [\<lambda>t. 5 - int t, \<lambda>t. int t] ! 0) 1
    = (merge_items (<) False 2 7 (\<lambda>_. 3) (\<lambda>_. 1) [\<lambda>t. 5 - int t, \<lambda>t. int t] ! 0) 1"
  by (rule compact_merge_equivalent [where d = "\<lambda>x. x"]) simp_all

text \<open>
  C20: each round of either layout refines the abstract step that doubles the sorted runs: the
  registers still hold the tile, in an order whose runs are twice as long.
\<close>

theorem merge_rounds_refine:
  assumes "\<And>x y. bf x y \<longleftrightarrow> d x < (d y :: 'o :: linorder)" "0 < run"
    and "holds_order d xs threads n run items s" "length xs \<le> 2 ^ 32"
  shows "(\<exists>s'. holds_order d xs threads n (2 * run) (fst (merge_round bf threads run (items, slots))) s')
    \<and> (\<exists>s'. holds_order d xs threads n (2 * run) (fst (compact_round bf threads zero run (items, slots, permutation))) s')"
  using merge_round_order [OF assms(1-3)] compact_round_order [OF assms] by blast

theorem merge_rounds_refine_witness:
  "(\<exists>s'. holds_order id [3, 1 :: nat] 2 1 2 (fst (merge_round (<) 2 1 ([\<lambda>t. if t = 0 then 3 else 1], \<lambda>_. 0))) s')
    \<and> (\<exists>s'. holds_order id [3, 1 :: nat] 2 1 2 (fst (compact_round (<) 2 0 1 ([\<lambda>t. if t = 0 then 3 else 1], \<lambda>_. 0, \<lambda>_. 0))) s')"
proof -
  have "holds_order id [3, 1 :: nat] 2 1 1 [\<lambda>t. if t = 0 then 3 else 1] id"
    by (simp add: holds_order_def sorted_runs_def)
  from merge_rounds_refine [OF _ _ this, of "(<)" "\<lambda>_. 0" 0 "\<lambda>_. 0"] show ?thesis by simp
qed

text \<open>
  C34: the loop over the runs ends, after the least number of doublings that covers the tile.
\<close>

theorem merge_rounds_terminate:
  assumes "0 < run"
  shows "runs run tile_size = map (\<lambda>k. run * 2 ^ k) [0..<length (runs run tile_size)]
    \<and> tile_size \<le> run * 2 ^ length (runs run tile_size)
    \<and> (\<forall>k < length (runs run tile_size). run * 2 ^ k < tile_size)"
  using assms
proof (induction run tile_size rule: runs.induct)
  case (1 run N)
  show ?case
  proof (cases "run < N")
    case True
    let ?rest = "runs (2 * run) N"
    have e: "runs run N = run # ?rest" using 1(2) True by (simp add: runs.simps [of run N])
    have IH: "?rest = map (\<lambda>k. 2 * run * 2 ^ k) [0..<length ?rest]" "N \<le> 2 * run * 2 ^ length ?rest"
      "\<forall>k < length ?rest. 2 * run * 2 ^ k < N" using 1 True by auto
    have "map (\<lambda>k. run * 2 ^ k) [0..<Suc (length ?rest)] = run # map (\<lambda>k. 2 * run * 2 ^ k) [0..<length ?rest]"
      by (simp only: map_upt_Suc) (simp add: ac_simps)
    moreover have "run * 2 ^ k < N" if "k < Suc (length ?rest)" for k
      using that IH(3) True by (cases k) (simp_all add: ac_simps)
    ultimately show ?thesis unfolding e using IH(1,2) by (simp add: ac_simps)
  next
    case False
    then show ?thesis using 1(2) by (simp add: runs.simps [of run N])
  qed
qed

theorem merge_rounds_terminate_witness: "length (runs 3 13) = 3 \<and> (13 :: nat) \<le> 3 * 2 ^ length (runs 3 13)"
proof -
  have "length (runs 3 13) = 3" by (simp add: runs.simps)
  then show ?thesis using merge_rounds_terminate [of 3 13] by simp
qed
end
