(* ===== verification/Coop_Search.thy ===== *)
theory Coop_Search
  imports Coop_Shared
begin

text \<open>
  The binary search the cooperative algorithms share (\<open>_find_run\<close> of
  \<open>coop/block/run_length_decode.py\<close>, \<open>_bound\<close> of \<open>coop/block/histogram.py\<close>): a fixed number of rounds
  \<open>size.bit_length()\<close>, so that all threads run the same code, with reads clamped to the array.
  The rounds are enough: what is left of the interval halves, and rounds after it is empty keep it.
\<close>

definition search_round :: "nat \<Rightarrow> (nat \<Rightarrow> bool) \<Rightarrow> nat \<times> nat \<Rightarrow> nat \<times> nat" where
  "search_round n before = (\<lambda>(low, high).
     let mid = (low + high) div 2;
         advance = mid < n \<and> before (if mid < n then mid else n - 1)
     in (if advance then mid + 1 else low, if advance then high else mid))"

definition search_first :: "nat \<Rightarrow> (nat \<Rightarrow> bool) \<Rightarrow> nat" where
  "search_first n before = fst (fold (\<lambda>_. search_round n before) [0..<bit_length n] (0, n))"

text \<open>The \<open>c\<close> elements that satisfy \<open>before\<close> come first.\<close>

definition splits_at :: "nat \<Rightarrow> (nat \<Rightarrow> bool) \<Rightarrow> nat \<Rightarrow> bool" where
  "splits_at n before c \<longleftrightarrow> c \<le> n \<and> (\<forall>i < n. before i \<longleftrightarrow> i < c)"

definition search_inv :: "nat \<Rightarrow> nat \<Rightarrow> nat \<Rightarrow> nat \<times> nat \<Rightarrow> bool" where
  "search_inv n c k = (\<lambda>(low, high). low \<le> c \<and> c \<le> high \<and> high \<le> n \<and> high - low < 2 ^ k)"

lemma search_round_inv:
  assumes "splits_at n before c" "search_inv n c (Suc k) s"
  shows "search_inv n c k (search_round n before s)"
proof -
  obtain low high where s: "s = (low, high)" by (cases s)
  let ?mid = "(low + high) div 2"
  have inv: "low \<le> c" "c \<le> high" "high \<le> n" "high - low < 2 * 2 ^ k"
    using assms(2) by (simp_all add: s search_inv_def)
  show ?thesis
  proof (cases "?mid < n \<and> ?mid < c")
    case True
    then have "before ?mid" using assms(1) by (simp add: splits_at_def)
    moreover have "high - Suc ?mid < 2 ^ k" using inv by linarith
    ultimately show ?thesis using True inv by (simp add: s search_round_def search_inv_def Let_def)
  next
    case False
    then have "\<not> (?mid < n \<and> before ?mid)" using assms(1) by (auto simp: splits_at_def)
    moreover have "c \<le> ?mid" "?mid \<le> n" "?mid - low < 2 ^ k" using False inv by linarith+
    ultimately show ?thesis using inv by (auto simp: s search_round_def search_inv_def Let_def)
  qed
qed

lemma search_first_correct:
  assumes "splits_at n before c"
  shows "search_first n before = c"
proof -
  have run: "search_inv n c 0 (fold (\<lambda>_. search_round n before) xs s)" if "search_inv n c (length xs) s" for xs :: "nat list" and s
    using that by (induction xs arbitrary: s) (simp_all add: search_round_inv [OF assms])
  have "search_inv n c (bit_length n) (0, n)"
    using assms lt_two_pow_bit_length by (simp add: search_inv_def splits_at_def)
  then have "search_inv n c 0 (fold (\<lambda>_. search_round n before) [0..<bit_length n] (0, n))"
    by (intro run) simp
  then show ?thesis by (auto simp: search_first_def search_inv_def split: prod.splits)
qed

text \<open>In a sorted array the elements below a threshold come first.\<close>

lemma monotone_splits:
  assumes "\<And>i j. i \<le> j \<Longrightarrow> j < n \<Longrightarrow> before j \<Longrightarrow> before i"
  shows "splits_at n before (card {i. i < n \<and> before i})"
proof -
  let ?S = "{i. i < n \<and> before i}"
  have "?S = {..<card ?S}"
  proof (cases "?S = {}")
    case False
    have fin: "finite ?S" by simp
    let ?m = "Max ?S"
    have m: "?m < n" "before ?m" using Max_in [OF fin False] by simp_all
    have "i \<in> ?S \<longleftrightarrow> i \<le> ?m" for i
    proof
      assume "i \<in> ?S"
      then show "i \<le> ?m" by (intro Max_ge) simp_all
    next
      assume "i \<le> ?m"
      then show "i \<in> ?S" using assms [of i ?m] m by simp
    qed
    then have "?S = {..?m}" by blast
    then show ?thesis by (metis card_atMost lessThan_Suc_atMost)
  next
    case True
    then show ?thesis by (metis card.empty lessThan_0)
  qed
  moreover have "card ?S \<le> n" using card_mono [of "{..<n}" ?S] by auto
  ultimately show ?thesis unfolding splits_at_def by blast
qed

end
