(* ===== verification/Run_Length_Decode.thy ===== *)
theory Run_Length_Decode
  imports Coop_Search Block_Tiles
begin

text \<open>
  Run-length decoding in a block (\<open>coop/block/run_length_decode.py\<close>): every thread holds some runs (a
  value and a length, or the offset where the run starts); the decoder gives every thread a window
  of the decoded sequence. The scan of the lengths is an argument: the locale \<open>length_scan\<close> says
  what it promises, and it is interpreted on the block scans of both providers in \<open>Run_Length_Providers\<close>.
\<close>

section \<open>Definitions\<close>

type_synonym offset_scan = "int lanes tile \<Rightarrow> (int lanes tile \<times> int lanes) res"

record 'a decode_storage =
  ds_values :: "'a shared"
  ds_ends :: "int shared"
  ds_thread_ends :: "int shared"

text \<open>The class: block size, runs of a thread, the integer type of the offsets and the scan over it.\<close>

record decode_class =
  dl_threads :: nat
  dl_runs :: nat
  dl_type :: num_type
  dl_scan :: offset_scan

record 'a decoder =
  dc_values :: "'a lanes list"
  dc_starts :: "int lanes list"
  dc_ends :: "int lanes list"
  dc_total :: "int lanes"

definition publish_run :: "nat \<Rightarrow> 'a lanes \<Rightarrow> int lanes \<Rightarrow> 'a decode_storage \<Rightarrow> 'a decode_storage" where
  "publish_run threads v e st =
     st\<lparr>ds_values := barrier_phase threads (store_if (\<lambda>_. True) (\<lambda>t. t) v) (ds_values st),
        ds_ends := barrier_phase threads (store_if (\<lambda>_. True) (\<lambda>t. t) e) (ds_ends st)\<rparr>"

definition publish_thread_ends :: "nat \<Rightarrow> int lanes \<Rightarrow> 'a decode_storage \<Rightarrow> 'a decode_storage" where
  "publish_thread_ends threads e st =
     st\<lparr>ds_thread_ends := barrier_phase threads (store_if (\<lambda>_. True) (\<lambda>t. t) e) (ds_thread_ends st)\<rparr>"

text \<open>The first thread whose runs end behind the position; the last thread if there is none.\<close>

definition find_run :: "int \<Rightarrow> int shared \<Rightarrow> nat \<Rightarrow> nat" where
  "find_run position ends runs =
     (let low = search_first runs (\<lambda>mid. shared_load ends mid \<le> position)
      in if low < runs then low else runs - 1)"

subsection \<open>Decoding\<close>

text \<open>
  One round of the loop over the runs of the owners. The arrays hold elements of the offset type, so
  that the conversion \<open>.to(dtype)\<close> of what is read back keeps it.
\<close>

definition decode_round ::
  "nat \<Rightarrow> num_type \<Rightarrow> 'a decoder \<Rightarrow> int lanes list \<Rightarrow> nat lanes list \<Rightarrow> nat
     \<Rightarrow> 'a decode_storage \<times> 'a lanes list \<times> int lanes list \<Rightarrow> 'a decode_storage \<times> 'a lanes list \<times> int lanes list" where
  "decode_round threads ty dc positions owners run = (\<lambda>(st, out, relative).
     let st = publish_run threads (dc_values dc ! run) (dc_starts dc ! run) st;
         starts = map (\<lambda>owner t. shared_load (ds_ends st) (owner t)) owners;
         st = publish_run threads (dc_values dc ! run) (dc_ends dc ! run) st;
         valid = (\<lambda>i t. (positions ! i) t \<ge> (starts ! i) t
           \<and> (positions ! i) t < shared_load (ds_ends st) ((owners ! i) t) \<and> (positions ! i) t < dc_total dc t)
     in (st,
         map (\<lambda>i. select_value (valid i) (\<lambda>t. shared_load (ds_values st) ((owners ! i) t)) (out ! i)) [0..<length positions],
         map (\<lambda>i. select_value (valid i) (\<lambda>t. nt_wrap ty ((positions ! i) t - (starts ! i) t)) (relative ! i))
           [0..<length positions]))"

definition decode ::
  "decode_class \<Rightarrow> 'a decoder \<Rightarrow> int \<Rightarrow> int lanes \<Rightarrow> 'a lanes \<Rightarrow> 'a decode_storage
     \<Rightarrow> ('a lanes list \<times> int lanes list \<times> int lanes) res" where
  "decode c dc items_per_thread offset fill st =
     rbind (guard ValueError (1 \<le> items_per_thread)) (\<lambda>_.
       let n = nat items_per_thread; ty = dl_type c;
           st = publish_thread_ends (dl_threads c) (last (dc_ends dc)) st;
           positions = map (\<lambda>i t. nt_wrap ty (nt_wrap ty (offset t) + nt_wrap ty (i32 (int (t * n + i))))) [0..<n];
           owners = map (\<lambda>position t. find_run (position t) (ds_thread_ends st) (dl_threads c)) positions;
           (st, out, relative) = fold (decode_round (dl_threads c) ty dc positions owners) [0..<dl_runs c]
             (st, map (\<lambda>_. fill) positions, map (\<lambda>_ _. nt_wrap ty (- 1)) positions)
       in Inr (out, relative, dc_total dc))"

subsection \<open>The two ways to build a decoder\<close>

definition decode_inputs ::
  "decode_class \<Rightarrow> 'a lanes tile \<Rightarrow> int lanes tile \<Rightarrow> ('a lanes list \<times> int lanes list) res" where
  "decode_inputs c values offsets =
     rbind (tile_list values) (\<lambda>vs.
     rbind (guard ValueError (length vs = dl_runs c)) (\<lambda>_.
     rbind (tile_list offsets) (\<lambda>os.
     rbind (guard TypeError (length os = dl_runs c)) (\<lambda>_.
     Inr (vs, map (\<lambda>item t. nt_wrap (dl_type c) (item t)) os)))))"

definition init_with_run_lengths :: "decode_class \<Rightarrow> 'a lanes tile \<Rightarrow> int lanes tile \<Rightarrow> 'a decoder res" where
  "init_with_run_lengths c values lengths =
     rbind (decode_inputs c values lengths) (\<lambda>(vs, ls).
     rbind (dl_scan c (Items ls)) (\<lambda>(scanned, sum).
     rbind (tile_list scanned) (\<lambda>ends.
     Inr \<lparr>dc_values = vs,
          dc_starts = map (\<lambda>i t. nt_wrap (dl_type c) ((ends ! i) t - (ls ! i) t)) [0..<dl_runs c],
          dc_ends = ends, dc_total = sum\<rparr>)))"

definition largest_offset :: "num_type \<Rightarrow> int" where
  "largest_offset ty = 2 ^ (nt_width ty - (if nt_signed ty then 1 else 0)) - 1"

definition init_with_run_offsets ::
  "decode_class \<Rightarrow> 'a lanes tile \<Rightarrow> int lanes tile \<Rightarrow> int lanes option \<Rightarrow> 'a decode_storage \<Rightarrow> 'a decoder res" where
  "init_with_run_offsets c values offsets limit st =
     rbind (decode_inputs c values offsets) (\<lambda>(vs, starts).
       let limit = (\<lambda>t. nt_wrap (dl_type c) (case limit of None \<Rightarrow> largest_offset (dl_type c) | Some l \<Rightarrow> l t));
           st = publish_thread_ends (dl_threads c) (hd starts) st;
           next_start = (\<lambda>t. shared_load (ds_thread_ends st) ((t + 1) mod dl_threads c));
           final = select_value (\<lambda>t. t = dl_threads c - 1) limit next_start
       in Inr \<lparr>dc_values = vs, dc_starts = starts, dc_ends = tl starts @ [final], dc_total = limit\<rparr>)"

definition run_length_decode_call ::
  "decode_class option \<Rightarrow> 'a lanes tile \<Rightarrow> int lanes tile \<Rightarrow> int \<Rightarrow> int lanes \<Rightarrow> 'a lanes \<Rightarrow> 'a decode_storage
     \<Rightarrow> ('a lanes list \<times> int lanes list \<times> int lanes) res" where
  "run_length_decode_call cls values lengths items_per_thread offset fill st =
     (case cls of None \<Rightarrow> Inl TypeError
      | Some c \<Rightarrow> rbind (init_with_run_lengths c values lengths) (\<lambda>dc. decode c dc items_per_thread offset fill st))"

section \<open>The decoded sequence\<close>

definition expand :: "('a \<times> nat) list \<Rightarrow> ('a \<times> nat) list" where
  "expand rs = concat (map (\<lambda>(v, k). map (\<lambda>j. (v, j)) [0..<k]) rs)"

definition run_start :: "('a \<times> nat) list \<Rightarrow> nat \<Rightarrow> nat" where
  "run_start rs p = sum_list (map snd (take p rs))"

lemma run_start_0 [simp]: "run_start rs 0 = 0"
  by (simp add: run_start_def)

lemma run_start_Suc: "p < length rs \<Longrightarrow> run_start rs (Suc p) = run_start rs p + snd (rs ! p)"
  by (simp add: run_start_def take_Suc_conv_app_nth)

lemma run_start_mono: "p \<le> q \<Longrightarrow> run_start rs p \<le> run_start rs q"
proof -
  assume "p \<le> q"
  then obtain k where "q = p + k" using le_Suc_ex by blast
  then show ?thesis by (simp add: run_start_def take_add)
qed

lemma length_expand: "length (expand rs) = run_start rs (length rs)"
  by (induction rs) (auto simp: expand_def run_start_def)

lemma expand_nth:
  "p < length rs \<Longrightarrow> run_start rs p \<le> x \<Longrightarrow> x < run_start rs (Suc p) \<Longrightarrow> expand rs ! x = (fst (rs ! p), x - run_start rs p)"
proof (induction rs arbitrary: p x)
  case (Cons r rs)
  obtain v k where r: "r = (v, k)" by (cases r)
  have e: "expand ((v, k) # rs) = map (\<lambda>j. (v, j)) [0..<k] @ expand rs" by (simp add: expand_def)
  show ?case
  proof (cases p)
    case 0
    then show ?thesis using Cons.prems by (simp add: e nth_append r run_start_Suc)
  next
    case (Suc q)
    have s: "run_start (r # rs) (Suc i) = k + run_start rs i" for i by (simp add: run_start_def r)
    have "expand rs ! (x - k) = (fst (rs ! q), x - k - run_start rs q)"
      by (rule Cons.IH) (use Cons.prems Suc s in auto)
    then show ?thesis using Cons.prems(2) Suc s [of q] by (simp add: r e nth_append)
  qed
qed simp

lemma step_between:
  fixes f :: "nat \<Rightarrow> nat"
  assumes "f 0 \<le> x" "x < f n"
  shows "\<exists>r < n. f r \<le> x \<and> x < f (Suc r)"
  using assms(2)
proof (induction n)
  case 0
  then show ?case using assms(1) by simp
next
  case (Suc n)
  then show ?case by (cases "x < f n") (auto intro: less_SucI)
qed


section \<open>Decoding is correct\<close>

text \<open>What a decoder holds: thread by thread the runs \<open>rs\<close>, with the positions where they start and end.\<close>

definition decoder_for :: "decode_class \<Rightarrow> ('a \<times> nat) list \<Rightarrow> 'a decoder \<Rightarrow> bool" where
  "decoder_for c rs dc \<longleftrightarrow> length rs = dl_threads c * dl_runs c \<and> length (dc_ends dc) = dl_runs c \<and>
     (\<forall>t < dl_threads c. dc_total dc t = int (run_start rs (length rs)) \<and> (\<forall>i < dl_runs c.
        (dc_values dc ! i) t = fst (rs ! (t * dl_runs c + i))
        \<and> (dc_starts dc ! i) t = int (run_start rs (t * dl_runs c + i))
        \<and> (dc_ends dc ! i) t = int (run_start rs (Suc (t * dl_runs c + i)))))"

lemma publish_reads:
  assumes "t < threads"
  shows "shared_load (ds_values (publish_run threads v e st)) t = v t"
    "shared_load (ds_ends (publish_run threads v e st)) t = e t"
    "shared_load (ds_thread_ends (publish_thread_ends threads e st)) t = e t"
  using assms by (simp_all add: publish_run_def publish_thread_ends_def shared_load_def store_all)

lemma find_run_bound: "0 < threads \<Longrightarrow> find_run position ends threads < threads"
  by (simp add: find_run_def Let_def)

text \<open>The thread the search finds owns the position.\<close>

lemma find_run_owner:
  assumes "\<And>t. t < threads \<Longrightarrow> ends t = int (S (Suc t))" and "mono S" "S 0 = 0" "x < S threads"
  shows "S (find_run (int x) ends threads) \<le> x \<and> x < S (Suc (find_run (int x) ends threads))"
proof -
  let ?before = "\<lambda>mid. shared_load ends mid \<le> int x"
  have b: "?before t \<longleftrightarrow> S (Suc t) \<le> x" if "t < threads" for t using assms(1) [OF that] by (simp add: shared_load_def)
  let ?c = "card {i. i < threads \<and> ?before i}"
  have split: "splits_at threads ?before ?c"
  proof (rule monotone_splits)
    fix i j assume ij: "i \<le> j" "j < threads" "?before j"
    then have "S (Suc i) \<le> S (Suc j)" by (intro monoD [OF assms(2)]) simp
    then show "?before i" using b [of i] b [of j] ij by simp
  qed
  then have c: "search_first threads ?before = ?c" by (rule search_first_correct)
  have pos: "0 < threads" using assms(3,4) by (cases threads) simp_all
  have "?c \<noteq> threads"
  proof
    assume "?c = threads"
    then have "?before (threads - 1)" using split pos unfolding splits_at_def by (metis diff_less zero_less_one)
    then show False using b [of "threads - 1"] pos assms(4) by simp
  qed
  then have lt: "?c < threads" using split unfolding splits_at_def by simp
  have "\<not> ?before ?c" using split lt unfolding splits_at_def by blast
  then have "x < S (Suc ?c)" using b [OF lt] by simp
  moreover have "S ?c \<le> x"
  proof (cases ?c)
    case 0
    then show ?thesis using assms(3) by (simp only: le0)
  next
    case (Suc k)
    then have k: "k < threads" "k < ?c" using lt by simp_all
    then have "?before k" using split unfolding splits_at_def by blast
    then show ?thesis using b [OF k(1)] unfolding Suc by simp
  qed
  ultimately show ?thesis using lt c by (simp add: find_run_def Let_def)
qed

definition in_run :: "('a \<times> nat) list \<Rightarrow> nat \<Rightarrow> nat \<Rightarrow> bool" where
  "in_run rs x p \<longleftrightarrow> run_start rs p \<le> x \<and> x < run_start rs (Suc p)"

lemma decode_round_item:
  assumes dc: "decoder_for c rs dc" and ty: "nt_range (dl_type c) (int (run_start rs (length rs)))"
    and st: "length owners = length positions" "i < length positions" "run < dl_runs c" "t < dl_threads c"
    and own: "\<And>i. i < length positions \<Longrightarrow> (owners ! i) t < dl_threads c"
    and x: "(positions ! i) t = int x"
    and r: "decode_round (dl_threads c) (dl_type c) dc positions owners run (s, out, relative) = (s', out', relative')"
  defines "p \<equiv> (owners ! i) t * dl_runs c + run"
  shows "length out' = length positions \<and> length relative' = length positions
    \<and> (out' ! i) t = (if in_run rs x p then fst (expand rs ! x) else (out ! i) t)
    \<and> (relative' ! i) t = (if in_run rs x p then int (snd (expand rs ! x)) else (relative ! i) t)"
proof -
  let ?o = "(owners ! i) t"
  have o: "?o < dl_threads c" using own st(2) .
  have p: "p < length rs" using position_bound [OF o st(3)] dc unfolding p_def decoder_for_def by simp
  have run: "(dc_values dc ! run) ?o = fst (rs ! p)" "(dc_starts dc ! run) ?o = int (run_start rs p)"
    "(dc_ends dc ! run) ?o = int (run_start rs (Suc p))"
    using dc o st(3) unfolding decoder_for_def p_def by blast+
  have "dc_total dc t = int (run_start rs (length rs))" using dc st(4) unfolding decoder_for_def by blast
  moreover have below: "run_start rs (Suc p) \<le> run_start rs (length rs)" using p by (intro run_start_mono) simp
  ultimately have valid: "int x \<ge> int (run_start rs p) \<and> int x < int (run_start rs (Suc p)) \<and> int x < dc_total dc t \<longleftrightarrow> in_run rs x p"
    unfolding in_run_def by auto
  have e: "in_run rs x p \<Longrightarrow> expand rs ! x = (fst (rs ! p), x - run_start rs p)"
    using expand_nth [OF p] by (simp add: in_run_def)
  have w: "in_run rs x p \<Longrightarrow> nt_wrap (dl_type c) (int x - int (run_start rs p)) = int (x - run_start rs p)"
    using nt_range_below [OF ty, of "int x - int (run_start rs p)"] below by (simp add: in_run_def of_nat_diff)
  let ?s = "publish_run (dl_threads c) (dc_values dc ! run) (dc_starts dc ! run) s"
  let ?start = "\<lambda>i t. (map (\<lambda>owner t. shared_load (ds_ends ?s) (owner t)) owners ! i) t"
  let ?V = "\<lambda>i t. (positions ! i) t \<ge> ?start i t \<and> (positions ! i) t < shared_load (ds_ends s') ((owners ! i) t)
    \<and> (positions ! i) t < dc_total dc t"
  have "out' = map (\<lambda>i. select_value (?V i) (\<lambda>t. shared_load (ds_values s') ((owners ! i) t)) (out ! i)) [0..<length positions]"
    "relative' = map (\<lambda>i. select_value (?V i) (\<lambda>t. nt_wrap (dl_type c) ((positions ! i) t - ?start i t)) (relative ! i)) [0..<length positions]"
    "s' = publish_run (dl_threads c) (dc_values dc ! run) (dc_ends dc ! run) ?s"
    using r unfolding decode_round_def by (auto simp: Let_def)
  then show ?thesis
    using st valid e w by (simp add: select_value_def publish_reads [OF o] run x)
qed

lemma decode_rounds:
  assumes dc: "decoder_for c rs dc" and ty: "nt_range (dl_type c) (int (run_start rs (length rs)))"
    and st: "length owners = length positions" "i < length positions" "t < dl_threads c"
    and own: "\<And>i. i < length positions \<Longrightarrow> (owners ! i) t < dl_threads c"
    and x: "(positions ! i) t = int x"
    and len: "length out = length positions" "length relative = length positions"
    and r: "fold (decode_round (dl_threads c) (dl_type c) dc positions owners) [0..<m] (s, out, relative) = (s', out', relative')"
    and m: "m \<le> dl_runs c"
  defines "found \<equiv> \<exists>run < m. in_run rs x ((owners ! i) t * dl_runs c + run)"
  shows "length out' = length positions \<and> length relative' = length positions
    \<and> (out' ! i) t = (if found then fst (expand rs ! x) else (out ! i) t)
    \<and> (relative' ! i) t = (if found then int (snd (expand rs ! x)) else (relative ! i) t)"
  using r m unfolding found_def
proof (induction m arbitrary: s' out' relative')
  case 0
  then show ?case using len by simp
next
  case (Suc m)
  obtain s1 out1 rel1 where f: "fold (decode_round (dl_threads c) (dl_type c) dc positions owners) [0..<m] (s, out, relative) = (s1, out1, rel1)"
    by (cases "fold (decode_round (dl_threads c) (dl_type c) dc positions owners) [0..<m] (s, out, relative)")
  have "decode_round (dl_threads c) (dl_type c) dc positions owners m (s1, out1, rel1) = (s', out', relative')"
    using Suc.prems(1) f by simp
  from decode_round_item [OF dc ty st(1,2) _ st(3) own x this] Suc.IH [OF f] Suc.prems(2)
  show ?case by (auto simp: less_Suc_eq)
qed

text \<open>What belongs at a position: the item and its index in its run, or the default behind the end.\<close>

definition decoded :: "('a \<times> nat) list \<Rightarrow> 'a \<Rightarrow> int \<Rightarrow> nat \<Rightarrow> 'a \<times> int" where
  "decoded rs fill none p =
     (if p < length (expand rs) then (fst (expand rs ! p), int (snd (expand rs ! p))) else (fill, none))"

definition window_ok ::
  "decode_class \<Rightarrow> ('a \<times> nat) list \<Rightarrow> nat \<Rightarrow> int lanes \<Rightarrow> 'a lanes \<Rightarrow> 'a lanes list \<times> int lanes list \<times> int lanes \<Rightarrow> bool" where
  "window_ok c rs n offset fill = (\<lambda>(out, relative, sum). length out = n \<and> length relative = n
     \<and> (\<forall>t < dl_threads c. sum t = int (length (expand rs)) \<and> (\<forall>i < n.
          ((out ! i) t, (relative ! i) t) = decoded rs (fill t) (nt_wrap (dl_type c) (- 1)) (nat (offset t) + t * n + i))))"

lemma run_of_position:
  assumes "length rs = threads * runs" "o' < threads"
    and own: "x < length (expand rs) \<Longrightarrow> run_start rs (o' * runs) \<le> x \<and> x < run_start rs (Suc o' * runs)"
  shows "(\<exists>run < runs. in_run rs x (o' * runs + run)) \<longleftrightarrow> x < length (expand rs)"
proof
  assume "\<exists>run < runs. in_run rs x (o' * runs + run)"
  then obtain run where run: "run < runs" "in_run rs x (o' * runs + run)" by blast
  have "Suc (o' * runs + run) \<le> length rs" using position_bound [OF assms(2) run(1)] assms(1) by simp
  then have "run_start rs (Suc (o' * runs + run)) \<le> run_start rs (length rs)" by (rule run_start_mono)
  then show "x < length (expand rs)" using run(2) by (simp add: in_run_def length_expand)
next
  assume "x < length (expand rs)"
  then show "\<exists>run < runs. in_run rs x (o' * runs + run)"
    using own step_between [of "\<lambda>r. run_start rs (o' * runs + r)" x runs] by (simp add: in_run_def add.commute)
qed

lemma position_value:
  assumes ty: "nt_range ty (offset + int threads * k - 1)" and "0 \<le> offset" "1 \<le> k" "int threads * k < 2 ^ 31"
    and "t < threads" "i < nat k"
  shows "nt_wrap ty (nt_wrap ty offset + nt_wrap ty (i32 (int (t * nat k + i)))) = int (nat offset + t * nat k + i)"
proof -
  have b: "t * nat k + i < threads * nat k" using position_bound assms(5,6) .
  have tk: "int (threads * nat k) = int threads * k" using assms(3) by simp
  have m: "int (t * nat k + i) < int threads * k" using b unfolding tk [symmetric] by (simp only: of_nat_less_iff)
  have "i32 (int (t * nat k + i)) = int (t * nat k + i)"
    using m assms(4) by (intro signed_small) linarith+
  moreover have "nt_wrap ty (int (t * nat k + i)) = int (t * nat k + i)"
    using m assms(2) by (intro nt_range_below [OF ty]) linarith+
  moreover have "nt_wrap ty offset = offset" using m assms(2) by (intro nt_range_below [OF ty]) linarith+
  moreover have "nt_wrap ty (offset + int (t * nat k + i)) = offset + int (t * nat k + i)"
    using m assms(2) by (intro nt_range_below [OF ty]) linarith+
  ultimately show ?thesis using assms(2) by simp
qed

lemma decode_correct:
  assumes dc: "decoder_for c rs dc" and runs: "0 < dl_runs c" and pos: "0 < dl_threads c"
    and ty: "nt_range (dl_type c) (int (run_start rs (length rs)))"
    and k: "1 \<le> k" "int (dl_threads c) * k < 2 ^ 31"
    and offset: "\<And>t. t < dl_threads c \<Longrightarrow> 0 \<le> offset t \<and> nt_range (dl_type c) (offset t + int (dl_threads c) * k - 1)"
  shows "\<exists>r. decode c dc k offset fill st = Inr r \<and> window_ok c rs (nat k) offset fill r"
proof -
  let ?n = "nat k" and ?ty = "dl_type c" and ?N = "dl_threads c"
  let ?none = "nt_wrap ?ty (- 1)" and ?st = "publish_thread_ends ?N (last (dc_ends dc)) st"
  obtain positions where positions: "positions = map (\<lambda>i t. nt_wrap ?ty (nt_wrap ?ty (offset t) + nt_wrap ?ty (i32 (int (t * ?n + i))))) [0..<?n]"
    by simp
  obtain owners where owners: "owners = map (\<lambda>position t. find_run (position t) (ds_thread_ends ?st) ?N) positions" by simp
  have len: "length positions = ?n" "length owners = ?n" "length rs = ?N * dl_runs c"
    using dc by (simp_all add: positions owners decoder_for_def)
  obtain s out relative where f: "fold (decode_round ?N ?ty dc positions owners) [0..<dl_runs c]
      (?st, map (\<lambda>_. fill) positions, map (\<lambda>_ _. ?none) positions) = (s, out, relative)"
    by (cases "fold (decode_round ?N ?ty dc positions owners) [0..<dl_runs c]
      (?st, map (\<lambda>_. fill) positions, map (\<lambda>_ _. ?none) positions)")
  have ends: "ds_thread_ends ?st t = int (run_start rs (Suc t * dl_runs c))" if "t < ?N" for t
  proof -
    have ne: "dc_ends dc \<noteq> []" and len: "length (dc_ends dc) = dl_runs c" using dc runs by (auto simp: decoder_for_def)
    have "ds_thread_ends ?st t = (dc_ends dc ! (dl_runs c - 1)) t"
      using publish_reads(3) [OF that] ne len by (simp add: shared_load_def last_conv_nth)
    also have "\<dots> = int (run_start rs (Suc (t * dl_runs c + (dl_runs c - 1))))"
      using dc that runs unfolding decoder_for_def by simp
    also have "Suc (t * dl_runs c + (dl_runs c - 1)) = Suc t * dl_runs c" using runs by simp
    finally show ?thesis .
  qed
  have bound: "(owners ! j) t < ?N" if "j < ?n" for j t using find_run_bound [OF pos] that len by (simp add: owners)
  have item: "length out = ?n \<and> length relative = ?n
      \<and> ((out ! i) t, (relative ! i) t) = decoded rs (fill t) ?none (nat (offset t) + t * ?n + i)"
    if t: "t < ?N" and i: "i < ?n" for t i
  proof -
    let ?x = "nat (offset t) + t * ?n + i"
    have "(positions ! i) t = nt_wrap ?ty (nt_wrap ?ty (offset t) + nt_wrap ?ty (i32 (int (t * ?n + i))))"
      using i unfolding positions by (simp del: of_nat_add of_nat_mult)
    then have x: "(positions ! i) t = int ?x"
      using position_value [OF _ _ k t i] offset [OF t] by simp
    have o: "(owners ! i) t = find_run (int ?x) (ds_thread_ends ?st) ?N" using x i len by (simp add: owners)
    have "(\<exists>run < dl_runs c. in_run rs ?x ((owners ! i) t * dl_runs c + run)) \<longleftrightarrow> ?x < length (expand rs)"
    proof (rule run_of_position [OF len(3) bound [OF i]])
      assume "?x < length (expand rs)"
      then show "run_start rs ((owners ! i) t * dl_runs c) \<le> ?x \<and> ?x < run_start rs (Suc ((owners ! i) t) * dl_runs c)"
        unfolding o using ends len
        by (intro find_run_owner [where S = "\<lambda>p. run_start rs (p * dl_runs c)"])
          (auto simp: mono_def length_expand intro: run_start_mono)
    qed
    moreover have "(map (\<lambda>_. fill) positions ! i) t = fill t" "(map (\<lambda>_ _. ?none) positions ! i) t = ?none"
      using i len by simp_all
    ultimately show ?thesis
      using decode_rounds [OF dc ty _ _ t _ x _ _ f order_refl] bound i len unfolding decoded_def by simp
  qed
  have "length out = ?n" "length relative = ?n" using item [OF pos, of 0] k(1) by simp_all
  moreover have "dc_total dc t = int (length (expand rs))" if "t < ?N" for t
    using dc that by (simp add: decoder_for_def length_expand)
  ultimately have "window_ok c rs ?n offset fill (out, relative, dc_total dc)"
    using item by (simp add: window_ok_def)
  moreover have "decode c dc k offset fill st = Inr (out, relative, dc_total dc)"
    using k(1) f unfolding decode_def positions owners by (simp add: Let_def)
  ultimately show ?thesis by blast
qed


section \<open>Building decoders\<close>

text \<open>The contract of the scan: inclusive sums in blocked order, with the total in every thread.\<close>

locale length_scan =
  fixes legal :: bool and threads :: nat and ty :: num_type and scan :: offset_scan
  assumes threads_pos: "legal \<Longrightarrow> 0 < threads"
    and scan_sums: "legal \<Longrightarrow> ls \<noteq> [] \<Longrightarrow> \<forall>i \<in> set ls. \<forall>l. 0 \<le> i l \<and> nt_range ty (i l)
      \<Longrightarrow> nt_range ty (\<Sum>p < threads * length ls. blocked ls p)
      \<Longrightarrow> \<exists>out aggregate. scan (Items ls) = Inr (Items out, aggregate) \<and> length out = length ls \<and> (\<forall>t < threads.
           aggregate t = (\<Sum>p < threads * length ls. blocked ls p)
           \<and> (\<forall>i < length ls. (out ! i) t = (\<Sum>p \<le> t * length ls + i. blocked ls p)))"

text \<open>The runs of a block: value and length, thread by thread.\<close>

definition block_runs :: "nat \<Rightarrow> 'a lanes list \<Rightarrow> int lanes list \<Rightarrow> ('a \<times> nat) list" where
  "block_runs threads vs ls = map (\<lambda>p. (blocked vs p, nat (blocked ls p))) [0..<threads * length vs]"

lemma block_runs_start:
  assumes "\<And>p. 0 \<le> blocked ls p" "p \<le> threads * length vs"
  shows "int (run_start (block_runs threads vs ls) p) = (\<Sum>q < p. blocked ls q)"
  using assms(2)
proof (induction p)
  case (Suc p)
  have "int (run_start (block_runs threads vs ls) (Suc p)) = int (run_start (block_runs threads vs ls) p) + blocked ls p"
    using Suc.prems assms(1) [of p] by (subst run_start_Suc) (simp_all add: block_runs_def)
  then show ?case using Suc by simp
qed simp

lemma tile_list_iff: "tile_list tile = Inr xs \<Longrightarrow> xs \<noteq> []"
  by (auto simp: tile_list_def split: tile.splits if_splits)

context length_scan
begin

lemma init_lengths_decoder:
  assumes legal: legal and c: "dl_threads c = threads" "dl_type c = ty" "dl_scan c = scan"
    and vs: "tile_list values = Inr vs" "length vs = dl_runs c" and ls: "tile_list lengths = Inr ls" "length ls = dl_runs c"
    and range: "\<forall>i \<in> set ls. \<forall>l. 0 \<le> i l \<and> nt_range ty (i l)"
    and total: "nt_range ty (\<Sum>p < threads * length ls. blocked ls p)"
  shows "\<exists>dc. init_with_run_lengths c values lengths = Inr dc \<and> decoder_for c (block_runs threads vs ls) dc"
proof -
  let ?n = "dl_runs c" and ?rs = "block_runs threads vs ls"
  have n: "ls \<noteq> []" using ls(1) by (rule tile_list_iff)
  have conv: "map (\<lambda>item t. nt_wrap ty (item t)) ls = ls"
    using range by (intro map_idI ext) (simp add: nt_range_def)
  have nonneg: "0 \<le> blocked ls p" for p
    using range n nth_mem [of "p mod length ls" ls] by (simp add: blocked_def)
  obtain out aggregate where s: "scan (Items ls) = Inr (Items out, aggregate)" and len: "length out = length ls"
    and agg: "\<And>t. t < threads \<Longrightarrow> aggregate t = (\<Sum>p < threads * length ls. blocked ls p)"
    and sums: "\<And>t i. t < threads \<Longrightarrow> i < length ls \<Longrightarrow> (out ! i) t = (\<Sum>p \<le> t * length ls + i. blocked ls p)"
    using scan_sums [OF legal n range total] by blast
  have on: "out \<noteq> []" using len n by auto
  let ?dc = "\<lparr>dc_values = vs, dc_starts = map (\<lambda>i t. nt_wrap ty ((out ! i) t - (ls ! i) t)) [0..<?n], dc_ends = out, dc_total = aggregate\<rparr>"
  have "init_with_run_lengths c values lengths = Inr ?dc"
    using vs ls c s on by (simp add: init_with_run_lengths_def decode_inputs_def conv tile_list_def)
  moreover have "decoder_for c ?rs ?dc"
  proof -
    have start: "int (run_start ?rs p) = (\<Sum>q < p. blocked ls q)" if "p \<le> threads * ?n" for p
      using block_runs_start [of ls p threads vs] nonneg that vs(2) by simp
    have item: "(dc_values ?dc ! i) t = fst (?rs ! (t * ?n + i)) \<and> (dc_starts ?dc ! i) t = int (run_start ?rs (t * ?n + i))
        \<and> (dc_ends ?dc ! i) t = int (run_start ?rs (Suc (t * ?n + i)))" if t: "t < threads" and i: "i < ?n" for t i
    proof -
      have p: "t * ?n + i < threads * ?n" using position_bound [OF t i] .
      have e: "(out ! i) t = (\<Sum>q < Suc (t * ?n + i). blocked ls q)"
        using sums [OF t] i ls(2) by (simp add: lessThan_Suc_atMost)
      moreover have b: "blocked ls (t * ?n + i) = (ls ! i) t" using i blocked_nth [of i ls t] ls(2) by simp
      ultimately have d: "(out ! i) t - (ls ! i) t = int (run_start ?rs (t * ?n + i))" using start [of "t * ?n + i"] p by simp
      have "(\<Sum>q < t * ?n + i. blocked ls q) \<le> (\<Sum>q < threads * ?n. blocked ls q)"
        using p nonneg by (intro sum_mono2) auto
      then have "nt_wrap ty (int (run_start ?rs (t * ?n + i))) = int (run_start ?rs (t * ?n + i))"
        using start [of "t * ?n + i"] p by (intro nt_range_below [OF total]) (simp_all add: ls(2))
      moreover have "fst (?rs ! (t * ?n + i)) = (vs ! i) t"
        using p i blocked_nth [of i vs t] vs(2) by (simp add: block_runs_def)
      ultimately show ?thesis using e d start [of "Suc (t * ?n + i)"] p i by simp
    qed
    have "length ?rs = threads * ?n" using vs(2) by (simp add: block_runs_def)
    moreover from this have "dc_total ?dc t = int (run_start ?rs (length ?rs))" if "t < threads" for t
      using agg [OF that] start [of "threads * ?n"] ls(2) by simp
    moreover have "length (dc_ends ?dc) = ?n" using len ls(2) by simp
    ultimately show ?thesis using item unfolding decoder_for_def c by blast
  qed
  ultimately show ?thesis by blast
qed

end

context length_scan
begin

lemma run_length_decode_correct:
  assumes legal: legal and c: "dl_threads c = threads" "dl_type c = ty" "dl_scan c = scan"
    and vs: "tile_list values = Inr vs" "length vs = dl_runs c" and ls: "tile_list lengths = Inr ls" "length ls = dl_runs c"
    and range: "\<forall>i \<in> set ls. \<forall>l. 0 \<le> i l \<and> nt_range ty (i l)"
    and total: "nt_range ty (\<Sum>p < threads * length ls. blocked ls p)"
    and k: "1 \<le> k" "int threads * k < 2 ^ 31"
    and offset: "\<forall>t < threads. 0 \<le> offset t \<and> nt_range ty (offset t + int threads * k - 1)"
  shows "\<exists>r. run_length_decode_call (Some c) values lengths k offset fill st = Inr r
    \<and> window_ok c (block_runs threads vs ls) (nat k) offset fill r"
proof -
  obtain dc where dc: "init_with_run_lengths c values lengths = Inr dc" "decoder_for c (block_runs threads vs ls) dc"
    using init_lengths_decoder [OF legal c vs ls range total] by blast
  have n: "ls \<noteq> []" using ls(1) by (rule tile_list_iff)
  then have runs: "0 < dl_runs c" unfolding ls(2) [symmetric] by simp
  have nonneg: "0 \<le> blocked ls p" for p
    using range n nth_mem [of "p mod length ls" ls] by (simp add: blocked_def)
  have "length (block_runs threads vs ls) = threads * length vs" by (simp add: block_runs_def)
  then have "int (run_start (block_runs threads vs ls) (length (block_runs threads vs ls))) = (\<Sum>p < threads * length ls. blocked ls p)"
    using block_runs_start [of ls "threads * length vs" threads vs] nonneg vs(2) ls(2) by simp
  then have "\<exists>r. decode c dc k offset fill st = Inr r \<and> window_ok c (block_runs threads vs ls) (nat k) offset fill r"
    using decode_correct [OF dc(2) runs _ _ k(1)] threads_pos [OF legal] total k(2) offset unfolding c by simp
  then show ?thesis using dc(1) by (simp add: run_length_decode_call_def)
qed

end

text \<open>Offsets instead of lengths: the same decoder, without a scan.\<close>

lemma init_offsets_decoder:
  assumes rs: "length rs = dl_threads c * dl_runs c" "nt_range (dl_type c) (int (run_start rs (length rs)))"
    and runs: "0 < dl_runs c"
    and vs: "tile_list values = Inr vs" "length vs = dl_runs c" and os: "tile_list offsets = Inr os" "length os = dl_runs c"
    and items: "\<And>t i. t < dl_threads c \<Longrightarrow> i < dl_runs c \<Longrightarrow> (vs ! i) t = fst (rs ! (t * dl_runs c + i))
      \<and> (os ! i) t = int (run_start rs (t * dl_runs c + i))"
    and limit: "\<And>t. t < dl_threads c \<Longrightarrow> limit t = int (run_start rs (length rs))"
  shows "\<exists>dc. init_with_run_offsets c values offsets (Some limit) st = Inr dc \<and> decoder_for c rs dc"
proof -
  let ?ty = "dl_type c" and ?n = "dl_runs c" and ?N = "dl_threads c"
  let ?starts = "map (\<lambda>item t. nt_wrap ?ty (item t)) os" and ?limit = "\<lambda>t. nt_wrap ?ty (limit t)"
  let ?st = "publish_thread_ends ?N (hd ?starts) st"
  let ?final = "select_value (\<lambda>t. t = ?N - 1) ?limit (\<lambda>t. shared_load (ds_thread_ends ?st) ((t + 1) mod ?N))"
  let ?dc = "\<lparr>dc_values = vs, dc_starts = ?starts, dc_ends = tl ?starts @ [?final], dc_total = ?limit\<rparr>"
  have wrap: "nt_wrap ?ty (int (run_start rs p)) = int (run_start rs p)" if "p \<le> length rs" for p
    using run_start_mono [OF that, of rs] by (intro nt_range_below [OF rs(2)]) simp_all
  have start: "(?starts ! i) t = int (run_start rs (t * ?n + i))" if "t < ?N" "i < ?n" for t i
    using items [OF that] wrap [of "t * ?n + i"] position_bound [OF that] that os(2) rs(1) by simp
  have lim: "?limit t = int (run_start rs (length rs))" if "t < ?N" for t using limit [OF that] wrap by simp
  have "hd ?starts = ?starts ! 0" using runs os(2) by (intro hd_conv_nth) auto
  then have first: "hd ?starts t = int (run_start rs (t * ?n))" if "t < ?N" for t using start [OF that runs] by simp
  have final: "?final t = int (run_start rs (Suc t * ?n))" if t: "t < ?N" for t
  proof (cases "t = ?N - 1")
    case True
    then have "Suc t * ?n = length rs" using t rs(1) by simp
    then show ?thesis using True lim [OF t] by (simp add: select_value_def)
  next
    case False
    then have s: "Suc t < ?N" using t by simp
    then show ?thesis using False publish_reads(3) [OF s, of "hd ?starts" st] first [OF s] by (simp add: select_value_def)
  qed
  have ends: "((tl ?starts @ [?final]) ! i) t = int (run_start rs (Suc (t * ?n + i)))" if t: "t < ?N" and i: "i < ?n" for t i
  proof (cases "i = ?n - 1")
    case True
    then have "(tl ?starts @ [?final]) ! i = ?final" using os(2) by (simp add: nth_append)
    moreover have "Suc (t * ?n + i) = Suc t * ?n" using True i by simp
    ultimately show ?thesis using final [OF t] by (simp only:)
  next
    case False
    then have s: "i < ?n - 1" "Suc i < ?n" using i by simp_all
    then have "(tl ?starts @ [?final]) ! i = ?starts ! Suc i" using os(2) by (simp add: nth_append nth_tl)
    then show ?thesis using start [OF t s(2)] by simp
  qed
  have "length (tl ?starts @ [?final]) = ?n" using os(2) runs by simp
  then have "decoder_for c rs ?dc" using rs(1) lim start ends items unfolding decoder_for_def decoder.simps by blast
  moreover have "init_with_run_offsets c values offsets (Some limit) st = Inr ?dc"
    using vs os by (simp add: init_with_run_offsets_def decode_inputs_def Let_def)
  ultimately show ?thesis by blast
qed

lemma length_block_runs: "length (block_runs threads vs ls) = threads * length vs"
  by (simp add: block_runs_def)
end
