(* ===== verification/Run_Length_Providers.thy ===== *)
theory Run_Length_Providers
  imports Run_Length_Decode Scan_Providers
begin

text \<open>
  Run-length decoding over the block scans: \<open>inclusive_with_aggregate\<close> with \<open>ADD\<close> keeps the contract
  \<open>length_scan\<close> on the portable and on the ROCm warp operations, for every integer type of offsets
  and every algorithm of the scan. The properties of the decoder follow.
\<close>

definition offset_sums :: "int block_scan_class \<Rightarrow> int scan_storage \<Rightarrow> offset_scan" where
  "offset_sums c st tile = block_inclusive_with_aggregate c (Builtin ADD) st None None None None tile"

lemma inclusive_sums:
  assumes ne: "ls \<noteq> []" and ty: "nt_width ty \<noteq> 1" and range: "\<forall>i \<in> set ls. \<forall>l. 0 \<le> i l \<and> nt_range ty (i l)"
    and total: "nt_range ty (\<Sum>p < threads * length ls. blocked ls p)" and pos: "0 < threads"
    and spec: "\<forall>x < threads. aggregate x = seg (num_combine ty ADD) (blocked ls) 0 (threads * length ls - 1)
      \<and> scan_spec (num_combine ty ADD) None neutral (blocked ls) True (length ls) out x"
  shows "length out = length ls \<and> (\<forall>t < threads. aggregate t = (\<Sum>p < threads * length ls. blocked ls p)
    \<and> (\<forall>i < length ls. (out ! i) t = (\<Sum>p \<le> t * length ls + i. blocked ls p)))"
proof -
  let ?N = "threads * length ls"
  have n: "0 < ?N" using ne pos by simp
  have nonneg: "0 \<le> blocked ls p" for p
    using range ne nth_mem [of "p mod length ls" ls] by (simp add: blocked_def)
  have sums: "seg (num_combine ty ADD) (blocked ls) 0 m = (\<Sum>p \<le> m. blocked ls p)" if "m < ?N" for m
  proof (rule seg_sum [OF ty nonneg])
    have "(\<Sum>p \<le> m. blocked ls p) \<le> (\<Sum>p < ?N. blocked ls p)"
      using that nonneg by (intro sum_mono2) auto
    then show "nt_range ty (\<Sum>p \<le> m. blocked ls p)"
      unfolding nt_range_def using nonneg by (intro nt_range_below [OF total] sum_nonneg) simp_all
  qed
  have "Suc (?N - 1) = ?N" using n by simp
  then have "{..?N - 1} = {..<?N}" by (metis lessThan_Suc_atMost)
  then have "aggregate t = (\<Sum>p < ?N. blocked ls p)" if "t < threads" for t
    using spec that sums [of "?N - 1"] n by simp
  moreover have "(out ! i) t = (\<Sum>p \<le> t * length ls + i. blocked ls p)" if "t < threads" "i < length ls" for t i
    using spec that sums [OF position_bound [OF that]] by (auto simp: scan_spec_def seeded_def)
  moreover have "length out = length ls" using spec pos by (auto simp: scan_spec_def)
  ultimately show ?thesis by simp
qed

lemma sums_legal:
  assumes "int_type ty"
  shows "assoc_op (combine (num_dtype ty) (Builtin ADD))" "closed_op (nt_range ty) (combine (num_dtype ty) (Builtin ADD))"
    "optional_identity (num_dtype ty) (Builtin ADD) None = Some 0"
    "nt_range ty a \<Longrightarrow> combine (num_dtype ty) (Builtin ADD) 0 a = a"
  using assms num_identity_neutral [OF assms, of a ADD]
  by (simp_all add: assoc_num_combine int_closed optional_identity_def num_identity_def)

interpretation portable_lengths: length_scan "portable_legal tg ty w nw \<and> nt_width ty \<noteq> 1" "w * nw" ty
  "offset_sums (portable_scan_class tg ty alg w nw) st"
proof (unfold_locales, goal_cases)
  case 1
  then show ?case by (auto simp: portable_legal_def block_geometry_def is_pow2_pos)
next
  case (2 ls)
  have ty: "int_type ty" using 2(1) by (simp add: portable_legal_def)
  obtain out aggregate where o: "block_scan (portable_scan_class tg ty alg w nw) (Builtin ADD) st True None None None None (Items ls)
      = Inr (pack_tile (Items ls) out, aggregate)"
    "\<forall>x < w * nw. aggregate x = seg (num_combine ty ADD) (blocked ls) 0 (w * nw * length ls - 1)
      \<and> scan_spec (num_combine ty ADD) None (Some 0) (blocked ls) True (length ls) out x"
    using portable.block_scan_correct [where tg = tg and t = ty and w = w and nw = nw and alg = alg and op = "Builtin ADD"
        and tile = "Items ls" and items = ls and callback = None and init = None and explicit = None and st = st and inclusive = True]
      2 sums_legal [OF ty] by (auto simp: tile_list_def)
  have "0 < w * nw" using 2(1) by (auto simp: portable_legal_def block_geometry_def is_pow2_pos)
  from inclusive_sums [OF 2(2) _ 2(3) 2(4) this o(2)] 2(1) o(1) show ?case
    by (auto simp: offset_sums_def block_inclusive_with_aggregate_def pack_tile_def)
qed

interpretation rocdl_lengths: length_scan "rocdl_legal tg ty w nw \<and> nt_width ty \<noteq> 1" "w * nw" ty
  "offset_sums (rocdl_scan_class tg ty alg w nw) st"
proof (unfold_locales, goal_cases)
  case 1
  then show ?case by (auto simp: rocdl_legal_def block_geometry_def is_pow2_pos)
next
  case (2 ls)
  have ty: "int_type ty" using 2(1) by (simp add: rocdl_legal_def)
  obtain out aggregate where o: "block_scan (rocdl_scan_class tg ty alg w nw) (Builtin ADD) st True None None None None (Items ls)
      = Inr (pack_tile (Items ls) out, aggregate)"
    "\<forall>x < w * nw. aggregate x = seg (num_combine ty ADD) (blocked ls) 0 (w * nw * length ls - 1)
      \<and> scan_spec (num_combine ty ADD) None (Some 0) (blocked ls) True (length ls) out x"
    using rocdl.block_scan_correct [where tg = tg and t = ty and w = w and nw = nw and alg = alg and op = "Builtin ADD"
        and tile = "Items ls" and items = ls and callback = None and init = None and explicit = None and st = st and inclusive = True]
      2 sums_legal [OF ty] by (auto simp: tile_list_def)
  have "0 < w * nw" using 2(1) by (auto simp: rocdl_legal_def block_geometry_def is_pow2_pos)
  from inclusive_sums [OF 2(2) _ 2(3) 2(4) this o(2)] 2(1) o(1) show ?case
    by (auto simp: offset_sums_def block_inclusive_with_aggregate_def pack_tile_def)
qed

section \<open>Properties\<close>

text \<open>
  C37: run-length decoding gives every thread its window of the decoded sequence, each item with its
  index in its run, and the default with index -1 behind the end, for any provider of the warp
  operations, type of the offsets and contents of the scratch memory.
\<close>

theorem run_length_decodes:
  assumes "nt_width ty \<noteq> 1" "(portable_legal tg ty w nw \<and> dl_scan c = offset_sums (portable_scan_class tg ty alg w nw) sst)
      \<or> (rocdl_legal rt ty w nw \<and> dl_scan c = offset_sums (rocdl_scan_class rt ty alg w nw) sst)"
    and "dl_threads c = w * nw" "dl_type c = ty"
    and "tile_list vals = Inr vs" "length vs = dl_runs c" "tile_list lengths = Inr ls" "length ls = dl_runs c"
    and "\<forall>i \<in> set ls. \<forall>l. 0 \<le> i l \<and> nt_range ty (i l)" "nt_range ty (\<Sum>p < w * nw * length ls. blocked ls p)"
    and "1 \<le> k" "int (w * nw) * k < 2 ^ 31"
    and "\<forall>t < w * nw. 0 \<le> offset t \<and> nt_range ty (offset t + int (w * nw) * k - 1)"
  shows "\<exists>r. run_length_decode_call (Some c) vals lengths k offset fill st = Inr r
    \<and> window_ok c (block_runs (w * nw) vs ls) (nat k) offset fill r"
  using assms(2)
proof (elim disjE conjE)
  assume "portable_legal tg ty w nw" "dl_scan c = offset_sums (portable_scan_class tg ty alg w nw) sst"
  then show ?thesis using portable_lengths.run_length_decode_correct [OF _ assms(3,4) _ assms(5-13)] assms(1) by blast
next
  assume "rocdl_legal rt ty w nw" "dl_scan c = offset_sums (rocdl_scan_class rt ty alg w nw) sst"
  then show ?thesis using rocdl_lengths.run_length_decode_correct [OF _ assms(3,4) _ assms(5-13)] assms(1) by blast
qed


lemma window_item:
  assumes "window_ok c rs n offset fill (out, relative, whole)" "t < dl_threads c" "i < n"
  shows "((out ! i) t, (relative ! i) t) = decoded rs (fill t) (nt_wrap (dl_type c) (- 1)) (nat (offset t) + t * n + i)"
    "whole t = int (length (expand rs))"
  using assms by (simp_all add: window_ok_def)

definition demo_decoder :: decode_class where
  "demo_decoder = \<lparr>dl_threads = 12, dl_runs = 1, dl_type = int32,
     dl_scan = offset_sums (portable_scan_class demo_target int32 RAKING 4 3) demo_storage\<rparr>"

definition demo_scratch :: "nat decode_storage" where
  "demo_scratch = \<lparr>ds_values = (\<lambda>_. 0), ds_ends = (\<lambda>_. 0), ds_thread_ends = (\<lambda>_. 0)\<rparr>"

theorem run_length_decodes_witness:
  "\<exists>out relative whole. run_length_decode_call (Some demo_decoder) (Item (\<lambda>t. t)) (Item (\<lambda>t. int (t mod 3))) 2 (\<lambda>_. 3) (\<lambda>_. 99) demo_scratch
       = Inr (out, relative, whole)
     \<and> ((out ! 0) 1, (relative ! 0) 1) = (5, 1) \<and> ((out ! 1) 4, (relative ! 1) 4) = (99, - 1) \<and> whole 7 = 12"
proof -
  let ?ls = "[\<lambda>t :: nat. int (t mod 3)]" and ?vs = "[\<lambda>t :: nat. t]"
  have small: "nt_range int32 x" if "0 \<le> x" "x < 2 ^ 31" for x
    using that by (simp add: nt_range_def nt_wrap_def int32_def signed_take_bit_int_eq_self)
  have sum12: "(\<Sum>p < 12. blocked ?ls p) = 12" by code_simp
  have rs: "expand (block_runs 12 ?vs ?ls) = concat (map (\<lambda>p. map (\<lambda>j. (p, j)) [0..<p mod 3]) [0..<12])"
    by code_simp
  have range: "0 \<le> int (l mod 3) \<and> nt_range int32 (int (l mod 3))" for l :: nat
  proof -
    have "int (l mod 3) < 3" by simp
    then have "int (l mod 3) < 2 ^ 31" by simp
    then show ?thesis by (intro conjI small) simp_all
  qed
  have off: "nt_range int32 (3 + int (4 * 3) * 2 - 1)" by (rule small) simp_all
  have tot: "nt_range int32 (\<Sum>p < 4 * 3 * length ?ls. blocked ?ls p)"
    using small [of 12] by (simp add: sum12)
  have scan: "(portable_legal demo_target int32 4 3 \<and> dl_scan demo_decoder = offset_sums (portable_scan_class demo_target int32 RAKING 4 3) demo_storage)
      \<or> (rocdl_legal gfx9_target int32 4 3 \<and> dl_scan demo_decoder = offset_sums (rocdl_scan_class gfx9_target int32 RAKING 4 3) demo_storage)"
    using demo_legal by (simp add: demo_decoder_def)
  have "nt_width int32 \<noteq> 1" by (simp add: int32_def)
  from run_length_decodes [OF this scan, of "Item (\<lambda>t. t)" ?vs "Item (\<lambda>t. int (t mod 3))" ?ls 2 "\<lambda>_. 3" "\<lambda>_. 99" demo_scratch]
  obtain r where r: "run_length_decode_call (Some demo_decoder) (Item (\<lambda>t. t)) (Item (\<lambda>t. int (t mod 3))) 2 (\<lambda>_. 3) (\<lambda>_. 99) demo_scratch = Inr r"
    "window_ok demo_decoder (block_runs 12 ?vs ?ls) 2 (\<lambda>_. 3) (\<lambda>_. 99) r"
    using range off tot by (auto simp: demo_decoder_def tile_list_def)
  obtain out relative whole where o: "r = (out, relative, whole)" by (cases r)
  have none: "nt_wrap int32 (- 1) = - 1" by (simp add: nt_wrap_def int32_def)
  have spec: "decoded (block_runs 12 ?vs ?ls) 99 (- 1) 5 = (5, 1)" "decoded (block_runs 12 ?vs ?ls) 99 (- 1) 12 = (99, - 1)"
    "length (expand (block_runs 12 ?vs ?ls)) = 12"
    unfolding decoded_def rs by code_simp+
  show ?thesis
    using r(1) window_item [OF r(2) [unfolded o], of 1 0] window_item [OF r(2) [unfolded o], of 4 1]
      window_item(2) [OF r(2) [unfolded o], of 7 0] spec none by (auto simp: o demo_decoder_def)
qed

text \<open>
  A decoder built from the offsets of the runs and their total gives the same windows as one
  built from the lengths.
\<close>

theorem run_offsets_decode:
  assumes "length rs = dl_threads c * dl_runs c" "0 < dl_threads c" "0 < dl_runs c"
    and "nt_range (dl_type c) (int (length (expand rs)))"
    and "tile_list vals = Inr vs" "length vs = dl_runs c" "tile_list offsets = Inr os" "length os = dl_runs c"
    and "\<forall>t < dl_threads c. limit t = int (length (expand rs)) \<and> (\<forall>i < dl_runs c.
      (vs ! i) t = fst (rs ! (t * dl_runs c + i)) \<and> (os ! i) t = int (run_start rs (t * dl_runs c + i)))"
    and "1 \<le> k" "int (dl_threads c) * k < 2 ^ 31"
    and "\<forall>t < dl_threads c. 0 \<le> offset t \<and> nt_range (dl_type c) (offset t + int (dl_threads c) * k - 1)"
  shows "\<exists>dc r. init_with_run_offsets c vals offsets (Some limit) st = Inr dc \<and> decode c dc k offset fill st' = Inr r
    \<and> window_ok c rs (nat k) offset fill r"
proof -
  have ty: "nt_range (dl_type c) (int (run_start rs (length rs)))" using assms(4) by (simp add: length_expand)
  obtain dc where dc: "init_with_run_offsets c vals offsets (Some limit) st = Inr dc" "decoder_for c rs dc"
    using init_offsets_decoder [OF assms(1) ty assms(3,5-8), of limit st] assms(9) by (auto simp: length_expand)
  have "\<exists>r. decode c dc k offset fill st' = Inr r \<and> window_ok c rs (nat k) offset fill r"
    by (rule decode_correct [OF dc(2) assms(3) assms(2) ty assms(10,11)]) (use assms(12) in blast)
  then show ?thesis using dc(1) by blast
qed

theorem run_offsets_decode_witness:
  "\<exists>dc out relative whole. init_with_run_offsets \<lparr>dl_threads = 2, dl_runs = 2, dl_type = int32, dl_scan = (\<lambda>_. Inl TypeError)\<rparr>
       (Items [\<lambda>t. [CHR ''a'', CHR ''c''] ! t, \<lambda>t. [CHR ''b'', CHR ''d''] ! t]) (Items [\<lambda>t. [0, 2] ! t, \<lambda>t. [2, 5] ! t])
       (Some (\<lambda>_. 6)) \<lparr>ds_values = (\<lambda>_. CHR ''z''), ds_ends = (\<lambda>_. 0), ds_thread_ends = (\<lambda>_. 0)\<rparr> = Inr dc
     \<and> decode \<lparr>dl_threads = 2, dl_runs = 2, dl_type = int32, dl_scan = (\<lambda>_. Inl TypeError)\<rparr> dc 3 (\<lambda>_. 0) (\<lambda>_. CHR ''-'')
       \<lparr>ds_values = (\<lambda>_. CHR ''z''), ds_ends = (\<lambda>_. 0), ds_thread_ends = (\<lambda>_. 0)\<rparr> = Inr (out, relative, whole)
     \<and> ((out ! 2) 1, (relative ! 2) 1) = (CHR ''d'', 0) \<and> ((out ! 1) 1, (relative ! 1) 1) = (CHR ''c'', 2)"
proof -
  let ?c = "\<lparr>dl_threads = 2, dl_runs = 2, dl_type = int32, dl_scan = (\<lambda>_. Inl TypeError)\<rparr>"
  let ?rs = "[(CHR ''a'', 2), (CHR ''b'', 0), (CHR ''c'', 3), (CHR ''d'', 1 :: nat)]"
  let ?vs = "[\<lambda>t. [CHR ''a'', CHR ''c''] ! t, \<lambda>t. [CHR ''b'', CHR ''d''] ! t]"
  let ?os = "[\<lambda>t. [0, 2] ! t, \<lambda>t. [2, 5 :: int] ! t]"
  let ?st = "\<lparr>ds_values = (\<lambda>_. CHR ''z''), ds_ends = (\<lambda>_. 0), ds_thread_ends = (\<lambda>_. 0)\<rparr>"
  have small: "nt_range int32 x" if "0 \<le> x" "x < 2 ^ 31" for x
    using that by (simp add: nt_range_def nt_wrap_def int32_def signed_take_bit_int_eq_self)
  have ex: "expand ?rs = [(CHR ''a'', 0), (CHR ''a'', 1), (CHR ''c'', 0), (CHR ''c'', 1), (CHR ''c'', 2), (CHR ''d'', 0)]"
    by code_simp
  have items: "\<forall>t < dl_threads ?c. 6 = int (length (expand ?rs)) \<and> (\<forall>i < dl_runs ?c.
      (?vs ! i) t = fst (?rs ! (t * dl_runs ?c + i)) \<and> (?os ! i) t = int (run_start ?rs (t * dl_runs ?c + i)))"
  proof -
    have two: "(\<forall>t < 2 :: nat. P t) \<longleftrightarrow> P 0 \<and> P 1" for P by (auto simp: less_2_cases_iff)
    show ?thesis unfolding ex by (simp add: two) (simp add: run_start_def numeral_3_eq_3 numeral_2_eq_2)
  qed
  have ty: "nt_range (dl_type ?c) (int (length (expand ?rs)))" unfolding ex by (simp add: small)
  obtain dc r where r: "init_with_run_offsets ?c (Items ?vs) (Items ?os) (Some (\<lambda>_. 6)) ?st = Inr dc"
    "decode ?c dc 3 (\<lambda>_. 0) (\<lambda>_. CHR ''-'') ?st = Inr r" "window_ok ?c ?rs (nat 3) (\<lambda>_. 0) (\<lambda>_. CHR ''-'') r"
    using run_offsets_decode [where c = ?c and rs = ?rs and vals = "Items ?vs" and vs = ?vs and offsets = "Items ?os" and os = ?os
        and limit = "\<lambda>_. 6" and k = 3 and offset = "\<lambda>_. 0" and fill = "\<lambda>_. CHR ''-''" and st = ?st and st' = ?st, OF _ _ _ ty _ _ _ _ items] small
    by (auto simp: tile_list_def)
  obtain out relative whole where o: "r = (out, relative, whole)" by (cases r)
  have "decoded ?rs x y 5 = (CHR ''d'', 0)" "decoded ?rs x y 4 = (CHR ''c'', 2)" for x y
    unfolding decoded_def ex by simp_all
  then show ?thesis
    using r(1,2) window_item(1) [OF r(3) [unfolded o], of 1 2] window_item(1) [OF r(3) [unfolded o], of 1 1] unfolding o by auto
qed
end
