(* ===== verification/Block_Histogram.thy ===== *)
theory Block_Histogram
  imports Coop_Search Block_Merge_Sort
begin

text \<open>
  Histograms of a block (\<open>coop/block/histogram.py\<close>): by atomic increments, in whatever order the
  threads make them, or by sorting the items of a round and counting runs with binary search. The
  sort is an argument, specified by the locale \<open>key_sort\<close> and interpreted on \<open>block_merge_sort\<close>.
\<close>

section \<open>Definitions\<close>

datatype histogram_algorithm = ATOMIC | SORT

record histogram_class =
  hc_threads :: nat
  hc_bins :: nat
  hc_item :: num_type
  hc_counter :: num_type
  hc_algorithm :: histogram_algorithm
  hc_sort :: "int lanes \<Rightarrow> int lanes res"

text \<open>The bins of a thread: \<open>tid, tid + threads, \<dots>\<close> below the number of bins.\<close>

definition own_bins :: "nat \<Rightarrow> nat \<Rightarrow> nat \<Rightarrow> nat list" where
  "own_bins threads bins t =
     filter (\<lambda>index. index < bins) (map (\<lambda>i. t + i * threads) [0..<(bins + threads - 1) div threads])"

definition initialize :: "nat \<Rightarrow> nat \<Rightarrow> int shared \<Rightarrow> int shared" where
  "initialize threads bins counts =
     barrier_phase threads (\<lambda>t. map (\<lambda>index. (index, 0)) (own_bins threads bins t)) counts"

text \<open>\<open>_bin_index\<close> of integers; what is no bin becomes a negative number or stays out of range.\<close>

definition bin_index :: "num_type \<Rightarrow> nat \<Rightarrow> int \<Rightarrow> int" where
  "bin_index ty bins item =
     (if nt_width ty > 32 then (if item \<ge> 0 \<and> item < int bins then i32 item else - 1) else i32 item)"

subsection \<open>Atomic increments\<close>

text \<open>The increments of one thread, and the memory after the increments of all threads in some order.\<close>

definition thread_increments :: "num_type \<Rightarrow> nat \<Rightarrow> int lanes list \<Rightarrow> nat \<Rightarrow> nat list" where
  "thread_increments ty bins items t =
     map nat (filter (\<lambda>key. key \<ge> 0 \<and> key < int bins) (map (\<lambda>item. bin_index ty bins (item t)) items))"

definition atomic_increments :: "num_type \<Rightarrow> nat list \<Rightarrow> int shared \<Rightarrow> int shared" where
  "atomic_increments counter order counts =
     fold (\<lambda>key counts. shared_store counts key (nt_wrap counter (shared_load counts key + 1))) order counts"

subsection \<open>Sorting and counting\<close>

definition publish_sorted :: "nat \<Rightarrow> int lanes \<Rightarrow> int shared \<Rightarrow> int shared" where
  "publish_sorted threads key slots = barrier_phase threads (store_if (\<lambda>_. True) (\<lambda>t. t) key) slots"

definition bound :: "int shared \<Rightarrow> int \<Rightarrow> nat \<Rightarrow> bool \<Rightarrow> nat" where
  "bound keys key n upper =
     search_first n (\<lambda>mid. if upper then shared_load keys mid \<le> key else shared_load keys mid < key)"

definition count_sorted :: "nat \<Rightarrow> nat \<Rightarrow> num_type \<Rightarrow> int shared \<Rightarrow> int shared \<Rightarrow> int shared" where
  "count_sorted threads bins counter keys counts =
     barrier_phase threads (\<lambda>t. map (\<lambda>index. (index,
         let found = int (bound keys (int index) threads True) - int (bound keys (int index) threads False)
         in nt_wrap counter (shared_load counts index + nt_wrap counter found))) (own_bins threads bins t)) counts"

primrec sort_and_count :: "histogram_class \<Rightarrow> int lanes list \<Rightarrow> int shared \<Rightarrow> int shared \<Rightarrow> int shared res" where
  "sort_and_count c [] slots counts = Inr counts"
| "sort_and_count c (item # items) slots counts =
     rbind (hc_sort c (\<lambda>t. bin_index (hc_item c) (hc_bins c) (item t))) (\<lambda>key.
       let slots = publish_sorted (hc_threads c) key slots;
           counts = count_sorted (hc_threads c) (hc_bins c) (hc_counter c) slots counts
       in sort_and_count c items slots counts)"

text \<open>
  The entry points. The atomic algorithm takes the order in which its increments arrive.
\<close>

definition composite_histogram ::
  "histogram_class \<Rightarrow> nat list \<Rightarrow> int lanes tile \<Rightarrow> int shared \<Rightarrow> int shared \<Rightarrow> int shared res" where
  "composite_histogram c order tile slots counts =
     rbind (tile_list tile) (\<lambda>items.
       if hc_algorithm c = ATOMIC then Inr (atomic_increments (hc_counter c) order counts)
       else sort_and_count c items slots counts)"

definition block_histogram ::
  "histogram_class option \<Rightarrow> nat list \<Rightarrow> int lanes tile \<Rightarrow> int shared \<Rightarrow> int shared \<Rightarrow> int shared res" where
  "block_histogram cls order tile slots counts =
     (case cls of None \<Rightarrow> Inl TypeError
      | Some c \<Rightarrow> composite_histogram c order tile slots (initialize (hc_threads c) (hc_bins c) counts))"

definition increments_interleave :: "histogram_class \<Rightarrow> int lanes list \<Rightarrow> nat list \<Rightarrow> bool" where
  "increments_interleave c items order \<longleftrightarrow>
     interleaving (\<lambda>t. if t < hc_threads c then thread_increments (hc_item c) (hc_bins c) items t else []) order"

section \<open>The bins of the threads\<close>

lemma own_bins_set:
  assumes "0 < threads" "t < threads"
  shows "index \<in> set (own_bins threads bins t) \<longleftrightarrow> index < bins \<and> index mod threads = t"
proof
  assume "index \<in> set (own_bins threads bins t)"
  then obtain i where "index = t + i * threads" "index < bins" unfolding own_bins_def by auto
  then show "index < bins \<and> index mod threads = t" using assms(2) by simp
next
  assume i: "index < bins \<and> index mod threads = t"
  then have e: "index = t + (index div threads) * threads" using mod_div_mult_eq [of index threads] by simp
  have "index div threads \<le> (bins - 1) div threads" using conjunct1 [OF i] by (intro div_le_mono) linarith
  moreover have "(bins + threads - 1) div threads = Suc ((bins - 1) div threads)"
  proof -
    have "0 < bins" using conjunct1 [OF i] by linarith
    then have e: "bins + threads - 1 = (bins - 1) + threads" by simp
    show ?thesis unfolding e Suc_eq_plus1 by (rule div_add_self2) (use assms(1) in simp)
  qed
  ultimately have "index div threads < (bins + threads - 1) div threads" by (simp only: less_Suc_eq_le)
  then have "index div threads \<in> set [0..<(bins + threads - 1) div threads]" by simp
  then show "index \<in> set (own_bins threads bins t)" using i e unfolding own_bins_def by auto
qed

lemma own_bins_distinct: "0 < threads \<Longrightarrow> distinct (own_bins threads bins t)"
  unfolding own_bins_def by (intro distinct_filter) (simp add: distinct_map inj_on_def)

text \<open>Every bin has one writer, so a phase in which the threads write their bins writes every bin once.\<close>

lemma own_bins_phase:
  assumes "0 < threads" "index < bins"
  shows "barrier_phase threads (\<lambda>t. map (\<lambda>index. (index, f index)) (own_bins threads bins t)) counts index = f index"
proof (rule barrier_phase_hit [where t = "index mod threads"])
  show "race_free threads (\<lambda>t. map (\<lambda>index. (index, f index)) (own_bins threads bins t))"
    by (rule race_freeI [where owner = "\<lambda>i. i mod threads"]) (use own_bins_set [OF assms(1)] in auto)
  show "index mod threads < threads" using assms(1) by simp
  show "distinct (map fst (map (\<lambda>index. (index, f index)) (own_bins threads bins (index mod threads))))"
    using own_bins_distinct [OF assms(1)] by (simp add: comp_def)
  show "(index, f index) \<in> set (map (\<lambda>index. (index, f index)) (own_bins threads bins (index mod threads)))"
    using own_bins_set [OF assms(1), of "index mod threads" index bins] assms by auto
qed


lemma nt_range_span:
  assumes "nt_range ty x" "nt_width ty \<le> 32"
  shows "- (2 ^ 31) \<le> x \<and> x < 2 ^ 32"
proof (cases "nt_signed ty")
  case True
  let ?n = "nt_width ty - 1"
  have x: "x = signed_take_bit ?n x" using assms(1) True unfolding nt_range_def nt_wrap_def by (simp only: if_True)
  have "- (2 ^ ?n) \<le> x" "x < 2 ^ ?n"
    by (subst x, rule signed_take_bit_int_greater_eq_minus_exp signed_take_bit_int_less_exp)+
  moreover have "(2 :: int) ^ ?n \<le> 2 ^ 31" using assms(2) by (intro power_increasing) simp_all
  moreover have "(2 :: int) ^ 31 < 2 ^ 32" by simp
  ultimately show ?thesis by linarith
next
  case False
  have x: "x = take_bit (nt_width ty) x" using assms(1) False unfolding nt_range_def nt_wrap_def by (simp only: if_False)
  have "0 \<le> x" "x < 2 ^ nt_width ty"
    by (subst x, rule take_bit_nonnegative take_bit_int_less_exp)+
  moreover have "(2 :: int) ^ nt_width ty \<le> 2 ^ 32" using assms(2) by (intro power_increasing) simp_all
  moreover have "- (2 ^ 31) \<le> (0 :: int)" by simp
  ultimately show ?thesis by linarith
qed

lemma bin_index_iff:
  assumes "b < bins" "bins \<le> 2 ^ 31" "nt_range ty x"
  shows "bin_index ty bins x = int b \<longleftrightarrow> x = int b"
proof -
  have b: "int b < 2 ^ 31" using assms(1,2) by (intro int_small) simp
  have small: "i32 (int b) = int b" using b by (intro signed_small) simp_all
  show ?thesis
  proof (cases "nt_width ty > 32")
    case True
    have "i32 x = x" if "0 \<le> x" "x < int bins"
    proof -
      have "int bins \<le> int (2 ^ 31)" using assms(2) by (simp only: of_nat_le_iff)
      then have "int bins \<le> 2 ^ 31" by simp
      then show ?thesis using that by (intro signed_small) linarith+
    qed
    then show ?thesis using True assms(1) by (auto simp: bin_index_def)
  next
    case False
    then have span: "- (2 ^ 31) \<le> x" "x < 2 ^ 32" using nt_range_span [OF assms(3)] by simp_all
    show ?thesis
    proof (cases "x < 2 ^ 31")
      case True
      then show ?thesis using False span signed_small [of x] by (simp add: bin_index_def)
    next
      case big: False
      then have "i32 x = x - 2 ^ 32" using span by (intro i32_wrap) linarith+
      then have "bin_index ty bins x < 0" using False span by (simp add: bin_index_def)
      then show ?thesis using big b by linarith
    qed
  qed
qed

section \<open>Counting items\<close>

text \<open>How many items of the block are in a bin.\<close>

definition bin_count :: "nat \<Rightarrow> int lanes list \<Rightarrow> nat \<Rightarrow> nat" where
  "bin_count threads items b = length (filter (\<lambda>x. x = int b) (tile_seq threads items))"

lemma tile_seq_concat: "tile_seq threads items = concat (map (\<lambda>t. map (\<lambda>item. item t) items) [0..<threads])"
proof (induction threads)
  case 0
  then show ?case by (simp add: tile_seq_def)
next
  case (Suc t)
  have "[0..<Suc t * length items] = [0..<t * length items] @ [t * length items..<t * length items + length items]"
    by (metis add.commute le0 le_add1 mult_Suc upt_add_eq_append)
  moreover have "map (blocked items) [t * length items..<t * length items + length items] = map (\<lambda>item. item t) items"
    by (rule nth_equalityI) simp_all
  ultimately show ?case using Suc by (simp add: tile_seq_def)
qed

text \<open>An interleaving keeps the elements of the threads, whatever their order.\<close>

lemma interleaving_mset:
  assumes "interleaving W ys" "\<And>t. n \<le> t \<Longrightarrow> W t = []"
  shows "mset ys = mset (concat (map W [0..<n]))"
  using assms
proof (induction rule: interleaving.induct)
  case (finished W)
  then show ?case by (simp add: map_concat [symmetric] concat_eq_Nil_conv)
next
  case (step W t x xs ys)
  have t: "t < n" using step.prems [of t] step.hyps(1) by (cases "t < n") auto
  have "mset ys = mset (concat (map (W(t := xs)) [0..<n]))"
    by (rule step.IH) (use step.prems t in auto)
  moreover have "mset (concat (map W [0..<n])) = add_mset x (mset (concat (map (W(t := xs)) [0..<n])))"
  proof -
    have "[0..<n] = [0..<t] @ t # [Suc t..<n]"
      using t by (metis le0 le_Suc_ex less_imp_le upt_add_eq_append upt_conv_Cons)
    moreover have "map (W(t := xs)) [0..<t] = map W [0..<t]" "map (W(t := xs)) [Suc t..<n] = map W [Suc t..<n]"
      by simp_all
    ultimately show ?thesis using step.hyps(1) by simp
  qed
  ultimately show ?case by simp
qed

lemma increments_count:
  assumes w: "0 < nt_width counter" and c: "nt_range counter (counts b)"
  shows "atomic_increments counter order counts b = nt_wrap counter (counts b + int (count_list order b))"
  using c
proof (induction order arbitrary: counts)
  case Nil
  then show ?case by (simp add: atomic_increments_def nt_range_def)
next
  case (Cons key order)
  let ?counts = "shared_store counts key (nt_wrap counter (shared_load counts key + 1))"
  have "nt_range counter (?counts b)" using Cons.prems by (auto simp: shared_store_def nt_range_def nt_wrap_def)
  then have "atomic_increments counter order ?counts b = nt_wrap counter (?counts b + int (count_list order b))"
    by (rule Cons.IH)
  then show ?case
    by (auto simp: atomic_increments_def shared_store_def shared_load_def nt_wrap_add [OF w] add.assoc)
qed

lemma bin_count_threads:
  "bin_count threads items b = (\<Sum>t\<leftarrow>[0..<threads]. length (filter (\<lambda>x. x = int b) (map (\<lambda>item. item t) items)))"
  unfolding bin_count_def tile_seq_concat by (simp add: filter_concat length_concat comp_def)

lemma bin_count_Cons:
  "bin_count threads (item # items) b = length (filter (\<lambda>x. x = int b) (map item [0..<threads])) + bin_count threads items b"
proof -
  have "length (filter P (map item ts)) = (\<Sum>t\<leftarrow>ts. if P (item t) then 1 else 0)" for P :: "int \<Rightarrow> bool" and ts
    by (induction ts) simp_all
  moreover have "bin_count threads (item # items) b
      = (\<Sum>t\<leftarrow>[0..<threads]. (if item t = int b then 1 else 0) + length (filter (\<lambda>x. x = int b) (map (\<lambda>item. item t) items)))"
    unfolding bin_count_threads by (intro arg_cong [where f = sum_list] map_cong) simp_all
  ultimately show ?thesis by (simp add: sum_list_addf bin_count_threads)
qed

lemma thread_increments_count:
  assumes "\<And>item. item \<in> set items \<Longrightarrow> nt_range ty (item t)" "b < bins" "bins \<le> 2 ^ 31"
  shows "length (filter (\<lambda>k. k = b) (thread_increments ty bins items t)) = length (filter (\<lambda>x. x = int b) (map (\<lambda>item. item t) items))"
  using assms(1)
proof (induction items)
  case (Cons item items)
  have "bin_index ty bins (item t) = int b \<longleftrightarrow> item t = int b"
    using bin_index_iff [OF assms(2,3)] Cons.prems by simp
  then have "bin_index ty bins (item t) \<ge> 0 \<and> bin_index ty bins (item t) < int bins \<and> nat (bin_index ty bins (item t)) = b \<longleftrightarrow> item t = int b"
    using assms(2) by auto
  then show ?case using Cons by (auto simp: thread_increments_def)
qed (simp add: thread_increments_def)

lemma atomic_order_count:
  assumes "increments_interleave c items order" "b < hc_bins c" "hc_bins c \<le> 2 ^ 31"
    and "\<And>item t. item \<in> set items \<Longrightarrow> t < hc_threads c \<Longrightarrow> nt_range (hc_item c) (item t)"
  shows "count_list order b = bin_count (hc_threads c) items b"
proof -
  let ?W = "\<lambda>t. if t < hc_threads c then thread_increments (hc_item c) (hc_bins c) items t else []"
  have "mset order = mset (concat (map ?W [0..<hc_threads c]))"
    using assms(1) unfolding increments_interleave_def by (rule interleaving_mset) simp
  also have "map ?W [0..<hc_threads c] = map (thread_increments (hc_item c) (hc_bins c) items) [0..<hc_threads c]"
    by simp
  finally have m: "mset order = mset (concat (map (thread_increments (hc_item c) (hc_bins c) items) [0..<hc_threads c]))" .
  have "count_list order b = size (filter_mset (\<lambda>k. k = b) (mset order))"
    by (induction order) auto
  also have "\<dots> = length (filter (\<lambda>k. k = b) (concat (map (thread_increments (hc_item c) (hc_bins c) items) [0..<hc_threads c])))"
    unfolding m by (metis mset_filter size_mset)
  also have "\<dots> = (\<Sum>t\<leftarrow>[0..<hc_threads c]. length (filter (\<lambda>k. k = b) (thread_increments (hc_item c) (hc_bins c) items t)))"
    by (simp add: filter_concat length_concat comp_def)
  also have "\<dots> = bin_count (hc_threads c) items b"
    unfolding bin_count_threads
    by (intro arg_cong [where f = sum_list] map_cong refl thread_increments_count) (use assms in auto)
  finally show ?thesis .
qed

section \<open>Counting runs of equal keys\<close>

lemma bound_count:
  assumes "sorted (map keys [0..<n])"
  shows "bound keys key n upper = length (filter (\<lambda>x. if upper then x \<le> key else x < key) (map keys [0..<n]))"
proof -
  let ?P = "\<lambda>x. if upper then x \<le> key else x < key"
  have mono: "keys i \<le> keys j" if "i \<le> j" "j < n" for i j
    using sorted_nth_mono [OF assms that(1)] that by simp
  have "splits_at n (\<lambda>mid. ?P (keys mid)) (card {i. i < n \<and> ?P (keys i)})"
  proof (rule monotone_splits)
    fix i j assume "i \<le> j" "j < n" "?P (keys j)"
    then show "?P (keys i)" using mono [of i j] by (auto split: if_splits)
  qed
  then have "bound keys key n upper = card {i. i < n \<and> ?P (keys i)}"
    unfolding bound_def shared_load_def by (rule search_first_correct)
  also have "\<dots> = length (filter ?P (map keys [0..<n]))"
    by (simp add: length_filter_conv_card cong: conj_cong)
  finally show ?thesis .
qed

lemma count_difference:
  "int (length (filter (\<lambda>x. x \<le> k) xs)) - int (length (filter (\<lambda>x. x < k) xs)) = int (length (filter (\<lambda>x. x = k) xs))"
  for k :: int
  by (induction xs) auto

lemma count_sorted_bin:
  assumes sorted: "map keys [0..<threads] = sort (map v [0..<threads])" and "0 < threads" "b < bins"
    and w: "0 < nt_width counter"
  shows "count_sorted threads bins counter keys counts b
    = nt_wrap counter (counts b + int (length (filter (\<lambda>x. x = int b) (map v [0..<threads]))))"
proof -
  let ?found = "int (bound keys (int b) threads True) - int (bound keys (int b) threads False)"
  have s: "sorted (map keys [0..<threads])" unfolding sorted by simp
  have "?found = int (length (filter (\<lambda>x. x = int b) (map keys [0..<threads])))"
    using count_difference [of "int b" "map keys [0..<threads]"] by (simp add: bound_count [OF s])
  moreover have "mset (map keys [0..<threads]) = mset (map v [0..<threads])" unfolding sorted by simp
  then have "length (filter (\<lambda>x. x = int b) (map keys [0..<threads])) = length (filter (\<lambda>x. x = int b) (map v [0..<threads]))"
    by (metis mset_filter size_mset)
  ultimately have found: "?found = int (length (filter (\<lambda>x. x = int b) (map v [0..<threads])))" by (simp only:)
  have "count_sorted threads bins counter keys counts b = nt_wrap counter (counts b + nt_wrap counter ?found)"
    unfolding count_sorted_def shared_load_def Let_def by (rule own_bins_phase [OF assms(2,3)])
  then show ?thesis unfolding found nt_wrap_add [OF w] .
qed

text \<open>The contract of the sort: the keys of the block in ascending order.\<close>

locale key_sort =
  fixes legal :: bool and threads :: nat and sort_keys :: "int lanes \<Rightarrow> int lanes res"
  assumes threads_pos: "legal \<Longrightarrow> 0 < threads"
    and sorts: "legal \<Longrightarrow> \<exists>out. sort_keys keys = Inr out \<and> map out [0..<threads] = sort (map keys [0..<threads])"
begin

lemma sort_and_count_correct:
  assumes legal: legal and c: "hc_threads c = threads" "hc_sort c = sort_keys" and w: "0 < nt_width (hc_counter c)"
    and bins: "hc_bins c \<le> 2 ^ 31" and "\<forall>b < hc_bins c. nt_range (hc_counter c) (counts b)"
    and "\<And>item t. item \<in> set items \<Longrightarrow> t < threads \<Longrightarrow> nt_range (hc_item c) (item t)"
  shows "\<exists>counts'. sort_and_count c items slots counts = Inr counts'
    \<and> (\<forall>b < hc_bins c. counts' b = nt_wrap (hc_counter c) (counts b + int (bin_count threads items b)))"
  using assms(6,7)
proof (induction items arbitrary: slots counts)
  case Nil
  then show ?case by (simp add: bin_count_def tile_seq_def nt_range_def)
next
  case (Cons item items)
  let ?v = "\<lambda>t. bin_index (hc_item c) (hc_bins c) (item t)"
  obtain key where key: "sort_keys ?v = Inr key" "map key [0..<threads] = sort (map ?v [0..<threads])"
    using sorts [OF legal] by blast
  let ?slots = "publish_sorted threads key slots"
  let ?counts = "count_sorted threads (hc_bins c) (hc_counter c) ?slots counts"
  have slots: "map ?slots [0..<threads] = sort (map ?v [0..<threads])"
    unfolding key(2) [symmetric] publish_sorted_def by (simp add: store_all)
  have counts: "?counts b = nt_wrap (hc_counter c) (counts b + int (length (filter (\<lambda>x. x = int b) (map item [0..<threads]))))"
    if b: "b < hc_bins c" for b
  proof -
    have "filter (\<lambda>t. ?v t = int b) [0..<threads] = filter (\<lambda>t. item t = int b) [0..<threads]"
      by (rule filter_cong) (use bin_index_iff [OF b bins] Cons.prems(2) in auto)
    then have "length (filter (\<lambda>x. x = int b) (map ?v [0..<threads])) = length (filter (\<lambda>x. x = int b) (map item [0..<threads]))"
      by (simp add: filter_map comp_def)
    then show ?thesis using count_sorted_bin [OF slots threads_pos [OF legal] b w, of counts] by (simp only:)
  qed
  then have "\<forall>b < hc_bins c. nt_range (hc_counter c) (?counts b)" by (simp add: nt_range_def nt_wrap_def)
  then obtain counts' where o: "sort_and_count c items ?slots ?counts = Inr counts'"
    "\<And>b. b < hc_bins c \<Longrightarrow> counts' b = nt_wrap (hc_counter c) (?counts b + int (bin_count threads items b))"
    using Cons.IH [of ?counts ?slots] Cons.prems(2) by auto
  have "counts' b = nt_wrap (hc_counter c) (counts b + int (bin_count threads (item # items) b))" if "b < hc_bins c" for b
    unfolding o(2) [OF that] counts [OF that] bin_count_Cons by (simp add: nt_wrap_add [OF w] add.assoc)
  moreover have "sort_and_count c (item # items) slots counts = Inr counts'"
    using key(1) o(1) by (simp add: c Let_def)
  ultimately show ?case by blast
qed

end


section \<open>The block merge sort as the sort of the bins\<close>

text \<open>\<open>BlockMergeSort[Int32, block_size, 1]\<close> on one key per thread.\<close>

definition merge_keys ::
  "nat \<Rightarrow> bool \<Rightarrow> (int, unit) entry shared \<Rightarrow> nat shared \<Rightarrow> int lanes \<Rightarrow> int lanes res" where
  "merge_keys threads compact slots permutation key =
     rbind (block_merge_sort \<lparr>ms_threads = threads, ms_items = 1, ms_pairs = False, ms_compact = compact, ms_zero_value = ()\<rparr>
         (<) False None None (0, None, False) slots permutation (Item key) None)
       (\<lambda>(keys, _). case keys of Item out \<Rightarrow> Inr out | Items _ \<Rightarrow> Inl TypeError)"

lemma tile_seq_single: "tile_seq threads [v] = map v [0..<threads]"
  by (simp add: tile_seq_concat)

interpretation merge_key_sort: key_sort "0 < threads \<and> threads \<le> 2 ^ 32" threads "merge_keys threads compact slots permutation"
proof (unfold_locales, goal_cases)
  case (2 keys)
  let ?c = "\<lparr>ms_threads = threads, ms_items = 1, ms_pairs = False, ms_compact = compact, ms_zero_value = ()\<rparr>"
  have un: "sort_unpack (Item keys) None = Inr ([keys], None, False)" by (simp add: sort_unpack_def)
  have ord: "before (<) False a b \<longleftrightarrow> a < b" for a b :: int by (simp add: before_def)
  obtain items' payload' where o: "block_merge_sort ?c (<) False None None (0, None, False) slots permutation (Item keys) None
        = Inr (sort_pack items' payload' False)" "length items' = 1" "payload' = None"
    "tile_pairs threads items' payload' = sort_key (\<lambda>r. fst r) (take (valid_prefix threads None) (tile_pairs threads [keys] (None :: unit lanes list option)))
        @ map (fill_record None ()) (drop (valid_prefix threads None) (tile_pairs threads [keys] (None :: unit lanes list option)))"
    using merge_sort_records [where c = ?c and valid_items = None and oob_default = None and zero = "(0, None, False)"
        and slots = slots and permutation = permutation, OF ord un] 2 by auto
  let ?L = "map (\<lambda>p. (keys p, None :: unit option)) [0..<threads]"
  obtain out where out: "items' = [out]" using o(2) by (cases items') auto
  have pairs: "tile_pairs threads [v] (None :: unit lanes list option) = map (\<lambda>p. (v p, None)) [0..<threads]" for v :: "int lanes"
    by (simp add: tile_pairs_def blocked_def)
  have "map (\<lambda>p. (out p, None :: unit option)) [0..<threads] = sort_key fst ?L"
    using o(4) unfolding o(3) out pairs by (simp add: valid_prefix_def)
  from arg_cong [OF this, of "map fst"] have "map out [0..<threads] = map fst (sort_key fst ?L)" by (simp add: comp_def)
  also have "\<dots> = sort (map fst ?L)" 
  proof (rule properties_for_sort [symmetric])
    show "mset (map fst (sort_key fst ?L)) = mset (map fst ?L)" by (simp only: mset_map mset_sort)
  qed simp
  finally have "map out [0..<threads] = sort (map keys [0..<threads])" by (simp add: comp_def)
  moreover have "merge_keys threads compact slots permutation keys = Inr out"
    using o(1) by (simp add: merge_keys_def sort_pack_def out)
  ultimately show ?case by blast
qed simp

section \<open>Properties\<close>

text \<open>
  C38: after the call every bin holds the number of the block's items in it, modulo the width of the
  counter: for both algorithms, whatever order the atomic increments take, and whatever the
  scratch memory held. Items that are no bin (negative, too large, of any width) count nowhere.
\<close>

theorem histogram_counts:
  assumes "tile_list tile = Inr items" "0 < hc_threads c" "hc_threads c \<le> 2 ^ 32" "hc_bins c \<le> 2 ^ 31"
    and "0 < nt_width (hc_counter c)"
    and "\<forall>item \<in> set items. \<forall>t < hc_threads c. nt_range (hc_item c) (item t)"
    and "hc_sort c = merge_keys (hc_threads c) compact sslots permutation" "increments_interleave c items order"
  shows "\<exists>counts'. block_histogram (Some c) order tile slots counts = Inr counts'
    \<and> (\<forall>b < hc_bins c. counts' b
        = nt_wrap (hc_counter c) (int (length (filter (\<lambda>x. x = int b) (tile_seq (hc_threads c) items)))))"
proof -
  let ?z = "initialize (hc_threads c) (hc_bins c) counts"
  have z: "?z b = 0" if "b < hc_bins c" for b
    unfolding initialize_def by (rule own_bins_phase [OF assms(2) that, where f = "\<lambda>_. 0"])
  have range: "nt_range (hc_counter c) (?z b)" if "b < hc_bins c" for b
    unfolding z [OF that] by (simp add: nt_range_def nt_wrap_def)
  have fold_count: "length (filter (\<lambda>x. x = int b) (tile_seq (hc_threads c) items)) = bin_count (hc_threads c) items b" for b
    by (simp add: bin_count_def)
  show ?thesis
  proof (cases "hc_algorithm c = ATOMIC")
    case True
    have "atomic_increments (hc_counter c) order ?z b = nt_wrap (hc_counter c) (int (bin_count (hc_threads c) items b))"
      if b: "b < hc_bins c" for b
      using increments_count [where counts = ?z and b = b and order = order, OF assms(5) range [OF b]]
        atomic_order_count [where items = items, OF assms(8) b assms(4)] assms(6) z [OF b] by simp
    then show ?thesis
      unfolding fold_count using True assms(1) by (simp add: block_histogram_def composite_histogram_def)
  next
    case False
    have "\<exists>counts'. sort_and_count c items slots ?z = Inr counts' \<and> (\<forall>b < hc_bins c.
        counts' b = nt_wrap (hc_counter c) (?z b + int (bin_count (hc_threads c) items b)))"
      by (rule merge_key_sort.sort_and_count_correct) (use assms range in auto)
    then show ?thesis
      unfolding fold_count using False assms(1) z by (auto simp: block_histogram_def composite_histogram_def)
  qed
qed


definition demo_histogram :: histogram_class where
  "demo_histogram = \<lparr>hc_threads = 3, hc_bins = 4, hc_item = int32, hc_counter = \<lparr>nt_width = 8, nt_signed = False\<rparr>,
     hc_algorithm = ATOMIC, hc_sort = merge_keys 3 False (\<lambda>_. (0, None, False)) (\<lambda>_. 0)\<rparr>"

theorem histogram_counts_witness:
  "\<exists>counts'. block_histogram (Some demo_histogram) [0, 1, 2, 2, 2] (Items [int, \<lambda>t. if t = 0 then - 1 else 2]) (\<lambda>_. 7) (\<lambda>_. 9) = Inr counts'
    \<and> map counts' [0..<4] = [1, 1, 3, 0]"
proof -
  let ?items = "[int, \<lambda>t. if t = 0 then - 1 else 2]"
  let ?W = "\<lambda>t. if t < hc_threads demo_histogram then thread_increments (hc_item demo_histogram) (hc_bins demo_histogram) ?items t else []"
  have small: "i32 0 = 0" "i32 1 = 1" "i32 2 = 2" "i32 (- 1) = - 1"
    using signed_small [of 0] signed_small [of 1] signed_small [of 2] signed_small [of "- 1"] by simp_all
  have seq: "concat (map ?W [0..<3]) = [0, 1, 2, 2, 2]"
    by (simp add: upt_rec demo_histogram_def thread_increments_def bin_index_def int32_def small)
  have "interleaving ?W (concat (map ?W [0..<3]))"
    by (rule interleaving_seq) (simp add: demo_histogram_def)
  then have order: "increments_interleave demo_histogram ?items [0, 1, 2, 2, 2]"
    unfolding seq increments_interleave_def .
  have small_range: "nt_range int32 x" if "- 1 \<le> x" "x < 3" for x
    using that by (simp add: nt_range_def nt_wrap_def int32_def signed_take_bit_int_eq_self)
  have range: "\<forall>item \<in> set ?items. \<forall>t < hc_threads demo_histogram. nt_range (hc_item demo_histogram) (item t)"
    by (auto simp: demo_histogram_def intro: small_range)
  obtain counts' where c: "block_histogram (Some demo_histogram) [0, 1, 2, 2, 2] (Items ?items) (\<lambda>_. 7) (\<lambda>_. 9) = Inr counts'"
    "\<forall>b < hc_bins demo_histogram. counts' b = nt_wrap (hc_counter demo_histogram)
      (int (length (filter (\<lambda>x. x = int b) (tile_seq (hc_threads demo_histogram) ?items))))"
    using histogram_counts [where c = demo_histogram and tile = "Items ?items" and items = ?items and order = "[0, 1, 2, 2, 2]"
        and compact = False and sslots = "\<lambda>_. (0, None, False)" and permutation = "\<lambda>_. 0" and slots = "\<lambda>_. 7" and counts = "\<lambda>_. 9", OF _ _ _ _ _ range _ order]
    by (auto simp: tile_list_def demo_histogram_def)
  have "tile_seq 3 ?items = [0, - 1, 1, 2, 2, 2]" unfolding tile_seq_concat by (simp add: upt_rec)
  then have "counts' b = nt_wrap \<lparr>nt_width = 8, nt_signed = False\<rparr> (int (length (filter (\<lambda>x. x = int b) [0, - 1, 1, 2, 2, 2])))"
    if "b < 4" for b
    using c(2) that by (simp add: demo_histogram_def)
  then have "counts' 0 = 1" "counts' 1 = 1" "counts' 2 = 3" "counts' 3 = 0" by (simp_all add: nt_wrap_def)
  moreover have "[0..<4] = [0, 1, 2, 3 :: nat]" by code_simp
  ultimately show ?thesis using c(1) by simp
qed
end
