(* ===== verification/Block_Reduce.thy ===== *)
theory Block_Reduce
  imports Scan_Providers Block_Tiles
begin

text \<open>
  The block-wide reductions (\<open>coop/block/reduce.py\<close>): reductions of the warps joined through shared
  memory, with the slots in warp order or in order of arrival, and raking with contiguous or with
  strided segments. The warp reduction is an argument (\<open>cls.warp_ops.warp_reduce\<close>), specified by the
  locale \<open>warp_reducer\<close> and interpreted on the portable and the ROCm reductions.
\<close>

section \<open>Definitions\<close>

text \<open>Operator, width, the valid lanes of each group (a value of the kernel) and the lanes.\<close>

type_synonym 'a reduce_op = "'a operator \<Rightarrow> nat \<Rightarrow> int lanes option \<Rightarrow> 'a lanes \<Rightarrow> 'a lanes res"

datatype reduce_algorithm = RAKE | RAKE_COMMUTATIVE | REDUCE_WARPS | REDUCE_WARPS_NONDETERMINISTIC

record 'a reduce_storage =
  rd_slots :: "'a shared"
  rd_result :: "'a shared"

record 'a reduce_class =
  rd_dtype :: "'a dtype"
  rd_algorithm :: reduce_algorithm
  rd_width :: nat
  rd_threads :: nat
  rd_reduce :: "'a reduce_op"

subsection \<open>Reductions of the warps\<close>

definition warp_count :: "nat \<Rightarrow> nat \<Rightarrow> nat" where
  "warp_count threads w = (threads + w - 1) div w"

definition active_lanes :: "nat \<Rightarrow> nat \<Rightarrow> int option \<Rightarrow> int lanes" where
  "active_lanes w threads valid = (case valid of
       Some v \<Rightarrow> (\<lambda>t. let remaining = v - int (t div w) * int w;
           active = (if remaining < int w then remaining else int w)
         in if active > 0 then active else 1)
     | None \<Rightarrow> (\<lambda>t. if t div w = warp_count threads w - 1 then int (threads mod w) else int w))"

text \<open>
  The slots filled in order of arrival: \<open>order\<close> lists the warps as their tickets come in; ticket \<open>i\<close> is
  the address the warp stores to.
\<close>

definition arrival_slots :: "nat \<Rightarrow> nat list \<Rightarrow> 'a lanes \<Rightarrow> 'a shared \<Rightarrow> 'a shared" where
  "arrival_slots w order aggregate slots =
     snd (fold (\<lambda>q (ticket, slots). (ticket + 1, shared_store slots ticket (aggregate (q * w)))) order (0, slots))"

text \<open>The warps that take a ticket.\<close>

definition arriving_warps :: "nat \<Rightarrow> nat \<Rightarrow> int option \<Rightarrow> nat list" where
  "arriving_warps w threads valid =
     filter (\<lambda>q. case valid of None \<Rightarrow> True | Some v \<Rightarrow> int q * int w < v) [0..<warp_count threads w]"

definition slots_total :: "'a dtype \<Rightarrow> 'a operator \<Rightarrow> nat \<Rightarrow> nat \<Rightarrow> int option \<Rightarrow> 'a shared \<Rightarrow> 'a" where
  "slots_total d op w threads valid slots =
     fold (\<lambda>i total. if (case valid of None \<Rightarrow> True | Some v \<Rightarrow> int i * int w < v)
         then combine d op total (shared_load slots i) else total)
       [1..<warp_count threads w] (shared_load slots 0)"

definition reduce_warps ::
  "'a dtype \<Rightarrow> 'a reduce_op \<Rightarrow> 'a operator \<Rightarrow> nat \<Rightarrow> nat \<Rightarrow> bool \<Rightarrow> nat list \<Rightarrow> int option \<Rightarrow> 'a lanes
     \<Rightarrow> 'a reduce_storage \<Rightarrow> 'a lanes res" where
  "reduce_warps d reduce op w threads nondeterministic order valid partial st =
     rbind (if valid \<noteq> None \<or> threads mod w \<noteq> 0 then reduce op w (Some (active_lanes w threads valid)) partial
            else reduce op w None partial) (\<lambda>aggregate.
       if warp_count threads w = 1 then Inr aggregate
       else
         let slots = (if nondeterministic then arrival_slots w order aggregate (rd_slots st)
               else barrier_phase threads (store_if (\<lambda>t. t mod w = 0) (\<lambda>t. t div w) aggregate) (rd_slots st))
         in Inr (\<lambda>_. slots_total d op w threads valid slots))"

subsection \<open>Raking\<close>

text \<open>Python's \<open>range\<close> with a positive step.\<close>

definition stepped :: "nat \<Rightarrow> nat \<Rightarrow> nat \<Rightarrow> nat list" where
  "stepped start stop step = map (\<lambda>i. start + i * step) [0..<(stop - start + step - 1) div step]"

definition clamp_index :: "nat \<Rightarrow> nat \<Rightarrow> nat" where
  "clamp_index threads index = (if index < threads then index else threads - 1)"

definition publish_partials :: "nat \<Rightarrow> nat \<Rightarrow> bool \<Rightarrow> 'a lanes \<Rightarrow> 'a shared \<Rightarrow> 'a shared" where
  "publish_partials w threads commutative partial slots =
     barrier_phase threads (store_if (\<lambda>t. \<not> commutative \<or> t \<ge> w) (\<lambda>t. t) partial) slots"

text \<open>What a raking thread folds, with and without a valid count.\<close>

definition raked_full :: "'a dtype \<Rightarrow> 'a operator \<Rightarrow> nat \<Rightarrow> nat \<Rightarrow> bool \<Rightarrow> 'a lanes \<Rightarrow> 'a shared \<Rightarrow> 'a lanes" where
  "raked_full d op w threads commutative partial slots =
     (if commutative
      then (\<lambda>t. fold (\<lambda>offset raked. combine d op raked (shared_load slots (t + offset))) (stepped w threads w) (partial t))
      else (\<lambda>t. let segment = threads div w; base = t * segment
        in fold (\<lambda>i raked. combine d op raked (shared_load slots (base + i))) [1..<segment] (shared_load slots base)))"

definition raked_valid ::
  "'a dtype \<Rightarrow> 'a operator \<Rightarrow> nat \<Rightarrow> nat \<Rightarrow> bool \<Rightarrow> int \<Rightarrow> 'a lanes \<Rightarrow> 'a shared \<Rightarrow> 'a lanes" where
  "raked_valid d op w threads commutative limit partial slots =
     (let add = (\<lambda>index raked. if int index < limit
            then combine d op raked (shared_load slots (clamp_index threads index)) else raked)
      in if commutative
         then (\<lambda>t. fold (\<lambda>offset. add (t + offset)) (stepped w threads w) (partial t))
         else (\<lambda>t. let segment = (threads + w - 1) div w; base = t * segment
           in fold (\<lambda>i. add (base + i)) [1..<segment] (shared_load slots (clamp_index threads base))))"

text \<open>
  Only the first \<open>w\<close> threads rake and reduce (\<open>if tid < warp_threads\<close>), and thread zero stores; what the
  definition gives the other lanes before the barrier is not used.
\<close>

definition reduce_raking ::
  "'a dtype \<Rightarrow> 'a reduce_op \<Rightarrow> 'a operator \<Rightarrow> nat \<Rightarrow> nat \<Rightarrow> bool \<Rightarrow> int option \<Rightarrow> 'a lanes
     \<Rightarrow> 'a reduce_storage \<Rightarrow> 'a lanes res" where
  "reduce_raking d reduce op w threads commutative valid partial st =
     (if threads = w then reduce op w (map_option (\<lambda>limit _. limit) valid) partial
      else
        let slots = publish_partials w threads commutative partial (rd_slots st);
            segment = (threads + w - 1) div w
        in rbind (case valid of
              None \<Rightarrow> reduce op w None (raked_full d op w threads commutative partial slots)
            | Some limit \<Rightarrow> reduce op w
                (Some (\<lambda>_. if commutative then (if limit < int w then limit else int w)
                  else (limit + int segment - 1) div int segment))
                (raked_valid d op w threads commutative limit partial slots))
          (\<lambda>raked. let result = barrier_phase threads (store_if (\<lambda>t. t = 0) (\<lambda>_. 0) raked) (rd_result st)
             in Inr (\<lambda>_. shared_load result 0)))"

subsection \<open>The call\<close>

text \<open>
  The value a thread contributes and the valid count the algorithm is given. With an identity the
  threads beyond the count contribute it; without one an empty block reads thread zero.
\<close>

definition reduce_partial ::
  "'a dtype \<Rightarrow> 'a operator \<Rightarrow> 'a option \<Rightarrow> count option \<Rightarrow> 'a lanes \<Rightarrow> 'a lanes \<times> int option" where
  "reduce_partial d op explicit valid_items value =
     (case valid_items of None \<Rightarrow> (value, None)
      | Some n \<Rightarrow> (case optional_identity d op explicit of
          None \<Rightarrow> (value, Some (if count_value n > 0 then count_value n else 1))
        | Some e \<Rightarrow> (select_value (\<lambda>t. int t < count_value n) value (\<lambda>_. e), None)))"

definition block_reduce ::
  "'a reduce_class option \<Rightarrow> 'a operator \<Rightarrow> nat list \<Rightarrow> 'a option \<Rightarrow> count option \<Rightarrow> 'a lanes tile \<Rightarrow> 'a reduce_storage
     \<Rightarrow> 'a lanes res" where
  "block_reduce cls op order explicit valid_items tile st =
     (case cls of None \<Rightarrow> Inl TypeError | Some c \<Rightarrow>
       let d = rd_dtype c; commutative = (rd_algorithm c = RAKE_COMMUTATIVE);
           nondeterministic = (rd_algorithm c = REDUCE_WARPS_NONDETERMINISTIC)
       in rbind (if commutative \<or> nondeterministic then require_commutative op else Inr ()) (\<lambda>_.
          rbind (validate_scalar_valid_items tile valid_items (rd_threads c)) (\<lambda>_.
          rbind (tile_partial d op tile) (\<lambda>value.
          let (partial, valid) = reduce_partial d op explicit valid_items value
          in if rd_algorithm c = REDUCE_WARPS \<or> nondeterministic
             then reduce_warps d (rd_reduce c) op (rd_width c) (rd_threads c) nondeterministic order valid partial st
             else reduce_raking d (rd_reduce c) op (rd_width c) (rd_threads c) commutative valid partial st))))"

section \<open>Folding lists\<close>

definition fold1 :: "('a \<Rightarrow> 'a \<Rightarrow> 'a) \<Rightarrow> 'a list \<Rightarrow> 'a" where
  "fold1 f xs = foldl f (hd xs) (tl xs)"

lemma fold1_single [simp]: "fold1 f [x] = x"
  by (simp add: fold1_def)

lemma foldl_assoc: "assoc_op f \<Longrightarrow> f a (foldl f b xs) = foldl f (f a b) xs"
  by (induction xs arbitrary: b) (simp_all add: assoc_opD [symmetric])

lemma fold1_append:
  assumes "assoc_op f" "xs \<noteq> []" "ys \<noteq> []"
  shows "fold1 f (xs @ ys) = f (fold1 f xs) (fold1 f ys)"
proof -
  obtain x xs' y ys' where "xs = x # xs'" "ys = y # ys'" using assms(2,3) by (cases xs; cases ys) auto
  then show ?thesis by (simp add: fold1_def foldl_assoc [OF assms(1)])
qed

lemma fold1_concat:
  assumes "assoc_op f" "xss \<noteq> []" "\<forall>xs \<in> set xss. xs \<noteq> []"
  shows "fold1 f (concat xss) = fold1 f (map (fold1 f) xss)"
  using assms(2,3)
proof (induction xss rule: rev_induct)
  case (snoc xs xss)
  show ?case
  proof (cases "xss = []")
    case False
    then have "concat xss \<noteq> []" using snoc.prems(2) by (cases xss) auto
    then show ?thesis using snoc False by (simp add: fold1_append [OF assms(1)])
  qed simp
qed simp

lemma seg_fold1: "seg f v a n = fold1 f (map v [a..<a + Suc n])"
proof -
  have "seg f v a n = foldl f (v a) (map v [Suc a..<a + Suc n])" by (induction n) simp_all
  then show ?thesis by (simp add: fold1_def upt_conv_Cons del: upt_Suc)
qed

lemma fold1_fold: "fold (\<lambda>i total. f total (g i)) is x = fold1 f (x # map g is)"
proof -
  have "fold (\<lambda>i total. f total (g i)) is x = foldl f x (map g is)" by (induction "is" arbitrary: x) simp_all
  then show ?thesis by (simp add: fold1_def)
qed

lemma fold1_filter: "fold (\<lambda>i total. if P i then f total (g i) else total) is x = fold1 f (x # map g (filter P is))"
proof -
  have "fold (\<lambda>i total. if P i then f total (g i) else total) is x = foldl f x (map g (filter P is))"
    by (induction "is" arbitrary: x) simp_all
  then show ?thesis by (simp add: fold1_def)
qed

text \<open>A commutative operator does not see the order.\<close>

definition join_option :: "('a \<Rightarrow> 'a \<Rightarrow> 'a) \<Rightarrow> 'a \<Rightarrow> 'a option \<Rightarrow> 'a option" where
  "join_option f x acc = (case acc of None \<Rightarrow> Some x | Some a \<Rightarrow> Some (f a x))"

lemma fold1_option: "xs \<noteq> [] \<Longrightarrow> fold (join_option f) xs None = Some (fold1 f xs)"
proof -
  have "fold (join_option f) ys (Some a) = Some (foldl f a ys)" for a ys
    by (induction ys arbitrary: a) (simp_all add: join_option_def)
  moreover assume "xs \<noteq> []"
  ultimately show ?thesis by (cases xs) (simp_all add: fold1_def join_option_def)
qed

lemma fold1_mset:
  assumes "assoc_op f" "comm_op f" "mset xs = mset ys"
  shows "fold1 f xs = fold1 f ys"
proof (cases "xs = []")
  case False
  have "join_option f x \<circ> join_option f y = join_option f y \<circ> join_option f x" for x y
  proof
    fix acc
    have "f (f a x) y = f (f a y) x" for a
      using assoc_opD [OF assms(1), of a x y] assoc_opD [OF assms(1), of a y x] comm_opD [OF assms(2), of x y] by simp
    then show "(join_option f x \<circ> join_option f y) acc = (join_option f y \<circ> join_option f x) acc"
      by (cases acc) (simp_all add: join_option_def comm_opD [OF assms(2), of x y])
  qed
  then have "fold (join_option f) xs = fold (join_option f) ys" by (intro fold_multiset_equiv assms(3)) simp
  moreover have "ys \<noteq> []" using False assms(3) by auto
  ultimately show ?thesis using fold1_option [OF False, of f] fold1_option [of ys f] by simp
qed (use assms(3) in simp)


section \<open>Reductions of the warps\<close>

text \<open>\<open>ok\<close> are the values of the element type; the ROCm instructions rely on its identity.\<close>

locale warp_reducer =
  fixes legal :: bool and hardware :: nat and d :: "'a dtype" and ok :: "'a \<Rightarrow> bool" and reduce :: "'a reduce_op"
  assumes reduce_full: "legal \<Longrightarrow> is_pow2 w \<Longrightarrow> w \<le> hardware \<Longrightarrow> assoc_op (combine d op)
      \<Longrightarrow> (is_builtin op \<Longrightarrow> comm_op (combine d op)) \<Longrightarrow> \<forall>l. ok (v l) \<Longrightarrow> reduce op w None v = Inr (group_fold (combine d op) v w)"
    and reduce_active: "legal \<Longrightarrow> is_pow2 w \<Longrightarrow> w \<le> hardware \<Longrightarrow> assoc_op (combine d op)
      \<Longrightarrow> \<forall>i j. i div w = j div w \<longrightarrow> n i = n j \<Longrightarrow> \<forall>i. 0 < n i \<and> n i \<le> int w
      \<Longrightarrow> reduce op w (Some n) v = Inr (\<lambda>l. seg (combine d op) v (group_base w l) (nat (n l) - 1))"

text \<open>The lanes of warp \<open>q\<close> below a limit.\<close>

definition warp_range :: "nat \<Rightarrow> nat \<Rightarrow> nat \<Rightarrow> nat list" where
  "warp_range w limit q = [q * w..<min (q * w + w) limit]"

lemma concat_warp_ranges: "0 < w \<Longrightarrow> concat (map (warp_range w limit) [0..<m]) = [0..<min (m * w) limit]"
proof (induction m)
  case (Suc m)
  show ?case
  proof (cases "m * w < limit")
    case True
    then have "[0..<min (Suc m * w) limit] = [0..<m * w] @ [m * w..<min (m * w + w) limit]"
      by (metis add.commute le0 le_add1 min.absorb_iff2 min.bounded_iff mult_Suc upt_add_eq_append less_imp_le le_iff_add)
    then show ?thesis using True Suc by (simp add: warp_range_def)
  next
    case False
    then have "min (Suc m * w) limit = limit" "min (m * w) limit = limit" by (simp_all add: min_def)
    then show ?thesis using Suc False by (simp add: warp_range_def)
  qed
qed simp

text \<open>How many warps there are below a limit.\<close>

lemma warp_count_bound: "0 < w \<Longrightarrow> q < warp_count n w \<longleftrightarrow> q * w < n"
proof -
  assume w: "0 < w"
  have "q < (n + w - 1) div w \<longleftrightarrow> Suc q * w \<le> n + w - 1"
    using less_eq_div_iff_mult_less_eq [OF w, of "Suc q" "n + w - 1"] by (simp add: Suc_le_eq)
  also have "\<dots> \<longleftrightarrow> q * w < n" using w by auto
  finally show ?thesis by (simp add: warp_count_def)
qed

lemma warp_count_mult: "0 < w \<Longrightarrow> warp_count (w * nw) w = nw"
proof -
  assume w: "0 < w"
  then have "w * nw + w - 1 = nw * w + (w - 1)" by (simp add: mult.commute)
  then show ?thesis unfolding warp_count_def using group_split(1) [of "w - 1" w nw] w by simp
qed

lemma arrival_slots_nth:
  assumes "i < length order"
  shows "arrival_slots w order aggregate slots i = aggregate (order ! i * w)"
proof -
  have "fst (fold (\<lambda>q (ticket, slots). (ticket + 1, shared_store slots ticket (aggregate (q * w)))) order (k, s)) = k + length order \<and>
    snd (fold (\<lambda>q (ticket, slots). (ticket + 1, shared_store slots ticket (aggregate (q * w)))) order (k, s)) i
      = (if k \<le> i \<and> i < k + length order then aggregate (order ! (i - k) * w) else s i)" for k s i
    by (induction order arbitrary: k s) (auto simp: shared_store_def nth_Cons')
  from this [of 0 slots i] show ?thesis using assms by (simp add: arrival_slots_def)
qed

definition limit_of :: "nat \<Rightarrow> int option \<Rightarrow> nat" where
  "limit_of threads valid = (case valid of None \<Rightarrow> threads | Some v \<Rightarrow> nat v)"

definition valid_ok :: "nat \<Rightarrow> int option \<Rightarrow> bool" where
  "valid_ok threads valid \<longleftrightarrow> (case valid of None \<Rightarrow> True | Some v \<Rightarrow> 1 \<le> v \<and> v \<le> int threads)"

lemma filter_upt_less: "k \<le> n \<Longrightarrow> filter (\<lambda>i. i < k) [a..<n] = [a..<k]"
proof (induction n)
  case (Suc n)
  then show ?case by (cases "k = Suc n") (auto simp: filter_id_conv)
qed simp

lemma below_limit:
  assumes "0 < w" "valid_ok threads valid" "q < warp_count threads w"
  shows "(case valid of None \<Rightarrow> True | Some v \<Rightarrow> int q * int w < v) \<longleftrightarrow> q < warp_count (limit_of threads valid) w"
proof (cases valid)
  case (Some v)
  have "int q * int w < v \<longleftrightarrow> q * w < nat v" using assms(2) Some by (simp add: valid_ok_def zless_nat_eq_int_zless)
  then show ?thesis using warp_count_bound [OF assms(1)] Some by (simp add: limit_of_def)
qed (use assms(3) in \<open>simp add: limit_of_def\<close>)

lemma warp_count_mono: "m \<le> n \<Longrightarrow> warp_count m w \<le> warp_count n w"
  by (simp add: warp_count_def div_le_mono)

lemma limit_le: "valid_ok threads valid \<Longrightarrow> limit_of threads valid \<le> threads"
  by (auto simp: valid_ok_def limit_of_def split: option.splits)

lemma arriving_warps_eq:
  assumes "0 < w" "valid_ok threads valid"
  shows "arriving_warps w threads valid = [0..<warp_count (limit_of threads valid) w]"
proof -
  have "arriving_warps w threads valid = filter (\<lambda>q. q < warp_count (limit_of threads valid) w) [0..<warp_count threads w]"
    unfolding arriving_warps_def by (rule filter_cong) (use below_limit [OF assms] in auto)
  then show ?thesis using filter_upt_less [where a = 0, OF warp_count_mono [OF limit_le [OF assms(2)], of w]] by simp
qed

lemma slots_total_fold:
  assumes "0 < w" "valid_ok threads valid" "0 < threads"
  shows "slots_total d op w threads valid slots = fold1 (combine d op) (map slots [0..<warp_count (limit_of threads valid) w])"
proof -
  let ?k = "warp_count (limit_of threads valid) w"
  have "0 < limit_of threads valid" using assms(2,3) by (auto simp: valid_ok_def limit_of_def split: option.splits)
  then have k: "0 < ?k" using warp_count_bound [OF assms(1), of 0 "limit_of threads valid"] by simp
  have "filter (\<lambda>i. case valid of None \<Rightarrow> True | Some v \<Rightarrow> int i * int w < v) [1..<warp_count threads w]
      = filter (\<lambda>i. i < ?k) [1..<warp_count threads w]"
    by (rule filter_cong) (use below_limit [OF assms(1,2)] in auto)
  also have "\<dots> = [1..<?k]" by (rule filter_upt_less [OF warp_count_mono [OF limit_le [OF assms(2)]]])
  finally show ?thesis
    using k fold1_filter [of "\<lambda>i. case valid of None \<Rightarrow> True | Some v \<Rightarrow> int i * int w < v" "combine d op" slots "[1..<warp_count threads w]" "slots 0"]
    unfolding slots_total_def shared_load_def by (simp add: upt_conv_Cons)
qed

text \<open>Folding the warps' folds, in warp order or, for a commutative operator, in any order.\<close>

lemma fold_warps:
  assumes f: "assoc_op f" and w: "0 < w" and limit: "0 < limit"
    and order: "order = [0..<warp_count limit w] \<or> comm_op f \<and> mset order = mset [0..<warp_count limit w]"
  shows "fold1 f (map (\<lambda>q. fold1 f (map v (warp_range w limit q))) order) = seg f v 0 (limit - 1)"
proof -
  let ?k = "warp_count limit w"
  have k: "0 < ?k" using warp_count_bound [OF w, of 0 limit] limit by simp
  have "mset order = mset [0..<?k]" using order by blast
  then have "set order = set [0..<?k]" by (rule mset_eq_setD)
  then have set: "set order = {..<?k}" by (simp only: set_upt lessThan_atLeast0)
  then have "0 \<in> set order" using k by (simp only: lessThan_iff)
  then have ne: "order \<noteq> []" by (cases order) simp_all
  have "warp_range w limit q \<noteq> []" if "q \<in> set order" for q
  proof -
    have "q * w < limit" using that iffD1 [OF warp_count_bound [OF w]] unfolding set by blast
    then show ?thesis using w by (simp add: warp_range_def)
  qed
  then have "fold1 f (map (\<lambda>q. fold1 f (map v (warp_range w limit q))) order)
      = fold1 f (concat (map (\<lambda>q. map v (warp_range w limit q)) order))"
    using fold1_concat [OF f, of "map (\<lambda>q. map v (warp_range w limit q)) order"] ne by (simp add: comp_def)
  also have "\<dots> = fold1 f (concat (map (\<lambda>q. map v (warp_range w limit q)) [0..<?k]))"
  proof (cases "order = [0..<?k]")
    case False
    then have o: "comm_op f" "mset order = mset [0..<?k]" using order by simp_all
    have "mset (concat (map (\<lambda>q. map v (warp_range w limit q)) order)) = mset (concat (map (\<lambda>q. map v (warp_range w limit q)) [0..<?k]))"
      using o(2) by (simp add: mset_concat flip: sum_mset_sum_list)
    then show ?thesis by (rule fold1_mset [OF f o(1)])
  qed simp
  also have "concat (map (\<lambda>q. map v (warp_range w limit q)) [0..<?k]) = map v (concat (map (warp_range w limit) [0..<?k]))"
    by (simp add: map_concat comp_def)
  also have "concat (map (warp_range w limit) [0..<?k]) = [0..<limit]"
  proof -
    have "\<not> ?k * w < limit" using warp_count_bound [OF w, of ?k limit] by simp
    then show ?thesis using concat_warp_ranges [OF w, of limit ?k] by (simp add: min_def)
  qed
  also have "fold1 f (map v [0..<limit]) = seg f v 0 (limit - 1)" using limit by (simp add: seg_fold1)
  finally show ?thesis .
qed


text \<open>What the operator has to satisfy: commutativity where the network or the arrival order asks for it.\<close>

definition reducer_op :: "'a dtype \<Rightarrow> 'a operator \<Rightarrow> bool \<Rightarrow> bool" where
  "reducer_op d op needs_comm \<longleftrightarrow> assoc_op (combine d op) \<and> (is_builtin op \<or> needs_comm \<longrightarrow> comm_op (combine d op))"

lemma active_count:
  fixes b limit w :: nat
  assumes "b < limit" "0 < w"
  shows "(if (if int limit - int b < int w then int limit - int b else int w) > 0
      then (if int limit - int b < int w then int limit - int b else int w) else 1) = int (min (b + w) limit - b)"
  using assms by (auto simp: min_def)

context warp_reducer
begin

lemma warp_aggregates:
  assumes legal: legal and w: "is_pow2 w" "w \<le> hardware" "threads = w * nw" "0 < nw"
    and op: "reducer_op d op False" and valid: "valid_ok threads valid" and vals: "\<forall>l. ok (partial l)"
  defines "limit \<equiv> limit_of threads valid"
  shows "\<exists>aggregate. (if valid \<noteq> None \<or> threads mod w \<noteq> 0 then reduce op w (Some (active_lanes w threads valid)) partial
      else reduce op w None partial) = Inr aggregate
    \<and> (\<forall>l. l div w * w < limit \<longrightarrow> aggregate l = fold1 (combine d op) (map partial (warp_range w limit (l div w))))"
proof -
  let ?f = "combine d op"
  have p: "0 < w" using w(1) by (rule is_pow2_pos)
  have f: "assoc_op ?f" "is_builtin op \<Longrightarrow> comm_op ?f" using op by (simp_all add: reducer_op_def)
  show ?thesis
  proof (cases valid)
    case None
    have "group_fold ?f partial w l = fold1 ?f (map partial (warp_range w limit (l div w)))" if "l div w * w < limit" for l
    proof -
      have "l div w * w + w \<le> limit"
      proof -
        have "l div w < nw" using that w(3) None p by (simp add: limit_def limit_of_def mult.commute)
        then have "Suc (l div w) * w \<le> nw * w" by (intro mult_right_mono) simp_all
        then show ?thesis using w(3) None by (simp add: limit_def limit_of_def mult.commute)
      qed
      then show ?thesis using p by (simp add: group_fold_def group_base_def seg_fold1 warp_range_def)
    qed
    moreover have "reduce op w None partial = Inr (group_fold ?f partial w)"
      by (rule reduce_full [OF legal w(1,2) f(1)]) (use f(2) vals in blast)+
    ultimately show ?thesis using None w(3) by simp
  next
    case (Some v)
    let ?n = "active_lanes w threads valid"
    have v: "1 \<le> v" "limit = nat v" using valid Some by (simp_all add: valid_ok_def limit_def limit_of_def)
    have n: "0 < ?n i \<and> ?n i \<le> int w" for i using p Some by (simp add: active_lanes_def Let_def)
    have same: "?n i = ?n j" if "i div w = j div w" for i j using that Some by (simp add: active_lanes_def)
    have r: "reduce op w (Some ?n) partial = Inr (\<lambda>l. seg ?f partial (group_base w l) (nat (?n l) - 1))"
      by (rule reduce_active [OF legal w(1,2) f(1)]) (use n same in blast)+
    have "seg ?f partial (group_base w l) (nat (?n l) - 1) = fold1 ?f (map partial (warp_range w limit (l div w)))"
      if l: "l div w * w < limit" for l
    proof -
      let ?b = "l div w * w"
      have b: "int (l div w) * int w = int ?b" and vl: "v = int limit" using v by simp_all
      have "?n l = (if (if int limit - int ?b < int w then int limit - int ?b else int w) > 0
          then (if int limit - int ?b < int w then int limit - int ?b else int w) else 1)"
        unfolding active_lanes_def Some Let_def b vl by simp
      also have "\<dots> = int (min (?b + w) limit - ?b)" using l p by (rule active_count)
      finally have "?n l = int (min (l div w * w + w) limit - l div w * w)" .
      then have e: "nat (?n l) = min (l div w * w + w) limit - l div w * w" by (simp only: nat_int)
      have "l div w * w + Suc (nat (?n l) - 1) = min (l div w * w + w) limit" using n [of l] l p unfolding e by simp
      then show ?thesis unfolding seg_fold1 group_base_def warp_range_def by (simp only:)
    qed
    then show ?thesis using r Some by simp
  qed
qed

lemma reduce_warps_correct:
  assumes legal: legal and w: "is_pow2 w" "w \<le> hardware" "threads = w * nw" "0 < nw"
    and op: "reducer_op d op nondeterministic" and valid: "valid_ok threads valid" and vals: "\<forall>l. ok (partial l)"
    and order: "nondeterministic \<longrightarrow> mset order = mset (arriving_warps w threads valid)"
  shows "\<exists>out. reduce_warps d reduce op w threads nondeterministic order valid partial st = Inr out
    \<and> (\<forall>t < threads. out t = seg (combine d op) partial 0 (limit_of threads valid - 1))"
proof -
  let ?f = "combine d op" and ?limit = "limit_of threads valid"
  let ?k = "warp_count ?limit w"
  have p: "0 < w" using w(1) by (rule is_pow2_pos)
  have t: "0 < threads" using p w(3,4) by simp
  have limit: "0 < ?limit" using valid t by (auto simp: valid_ok_def limit_of_def split: option.splits)
  have f: "assoc_op ?f" using op by (simp add: reducer_op_def)
  have "reducer_op d op False" using op by (auto simp: reducer_op_def)
  from warp_aggregates [OF legal w this valid vals]
  obtain aggregate where a: "(if valid \<noteq> None \<or> threads mod w \<noteq> 0 then reduce op w (Some (active_lanes w threads valid)) partial
      else reduce op w None partial) = Inr aggregate"
    "\<And>l. l div w * w < ?limit \<Longrightarrow> aggregate l = fold1 ?f (map partial (warp_range w ?limit (l div w)))" by blast
  have nw: "warp_count threads w = nw"
    unfolding w(3) by (rule warp_count_mult [OF p])
  show ?thesis
  proof (cases "nw = 1")
    case True
    then have "out t = seg ?f partial 0 (?limit - 1)" if "t < threads" "out = aggregate" for t out
      using a(2) [of t] that limit limit_le [OF valid] w(3) by (simp add: warp_range_def seg_fold1 min_def)
    then show ?thesis using a(1) nw True by (simp add: reduce_warps_def)
  next
    case False
    let ?slots = "if nondeterministic then arrival_slots w order aggregate (rd_slots st)
        else barrier_phase threads (store_if (\<lambda>t. t mod w = 0) (\<lambda>t. t div w) aggregate) (rd_slots st)"
    let ?order = "if nondeterministic then order else [0..<?k]"
    have o: "nondeterministic \<Longrightarrow> mset order = mset [0..<?k]" using order arriving_warps_eq [OF p valid] by simp
    have len: "length ?order = ?k" using o mset_eq_length by fastforce
    have mem: "q < ?k" if "q \<in> set ?order" for q using that o mset_eq_setD by (metis atLeastLessThan_iff set_upt)
    have kn: "?k \<le> nw" using warp_count_mono [OF limit_le [OF valid], of w] nw by simp
    have agg: "aggregate (q * w) = fold1 ?f (map partial (warp_range w ?limit q))" if "q < ?k" for q
      using a(2) [of "q * w"] that warp_count_bound [OF p, of q ?limit] p by simp
    have slot: "?slots i = aggregate (?order ! i * w)" if i: "i < ?k" for i
    proof (cases nondeterministic)
      case True
      then show ?thesis using arrival_slots_nth [of i order w aggregate "rd_slots st"] len i by simp
    next
      case False
      have "i * w < threads" using i kn w(3) p by (simp add: mult.commute)
      moreover have "inj_on (\<lambda>t. t div w) {t. t < threads \<and> t mod w = 0}"
      proof (rule inj_onI)
        fix s t assume "s \<in> {t. t < threads \<and> t mod w = 0}" "t \<in> {t. t < threads \<and> t mod w = 0}" "s div w = t div w"
        then show "s = t" using div_mult_mod_eq [of s w] div_mult_mod_eq [of t w] by simp
      qed
      ultimately have "barrier_phase threads (store_if (\<lambda>t. t mod w = 0) (\<lambda>t. t div w) aggregate) (rd_slots st) (i * w div w) = aggregate (i * w)"
        by (intro phase_store_if) simp_all
      then show ?thesis using False p i by simp
    qed
    have "map ?slots [0..<?k] = map (\<lambda>q. aggregate (q * w)) ?order"
      by (rule nth_equalityI) (use len slot in auto)
    also have "\<dots> = map (\<lambda>q. fold1 ?f (map partial (warp_range w ?limit q))) ?order"
      by (rule map_cong) (use agg mem in auto)
    finally have "slots_total d op w threads valid ?slots
        = fold1 ?f (map (\<lambda>q. fold1 ?f (map partial (warp_range w ?limit q))) ?order)"
      unfolding slots_total_fold [OF p valid t] by (simp only:)
    also have "\<dots> = seg ?f partial 0 (?limit - 1)"
      by (rule fold_warps [OF f p limit]) (use o op in \<open>auto simp: reducer_op_def\<close>)
    finally show ?thesis using a(1) False nw by (simp add: reduce_warps_def Let_def)
  qed
qed

end

section \<open>Raking\<close>

text \<open>The threads a raking thread folds.\<close>

definition raked_threads :: "nat \<Rightarrow> nat \<Rightarrow> bool \<Rightarrow> nat \<Rightarrow> nat list" where
  "raked_threads w nw commutative t =
     (if commutative then map (\<lambda>i. t + i * w) [0..<nw] else map (\<lambda>i. t * nw + i) [0..<nw])"

lemma stepped_warps:
  assumes "0 < w" "0 < nw"
  shows "map (\<lambda>offset. t + offset) (stepped w (w * nw) w) = map (\<lambda>i. t + i * w) [1..<nw]"
proof -
  have "w * nw - w = w * (nw - 1)" by (metis diff_mult_distrib2 mult.right_neutral)
  then have "stepped w (w * nw) w = map (\<lambda>i. w + i * w) [0..<nw - 1]"
    using warp_count_mult [OF assms(1), of "nw - 1"] unfolding stepped_def warp_count_def by (simp only:)
  moreover have "map (\<lambda>i. g (Suc i)) [0..<nw - 1] = map g [1..<nw]" for g :: "nat \<Rightarrow> nat"
    by (rule nth_equalityI) simp_all
  from this [of "\<lambda>i. t + i * w"] have "map (\<lambda>i. t + (w + i * w)) [0..<nw - 1] = map (\<lambda>i. t + i * w) [1..<nw]" by simp
  ultimately show ?thesis by (simp add: comp_def)
qed

lemma raked_threads_bound: "t < w \<Longrightarrow> i \<in> set (raked_threads w nw commutative t) \<Longrightarrow> i < w * nw"
proof -
  assume t: "t < w" "i \<in> set (raked_threads w nw commutative t)"
  show ?thesis
  proof (cases commutative)
    case True
    then obtain j where "j < nw" "i = t + j * w" using t(2) by (auto simp: raked_threads_def)
    then show ?thesis using position_bound [of j nw t w] t(1) by (simp add: ac_simps)
  next
    case False
    then have "i \<in> (\<lambda>j. t * nw + j) ` set [0..<nw]" using t(2) by (simp only: raked_threads_def if_False set_map)
    then obtain j where "j < nw" "i = t * nw + j" by (elim imageE) simp
    then show ?thesis using position_bound [of t w j nw] t(1) by simp
  qed
qed

lemma raked_threads_Cons:
  "0 < nw \<Longrightarrow> raked_threads w nw commutative t
    = (if commutative then t # map (\<lambda>i. t + i * w) [1..<nw] else (t * nw) # map (\<lambda>i. t * nw + i) [1..<nw])"
  by (simp add: raked_threads_def upt_conv_Cons)

lemma distinct_concat_map:
  "distinct ts \<Longrightarrow> \<forall>t \<in> set ts. distinct (F t) \<Longrightarrow> \<forall>s \<in> set ts. \<forall>t \<in> set ts. s \<noteq> t \<longrightarrow> set (F s) \<inter> set (F t) = {}
    \<Longrightarrow> distinct (concat (map F ts))"
proof (induction ts)
  case (Cons t ts)
  then have "set (F t) \<inter> set (F s) = {}" if "s \<in> set ts" for s using that by auto
  then show ?case using Cons by auto
qed simp

text \<open>All raking threads together fold every thread below the limit, each once.\<close>

lemma raked_permutation:
  assumes w: "0 < w" and limit: "limit \<le> w * nw"
  shows "mset (concat (map (\<lambda>t. filter (\<lambda>i. i < limit) (raked_threads w nw True t)) [0..<min limit w])) = mset [0..<limit]"
proof -
  let ?F = "\<lambda>t. filter (\<lambda>i. i < limit) (raked_threads w nw True t)"
  have mod: "i mod w = t" if "i \<in> set (?F t)" "t < w" for i t
    using that by (auto simp: raked_threads_def)
  have "distinct (?F t)" for t
    using w by (simp add: raked_threads_def distinct_map inj_on_def)
  moreover have "set (?F s) \<inter> set (?F t) = {}" if "s < w" "t < w" "s \<noteq> t" for s t
  proof (rule equals0I)
    fix i assume "i \<in> set (?F s) \<inter> set (?F t)"
    then have "i mod w = s" "i mod w = t" using mod that(1,2) by blast+
    then show False using that(3) by simp
  qed
  ultimately have d: "distinct (concat (map ?F [0..<min limit w]))" by (intro distinct_concat_map) simp_all
  have "set (concat (map ?F [0..<min limit w])) = set [0..<limit]"
  proof (rule set_eqI, rule iffI)
    fix i assume "i \<in> set [0..<limit]"
    then have i: "i < limit" by simp
    have "i mod w < min limit w" using w i le_less_trans [OF mod_less_eq_dividend i] by simp
    moreover have "i div w < nw" using i limit w by (simp add: less_mult_imp_div_less mult.commute)
    then have "i \<in> set (?F (i mod w))"
      using i unfolding raked_threads_def by (auto intro!: image_eqI [where x = "i div w"])
    ultimately show "i \<in> set (concat (map ?F [0..<min limit w]))" by auto
  qed auto
  then show ?thesis using set_eq_iff_mset_eq_distinct [OF d, of "[0..<limit]"] by simp
qed

lemma raked_ranges:
  assumes "0 < nw"
  shows "filter (\<lambda>i. i < limit) (raked_threads w nw False t) = warp_range nw limit t"
proof -
  have "raked_threads w nw False t = [t * nw..<t * nw + nw]"
    by (rule nth_equalityI) (simp_all add: raked_threads_def)
  moreover have "filter (\<lambda>i. i < limit) [t * nw..<t * nw + nw] = [t * nw..<min (t * nw + nw) limit]"
  proof (cases "limit \<le> t * nw + nw")
    case False
    then have "filter (\<lambda>i. i < limit) [t * nw..<t * nw + nw] = [t * nw..<t * nw + nw]" by (intro filter_True) simp
    then show ?thesis using False by (simp add: min_def)
  qed (simp add: filter_upt_less min_def)
  ultimately show ?thesis by (simp add: warp_range_def)
qed

lemma publish_partials_read:
  assumes "i < threads" "\<not> commutative \<or> w \<le> i"
  shows "publish_partials w threads commutative partial slots i = partial i"
  unfolding publish_partials_def by (rule phase_store_if [where index = "\<lambda>t. t"]) (use assms in auto)

lemma segment_size: "0 < w \<Longrightarrow> (w * nw + w - 1) div w = nw" for w nw :: nat
  using warp_count_mult [of w nw] by (simp add: warp_count_def)

lemma raked_later:
  assumes "0 < nw"
  shows "raked_threads w nw commutative t
    = (if commutative then t else t * nw) # map (\<lambda>i. if commutative then t + i * w else t * nw + i) [1..<nw]"
  using raked_threads_Cons [OF assms] by simp

lemma raked_lists:
  fixes d :: "'a dtype"
  assumes w: "0 < w" "0 < nw" and t: "t < w"
    and slots: "\<And>i. i < w * nw \<Longrightarrow> \<not> commutative \<or> w \<le> i \<Longrightarrow> slots i = partial i"
  shows "raked_full d op w (w * nw) commutative partial slots t
      = fold1 (combine d op) (map partial (raked_threads w nw commutative t))"
    and "limit \<le> w * nw \<Longrightarrow> (if commutative then t else t * nw) < limit \<Longrightarrow>
      raked_valid d op w (w * nw) commutative (int limit) partial slots t
      = fold1 (combine d op) (map partial (filter (\<lambda>i. i < limit) (raked_threads w nw commutative t)))"
proof -
  let ?f = "combine d op" and ?first = "if commutative then t else t * nw"
  let ?rest = "map (\<lambda>i. if commutative then t + i * w else t * nw + i) [1..<nw]"
  have list: "raked_threads w nw commutative t = ?first # ?rest" by (rule raked_later [OF w(2)])
  have bound: "i < w * nw" if "i \<in> set (?first # ?rest)" for i
    using raked_threads_bound [OF t, of i nw commutative] that unfolding list by blast
  have read: "slots i = partial i" if i: "i \<in> set ?rest" for i
  proof (rule slots)
    show "i < w * nw" using bound i by simp
    show "\<not> commutative \<or> w \<le> i" using i by (cases commutative) (auto intro: trans_le_add2)
  qed
  have start: "(if commutative then partial t else slots (t * nw)) = partial ?first"
  proof (cases commutative)
    case False
    then have "t * nw < w * nw" using bound [of "t * nw"] by (simp only: if_False list.set_intros simp_thms)
    then show ?thesis using slots [of "t * nw"] False by (simp only: if_False simp_thms)
  qed simp
  have clamp: "clamp_index (w * nw) i = i" if "i < w * nw" for i using that by (simp add: clamp_index_def)
  have seg: "w * nw div w = nw" using w(1) by simp
  have steps: "fold (\<lambda>offset. g (t + offset)) (stepped w (w * nw) w) = fold g (map (\<lambda>i. t + i * w) [1..<nw])" for g :: "nat \<Rightarrow> 'a \<Rightarrow> 'a"
    using stepped_warps [OF w, of t] fold_map [of g "\<lambda>offset. t + offset" "stepped w (w * nw) w"] by (simp add: comp_def)
  have items: "fold (\<lambda>i. g (t * nw + i)) [1..<nw] = fold g (map (\<lambda>i. t * nw + i) [1..<nw])" for g :: "nat \<Rightarrow> 'a \<Rightarrow> 'a"
    using fold_map [of g "\<lambda>i. t * nw + i" "[1..<nw]"] by (simp add: comp_def)
  have "raked_full d op w (w * nw) commutative partial slots t = fold (\<lambda>i total. ?f total (slots i)) ?rest (partial ?first)"
    unfolding start [symmetric] raked_full_def shared_load_def Let_def seg
    using steps [of "\<lambda>i total. ?f total (slots i)"] items [of "\<lambda>i total. ?f total (slots i)"] by simp
  also have "\<dots> = fold1 ?f (partial ?first # map slots ?rest)" by (rule fold1_fold)
  also have "map slots ?rest = map partial ?rest" using read by (intro map_cong refl)
  finally show "raked_full d op w (w * nw) commutative partial slots t
      = fold1 ?f (map partial (raked_threads w nw commutative t))" unfolding list by simp
  assume limit: "limit \<le> w * nw" "?first < limit"
  let ?g = "\<lambda>i. slots (clamp_index (w * nw) i)"
  let ?add = "\<lambda>i total. if int i < int limit then ?f total (?g i) else total"
  have "clamp_index (w * nw) (t * nw) = t * nw" if "\<not> commutative"
    using clamp bound [of "t * nw"] that by (simp only: if_False list.set_intros simp_thms)
  then have "raked_valid d op w (w * nw) commutative (int limit) partial slots t = fold ?add ?rest (partial ?first)"
    unfolding start [symmetric] raked_valid_def shared_load_def Let_def segment_size [OF w(1)]
    using steps [of ?add] items [of ?add] by (cases commutative) (simp_all only: if_True if_False simp_thms)
  also have "\<dots> = fold1 ?f (partial ?first # map ?g (filter (\<lambda>i. int i < int limit) ?rest))" by (rule fold1_filter)
  also have "map ?g (filter (\<lambda>i. int i < int limit) ?rest) = map partial (filter (\<lambda>i. i < limit) ?rest)"
  proof -
    have "?g i = partial i" if "i \<in> set ?rest \<and> i < limit" for i
      using read [OF conjunct1 [OF that]] clamp [of i] limit(1) conjunct2 [OF that] by simp
    then show ?thesis unfolding of_nat_less_iff by (intro map_cong refl) (simp only: set_filter mem_Collect_eq)
  qed
  finally show "raked_valid d op w (w * nw) commutative (int limit) partial slots t
      = fold1 ?f (map partial (filter (\<lambda>i. i < limit) (raked_threads w nw commutative t)))"
    unfolding list using limit(2) by simp
qed

text \<open>All values stay values of the element type.\<close>

lemma fold_ok:
  assumes "closed_op ok f" "\<And>i. ok (g i)" "ok x"
  shows "ok (fold (\<lambda>i total. f total (g i)) is x)"
  using assms(3)
proof (induction "is" arbitrary: x)
  case (Cons i "is")
  then show ?case using assms(1,2) by (simp add: closed_op_def)
qed simp

lemma publish_partials_ok:
  assumes "\<And>t. ok (partial t)" "\<And>i. ok (slots i)"
  shows "ok (publish_partials w threads commutative partial slots i)"
proof -
  have "\<forall>(i, v) \<in> set ws. ok v \<Longrightarrow> (\<And>i. ok (slots i)) \<Longrightarrow> ok (run_writes ws slots i)" for ws slots i
    by (induction ws arbitrary: slots) auto
  then show ?thesis
    unfolding publish_partials_def barrier_phase_def using assms by (auto simp: store_if_def split: if_splits)
qed

lemma raked_full_ok:
  assumes "closed_op ok (combine d op)" "\<And>t. ok (partial t)" "\<And>i. ok (slots i)"
  shows "ok (raked_full d op w threads commutative partial slots t)"
  using fold_ok [OF assms(1), of "\<lambda>offset. slots (t + offset)" "partial t"]
    fold_ok [OF assms(1), of "\<lambda>i. slots (t * (threads div w) + i)" "slots (t * (threads div w))"] assms(2,3)
  by (simp add: raked_full_def shared_load_def Let_def)

text \<open>The number of threads with something to rake.\<close>

definition raking_threads :: "nat \<Rightarrow> nat \<Rightarrow> bool \<Rightarrow> nat \<Rightarrow> nat" where
  "raking_threads w nw commutative limit = (if commutative then min limit w else warp_count limit nw)"

lemma raking_threads_full: "0 < nw \<Longrightarrow> raking_threads w nw commutative (w * nw) = w"
  using warp_count_mult [of nw w] by (auto simp: raking_threads_def min_def mult.commute)

lemma raking_threads_bounds:
  assumes "0 < w" "0 < nw" "0 < limit" "limit \<le> w * nw"
  shows "0 < raking_threads w nw commutative limit" "raking_threads w nw commutative limit \<le> w"
    "t < raking_threads w nw commutative limit \<Longrightarrow> t < w \<and> (if commutative then t else t * nw) < limit"
proof -
  have le: "raking_threads w nw commutative limit \<le> w"
    using warp_count_mono [OF assms(4), of nw] warp_count_mult [OF assms(2), of w]
    by (simp add: raking_threads_def mult.commute)
  then show "raking_threads w nw commutative limit \<le> w" .
  show "0 < raking_threads w nw commutative limit"
    using assms warp_count_bound [OF assms(2), of 0 limit] by (simp add: raking_threads_def)
  assume t: "t < raking_threads w nw commutative limit"
  then show "t < w \<and> (if commutative then t else t * nw) < limit"
    using le warp_count_bound [OF assms(2), of t limit] by (auto simp: raking_threads_def)
qed

lemma rakes_fold:
  assumes f: "assoc_op f" "commutative \<Longrightarrow> comm_op f" and w: "0 < w" "0 < nw" and limit: "0 < limit" "limit \<le> w * nw"
    and R: "\<And>t. t < raking_threads w nw commutative limit
      \<Longrightarrow> R t = fold1 f (map v (filter (\<lambda>i. i < limit) (raked_threads w nw commutative t)))"
  shows "seg f R 0 (raking_threads w nw commutative limit - 1) = seg f v 0 (limit - 1)"
proof -
  let ?k = "raking_threads w nw commutative limit" and ?F = "\<lambda>t. filter (\<lambda>i. i < limit) (raked_threads w nw commutative t)"
  have k: "0 < ?k" using raking_threads_bounds(1) [OF w limit] .
  have "seg f R 0 (?k - 1) = fold1 f (map R [0..<?k])" using k by (simp add: seg_fold1)
  also have "map R [0..<?k] = map (\<lambda>t. fold1 f (map v (?F t))) [0..<?k]" by (rule map_cong) (use R in auto)
  also have "fold1 f \<dots> = seg f v 0 (limit - 1)"
  proof (cases commutative)
    case False
    have "fold1 f (map (\<lambda>q. fold1 f (map v (warp_range nw limit q))) [0..<warp_count limit nw]) = seg f v 0 (limit - 1)"
      by (rule fold_warps [OF f(1) w(2) limit(1)]) simp
    then show ?thesis using False raked_ranges [OF w(2)] by (simp add: raking_threads_def)
  next
    case True
    have "?F t \<noteq> []" if t: "t < ?k" for t
      using raking_threads_bounds(3) [OF w limit t] True raked_later [OF w(2), of w True t] by simp
    then have "fold1 f (map (\<lambda>t. fold1 f (map v (?F t))) [0..<?k]) = fold1 f (concat (map (\<lambda>t. map v (?F t)) [0..<?k]))"
      using fold1_concat [OF f(1), of "map (\<lambda>t. map v (?F t)) [0..<?k]"] k by (simp add: comp_def)
    also have "\<dots> = fold1 f (map v (concat (map ?F [0..<?k])))" by (simp add: map_concat comp_def)
    also have "\<dots> = fold1 f (map v [0..<limit])"
    proof (rule fold1_mset [OF f(1) f(2) [OF True]])
      have "mset (concat (map ?F [0..<?k])) = mset [0..<limit]"
        using raked_permutation [OF w(1) limit(2)] True by (simp add: raking_threads_def)
      then show "mset (map v (concat (map ?F [0..<?k]))) = mset (map v [0..<limit])" by (metis mset_map)
    qed
    finally show ?thesis using limit(1) by (simp add: seg_fold1)
  qed
  finally show ?thesis .
qed

context warp_reducer
begin

lemma reduce_raking_correct:
  assumes legal: legal and w: "is_pow2 w" "w \<le> hardware" "threads = w * nw" "0 < nw"
    and op: "reducer_op d op commutative" and valid: "valid_ok threads valid"
    and vals: "\<forall>l. ok (partial l)" "\<forall>i. ok (rd_slots st i)" "closed_op ok (combine d op)"
  shows "\<exists>out. reduce_raking d reduce op w threads commutative valid partial st = Inr out
    \<and> (\<forall>t < threads. out t = seg (combine d op) partial 0 (limit_of threads valid - 1))"
proof -
  let ?f = "combine d op" and ?limit = "limit_of threads valid"
  have p: "0 < w" using w(1) by (rule is_pow2_pos)
  have t: "0 < threads" using p w(3,4) by simp
  have limit: "0 < ?limit" using valid t by (auto simp: valid_ok_def limit_of_def split: option.splits)
  have f: "assoc_op ?f" "is_builtin op \<Longrightarrow> comm_op ?f" "commutative \<Longrightarrow> comm_op ?f" using op by (auto simp: reducer_op_def)
  have full: "reduce op w None v = Inr (group_fold ?f v w)" if "\<forall>l. ok (v l)" for v
    by (rule reduce_full [OF legal w(1,2) f(1)]) (use f(2) that in blast)+
  have active: "reduce op w (Some (\<lambda>_. n)) v = Inr (\<lambda>l. seg ?f v (group_base w l) (nat n - 1))" if "0 < n" "n \<le> int w" for n v
    by (rule reduce_active [OF legal w(1,2) f(1)]) (use that in simp_all)
  show ?thesis
  proof (cases "threads = w")
    case True
    have "l < w \<Longrightarrow> group_base w l = 0" for l by (simp add: group_base_def)
    then show ?thesis
      using True full [OF vals(1)] active valid by (cases valid) (auto simp: reduce_raking_def limit_of_def valid_ok_def group_fold_def)
  next
    case False
    let ?slots = "publish_partials w threads commutative partial (rd_slots st)"
    let ?k = "raking_threads w nw commutative ?limit"
    let ?R = "case valid of None \<Rightarrow> raked_full d op w threads commutative partial ?slots
      | Some v \<Rightarrow> raked_valid d op w threads commutative v partial ?slots"
    have le: "?limit \<le> w * nw" using limit_le [OF valid] w(3) by simp
    note k = raking_threads_bounds [where commutative = commutative, OF p w(4) limit le]
    have seg: "(threads + w - 1) div w = nw" unfolding w(3) by (rule segment_size [OF p])
    have slots: "?slots i = partial i" if "i < w * nw" "\<not> commutative \<or> w \<le> i" for i
      using publish_partials_read that w(3) by metis
    have R: "?R t = fold1 ?f (map partial (filter (\<lambda>i. i < ?limit) (raked_threads w nw commutative t)))" if "t < ?k" for t
    proof (cases valid)
      case None
      have "filter (\<lambda>i. i < threads) (raked_threads w nw commutative t) = raked_threads w nw commutative t"
        using raked_threads_bound [of t w _ nw commutative] k(3) [OF that] w(3) by (intro filter_True) blast
      then show ?thesis
        using raked_lists(1) [OF p w(4) conjunct1 [OF k(3) [OF that]] slots] None w(3) by (simp add: limit_of_def)
    next
      case (Some v)
      then have "v = int ?limit" using valid by (simp add: valid_ok_def limit_of_def)
      then show ?thesis
        using raked_lists(2) [OF p w(4) conjunct1 [OF k(3) [OF that]] slots le conjunct2 [OF k(3) [OF that]]] Some w(3)
        by (simp only: option.case)
    qed
    let ?n = "\<lambda>v. if commutative then (if v < int w then v else int w) else (v + int nw - 1) div int nw"
    have "(case valid of None \<Rightarrow> reduce op w None (raked_full d op w threads commutative partial ?slots)
        | Some v \<Rightarrow> reduce op w (Some (\<lambda>_. ?n v)) (raked_valid d op w threads commutative v partial ?slots))
      = Inr (\<lambda>l. seg ?f ?R (group_base w l) (?k - 1))"
    proof (cases valid)
      case None
      have "ok (?slots i)" for i
        by (rule publish_partials_ok [where ok = ok]) (use vals(1,2) in blast)+
      then have "\<forall>l. ok (raked_full d op w threads commutative partial ?slots l)"
        using raked_full_ok [where ok = ok, OF vals(3)] vals(1) by blast
      then show ?thesis using None full raking_threads_full [OF w(4), of w commutative] w(3)
        by (simp add: limit_of_def group_fold_def fun_eq_iff)
    next
      case (Some v)
      then have v: "v = int ?limit" using valid by (simp add: valid_ok_def limit_of_def)
      have "int (?limit + nw - 1) = int ?limit + int nw - 1" using limit by simp
      then have "?n v = int ?k" unfolding v by (auto simp: raking_threads_def warp_count_def zdiv_int min_def)
      then show ?thesis using Some active [of "int ?k"] k(1,2) by simp
    qed
    moreover have "seg ?f ?R (group_base w 0) (?k - 1) = seg ?f partial 0 (?limit - 1)"
      using rakes_fold [OF f(1,3) p w(4) limit le R] by (simp add: group_base_def)
    ultimately obtain u where u: "(case valid of None \<Rightarrow> reduce op w None (raked_full d op w threads commutative partial ?slots)
        | Some v \<Rightarrow> reduce op w (Some (\<lambda>_. ?n v)) (raked_valid d op w threads commutative v partial ?slots)) = Inr u"
      "u 0 = seg ?f partial 0 (?limit - 1)" by blast
    show ?thesis
      unfolding reduce_raking_def seg Let_def u(1) using False phase_store_zero [OF t, of u] u(2) by (simp add: shared_load_def)
  qed
qed

end

section \<open>The call\<close>

text \<open>The value of the call: all items, the valid threads, or the valid threads padded with the identity.\<close>

definition reduce_value ::
  "'a dtype \<Rightarrow> 'a operator \<Rightarrow> 'a option \<Rightarrow> count option \<Rightarrow> nat \<Rightarrow> 'a lanes list \<Rightarrow> 'a" where
  "reduce_value d op explicit valid_items threads items =
     (case valid_items of
        None \<Rightarrow> seg (combine d op) (blocked items) 0 (threads * length items - 1)
      | Some n \<Rightarrow> (case optional_identity d op explicit of
          None \<Rightarrow> seg (combine d op) (hd items) 0 (nat (count_value n) - 1)
        | Some e \<Rightarrow> seg (combine d op) (\<lambda>t. if int t < count_value n then hd items t else e) 0 (threads - 1)))"

definition needs_commutative :: "reduce_algorithm \<Rightarrow> bool" where
  "needs_commutative a \<longleftrightarrow> a = RAKE_COMMUTATIVE \<or> a = REDUCE_WARPS_NONDETERMINISTIC"

definition arrival_ok :: "'a reduce_class \<Rightarrow> 'a operator \<Rightarrow> 'a option \<Rightarrow> count option \<Rightarrow> nat list \<Rightarrow> bool" where
  "arrival_ok c op explicit valid_items order \<longleftrightarrow> (rd_algorithm c = REDUCE_WARPS_NONDETERMINISTIC \<longrightarrow>
     mset order = mset (arriving_warps (rd_width c) (rd_threads c)
       (snd (reduce_partial (rd_dtype c) op explicit valid_items (\<lambda>_. undefined)))))"

lemma reduce_partial_snd: "snd (reduce_partial d op explicit valid_items v) = snd (reduce_partial d op explicit valid_items u)"
  by (simp add: reduce_partial_def split: option.splits)

lemma reduce_partial_valid:
  assumes "\<forall>n. valid_items = Some n \<longrightarrow> 0 \<le> count_value n \<and> count_value n \<le> int threads" "0 < threads"
  shows "valid_ok threads (snd (reduce_partial d op explicit valid_items v))"
  using assms by (auto simp: reduce_partial_def valid_ok_def split: option.splits)

lemma reduce_value_eq:
  assumes f: "assoc_op (combine d op)" and pos: "0 < threads" and v: "tile_partial d op tile = Inr v" and ne: "tile_items tile \<noteq> []"
    and tile: "valid_items \<noteq> None \<Longrightarrow> \<exists>u. tile = Item u" and p: "reduce_partial d op explicit valid_items v = (partial, valid)"
  shows "seg (combine d op) partial 0 (limit_of threads valid - 1) = reduce_value d op explicit valid_items threads (tile_items tile)"
proof (cases valid_items)
  case None
  obtain v' where v': "tile_partial d op tile = Inr v'" "group_fold (combine d op) v' threads = tile_total (combine d op) tile threads"
    using tile_partial_total [OF f pos ne] by blast
  then have "group_fold (combine d op) v threads 0 = tile_total (combine d op) tile threads 0" using v by simp
  then show ?thesis
    using p None by (auto simp: reduce_partial_def limit_of_def reduce_value_def group_fold_def tile_total_def group_base_def)
next
  case (Some n)
  then obtain u where u: "tile = Item u" using tile by blast
  then have "v = u" using v by simp
  then show ?thesis
    using p Some u by (auto simp: reduce_partial_def limit_of_def reduce_value_def select_value_def cong: if_cong split: option.splits if_splits)
qed

lemma tile_partial_ok:
  assumes "tile_partial d op tile = Inr v" "closed_op ok (combine d op)" "\<And>item l. item \<in> set (tile_items tile) \<Longrightarrow> ok (item l)"
  shows "ok (v l)"
proof (cases tile)
  case (Items vs)
  then obtain x xs where vs: "vs = x # xs" using assms(1) by (cases vs) auto
  then have "v l = foldl (\<lambda>a y. combine d op a (y l)) (x l) xs" using assms(1) Items by auto
  moreover have "ok a \<Longrightarrow> set ys \<subseteq> set xs \<Longrightarrow> ok (foldl (\<lambda>a y. combine d op a (y l)) a ys)" for a ys
    using assms(2,3) by (induction ys arbitrary: a) (simp_all add: Items vs closed_op_def)
  ultimately show ?thesis using assms(3) by (simp add: Items vs)
qed (use assms in auto)

context warp_reducer
begin

lemma block_reduce_correct:
  assumes legal: legal and c: "rd_dtype c = d" "rd_reduce c = reduce" "block_geometry hardware (rd_threads c) (rd_width c) nw"
    and op: "reducer_op d op (needs_commutative (rd_algorithm c))" "needs_commutative (rd_algorithm c) \<longrightarrow> is_commutative op"
    and ne: "tile_items tile \<noteq> []" and valid: "validate_scalar_valid_items tile valid_items (rd_threads c) = Inr ()"
    and range: "\<forall>n. valid_items = Some n \<longrightarrow> 0 \<le> count_value n \<and> count_value n \<le> int (rd_threads c)"
    and order: "arrival_ok c op explicit valid_items order"
    and vals: "\<forall>item \<in> set (tile_items tile). \<forall>l. ok (item l)" "\<forall>i. ok (rd_slots st i)" "closed_op ok (combine d op)"
    and neutral: "\<forall>e. valid_items \<noteq> None \<and> optional_identity d op explicit = Some e \<longrightarrow> ok e"
  shows "\<exists>out. block_reduce (Some c) op order explicit valid_items tile st = Inr out
    \<and> (\<forall>t < rd_threads c. out t = reduce_value d op explicit valid_items (rd_threads c) (tile_items tile))"
proof -
  let ?w = "rd_width c" and ?threads = "rd_threads c"
  have w: "is_pow2 ?w" "?w \<le> hardware" "?threads = ?w * nw" "0 < nw" using c(3) by (simp_all add: block_geometry_def)
  have pos: "0 < ?threads" using w(3,4) is_pow2_pos [OF w(1)] by simp
  have f: "assoc_op (combine d op)" using op(1) by (simp add: reducer_op_def)
  obtain v where v: "tile_partial d op tile = Inr v" using tile_partial_total [OF f pos ne] by blast
  obtain partial limit where p: "reduce_partial d op explicit valid_items v = (partial, limit)"
    by (cases "reduce_partial d op explicit valid_items v")
  have "valid_ok ?threads (snd (reduce_partial d op explicit valid_items v))"
    by (rule reduce_partial_valid [OF range pos])
  then have ok: "valid_ok ?threads limit" unfolding p by simp
  have item: "\<exists>u. tile = Item u" if "valid_items \<noteq> None" using valid that by (cases tile) auto
  have val: "seg (combine d op) partial 0 (limit_of ?threads limit - 1) = reduce_value d op explicit valid_items ?threads (tile_items tile)"
    by (rule reduce_value_eq [OF f pos v ne item p])
  have "ok (v l)" for l by (rule tile_partial_ok [OF v]) (use vals in auto)
  then have partial: "\<forall>l. ok (partial l)"
    using p neutral by (auto simp: reduce_partial_def select_value_def split: option.splits)
  have "require_commutative op = Inr ()" if "needs_commutative (rd_algorithm c)"
    using op(2) that by (simp add: require_commutative_def)
  then have call: "block_reduce (Some c) op order explicit valid_items tile st =
      (if rd_algorithm c = REDUCE_WARPS \<or> rd_algorithm c = REDUCE_WARPS_NONDETERMINISTIC
       then reduce_warps d reduce op ?w ?threads (rd_algorithm c = REDUCE_WARPS_NONDETERMINISTIC) order limit partial st
       else reduce_raking d reduce op ?w ?threads (rd_algorithm c = RAKE_COMMUTATIVE) limit partial st)"
    using valid v p by (simp add: block_reduce_def Let_def c needs_commutative_def)
  show ?thesis
  proof (cases "rd_algorithm c = REDUCE_WARPS \<or> rd_algorithm c = REDUCE_WARPS_NONDETERMINISTIC")
    case True
    have "snd (reduce_partial d op explicit valid_items (\<lambda>_. undefined)) = limit"
      using reduce_partial_snd [of d op explicit valid_items "\<lambda>_. undefined" v] p by simp
    then have "rd_algorithm c = REDUCE_WARPS_NONDETERMINISTIC \<longrightarrow> mset order = mset (arriving_warps ?w ?threads limit)"
      using order by (simp add: arrival_ok_def c)
    moreover have "reducer_op d op (rd_algorithm c = REDUCE_WARPS_NONDETERMINISTIC)"
      using op(1) by (auto simp: reducer_op_def needs_commutative_def)
    ultimately show ?thesis
      unfolding call val [symmetric] if_P [OF True] by (intro reduce_warps_correct [OF legal w _ ok partial])
  next
    case False
    have "reducer_op d op (rd_algorithm c = RAKE_COMMUTATIVE)"
      using op(1) by (auto simp: reducer_op_def needs_commutative_def)
    then show ?thesis
      unfolding call val [symmetric] if_not_P [OF False] by (intro reduce_raking_correct [OF legal w _ ok partial vals(2,3)])
  qed
qed

end


section \<open>The two warp reductions\<close>

definition portable_reduce :: "target \<Rightarrow> num_type \<Rightarrow> int reduce_op" where
  "portable_reduce tg t op w active v = (case active of
       None \<Rightarrow> warp_reduce tg (num_dtype t) op (Some (int w)) None (Item v)
     | Some n \<Rightarrow> warp_reduce_runtime tg (num_dtype t) op (Some (int w)) n v)"

text \<open>With a valid count the override forwards to the portable reduction.\<close>

definition rocdl_reduce :: "rocdl_target \<Rightarrow> num_type \<Rightarrow> int reduce_op" where
  "rocdl_reduce tg t op w active v = (case active of
       None \<Rightarrow> rocdl_warp_reduce tg t op (Some (int w)) None (Item v)
     | Some n \<Rightarrow> warp_reduce_runtime (target.truncate tg) (num_dtype t) op (Some (int w)) n v)"

definition portable_reduce_legal :: "target \<Rightarrow> num_type \<Rightarrow> bool" where
  "portable_reduce_legal tg t \<longleftrightarrow> shuffle_law (lane_src tg) \<and> is_pow2 (warp_size tg) \<and> int_type t"

definition rocdl_reduce_legal :: "rocdl_target \<Rightarrow> num_type \<Rightarrow> bool" where
  "rocdl_reduce_legal tg t \<longleftrightarrow> rocdl_law tg \<and> shuffle_law (lane_src tg) \<and> warp_size tg = 64 \<and> int_type t"

lemma tile_total_item: "tile_total f (Item v) w = group_fold f v w"
proof -
  have "blocked [v] = v" by (simp add: blocked_def fun_eq_iff)
  then show ?thesis by (intro ext) (simp add: tile_total_def group_fold_def)
qed

lemma runtime_reduce:
  assumes "shuffle_law (lane_src tg)" "is_pow2 w" "w \<le> warp_size tg" "assoc_op (combine d op)"
    and "\<forall>i j. i div w = j div w \<longrightarrow> n i = n j" "\<forall>i. 0 < n i \<and> n i \<le> int w"
  shows "warp_reduce_runtime tg d op (Some (int w)) n v
    = Inr (\<lambda>l. seg (combine d op) v (group_base w l) (nat (n l) - 1))"
proof -
  have "reduce_valid tg d v op w n = (\<lambda>l. seg (combine d op) v (group_base w l) (nat (n l) - 1))"
    by (rule ext, rule reduce_valid_correct [OF assms(1,4,2)]) (use assms(5,6) in blast)+
  then show ?thesis by (simp add: warp_reduce_runtime_def resolve_width [OF assms(2,3)])
qed

lemma portable_full:
  assumes "shuffle_law (lane_src tg)" "is_pow2 (warp_size tg)" "is_pow2 w" "w \<le> warp_size tg" "assoc_op (combine d op)"
    and "is_builtin op \<Longrightarrow> comm_op (combine d op)"
  shows "warp_reduce tg d op (Some (int w)) None (Item v) = Inr (group_fold (combine d op) v w)"
  using warp_reduce_total [OF assms(1,2,5,6) resolve_width [OF assms(3,4)], of "Item v"] by (simp add: tile_total_item)

interpretation portable_reducer: warp_reducer "portable_reduce_legal tg t" "warp_size tg" "num_dtype t" "nt_range t" "portable_reduce tg t"
proof (unfold_locales, goal_cases)
  case (1 w op v)
  then show ?case by (simp add: portable_reduce_def portable_reduce_legal_def portable_full)
next
  case (2 w op n v)
  have "warp_reduce_runtime tg (num_dtype t) op (Some (int w)) n v
      = Inr (\<lambda>l. seg (combine (num_dtype t) op) v (group_base w l) (nat (n l) - 1))"
    by (rule runtime_reduce [OF _ 2(2-6)]) (use 2(1) in \<open>simp add: portable_reduce_legal_def\<close>)
  then show ?case by (simp add: portable_reduce_def)
qed

interpretation rocdl_reducer: warp_reducer "rocdl_reduce_legal tg t" 64 "num_dtype t" "nt_range t" "rocdl_reduce tg t"
proof (unfold_locales, goal_cases)
  case (1 w op v)
  have p: "is_pow2 64" using is_pow2_power [of 6] by simp
  have "rocdl_warp_reduce tg t op (Some (int w)) None (Item v) = warp_reduce (target.truncate tg) (num_dtype t) op (Some (int w)) None (Item v)"
    by (rule rocdl_reduce_eq) (use 1 in \<open>simp_all add: rocdl_reduce_legal_def\<close>)
  also have "\<dots> = Inr (group_fold (combine (num_dtype t) op) v w)"
    by (rule portable_full) (use 1 p in \<open>simp_all add: rocdl_reduce_legal_def target.truncate_def\<close>)
  finally show ?case by (simp add: rocdl_reduce_def)
next
  case (2 w op n v)
  have "warp_reduce_runtime (target.truncate tg) (num_dtype t) op (Some (int w)) n v
      = Inr (\<lambda>l. seg (combine (num_dtype t) op) v (group_base w l) (nat (n l) - 1))"
    by (rule runtime_reduce [OF _ 2(2) _ 2(4-6)]) (use 2(1,3) in \<open>simp_all add: rocdl_reduce_legal_def target.truncate_def\<close>)
  then show ?case by (simp add: rocdl_reduce_def)
qed
section \<open>Properties\<close>

text \<open>
  C6: the block reduction, for each of the four algorithms on the portable and on the ROCm warp
  reduction: every thread gets the fold of the block's items in blocked order; with a valid count,
  the fold of the valid threads, or of the valid threads padded with the identity. The operator is
  associative, and commutative where the algorithm asks for it; the slots of the unordered variant
  may fill in any order.
\<close>

theorem block_reduces:
  assumes "(portable_reduce_legal tg t \<and> hardware = warp_size tg \<and> rd_reduce c = portable_reduce tg t)
      \<or> (rocdl_reduce_legal rt t \<and> hardware = 64 \<and> rd_reduce c = rocdl_reduce rt t)"
    and "rd_dtype c = num_dtype t" "block_geometry hardware (rd_threads c) (rd_width c) nw"
    and "reducer_op (num_dtype t) op (needs_commutative (rd_algorithm c))"
    and "needs_commutative (rd_algorithm c) \<longrightarrow> is_commutative op"
    and "tile_items tile \<noteq> []" "validate_scalar_valid_items tile valid_items (rd_threads c) = Inr ()"
    and "\<forall>n. valid_items = Some n \<longrightarrow> 0 \<le> count_value n \<and> count_value n \<le> int (rd_threads c)"
    and "arrival_ok c op explicit valid_items order"
    and "\<forall>item \<in> set (tile_items tile). \<forall>l. nt_range t (item l)" "\<forall>i. nt_range t (rd_slots st i)"
    and "closed_op (nt_range t) (combine (num_dtype t) op)"
    and "\<forall>e. valid_items \<noteq> None \<and> optional_identity (num_dtype t) op explicit = Some e \<longrightarrow> nt_range t e"
  shows "\<exists>out. block_reduce (Some c) op order explicit valid_items tile st = Inr out
    \<and> (\<forall>x < rd_threads c. out x = reduce_value (num_dtype t) op explicit valid_items (rd_threads c) (tile_items tile))"
  using assms(1)
proof
  assume p: "portable_reduce_legal tg t \<and> hardware = warp_size tg \<and> rd_reduce c = portable_reduce tg t"
  show ?thesis
    by (rule portable_reducer.block_reduce_correct [where tg = tg, OF conjunct1 [OF p] assms(2) conjunct2 [OF conjunct2 [OF p]] _ assms(4-13)])
      (use p assms(3) in simp)
next
  assume p: "rocdl_reduce_legal rt t \<and> hardware = 64 \<and> rd_reduce c = rocdl_reduce rt t"
  show ?thesis
    by (rule rocdl_reducer.block_reduce_correct [where tg = rt, OF conjunct1 [OF p] assms(2) conjunct2 [OF conjunct2 [OF p]] _ assms(4-13)])
      (use p assms(3) in simp)
qed

definition demo_reduction :: "int reduce_class" where
  "demo_reduction = \<lparr>rd_dtype = num_dtype int32, rd_algorithm = REDUCE_WARPS_NONDETERMINISTIC, rd_width = 4, rd_threads = 12,
     rd_reduce = portable_reduce demo_target int32\<rparr>"

theorem block_reduces_witness:
  "\<exists>out. block_reduce (Some demo_reduction) (Builtin ADD) [2, 0, 1] None None (Items [\<lambda>l. int (l mod 64), \<lambda>l. int (l mod 64)])
       \<lparr>rd_slots = \<lambda>_. 0, rd_result = \<lambda>_. 0\<rparr> = Inr out \<and> out 7 = 132"
proof -
  let ?i = "\<lambda>l :: nat. int (l mod 64)"
  have legal: "(portable_reduce_legal demo_target int32 \<and> (8::nat) = warp_size demo_target \<and> rd_reduce demo_reduction = portable_reduce demo_target int32)
      \<or> (rocdl_reduce_legal gfx9_target int32 \<and> (8::nat) = 64 \<and> rd_reduce demo_reduction = rocdl_reduce gfx9_target int32)"
    by (simp add: portable_reduce_legal_def demo_reduction_def)
  have geometry: "block_geometry 8 (rd_threads demo_reduction) (rd_width demo_reduction) 3"
    using is_pow2_power [of 2] by (simp add: block_geometry_def demo_reduction_def)
  have "mset [2, 0, 1] = mset (arriving_warps 4 12 None)" by code_simp
  then have order: "arrival_ok demo_reduction (Builtin ADD) None None [2, 0, 1]"
    by (simp add: arrival_ok_def demo_reduction_def reduce_partial_def)
  have "nt_width int32 \<noteq> 1" by (simp add: int32_def)
  then have op: "reducer_op (num_dtype int32) (Builtin ADD) (needs_commutative (rd_algorithm demo_reduction))"
    using int32_add(1) by (simp add: reducer_op_def comm_op_def add_combine add.commute)
  obtain out where o: "block_reduce (Some demo_reduction) (Builtin ADD) [2, 0, 1] None None (Items [?i, ?i])
       \<lparr>rd_slots = \<lambda>_. 0, rd_result = \<lambda>_. 0\<rparr> = Inr out"
    "\<forall>x < 12. out x = reduce_value (num_dtype int32) (Builtin ADD) None None 12 [?i, ?i]"
    using block_reduces [OF legal _ geometry op _ _ _ _ order, of "Items [?i, ?i]" "\<lparr>rd_slots = \<lambda>_. 0, rd_result = \<lambda>_. 0\<rparr>"]
      small_int32 [of 0] int32_add by (auto simp: demo_reduction_def)
  have "seg (num_combine int32 ADD) (blocked [?i, ?i]) 0 23 = 132" by code_simp
  then have "out 7 = 132" using o(2) by (simp add: reduce_value_def)
  then show ?thesis using o(1) by blast
qed
end
