(* ===== verification/Block_Topk.thy ===== *)
theory Block_Topk
  imports Radix_Providers Block_Merge_Sort "HOL-Library.Sublist"
begin

text \<open>
  The block top-k selection (\<open>coop/block/topk.py\<close>): by sorting the tile, or by finding the threshold bit
  by bit (\<open>AIR\<close>) over the order-preserving bits, the counting scan and the word exchange of the radix
  sort.
\<close>

section \<open>Definitions\<close>

datatype topk_algorithm = TOPK_MERGE | TOPK_AIR

text \<open>What the call checks of \<open>k\<close> and \<open>num_valid\<close>, as far as they are Python integers.\<close>

fun static_range :: "nat \<Rightarrow> count \<Rightarrow> unit res" where
  "static_range tile (Static v) = guard ValueError (0 \<le> v \<and> v \<le> int tile)"
| "static_range tile (Runtime v) = Inr ()"

fun static_order :: "count \<Rightarrow> count \<Rightarrow> unit res" where
  "static_order (Static k) (Static n) = guard ValueError (\<not> k > n)"
| "static_order _ _ = Inr ()"

definition topk_counts :: "nat \<Rightarrow> count \<Rightarrow> count option \<Rightarrow> count res" where
  "topk_counts tile k num_valid =
     rbind (static_range tile k) (\<lambda>_.
     let n = (case num_valid of None \<Rightarrow> Static (int tile) | Some n \<Rightarrow> n) in
     rbind (static_range tile n) (\<lambda>_. rbind (static_order k n) (\<lambda>_. Inr n)))"

text \<open>The flags of the first \<open>k\<close> positions.\<close>

definition topk_flags :: "nat \<Rightarrow> count \<Rightarrow> bool \<Rightarrow> bool lanes tile" where
  "topk_flags n k vector =
     (let flags = map (\<lambda>i t. int (t * n + i) < count_value k) [0..<n] in if vector then Items flags else Item (hd flags))"

subsection \<open>By sorting\<close>

definition topk_merge ::
  "('k, 'v) merge_class \<Rightarrow> ('k \<Rightarrow> 'k \<Rightarrow> bool) \<Rightarrow> bool \<Rightarrow> count \<Rightarrow> count option \<Rightarrow> ('k, 'v) entry \<Rightarrow> ('k, 'v) entry shared
     \<Rightarrow> nat shared \<Rightarrow> 'k lanes tile \<Rightarrow> 'v lanes tile option \<Rightarrow> ('k lanes tile \<times> 'v lanes tile option \<times> bool lanes tile) res" where
  "topk_merge c lt largest k num_valid zero slots permutation keys vals =
     rbind (guard ValueError (length (as_items keys) = ms_items c)) (\<lambda>_.
     rbind (topk_counts (ms_threads c * ms_items c) k num_valid) (\<lambda>n.
     rbind (sort_unpack keys vals) (\<lambda>(items, payload, vector).
     rbind (guard TypeError (\<not> (payload \<noteq> None \<and> \<not> ms_pairs c))) (\<lambda>_.
     rbind (block_merge_sort c lt largest (Some n) None zero slots permutation keys vals) (\<lambda>(keys', vals').
       Inr (keys', vals', topk_flags (ms_items c) k vector))))))"

subsection \<open>By a threshold\<close>

text \<open>The unsigned type of a boolean key has eight bits.\<close>

definition ordered_width :: "field_type \<Rightarrow> nat" where
  "ordered_width f = (if ft_width f = 1 then 8 else ft_width f)"

definition topk_order :: "field_type \<Rightarrow> bool \<Rightarrow> nat \<Rightarrow> nat" where
  "topk_order f largest key =
     (let bits = ordered_bits f True key in if largest then xor bits (2 ^ ordered_width f - 1) else bits)"

definition threshold_step ::
  "sum_scan \<Rightarrow> nat lanes list \<Rightarrow> int lanes list \<Rightarrow> nat \<Rightarrow> nat lanes \<times> nat \<times> int lanes \<Rightarrow> (nat lanes \<times> nat \<times> int lanes) res" where
  "threshold_step scan ordered valid b state =
     (case state of (threshold, seen, remaining) \<Rightarrow>
       let bit_mask = 2 ^ b;
           zero_count = (\<lambda>t. sum_list (map (\<lambda>flag. flag t) (map (\<lambda>i t.
             if (and ((ordered ! i) t) seen = threshold t \<and> (valid ! i) t \<noteq> 0) \<and> and ((ordered ! i) t) bit_mask = 0
             then 1 else 0) [0..<length ordered])))
       in rbind (scan (Item zero_count)) (\<lambda>(_, zeros).
         let take_one = (\<lambda>t. remaining t > zeros t)
         in Inr (\<lambda>t. if take_one t then or (threshold t) bit_mask else threshold t, or seen bit_mask,
                 \<lambda>t. if take_one t then i32 (remaining t - zeros t) else remaining t)))"

definition topk_threshold ::
  "nat lanes list \<Rightarrow> int \<Rightarrow> int lanes list \<Rightarrow> sum_scan \<Rightarrow> nat \<Rightarrow> (nat lanes \<times> int lanes) res" where
  "topk_threshold ordered k valid scan width =
     rbind (fold_res (threshold_step scan ordered valid) (rev [0..<width]) (\<lambda>_. 0, 0, \<lambda>_. k))
       (\<lambda>(threshold, seen, remaining). Inr (threshold, remaining))"

definition topk_ranks ::
  "sum_scan \<Rightarrow> nat \<Rightarrow> nat lanes list \<Rightarrow> int lanes list \<Rightarrow> int \<Rightarrow> int lanes list res" where
  "topk_ranks scan width ordered validity k =
     (let n = length ordered in
      rbind (topk_threshold ordered (i32 k) validity scan width) (\<lambda>(threshold, remaining).
      let equal = map (\<lambda>i t. if (ordered ! i) t = threshold t \<and> (validity ! i) t \<noteq> 0 then 1 else (0 :: int)) [0..<n] in
      rbind (scan (Items equal)) (\<lambda>(duplicates, _).
      rbind (tile_list duplicates) (\<lambda>duplicate_rank.
      let selected = map (\<lambda>i t. if (validity ! i) t \<noteq> 0 \<and> ((ordered ! i) t < threshold t
            \<or> ((ordered ! i) t = threshold t \<and> (duplicate_rank ! i) t < remaining t)) then 1 else (0 :: int)) [0..<n] in
      rbind (scan (Items selected)) (\<lambda>(prefix, selected_count).
      rbind (tile_list prefix) (\<lambda>prefix.
        Inr (map (\<lambda>i t. if (selected ! i) t \<noteq> 0 then (prefix ! i) t
             else i32 (selected_count t + int (t * n + i) - (prefix ! i) t)) [0..<n])))))))"

definition topk_validity :: "nat \<Rightarrow> int \<Rightarrow> int lanes list" where
  "topk_validity n num_valid = map (\<lambda>i t. if int (t * n + i) < num_valid then 1 else 0) [0..<n]"

definition topk_select :: "sort_class \<Rightarrow> field_type \<Rightarrow> bool \<Rightarrow> int \<Rightarrow> int \<Rightarrow> sort_state \<Rightarrow> sort_state res" where
  "topk_select c f largest k num_valid state =
     (let n = rs_items c; ordered = map (\<lambda>key t. topk_order f largest (key t)) (fst state) in
      rbind (topk_ranks (rs_scan c) (ordered_width f) ordered (topk_validity n num_valid) k) (\<lambda>ranks.
        Inr (move_items c ranks (blocked_positions n) state)))"

text \<open>\<open>compared\<close>: a comparison was given; \<open>numeric\<close>: the keys are numeric scalars, of the type \<open>f\<close>.\<close>

definition topk_air ::
  "sort_class \<Rightarrow> field_type \<Rightarrow> bool \<Rightarrow> bool \<Rightarrow> bool \<Rightarrow> count \<Rightarrow> count option \<Rightarrow> nat lanes tile \<Rightarrow> nat lanes tile option
     \<Rightarrow> nat shared \<Rightarrow> (nat lanes tile \<times> nat lanes tile option \<times> bool lanes tile) res" where
  "topk_air c f compared numeric largest k num_valid keys vals storage =
     rbind (guard ValueError (length (as_items keys) = rs_items c)) (\<lambda>_.
     rbind (topk_counts (rs_threads c * rs_items c) k num_valid) (\<lambda>n.
     rbind (sort_unpack keys vals) (\<lambda>(items, payload, vector).
     rbind (guard TypeError (\<not> (payload \<noteq> None \<and> \<not> rs_pairs c))) (\<lambda>_.
     rbind (guard TypeError (\<not> compared)) (\<lambda>_.
     rbind (guard TypeError numeric) (\<lambda>_.
     rbind (topk_select c f largest (count_value k) (count_value n) (items, payload, storage)) (\<lambda>(items, payload, storage).
       let (keys', vals') = sort_pack items payload vector
       in Inr (keys', vals', topk_flags (rs_items c) k vector))))))))"

subsection \<open>The class\<close>

text \<open>
  The scratch memory of either algorithm: the words of the exchange; the entries and the permutation of
  the merge sort. Without a comparison the keys compare as the values they stand for.
\<close>

type_synonym topk_scratch = "nat shared \<times> (nat, nat) entry shared \<times> nat shared"

definition block_topk ::
  "topk_algorithm option \<Rightarrow> sort_class \<Rightarrow> (nat, nat) merge_class \<Rightarrow> field_type \<Rightarrow> bool \<Rightarrow> topk_scratch \<Rightarrow> nat lanes tile \<Rightarrow> count
     \<Rightarrow> nat lanes tile option \<Rightarrow> bool \<Rightarrow> count option \<Rightarrow> (nat \<Rightarrow> nat \<Rightarrow> bool) option
     \<Rightarrow> (nat lanes tile \<times> nat lanes tile option \<times> bool lanes tile) res" where
  "block_topk algorithm c m f numeric scratch keys k vals largest num_valid compare_op =
     (case algorithm of
        None \<Rightarrow> Inl TypeError
      | Some TOPK_MERGE \<Rightarrow> topk_merge m (case compare_op of None \<Rightarrow> \<lambda>a b. order_value f a < order_value f b | Some lt \<Rightarrow> lt)
          largest k num_valid (0, None, False) (fst (snd scratch)) (snd (snd scratch)) keys vals
      | Some TOPK_AIR \<Rightarrow> topk_air c f (compare_op \<noteq> None) numeric largest k num_valid keys vals (fst scratch))"

definition max_keys where
  "max_keys algorithm c m f numeric scratch keys k num_valid = block_topk algorithm c m f numeric scratch keys k None True num_valid None"

definition min_keys where
  "min_keys algorithm c m f numeric scratch keys k num_valid = block_topk algorithm c m f numeric scratch keys k None False num_valid None"

definition max_pairs where
  "max_pairs algorithm c m f numeric scratch keys vals k num_valid = block_topk algorithm c m f numeric scratch keys k (Some vals) True num_valid None"

definition min_pairs where
  "min_pairs algorithm c m f numeric scratch keys vals k num_valid = block_topk algorithm c m f numeric scratch keys k (Some vals) False num_valid None"

section \<open>Counting below a threshold\<close>

lemma fold_res_down:
  assumes "I w s" "\<And>b s. b < w \<Longrightarrow> I (Suc b) s \<Longrightarrow> \<exists>s'. f b s = Inr s' \<and> I b s'"
  shows "\<exists>s'. fold_res f (rev [0..<w]) s = Inr s' \<and> I 0 s'"
  using assms
proof (induction w arbitrary: s)
  case (Suc w)
  then obtain s' where s: "f w s = Inr s'" "I w s'" by blast
  have "\<exists>s''. fold_res f (rev [0..<w]) s' = Inr s'' \<and> I 0 s''"
    by (rule Suc.IH [OF s(2)]) (use Suc.prems(2) in simp)
  then show ?case using s(1) by simp
qed simp

text \<open>One more bit of the prefixes.\<close>

lemma prefix_cases:
  fixes x m b :: nat
  shows "x div 2 ^ b < 2 * m \<longleftrightarrow> x div 2 ^ Suc b < m"
    "x div 2 ^ b = 2 * m \<longleftrightarrow> x div 2 ^ Suc b = m \<and> \<not> bit x b"
    "x div 2 ^ b < 2 * m + 1 \<longleftrightarrow> x div 2 ^ Suc b < m \<or> (x div 2 ^ Suc b = m \<and> \<not> bit x b)"
    "x div 2 ^ b = 2 * m + 1 \<longleftrightarrow> x div 2 ^ Suc b = m \<and> bit x b"
proof -
  have h: "x div 2 ^ Suc b = x div 2 ^ b div 2" by (metis div_mult2_eq mult.commute power_Suc)
  have y: "y < 2 * m \<longleftrightarrow> y div 2 < m" "y = 2 * m \<longleftrightarrow> y div 2 = m \<and> \<not> odd y"
    "y < 2 * m + 1 \<longleftrightarrow> y div 2 < m \<or> (y div 2 = m \<and> \<not> odd y)" "y = 2 * m + 1 \<longleftrightarrow> y div 2 = m \<and> odd y" for y :: nat
    by presburger+
  show "x div 2 ^ b < 2 * m \<longleftrightarrow> x div 2 ^ Suc b < m"
    "x div 2 ^ b = 2 * m \<longleftrightarrow> x div 2 ^ Suc b = m \<and> \<not> bit x b"
    "x div 2 ^ b < 2 * m + 1 \<longleftrightarrow> x div 2 ^ Suc b < m \<or> (x div 2 ^ Suc b = m \<and> \<not> bit x b)"
    "x div 2 ^ b = 2 * m + 1 \<longleftrightarrow> x div 2 ^ Suc b = m \<and> bit x b"
    unfolding h bit_iff_odd by (rule y)+
qed

lemma filter_split: "length (filter P xs) = length (filter (\<lambda>x. P x \<and> Q x) xs) + length (filter (\<lambda>x. P x \<and> \<not> Q x) xs)"
  by (induction xs) auto

lemma filter_disjoint:
  "(\<And>x. \<not> (P x \<and> Q x)) \<Longrightarrow> length (filter (\<lambda>x. P x \<or> Q x) xs) = length (filter P xs) + length (filter Q xs)"
  by (induction xs) auto

text \<open>\<open>cut xs k b T R\<close>: of the items whose bits from \<open>b\<close> up are those of \<open>T\<close>, the \<open>R\<close> smallest belong to the \<open>k\<close> smallest.\<close>

definition cut :: "nat list \<Rightarrow> nat \<Rightarrow> nat \<Rightarrow> nat \<Rightarrow> nat \<Rightarrow> bool" where
  "cut xs k b T R \<longleftrightarrow> 2 ^ b dvd T
     \<and> length (filter (\<lambda>x. x div 2 ^ b < T div 2 ^ b) xs) + R = k
     \<and> R \<le> length (filter (\<lambda>x. x div 2 ^ b = T div 2 ^ b) xs)"

lemma cut_step:
  assumes "cut xs k (Suc b) T R"
  defines "zeros \<equiv> length (filter (\<lambda>x. x div 2 ^ Suc b = T div 2 ^ Suc b \<and> \<not> bit x b) xs)"
  shows "if R > zeros then cut xs k b (T + 2 ^ b) (R - zeros) else cut xs k b T R"
proof -
  obtain m where m: "T = 2 ^ Suc b * m" using assms(1) by (auto simp: cut_def)
  have d: "T div 2 ^ Suc b = m" "T div 2 ^ b = 2 * m" "(T + 2 ^ b) div 2 ^ b = 2 * m + 1"
    by (simp_all add: m mult.assoc mult.left_commute [of 2])
  have dvd: "2 ^ b dvd T" "2 ^ b dvd T + 2 ^ b" by (simp_all add: m)
  let ?less = "length (filter (\<lambda>x. x div 2 ^ Suc b < m) xs)" and ?eq = "length (filter (\<lambda>x. x div 2 ^ Suc b = m) xs)"
  have c: "?less + R = k" "R \<le> ?eq" using assms(1) unfolding cut_def d by simp_all
  have z: "length (filter (\<lambda>x. x div 2 ^ Suc b = m \<and> \<not> bit x b) xs) = zeros" by (simp only: zeros_def d)
  have eq: "?eq = length (filter (\<lambda>x. x div 2 ^ Suc b = m \<and> bit x b) xs) + zeros"
    unfolding z [symmetric] by (rule filter_split)
  have less: "length (filter (\<lambda>x. x div 2 ^ Suc b < m \<or> (x div 2 ^ Suc b = m \<and> \<not> bit x b)) xs) = ?less + zeros"
    unfolding z [symmetric] by (rule filter_disjoint) auto
  show ?thesis
    unfolding cut_def d prefix_cases less z using c eq dvd by auto
qed

lemma cut_start: "\<forall>x \<in> set xs. x < 2 ^ w \<Longrightarrow> k \<le> length xs \<Longrightarrow> cut xs k w 0 k"
proof -
  assume "\<forall>x \<in> set xs. x < 2 ^ w" "k \<le> length xs"
  then have "filter (\<lambda>x. x div 2 ^ w = 0) xs = xs" by (intro filter_True) simp
  then show ?thesis using \<open>k \<le> length xs\<close> by (simp add: cut_def)
qed

text \<open>The threshold decides which items are among the \<open>k\<close> first in stable order.\<close>

lemma cut_selects:
  assumes "cut xs k 0 T R" "p < length xs"
  shows "xs ! p < T \<or> (xs ! p = T \<and> length (filter (\<lambda>x. x = T) (take p xs)) < R) \<longleftrightarrow> stable_rank (\<lambda>x. x) xs p < k"
proof -
  have c: "length (filter (\<lambda>x. x < T) xs) + R = k" "R \<le> length (filter (\<lambda>x. x = T) xs)"
    using assms(1) by (simp_all add: cut_def)
  have mono: "length (filter P xs) \<le> length (filter Q xs)" if "\<And>x. P x \<Longrightarrow> Q x" for P Q :: "nat \<Rightarrow> bool"
    using that by (induction xs) auto
  let ?v = "xs ! p"
  have rank: "stable_rank (\<lambda>x. x) xs p = length (filter (\<lambda>x. x < ?v) xs) + length (filter (\<lambda>x. x = ?v) (take p xs))"
    by (simp add: stable_rank_def)
  consider "?v < T" | "?v = T" | "T < ?v" by linarith
  then show ?thesis
  proof cases
    case 1
    have "length (filter (\<lambda>x. x = ?v) (take p xs)) < length (filter (\<lambda>x. x = ?v) xs)"
      using filter_nth_take(2) [of p xs "\<lambda>x. x = ?v"] assms(2) by simp
    moreover have "length (filter (\<lambda>x. x < ?v) xs) + length (filter (\<lambda>x. x = ?v) xs) \<le> length (filter (\<lambda>x. x < T) xs)"
      using filter_disjoint [of "\<lambda>x. x < ?v" "\<lambda>x. x = ?v" xs] mono [of "\<lambda>x. x < ?v \<or> x = ?v" "\<lambda>x. x < T"] 1 by fastforce
    ultimately show ?thesis using 1 c rank by simp
  next
    case 2
    then show ?thesis using c(1) rank by auto
  next
    case 3
    have "length (filter (\<lambda>x. x < T) xs) + length (filter (\<lambda>x. x = T) xs) \<le> length (filter (\<lambda>x. x < ?v) xs)"
      using filter_disjoint [of "\<lambda>x. x < T" "\<lambda>x. x = T" xs] mono [of "\<lambda>x. x < T \<or> x = T" "\<lambda>x. x < ?v"] 3 by fastforce
    then show ?thesis using 3 c rank by simp
  qed
qed


section \<open>The threshold\<close>

lemma valid_flag_sum:
  assumes m: "m \<le> threads * length ordered" and nv: "nv \<le> threads * length ordered"
    and len: "length flags = length ordered"
    and flag: "\<And>t i. t < threads \<Longrightarrow> i < length ordered \<Longrightarrow>
      (flags ! i) t = (if t * length ordered + i < nv \<and> Q ((ordered ! i) t) then 1 else 0)"
  shows "(\<Sum>p < m. blocked flags p) = int (length (filter Q (take m (take nv (tile_seq threads ordered)))))"
proof -
  let ?xs = "tile_seq threads ordered" and ?n = "length ordered"
  have at: "blocked flags p = (if p < nv \<and> Q (?xs ! p) then 1 else 0)" if "p < m" for p
  proof -
    have p: "p < threads * ?n" using that m by simp
    show ?thesis using position_cases [OF p] flag [of "p div ?n" "p mod ?n"] p by (simp add: blocked_def len)
  qed
  have "(\<Sum>p < m. blocked flags p) = (\<Sum>p < m. if p < nv \<and> Q (?xs ! p) then 1 else 0)"
    using at by (intro sum.cong) simp_all
  also have "\<dots> = (\<Sum>p < min m nv. if Q (?xs ! p) then 1 else 0)"
    by (rule sum.mono_neutral_cong_right) auto
  also have "\<dots> = int (length (filter Q (take (min m nv) ?xs)))" by (rule sum_flags) (use m in simp)
  finally show ?thesis by simp
qed

lemma flags_total_bound:
  assumes "\<And>i. i < length flags \<Longrightarrow> (flags ! i) t = 0 \<or> (flags ! i) t = (1 :: int)"
  shows "0 \<le> sum_list (map (\<lambda>flag. flag t) flags) \<and> sum_list (map (\<lambda>flag. flag t) flags) \<le> int (length flags)"
proof -
  have "\<forall>f \<in> set flags. f t = 0 \<or> f t = 1" unfolding all_set_conv_all_nth using assms by simp
  then show ?thesis by (induction flags) auto
qed

lemma topk_validity_at: "i < n \<Longrightarrow> (topk_validity n (int nv) ! i) t \<noteq> 0 \<longleftrightarrow> t * n + i < nv"
  by (simp add: topk_validity_def flip: of_nat_mult of_nat_add)

lemma seen_prefix:
  fixes x T :: nat
  assumes "x < 2 ^ w" "b \<le> w" "2 ^ b dvd T"
  shows "and x (push_bit b (mask (w - b))) = T \<longleftrightarrow> x div 2 ^ b = T div 2 ^ b"
proof -
  have "and x (push_bit b (mask (w - b))) = push_bit b (take_bit (w - b) (drop_bit b x))"
    by (rule bit_eqI) (auto simp: bit_simps)
  also have "take_bit (w - b) (drop_bit b x) = drop_bit b x"
    using assms(1,2) by (intro take_bit_nat_eq_self) (simp add: drop_bit_eq_div less_mult_imp_div_less flip: power_add)
  finally have "and x (push_bit b (mask (w - b))) = x div 2 ^ b * 2 ^ b" by (simp add: push_bit_eq_mult drop_bit_eq_div)
  moreover have "T = T div 2 ^ b * 2 ^ b" using assms(3) by simp
  ultimately show ?thesis by (metis mult_cancel2 power_not_zero zero_neq_numeral)
qed

lemma seen_next: "Suc b \<le> w \<Longrightarrow> or (push_bit (Suc b) (mask (w - Suc b))) (2 ^ b) = (push_bit b (mask (w - b)) :: nat)"
proof (rule bit_eqI)
  fix n assume "Suc b \<le> w"
  then show "bit (or (push_bit (Suc b) (mask (w - Suc b))) (2 ^ b) :: nat) n \<longleftrightarrow> bit (push_bit b (mask (w - b)) :: nat) n"
    unfolding bit_or_iff bit_push_bit_iff_nat bit_mask_iff bit_exp_iff by auto
qed

lemma or_next_bit: "2 ^ Suc b dvd T \<Longrightarrow> or T (2 ^ b) = T + 2 ^ b" for T :: nat
proof -
  assume "2 ^ Suc b dvd T"
  then obtain m where m: "T = 2 ^ Suc b * m" ..
  have "\<not> bit T b" by (simp add: m bit_iff_odd mult.assoc mult.left_commute [of 2])
  then have "and T (2 ^ b) = 0" by (simp add: and_exp_eq_0_iff_not_bit)
  then show ?thesis by (simp add: disjunctive_add_eq_or)
qed

definition threshold_inv :: "nat \<Rightarrow> nat list \<Rightarrow> nat \<Rightarrow> nat \<Rightarrow> nat \<Rightarrow> nat lanes \<times> nat \<times> int lanes \<Rightarrow> bool" where
  "threshold_inv threads xs k w b state \<longleftrightarrow> (case state of (threshold, seen, remaining) \<Rightarrow>
     seen = push_bit b (mask (w - b)) \<and> (\<exists>T R. cut xs k b T R \<and> (\<forall>t < threads. threshold t = T \<and> remaining t = int R)))"

context add_scan
begin

lemma item_total:
  assumes legal "\<forall>l. 0 \<le> hist l \<and> hist l < 2 ^ 31" "(\<Sum>q < threads. hist q) < 2 ^ 31"
  shows "\<exists>out aggregate. scan (Item hist) = Inr (out, aggregate) \<and> (\<forall>t < threads. aggregate t = (\<Sum>q < threads. hist q))"
proof -
  have "blocked [hist] = hist" by (simp add: blocked_def fun_eq_iff)
  then show ?thesis
    using scan_sums [OF assms(1), of "Item hist" "[hist]"] assms(2,3) by (auto simp: tile_list_def sums_ok_def)
qed

lemma threshold_step_inv:
  assumes legal and n: "ordered \<noteq> []" and small: "threads * length ordered < 2 ^ 31" and nv: "nv \<le> threads * length ordered"
    and width: "\<And>x. x \<in> set (tile_seq threads ordered) \<Longrightarrow> x < 2 ^ w" and b: "b < w"
    and inv: "threshold_inv threads (take nv (tile_seq threads ordered)) k w (Suc b) state"
  shows "\<exists>state'. threshold_step scan ordered (topk_validity (length ordered) (int nv)) b state = Inr state'
    \<and> threshold_inv threads (take nv (tile_seq threads ordered)) k w b state'"
proof -
  let ?n = "length ordered" and ?xs = "take nv (tile_seq threads ordered)" and ?valid = "topk_validity (length ordered) (int nv)"
  obtain threshold seen remaining where st: "state = (threshold, seen, remaining)" by (cases state)
  obtain T R where seen: "seen = push_bit (Suc b) (mask (w - Suc b))" and cut: "cut ?xs k (Suc b) T R"
    and at: "\<And>t. t < threads \<Longrightarrow> threshold t = T \<and> remaining t = int R"
    using inv by (auto simp: threshold_inv_def st)
  let ?Q = "\<lambda>x. x div 2 ^ Suc b = T div 2 ^ Suc b \<and> \<not> bit x b"
  let ?flags = "map (\<lambda>i t. if (and ((ordered ! i) t) seen = threshold t \<and> (?valid ! i) t \<noteq> 0) \<and> and ((ordered ! i) t) (2 ^ b) = 0
    then 1 else (0 :: int)) [0..<?n]"
  let ?hist = "\<lambda>t. sum_list (map (\<lambda>flag. flag t) ?flags)"
  let ?zeros = "length (filter ?Q ?xs)"
  have dvd: "2 ^ Suc b dvd T" using cut by (simp add: cut_def)
  have flag: "(?flags ! i) t = (if t * ?n + i < nv \<and> ?Q ((ordered ! i) t) then 1 else 0)" if "t < threads" "i < ?n" for t i
  proof -
    have "(ordered ! i) t < 2 ^ w" using width that by (auto simp: set_tile_seq)
    then have "and ((ordered ! i) t) seen = T \<longleftrightarrow> (ordered ! i) t div 2 ^ Suc b = T div 2 ^ Suc b"
      unfolding seen by (rule seen_prefix) (use b dvd in simp_all)
    then show ?thesis using that at topk_validity_at [OF that(2)] by (auto simp: and_exp_eq_0_iff_not_bit)
  qed
  have total: "(\<Sum>q < threads. ?hist q) = int ?zeros"
    using valid_flag_sum [OF order_refl nv _ flag] sum_threads [of ?flags threads] by (simp add: min_absorb2 [OF nv])
  have le: "?zeros \<le> threads * ?n" by (metis length_filter_le length_take length_tile_seq min.boundedE)
  have bound: "0 \<le> ?hist l \<and> ?hist l < 2 ^ 31" for l
  proof -
    have "1 * ?n \<le> threads * ?n" using threads_pos [OF \<open>legal\<close>] by (intro mult_right_mono) simp_all
    then have "int ?n < 2 ^ 31" using small by (intro int_small) linarith
    moreover have "0 \<le> ?hist l \<and> ?hist l \<le> int (length ?flags)" by (rule flags_total_bound) simp
    ultimately show ?thesis by simp
  qed
  obtain out zeros where s: "scan (Item ?hist) = Inr (out, zeros)" "\<forall>t < threads. zeros t = (\<Sum>q < threads. ?hist q)"
    using item_total [OF \<open>legal\<close>, of ?hist] bound total le small int_small(2) [of ?zeros] by fastforce
  have z: "zeros t = int ?zeros" if "t < threads" for t using s(2) that total by simp
  let ?threshold = "\<lambda>t. if zeros t < remaining t then or (threshold t) (2 ^ b) else threshold t"
  let ?remaining = "\<lambda>t. if zeros t < remaining t then i32 (remaining t - zeros t) else remaining t"
  have step: "threshold_step scan ordered ?valid b state = Inr (?threshold, or seen (2 ^ b), ?remaining)"
    unfolding threshold_step_def st Let_def prod.case using s(1) by simp
  have r: "R \<le> threads * ?n"
  proof -
    have "R \<le> length (filter (\<lambda>x. x div 2 ^ Suc b = T div 2 ^ Suc b) ?xs)" using cut unfolding cut_def by blast
    also have "\<dots> \<le> length ?xs" by (rule length_filter_le)
    finally show ?thesis using nv by simp
  qed
  have i: "i32 (int R - int ?zeros) = int (R - ?zeros)" if "?zeros < R"
  proof -
    have e: "int R - int ?zeros = int (R - ?zeros)" by (rule of_nat_diff [OF less_imp_le [OF that], symmetric])
    have "R - ?zeros < 2 ^ 31" by (rule le_less_trans [OF diff_le_self le_less_trans [OF r small]])
    then show ?thesis unfolding e by (intro signed_small int_small)
  qed
  have seen': "or seen (2 ^ b) = push_bit b (mask (w - b))" unfolding seen by (rule seen_next) (use b in simp)
  note cut' = cut_step [OF cut]
  have "threshold_inv threads ?xs k w b (?threshold, or seen (2 ^ b), ?remaining)"
  proof (cases "?zeros < R")
    case True
    then have "cut ?xs k b (T + 2 ^ b) (R - ?zeros)" using cut' by simp
    then show ?thesis using True at z i seen' or_next_bit [OF dvd] by (auto simp: threshold_inv_def intro!: exI)
  next
    case False
    then have "cut ?xs k b T R" using cut' by simp
    then show ?thesis using False at z seen' by (auto simp: threshold_inv_def intro!: exI)
  qed
  then show ?thesis using step by blast
qed

end


section \<open>The selection\<close>

text \<open>Zero for the selected positions, one for the others.\<close>

definition selection :: "nat \<Rightarrow> nat \<Rightarrow> nat \<Rightarrow> nat list \<Rightarrow> nat list" where
  "selection m nv k xs = map (\<lambda>p. if p < nv \<and> stable_rank (\<lambda>x. x) (take nv xs) p < k then 0 else 1) [0..<m]"

context add_scan
begin

lemma topk_threshold_cut:
  assumes legal and n: "ordered \<noteq> []" and small: "threads * length ordered < 2 ^ 31" and nv: "nv \<le> threads * length ordered"
    and width: "\<And>x. x \<in> set (tile_seq threads ordered) \<Longrightarrow> x < 2 ^ w" and k: "k \<le> nv"
  shows "\<exists>threshold remaining T R. topk_threshold ordered (int k) (topk_validity (length ordered) (int nv)) scan w = Inr (threshold, remaining)
    \<and> cut (take nv (tile_seq threads ordered)) k 0 T R \<and> (\<forall>t < threads. threshold t = T \<and> remaining t = int R)"
proof -
  let ?xs = "take nv (tile_seq threads ordered)"
  let ?I = "threshold_inv threads ?xs k w"
  have start: "?I w (\<lambda>_. 0, 0, \<lambda>_. int k)"
  proof -
    have "cut ?xs k w 0 k" by (rule cut_start) (use width k nv in \<open>auto dest: in_set_takeD\<close>)
    then show ?thesis by (auto simp: threshold_inv_def)
  qed
  have "\<exists>s'. fold_res (threshold_step scan ordered (topk_validity (length ordered) (int nv))) (rev [0..<w]) (\<lambda>_. 0, 0, \<lambda>_. int k) = Inr s' \<and> ?I 0 s'"
    by (rule fold_res_down [where I = ?I, OF start]) (rule threshold_step_inv [OF assms(1-5)])
  then obtain s' where s: "fold_res (threshold_step scan ordered (topk_validity (length ordered) (int nv))) (rev [0..<w]) (\<lambda>_. 0, 0, \<lambda>_. int k) = Inr s'"
    "?I 0 s'" by blast
  obtain threshold seen remaining where st: "s' = (threshold, seen, remaining)" by (cases s')
  have "topk_threshold ordered (int k) (topk_validity (length ordered) (int nv)) scan w = Inr (threshold, remaining)"
    using s(1) st by (simp add: topk_threshold_def)
  then show ?thesis using s(2) unfolding threshold_inv_def st prod.case by blast
qed

lemma topk_ranks_stable:
  assumes legal and n: "ordered \<noteq> []" and small: "threads * length ordered < 2 ^ 31" and nv: "nv \<le> threads * length ordered"
    and width: "\<And>x. x \<in> set (tile_seq threads ordered) \<Longrightarrow> x < 2 ^ w" and k: "k \<le> nv"
  shows "\<exists>ranks. topk_ranks scan w ordered (topk_validity (length ordered) (int nv)) (int k) = Inr ranks \<and> length ranks = length ordered
    \<and> (\<forall>p < threads * length ordered. blocked ranks p
        = int (stable_rank (\<lambda>x. x) (selection (threads * length ordered) nv k (tile_seq threads ordered)) p))"
proof -
  let ?n = "length ordered" and ?seq = "tile_seq threads ordered" and ?valid = "topk_validity (length ordered) (int nv)"
  obtain threshold remaining T R where th: "topk_threshold ordered (int k) ?valid scan w = Inr (threshold, remaining)"
    and cut: "cut (take nv ?seq) k 0 T R" and at: "\<And>t. t < threads \<Longrightarrow> threshold t = T \<and> remaining t = int R"
    using topk_threshold_cut [OF assms] by blast
  let ?equal = "map (\<lambda>i t. if (ordered ! i) t = threshold t \<and> (?valid ! i) t \<noteq> 0 then 1 else (0 :: int)) [0..<?n]"
  have flag: "(?equal ! i) t = (if t * ?n + i < nv \<and> (ordered ! i) t = T then 1 else 0)" if "t < threads" "i < ?n" for t i
    using that at topk_validity_at [OF that(2)] by auto
  have sums: "(\<Sum>p < m. blocked ?equal p) = int (length (filter (\<lambda>x. x = T) (take m (take nv ?seq))))" if "m \<le> threads * ?n" for m
    by (rule valid_flag_sum [OF that nv _ flag]) simp
  have total: "(\<Sum>p < threads * length ?equal. blocked ?equal p) < 2 ^ 31"
  proof -
    have "length (filter (\<lambda>x. x = T) (take (threads * ?n) (take nv ?seq))) \<le> threads * ?n"
      by (metis length_filter_le length_take length_tile_seq min.boundedE)
    then have "int (length (filter (\<lambda>x. x = T) (take (threads * ?n) (take nv ?seq)))) < 2 ^ 31"
      by (intro int_small(2)) (rule le_less_trans [OF _ small])
    then show ?thesis unfolding length_map length_upt diff_zero sums [OF order_refl] .
  qed
  obtain out agg where o: "scan (Items ?equal) = Inr (Items out, agg)" and ok: "sums_ok threads ?equal out agg"
  proof -
    have "\<exists>out agg. scan (Items ?equal) = Inr (pack_tile (Items ?equal) out, agg) \<and> sums_ok threads ?equal out agg"
      by (rule scan_sums [OF \<open>legal\<close> _ _ total]) (use n in \<open>auto simp: tile_list_def\<close>)
    then show ?thesis using that by (auto simp: pack_tile_def)
  qed
  have out: "length out = ?n" "out \<noteq> []" "(out ! i) t = (\<Sum>p < t * ?n + i. blocked ?equal p)" if "t < threads" "i < ?n" for t i
    using ok that n by (auto simp: sums_ok_def)
  have len: "length out = ?n" using ok by (simp add: sums_ok_def)
  then have ne: "out \<noteq> []" using n by auto
  let ?P = "\<lambda>i t. (?valid ! i) t \<noteq> 0 \<and> ((ordered ! i) t < threshold t \<or> ((ordered ! i) t = threshold t \<and> (out ! i) t < remaining t))"
  let ?digits = "map (\<lambda>i t. if ?P i t then 0 else 1) [0..<?n] :: nat lanes list"
  let ?Z = "selection (threads * ?n) nv k ?seq"
  have sel: "?P i t \<longleftrightarrow> t * ?n + i < nv \<and> stable_rank (\<lambda>x. x) (take nv ?seq) (t * ?n + i) < k" if ti: "t < threads" "i < ?n" for t i
  proof (cases "t * ?n + i < nv")
    case True
    let ?p = "t * ?n + i"
    have p: "?p < threads * ?n" by (rule position_bound [OF ti])
    then have x: "take nv ?seq ! ?p = (ordered ! i) t" "take ?p (take nv ?seq) = take ?p ?seq" using True ti by simp_all
    have "(out ! i) t = int (length (filter (\<lambda>x. x = T) (take ?p (take nv ?seq))))"
      using out(3) [OF ti] sums [of ?p] p by simp
    moreover have "?p < length (take nv ?seq)" using True p by simp
    ultimately show ?thesis using cut_selects [OF cut, of ?p] True ti at topk_validity_at [OF ti(2), of nv t] x(1) by simp
  next
    case False
    then show ?thesis using topk_validity_at [OF ti(2), of nv t] by simp
  qed
  have seq: "tile_seq threads ?digits = ?Z"
    by (rule tile_seq_eqI) (use sel position_bound in \<open>auto simp: selection_def\<close>)
  have "\<exists>ranks. binary_ranks scan False ?digits = Inr ranks \<and> length ranks = length ?digits
    \<and> (\<forall>p < threads * length ?digits. blocked ranks p = int (stable_rank (digit_key False 2) (tile_seq threads ?digits) p))"
    by (rule binary_ranks_stable [OF \<open>legal\<close>]) (use n small seq in \<open>auto simp: selection_def\<close>)
  then obtain ranks where r: "binary_ranks scan False ?digits = Inr ranks" "length ranks = ?n"
    "\<And>p. p < threads * ?n \<Longrightarrow> blocked ranks p = int (stable_rank (\<lambda>x. x) ?Z p)"
    unfolding seq by (auto simp: digit_key_def [abs_def])
  let ?selected = "map (\<lambda>i t. if ?P i t then 1 else (0 :: int)) [0..<?n]"
  have flags: "binary_flags False ?digits = ?selected"
    unfolding binary_flags_def map_map by (rule map_cong [OF refl]) (auto simp: fun_eq_iff)
  have tl: "tile_list (Items out) = Inr out" using ne by (simp add: tile_list_def)
  have k32: "i32 (int k) = int k" using k nv small by (intro signed_small int_small) (meson le_less_trans)+
  have "topk_ranks scan w ordered ?valid (int k) = binary_ranks scan False ?digits"
    unfolding topk_ranks_def binary_ranks_def flags k32 Let_def th rbind_simps prod.case o tl length_map length_upt diff_zero ..
  then show ?thesis using r by auto
qed

end


section \<open>The k smallest\<close>

text \<open>
  The first \<open>k\<close> of the result are the \<open>k\<close> smallest of the first \<open>nv\<close>, with the earlier of equal ones, in
  their old order; nothing is lost.
\<close>

definition topk_ok :: "('a \<Rightarrow> 'o :: linorder) \<Rightarrow> nat \<Rightarrow> nat \<Rightarrow> 'a list \<Rightarrow> 'a list \<Rightarrow> bool" where
  "topk_ok d nv k xs ys \<longleftrightarrow> mset ys = mset xs \<and> subseq (take k ys) (take nv xs)
     \<and> mset (take k ys) = mset (take k (sort_key d (take nv xs)))"

lemma stable_rank_cong:
  assumes "\<And>x y. x \<in> set xs \<Longrightarrow> y \<in> set xs \<Longrightarrow> d x \<le> d y \<longleftrightarrow> d' x \<le> d' y" "p < length xs"
  shows "stable_rank d xs p = stable_rank d' xs p"
proof -
  have lt: "d x < d y \<longleftrightarrow> d' x < d' y" and eq: "d x = d y \<longleftrightarrow> d' x = d' y" if "x \<in> set xs" "y \<in> set xs" for x y
    using assms(1) [OF that] assms(1) [OF that(2,1)] by (auto simp: less_le_not_le order_eq_iff)
  have y: "xs ! p \<in> set xs" using assms(2) by simp
  have "filter (\<lambda>x. d x < d (xs ! p)) xs = filter (\<lambda>x. d' x < d' (xs ! p)) xs" using lt y by (intro filter_cong) auto
  moreover have "filter (\<lambda>x. d x = d (xs ! p)) (take p xs) = filter (\<lambda>x. d' x = d' (xs ! p)) (take p xs)"
    by (rule filter_cong [OF refl], rule eq [OF _ y]) (auto dest: in_set_takeD)
  ultimately show ?thesis by (simp add: stable_rank_def)
qed

lemma sort_key_zero_one:
  assumes "\<forall>x \<in> set xs. d x = 0 \<or> d x = (1 :: nat)"
  shows "sort_key d xs = filter (\<lambda>x. d x = 0) xs @ filter (\<lambda>x. d x \<noteq> 0) xs"
proof (rule sym, rule properties_for_sort_key [symmetric])
  show "mset (filter (\<lambda>x. d x = 0) xs @ filter (\<lambda>x. d x \<noteq> 0) xs) = mset xs" by simp
  show "filter (\<lambda>x. d k = d x) (filter (\<lambda>x. d x = 0) xs @ filter (\<lambda>x. d x \<noteq> 0) xs) = filter (\<lambda>x. d k = d x) xs" for k
  proof -
    have "filter (\<lambda>x. d k = d x \<and> d x = 0) xs = (if d k = 0 then filter (\<lambda>x. d k = d x) xs else [])"
      "filter (\<lambda>x. d k = d x \<and> d x \<noteq> 0) xs = (if d k = 0 then [] else filter (\<lambda>x. d k = d x) xs)"
      by (auto intro!: filter_cong simp: filter_empty_conv)
    then show ?thesis by (simp add: conj_commute)
  qed
  have "sorted (map d (filter (\<lambda>x. d x = 0) xs))" "sorted (map d (filter (\<lambda>x. d x \<noteq> 0) xs))"
    using assms by (induction xs) auto
  then show "sorted (map d (filter (\<lambda>x. d x = 0) xs @ filter (\<lambda>x. d x \<noteq> 0) xs))"
    by (auto simp: sorted_append)
qed

text \<open>The first \<open>k\<close> of a stable sort are the items of rank below \<open>k\<close>.\<close>

lemma take_sort_ranks:
  assumes "k \<le> length xs"
  shows "mset (take k (sort_key d xs)) = mset (map ((!) xs) (filter (\<lambda>p. stable_rank d xs p < k) [0..<length xs]))"
proof -
  let ?S = "sort_key d xs" and ?r = "stable_rank d xs" and ?n = "length xs"
  have inj: "inj_on ?r {..<?n}" using stable_rank_inj by (intro inj_onI) auto
  have img: "?r ` {..<?n} = {..<?n}" using sort_key_nth_rank(2) inj by (intro endo_inj_surj) auto
  let ?A = "{p. p < ?n \<and> ?r p < k}"
  have A: "?r ` ?A = {..<k}"
  proof (intro equalityI subsetI)
    fix q assume "q \<in> {..<k}"
    then have "q \<in> ?r ` {..<?n}" using img assms by simp
    then show "q \<in> ?r ` ?A" using \<open>q \<in> {..<k}\<close> by auto
  qed auto
  have "mset (map ((!) xs) (filter (\<lambda>p. ?r p < k) [0..<?n])) = image_mset ((!) xs) (mset_set ?A)"
  proof -
    have "set (filter (\<lambda>p. ?r p < k) [0..<?n]) = ?A" "distinct (filter (\<lambda>p. ?r p < k) [0..<?n])" by auto
    then show ?thesis unfolding mset_map by (simp only: mset_set_set [symmetric])
  qed
  also have "\<dots> = image_mset (\<lambda>p. ?S ! ?r p) (mset_set ?A)"
    by (rule image_mset_cong) (simp add: sort_key_nth_rank(1))
  also have "\<dots> = image_mset ((!) ?S) (image_mset ?r (mset_set ?A))" by (simp add: multiset.map_comp comp_def)
  also have "image_mset ?r (mset_set ?A) = mset_set {..<k}"
    unfolding A [symmetric] by (rule image_mset_mset_set) (use inj in \<open>auto simp: inj_on_def\<close>)
  also have "image_mset ((!) ?S) (mset_set {..<k}) = mset (map ((!) ?S) [0..<k])"
    unfolding mset_map mset_upt lessThan_atLeast0 ..
  also have "map ((!) ?S) [0..<k] = take k ?S" 
  proof (rule nth_equalityI)
    show "length (map ((!) ?S) [0..<k]) = length (take k ?S)" unfolding length_map length_take length_sort using assms by simp
    show "map ((!) ?S) [0..<k] ! i = take k ?S ! i" if "i < length (map ((!) ?S) [0..<k])" for i
      using that unfolding length_map length_upt by (simp only: nth_map_upt nth_take diff_zero add_0)
  qed
  finally show ?thesis by (rule sym)
qed


text \<open>Moving every record to the rank of its mark.\<close>

lemma move_marked:
  assumes ok: "state_ok c state" and len: "length ranks = rs_items c" "length marks = rs_threads c * rs_items c"
    and rank: "\<And>p. p < rs_threads c * rs_items c \<Longrightarrow> blocked ranks p = int (stable_rank (\<lambda>x. x :: nat) marks p)"
  shows "state_ok c (move_items c ranks (blocked_positions (rs_items c)) state)"
    "tile_records c (move_items c ranks (blocked_positions (rs_items c)) state)
      = map snd (sort_key fst (zip marks (tile_records c state)))"
proof -
  let ?n = "rs_items c" and ?N = "rs_threads c * rs_items c" and ?r = "stable_rank (\<lambda>x. x) marks"
  let ?s = "move_items c ranks (blocked_positions (rs_items c)) state" and ?zs = "zip marks (tile_records c state)"
  have bound: "?r p < ?N" if "p < ?N" for p using sort_key_nth_rank(2) [of p marks "\<lambda>x. x"] that len(2) by simp
  have "inj_on ?r {..<?N}" using stable_rank_inj [where xs = marks and d = "\<lambda>x. x"] len(2) by (intro inj_onI) simp
  then have r: "ranks_ok c ranks ?r" using len(1) rank bound by (simp add: ranks_ok_def)
  note mv = move_items_correct [where place = "\<lambda>t i. t * ?n + i", OF r ok]
  have pos: "blocked_positions ?n = map (\<lambda>i t. int (t * ?n + i)) [0..<?n]" by (simp add: blocked_positions_def)
  show "state_ok c ?s" using mv(1) [OF pos] position_bound by blast
  have "zip (sort marks) (tile_records c ?s) = sort_key fst ?zs"
  proof (rule sort_key_by_rank)
    fix p assume "p < length ?zs"
    then have p: "p < ?N" by (simp add: len(2))
    note q = position_cases [OF bound [OF p]]
    have "record_at ?s (?r p div ?n) (?r p mod ?n) = record_at state (p div ?n) (p mod ?n)"
      using mv(2) [OF pos _ q(1,2) p] position_bound q(4) by blast
    then have "tile_records c ?s ! ?r p = tile_records c state ! p" using p bound [OF p] by (simp add: tile_records_def)
    moreover have "sort marks ! ?r p = marks ! p" by (rule sort_key_nth_rank(1)) (use p len(2) in simp)
    moreover have "stable_rank fst ?zs p = stable_rank (\<lambda>x. x) (map fst ?zs) p"
      by (rule stable_rank_map) (use p len(2) in simp)
    moreover have "map fst ?zs = marks" by (simp add: len(2))
    ultimately show "zip (sort marks) (tile_records c ?s) ! stable_rank fst ?zs p = ?zs ! p"
      using p bound [OF p] by (simp add: len(2))
  qed (simp add: len(2))
  then have "map snd (zip (sort marks) (tile_records c ?s)) = map snd (sort_key fst ?zs)" by simp
  then show "tile_records c ?s = map snd (sort_key fst ?zs)" by (simp add: len(2))
qed

lemma selected_prefix:
  fixes d :: "'a \<Rightarrow> 'o :: linorder"
  assumes nv: "nv \<le> length xs" and k: "k \<le> nv"
    and order: "\<And>x y. x \<in> set (take nv xs) \<Longrightarrow> y \<in> set (take nv xs) \<Longrightarrow> key x \<le> key y \<longleftrightarrow> d x \<le> d y"
  shows "topk_ok d nv k xs (map snd (sort_key fst (zip (selection (length xs) nv k (map key xs)) xs)))"
proof -
  let ?marks = "selection (length xs) nv k (map key xs)" and ?r = "stable_rank d (take nv xs)"
  let ?zs = "zip ?marks xs"
  have mark: "?marks ! p = 0 \<longleftrightarrow> p < nv \<and> ?r p < k" if "p < length xs" for p
  proof (cases "p < nv")
    case True
    then have p: "p < length (take nv xs)" using nv by simp
    have "stable_rank (\<lambda>x. x) (take nv (map key xs)) p = stable_rank key (take nv xs) p"
      using stable_rank_map [OF p, of "\<lambda>x. x" key] by (simp add: take_map)
    also have "\<dots> = ?r p" by (rule stable_rank_cong [OF order p])
    finally show ?thesis using that by (simp add: selection_def)
  qed (use that in \<open>simp add: selection_def\<close>)
  have zs: "?zs = map (\<lambda>p. (?marks ! p, xs ! p)) [0..<length xs]"
    by (rule nth_equalityI) (simp_all add: selection_def)
  have bits: "\<forall>z \<in> set ?zs. fst z = 0 \<or> fst z = 1"
    by (auto simp: selection_def dest!: set_zip_leftD)
  let ?A = "map snd (filter (\<lambda>z. fst z = 0) ?zs)" and ?B = "map snd (filter (\<lambda>z. fst z \<noteq> 0) ?zs)"
  have ys: "map snd (sort_key fst ?zs) = ?A @ ?B" by (simp add: sort_key_zero_one [OF bits])
  have "filter (\<lambda>p. ?marks ! p = 0) [0..<length xs] = filter (\<lambda>p. ?r p < k) [0..<nv]"
  proof -
    have "[0..<length xs] = [0..<nv] @ [nv..<length xs]" using nv by (metis le0 upt_add_eq_append le_add_diff_inverse add_0)
    moreover have "filter (\<lambda>p. ?marks ! p = 0) [nv..<length xs] = []" using mark by (auto simp: filter_empty_conv)
    moreover have "filter (\<lambda>p. ?marks ! p = 0) [0..<nv] = filter (\<lambda>p. ?r p < k) [0..<nv]"
      using mark nv by (intro filter_cong) auto
    ultimately show ?thesis by simp
  qed
  then have A: "?A = map ((!) xs) (filter (\<lambda>p. ?r p < k) [0..<nv])"
    unfolding zs filter_map map_map by (simp add: comp_def)
  then have A': "?A = map ((!) (take nv xs)) (filter (\<lambda>p. ?r p < k) [0..<length (take nv xs)])"
    using nv by (auto simp: min_absorb2)
  have "mset ?A = mset (take k (sort_key d (take nv xs)))"
    unfolding A' by (rule take_sort_ranks [symmetric]) (use nv k in simp)
  moreover from arg_cong [OF this, of size] have len: "length ?A = k" unfolding size_mset using nv k by simp
  moreover have "subseq ?A (take nv xs)"
  proof -
    have "subseq ?A (map ((!) (take nv xs)) [0..<length (take nv xs)])" unfolding A' by (intro subseq_map subseq_filter_left)
    then show ?thesis unfolding map_nth .
  qed
  moreover have "take k (map snd (sort_key fst ?zs)) = ?A" unfolding ys using len by simp
  moreover have "mset (map snd (sort_key fst ?zs)) = mset xs"
  proof -
    have "mset (map snd (sort_key fst ?zs)) = image_mset snd (mset ?zs)" by (simp only: mset_map mset_sort)
    also have "\<dots> = mset (map snd ?zs)" by simp
    finally show ?thesis by (simp add: selection_def)
  qed
  ultimately show ?thesis by (simp add: topk_ok_def)
qed


lemma selected_prefix':
  fixes d :: "'a \<Rightarrow> 'o :: linorder"
  assumes "length xs = m" "nv \<le> m" "k \<le> nv"
    and "\<And>x y. x \<in> set (take nv xs) \<Longrightarrow> y \<in> set (take nv xs) \<Longrightarrow> key x \<le> key y \<longleftrightarrow> d x \<le> d y"
  shows "topk_ok d nv k xs (map snd (sort_key fst (zip (selection m nv k (map key xs)) xs)))"
  using selected_prefix [OF _ assms(3,4)] assms(1,2) by auto

text \<open>The order of the bits is the order of the values, reversed for the largest.\<close>

definition topk_key :: "field_type \<Rightarrow> bool \<Rightarrow> nat \<times> nat option \<Rightarrow> int" where
  "topk_key f largest r = (if largest then - order_value f (fst r) else order_value f (fst r))"

lemma topk_order_le:
  assumes f: "field_ok f" and a: "a < 2 ^ ft_width f" "b < 2 ^ ft_width f"
  shows "topk_order f largest a < 2 ^ ordered_width f"
    "topk_order f largest a \<le> topk_order f largest b \<longleftrightarrow> topk_key f largest (a, x) \<le> topk_key f largest (b, y)"
proof -
  obtain w where w: "ordered_width f = Suc w" using f by (cases "ordered_width f") (auto simp: ordered_width_def field_ok_def)
  have le: "(2 :: nat) ^ ft_width f \<le> 2 ^ ordered_width f" by (simp add: ordered_width_def)
  have bound: "ordered_bits f True c < 2 ^ ordered_width f" if "c < 2 ^ ft_width f" for c
    using ordered_bits_value(2) [OF f that] le by (rule less_le_trans)
  have x: "xor (ordered_bits f True c) (2 ^ ordered_width f - 1) = 2 ^ ordered_width f - 1 - ordered_bits f True c"
    if "c < 2 ^ ft_width f" for c
    using top_bit(5) [of "ordered_bits f True c" w] bound [OF that] by (simp only: w)
  show "topk_order f largest a < 2 ^ ordered_width f"
    unfolding topk_order_def Let_def x [OF a(1)] using bound [OF a(1)] by auto
  show "topk_order f largest a \<le> topk_order f largest b \<longleftrightarrow> topk_key f largest (a, x) \<le> topk_key f largest (b, y)"
  proof (cases largest)
    case True
    have "2 ^ ordered_width f - 1 - ordered_bits f True a \<le> 2 ^ ordered_width f - 1 - ordered_bits f True b
        \<longleftrightarrow> ordered_bits f True b \<le> ordered_bits f True a"
      using bound [OF a(1)] bound [OF a(2)] by linarith
    then show ?thesis
      using True x [OF a(1)] x [OF a(2)] ordered_bits_le [OF f a(2,1)] by (simp add: topk_order_def topk_key_def)
  next
    case False
    then show ?thesis using ordered_bits_le [OF f a] by (simp add: topk_order_def topk_key_def)
  qed
qed

context add_scan
begin

lemma topk_select_correct:
  assumes legal and c: "rs_threads c = threads" "rs_scan c = scan" "0 < rs_items c" "rs_threads c * rs_items c < 2 ^ 31"
    and f: "field_ok f" "rs_key_width c = ft_width f" and ok: "state_ok c state"
    and nv: "nv \<le> rs_threads c * rs_items c" and k: "k \<le> nv"
  shows "\<exists>state'. topk_select c f largest (int k) (int nv) state = Inr state' \<and> state_ok c state'
    \<and> topk_ok (topk_key f largest) nv k (tile_records c state) (tile_records c state')"
proof -
  obtain items payload storage where s: "state = (items, payload, storage)" by (cases state)
  let ?n = "rs_items c" and ?N = "rs_threads c * rs_items c" and ?ordered = "map (\<lambda>key t. topk_order f largest (key t)) items"
  let ?key = "\<lambda>r. topk_order f largest (fst r)" and ?xs = "tile_records c state"
  have len: "length items = ?n" and keys: "\<And>x. x \<in> set (tile_seq threads items) \<Longrightarrow> x < 2 ^ ft_width f"
    using ok c(1) f(2) by (auto simp: state_ok_def s column_ok_def)
  have seq: "tile_seq threads ?ordered = map (topk_order f largest) (tile_seq threads items)" by (rule tile_seq_map)
  have recs: "map ?key ?xs = tile_seq threads ?ordered"
    unfolding seq by (rule nth_equalityI) (simp_all add: len c(1) tile_records_def record_at_def s blocked_def)
  have key: "fst r < 2 ^ ft_width f" if r: "r \<in> set ?xs" for r
  proof -
    obtain p where p: "p < ?N" "r = ?xs ! p" using r by (auto simp: in_set_conv_nth)
    then have "fst r = tile_seq threads items ! p" by (simp add: tile_records_def record_at_def s blocked_def len c(1))
    moreover have "tile_seq threads items ! p \<in> set (tile_seq threads items)"
      by (rule nth_mem) (use p(1) len c(1) in simp)
    ultimately show ?thesis using keys by simp
  qed
  have "\<exists>ranks. topk_ranks scan (ordered_width f) ?ordered (topk_validity (length ?ordered) (int nv)) (int k) = Inr ranks
      \<and> length ranks = length ?ordered \<and> (\<forall>p < threads * length ?ordered. blocked ranks p
        = int (stable_rank (\<lambda>x. x) (selection (threads * length ?ordered) nv k (tile_seq threads ?ordered)) p))"
    by (rule topk_ranks_stable [OF \<open>legal\<close> _ _ _ _ k])
      (use len c nv keys topk_order_le(1) [OF f(1)] in \<open>auto simp: seq\<close>)
  then obtain ranks where r: "topk_ranks scan (ordered_width f) ?ordered (topk_validity ?n (int nv)) (int k) = Inr ranks"
    "length ranks = ?n" "\<And>p. p < ?N \<Longrightarrow> blocked ranks p = int (stable_rank (\<lambda>x. x) (selection ?N nv k (map ?key ?xs)) p)"
    unfolding recs by (auto simp: len c(1))
  have marks: "length (selection ?N nv k (map ?key ?xs)) = ?N" by (simp add: selection_def)
  note mv = move_marked [OF ok r(2) marks r(3)]
  have "topk_select c f largest (int k) (int nv) state = Inr (move_items c ranks (blocked_positions ?n) state)"
    using r(1) by (simp add: topk_select_def s c(2) Let_def)
  moreover have "topk_ok (topk_key f largest) nv k ?xs (map snd (sort_key fst (zip (selection ?N nv k (map ?key ?xs)) ?xs)))"
  proof (rule selected_prefix' [OF length_records(1) _ k])
    fix x y assume "x \<in> set (take nv ?xs)" "y \<in> set (take nv ?xs)"
    then have "x \<in> set ?xs" "y \<in> set ?xs" by (auto dest: in_set_takeD)
    then show "?key x \<le> ?key y \<longleftrightarrow> topk_key f largest x \<le> topk_key f largest y"
      using topk_order_le(2) [OF f(1) key key, of x y largest "snd x" "snd y"] unfolding prod.collapse by blast
  qed (use nv in simp)
  then have "topk_ok (topk_key f largest) nv k ?xs (tile_records c (move_items c ranks (blocked_positions ?n) state))"
    by (subst mv(2))
  ultimately show ?thesis using mv(1) by blast
qed

end


section \<open>Both algorithms\<close>

lemma tile_pairs_records:
  assumes "state_ok c (items, payload, storage)"
  shows "tile_pairs (rs_threads c) items payload = tile_records c (items, payload, storage)"
  using assms
  by (cases payload) (simp_all add: state_ok_def column_ok_def tile_pairs_def tile_records_def record_at_def blocked_def)

lemma topk_counts_bounds:
  assumes "topk_counts m k num_valid = Inr n"
  shows "static_range m k = Inr ()" "static_range m n = Inr ()"
  using assms by (auto simp: topk_counts_def Let_def rbind_Inr_iff)

lemma static_range_valid: "static_range m n = Inr () \<Longrightarrow> validate_valid_items (Some n) m = Inr ()"
  by (cases n) simp_all

lemma topk_merge_correct:
  assumes un: "sort_unpack keys vals = Inr (items, payload, vector)"
    and m: "length items = ms_items c" "0 < ms_items c" "payload = None \<or> ms_pairs c" "ms_threads c * ms_items c < 2 ^ 31"
    and n: "topk_counts (ms_threads c * ms_items c) k num_valid = Inr n" "0 \<le> count_value n" "count_value n \<le> int (ms_threads c * ms_items c)"
    and d: "\<And>a b. before lt largest a b \<longleftrightarrow> d a < (d b :: int)"
  shows "\<exists>items' payload'. topk_merge c lt largest k num_valid zero slots permutation keys vals
      = Inr (fst (sort_pack items' payload' vector), snd (sort_pack items' payload' vector), topk_flags (ms_items c) k vector)
    \<and> tile_pairs (ms_threads c) items' payload'
      = sort_key (\<lambda>r. d (fst r)) (take (nat (count_value n)) (tile_pairs (ms_threads c) items payload))
        @ drop (nat (count_value n)) (tile_pairs (ms_threads c) items payload)"
proof -
  let ?N = "ms_threads c * ms_items c"
  have valid: "validate_valid_items (Some n) ?N = Inr ()" by (rule static_range_valid [OF topk_counts_bounds(2) [OF n(1)]])
  have small: "ms_compact c \<Longrightarrow> ?N \<le> 2 ^ 32" using m(4) by simp
  have prefix: "valid_prefix ?N (Some n) = nat (count_value n)" using n(3) by (simp add: valid_prefix_def nat_le_iff)
  obtain items' payload' where r: "block_merge_sort c lt largest (Some n) None zero slots permutation keys vals = Inr (sort_pack items' payload' vector)"
    "tile_pairs (ms_threads c) items' payload'
      = sort_key (\<lambda>r. d (fst r)) (take (valid_prefix ?N (Some n)) (tile_pairs (ms_threads c) items payload))
        @ map (fill_record None (ms_zero_value c)) (drop (valid_prefix ?N (Some n)) (tile_pairs (ms_threads c) items payload))"
    using merge_sort_records [where oob_default = None and zero = zero and slots = slots and permutation = permutation,
        OF d un m(1-3) valid small] by blast
  have "length (as_items keys) = ms_items c"
    using un m(1) by (auto simp: sort_unpack_def Let_def rbind_Inr_iff)
  then have "topk_merge c lt largest k num_valid zero slots permutation keys vals
      = Inr (fst (sort_pack items' payload' vector), snd (sort_pack items' payload' vector), topk_flags (ms_items c) k vector)"
    using r(1) n(1) un m(3) by (auto simp: topk_merge_def guard_def split: prod.split)
  moreover have "map (fill_record None (ms_zero_value c)) xs = xs" for xs :: "('a \<times> 'b option) list"
    by (induction xs) (simp_all add: fill_record_def)
  ultimately show ?thesis using r(2) unfolding prefix by auto
qed

section \<open>Properties\<close>



definition demo_topk :: "(nat, nat) merge_class" where
  "demo_topk = \<lparr>ms_threads = 12, ms_items = 1, ms_pairs = True, ms_compact = False, ms_zero_value = 0\<rparr>"


end
