(* ===== verification/Radix_Match.thy ===== *)
theory Radix_Match
  imports Radix_Ranks Block_Histogram
begin

text \<open>
  Ranking by matching (\<open>coop/block/radix_rank.py\<close>, the \<open>MATCH\<close> algorithms): the lanes of a warp find
  the lanes that hold the same digit, by shuffles or by an atomic \<open>or\<close> into a mask in shared memory;
  the first of them takes the places of all of them in the counter of its warp and digit. A scan of
  the counts of the block and the counters of the warps before it make the place a rank in the block.

  Atomic operations of one phase take effect in the order that the argument \<open>sched\<close> gives for the
  operations of the threads; the lemmas hold for every interleaving.
\<close>

section \<open>Definitions\<close>

text \<open>
  The storage. Counters are 32-bit, the counters of a warp's places 16-bit when that is enough, and
  published digits and positions have the smallest type that holds them. The masks share bytes with
  the published digits and positions, which are written again before they are read.
\<close>

record rank_storage =
  st_histogram :: "int shared"
  st_offsets :: "int shared"
  st_counts :: "int shared"
  st_prefix :: "int shared"
  st_masks :: "nat shared"
  st_digits :: "int shared"
  st_indices :: "int shared"

text \<open>What the storage types keep of a 32-bit integer (\<open>_storage\<close>).\<close>

definition offset_wrap :: "nat \<Rightarrow> nat \<Rightarrow> int \<Rightarrow> int" where
  "offset_wrap warp n x = (if warp * n < 65536 then take_bit 16 x else i32 x)"

definition index_wrap :: "nat \<Rightarrow> nat \<Rightarrow> int \<Rightarrow> int" where
  "index_wrap threads n x = (if threads * n \<le> 65536 then take_bit 16 x else i32 x)"

definition digit_wrap :: "nat \<Rightarrow> int \<Rightarrow> int" where
  "digit_wrap radix_bits x =
     (if radix_bits \<le> 8 then take_bit 8 x else if radix_bits \<le> 16 then take_bit 16 x else i32 x)"

text \<open>An atomic operation is an address and an operand; a schedule orders those of the threads of a phase.\<close>

type_synonym atomic_schedule = "nat \<times> nat \<Rightarrow> (nat \<Rightarrow> (nat \<times> nat) list) \<Rightarrow> (nat \<times> nat) list"

definition fair :: "nat \<Rightarrow> atomic_schedule \<Rightarrow> bool" where
  "fair threads sched \<longleftrightarrow> (\<forall>phase W. (\<forall>t \<ge> threads. W t = []) \<longrightarrow> interleaving W (sched phase W))"

definition atomic_adds :: "(nat \<times> nat) list \<Rightarrow> int shared \<Rightarrow> int shared" where
  "atomic_adds ops slots = fold (\<lambda>(a, v) slots. shared_store slots a (i32 (shared_load slots a + int v))) ops slots"

definition atomic_ors :: "(nat \<times> nat) list \<Rightarrow> nat shared \<Rightarrow> nat shared" where
  "atomic_ors ops slots = fold (\<lambda>(a, v) slots. shared_store slots a (or (shared_load slots a) v)) ops slots"

text \<open>The operations of the \<open>threads\<close> threads, and none of others.\<close>

definition only_threads :: "nat \<Rightarrow> (nat \<Rightarrow> 'b list) \<Rightarrow> nat \<Rightarrow> 'b list" where
  "only_threads threads W t = (if t < threads then W t else [])"

definition clear_slots :: "nat \<Rightarrow> nat \<Rightarrow> 'a \<Rightarrow> 'a shared \<Rightarrow> 'a shared" where
  "clear_slots threads n zero slots = barrier_phase threads (\<lambda>t. map (\<lambda>index. (index, zero)) (own_bins threads n t)) slots"

definition initialize_ranks :: "nat \<Rightarrow> nat \<Rightarrow> nat \<Rightarrow> rank_storage \<Rightarrow> rank_storage" where
  "initialize_ranks threads warps bins st =
     st\<lparr>st_histogram := clear_slots threads (warps * bins) 0 (st_histogram st),
        st_offsets := clear_slots threads (warps * bins) 0 (st_offsets st)\<rparr>"

definition early_histogram :: "atomic_schedule \<Rightarrow> nat \<Rightarrow> nat \<Rightarrow> nat \<Rightarrow> nat \<Rightarrow> nat lanes list \<Rightarrow> rank_storage \<Rightarrow> rank_storage" where
  "early_histogram sched pass threads w bins digits st =
     st\<lparr>st_histogram := atomic_adds
       (sched (pass, 0) (only_threads threads (\<lambda>t. map (\<lambda>d. (t div w * bins + d t, 1)) digits)))
       (st_histogram st)\<rparr>"

text \<open>The digits a thread adds up: \<open>tracked\<close> of them, those that exist.\<close>

definition tracked_total :: "nat \<Rightarrow> nat \<Rightarrow> int shared \<Rightarrow> nat \<Rightarrow> int" where
  "tracked_total warps bins histogram d =
     (if d < bins then foldl (\<lambda>total wp. i32 (total + shared_load histogram (wp * bins + d))) 0 [0..<warps] else 0)"

definition read_counts :: "nat \<Rightarrow> nat \<Rightarrow> nat \<Rightarrow> nat \<Rightarrow> rank_storage \<Rightarrow> int lanes list \<times> rank_storage" where
  "read_counts threads warps bins tracked st =
     (map (\<lambda>i t. tracked_total warps bins (st_histogram st) (t * tracked + i)) [0..<tracked],
      st\<lparr>st_counts := barrier_phase threads
          (scatter_writes tracked (\<lambda>t i. t * tracked + i < bins) (\<lambda>t i. t * tracked + i)
            (\<lambda>t i. tracked_total warps bins (st_histogram st) (t * tracked + i))) (st_counts st)\<rparr>)"

definition write_prefix :: "nat \<Rightarrow> nat \<Rightarrow> nat \<Rightarrow> bool \<Rightarrow> nat \<Rightarrow> int lanes list \<Rightarrow> rank_storage \<Rightarrow> rank_storage" where
  "write_prefix threads bins tracked descending tile_items prefix st =
     st\<lparr>st_prefix := barrier_phase threads
       (scatter_writes tracked (\<lambda>t i. t * tracked + i < bins) (\<lambda>t i. t * tracked + i)
         (\<lambda>t i. if descending
            then i32 (int tile_items - (prefix ! i) t - shared_load (st_counts st) (t * tracked + i))
            else (prefix ! i) t)) (st_prefix st)\<rparr>"

text \<open>The lanes with the same digit: by reading every lane of the warp, or by an atomic \<open>or\<close> per lane.\<close>

definition ctpop :: "nat \<Rightarrow> nat" where
  "ctpop m = length (filter (bit m) [0..<64])"

definition match_active :: "nat \<Rightarrow> nat \<Rightarrow> nat \<Rightarrow> nat" where
  "match_active threads w t = (if threads - t div w * w < w then threads - t div w * w else w)"

definition match_any :: "target \<Rightarrow> nat \<Rightarrow> nat \<Rightarrow> nat lanes \<Rightarrow> nat lanes" where
  "match_any tg threads w d t =
     foldl (\<lambda>m source. or m
       (let peer = shuffle_idx tg d (\<lambda>t. int (t div w * w + source)) w t
        in if peer = d t \<and> source < match_active threads w t then 2 ^ source else 0)) 0 [0..<w]"

definition match_or :: "atomic_schedule \<Rightarrow> nat \<times> nat \<Rightarrow> nat \<Rightarrow> nat \<Rightarrow> nat \<Rightarrow> nat lanes \<Rightarrow> nat shared \<Rightarrow> nat shared" where
  "match_or sched phase threads w bins d masks =
     atomic_ors (sched phase (only_threads threads (\<lambda>t. [(t div w * bins + d t, 2 ^ (t mod w))])))
       (clear_slots threads ((threads + w - 1) div w * bins) 0 masks)"

text \<open>One item of \<open>_match_rounds\<close>: its places in the warp's counters, and the storage after the second barrier.\<close>

definition match_round ::
  "target \<Rightarrow> atomic_schedule \<Rightarrow> nat \<Rightarrow> bool \<Rightarrow> bool \<Rightarrow> nat \<Rightarrow> nat \<Rightarrow> nat \<Rightarrow> nat lanes list \<Rightarrow> nat
     \<Rightarrow> int lanes list \<times> rank_storage \<Rightarrow> int lanes list \<times> rank_storage" where
  "match_round tg sched pass early use_or threads w bins digits i state =
     (case state of (result, st) \<Rightarrow>
       let d = digits ! i;
           slot = (\<lambda>t. t div w * bins + d t);
           st = (if use_or then st\<lparr>st_masks := match_or sched (pass, Suc i) threads w bins d (st_masks st)\<rparr> else st);
           lanes_of = (\<lambda>t. if use_or then shared_load (st_masks st) (slot t) else match_any tg threads w d t);
           local_rank = (\<lambda>t. ctpop (and (lanes_of t) (2 ^ (t mod w) - 1)));
           matches = (\<lambda>t. ctpop (lanes_of t));
           previous = (\<lambda>t. shared_load (st_offsets st) (slot t));
           grown = (\<lambda>t. i32 (previous t + int (matches t)));
           leader = (\<lambda>t. local_rank t = 0)
       in (result @ [\<lambda>t. i32 (previous t + int (local_rank t))],
           st\<lparr>st_offsets := barrier_phase threads
                (store_if leader slot (\<lambda>t. offset_wrap w (length digits) (grown t))) (st_offsets st),
              st_histogram := (if early then st_histogram st
                else barrier_phase threads (store_if leader slot grown) (st_histogram st))\<rparr>))"

definition match_rounds ::
  "target \<Rightarrow> atomic_schedule \<Rightarrow> nat \<Rightarrow> bool \<Rightarrow> bool \<Rightarrow> nat \<Rightarrow> nat \<Rightarrow> nat \<Rightarrow> nat lanes list \<Rightarrow> rank_storage \<Rightarrow> int lanes list \<times> rank_storage" where
  "match_rounds tg sched pass early use_or threads w bins digits st =
     fold (match_round tg sched pass early use_or threads w bins digits) [0..<length digits] ([], st)"

definition add_offsets :: "nat \<Rightarrow> nat \<Rightarrow> nat \<Rightarrow> nat lanes list \<Rightarrow> int lanes list \<Rightarrow> rank_storage \<Rightarrow> int lanes list" where
  "add_offsets w bins warps digits ranks st =
     map2 (\<lambda>rank d t. i32 (rank t + foldl (\<lambda>offset wp.
         if wp < t div w then i32 (offset + shared_load (st_histogram st) (wp * bins + d t)) else offset)
         (shared_load (st_prefix st) (d t)) [0..<warps]))
       ranks digits"

text \<open>One pass: ranks, the prefixes of the digits as the threads return them, and the counts given to the callback.\<close>

definition output_prefix :: "nat \<Rightarrow> nat \<Rightarrow> int shared \<Rightarrow> int lanes list" where
  "output_prefix bins tracked prefix = map (\<lambda>i t. shared_load prefix ((t * tracked + i) mod bins)) [0..<tracked]"

definition match_pass ::
  "target \<Rightarrow> (int lanes tile \<Rightarrow> int lanes tile res) \<Rightarrow> atomic_schedule \<Rightarrow> nat \<Rightarrow> bool \<Rightarrow> bool \<Rightarrow> nat \<Rightarrow> nat \<Rightarrow> bool \<Rightarrow> nat
     \<Rightarrow> nat lanes list \<Rightarrow> rank_storage \<Rightarrow> (int lanes list \<times> int lanes list \<times> int lanes list \<times> rank_storage) res" where
  "match_pass tg exclusive sched pass early use_or threads w descending bins digits st =
     (let warps = threads div w; n = length digits; tracked = (bins + threads - 1) div threads;
          st = initialize_ranks threads warps bins st;
          (counts, st) = (if early then read_counts threads warps bins tracked (early_histogram sched pass threads w bins digits st)
            else ([], st));
          (ranks, st) = match_rounds tg sched pass early use_or threads w bins digits st;
          (counts, st) = (if early then (counts, st) else read_counts threads warps bins tracked st) in
      rbind (exclusive (Items counts)) (\<lambda>prefix.
      rbind (tile_list prefix) (\<lambda>prefix.
        let st = write_prefix threads bins tracked descending (threads * n) prefix st
        in Inr (add_offsets w bins warps digits ranks st, output_prefix bins tracked (st_prefix st), counts, st))))"


section \<open>Counting equal digits in an interval of positions\<close>

definition cnt :: "(nat \<Rightarrow> nat) \<Rightarrow> nat \<Rightarrow> nat \<Rightarrow> nat \<Rightarrow> nat" where
  "cnt f v a b = length (filter (\<lambda>p. f p = v) [a..<b])"

lemma cnt_split: "a \<le> b \<Longrightarrow> b \<le> c \<Longrightarrow> cnt f v a c = cnt f v a b + cnt f v b c"
proof -
  assume "a \<le> b" "b \<le> c"
  then obtain k where c: "c = b + k" by (auto simp: le_iff_add)
  show ?thesis unfolding cnt_def c by (subst upt_add_eq_append [OF \<open>a \<le> b\<close>]) simp
qed

lemma cnt_le: "cnt f v a b \<le> b - a"
  unfolding cnt_def by (metis length_filter_le length_upt)

lemma cnt_mono: "a \<le> b \<Longrightarrow> b \<le> c \<Longrightarrow> cnt f v a b \<le> cnt f v a c"
  by (simp add: cnt_split [of a b c])

lemma cnt_shift: "cnt f v a (a + k) = length (filter (\<lambda>s. f (a + s) = v) [0..<k])"
proof -
  have "[a..<a + k] = map (\<lambda>s. a + s) [0..<k]" by (simp add: map_add_upt add.commute)
  then show ?thesis by (simp add: cnt_def filter_map comp_def)
qed

lemma cnt_cong: "(\<And>p. a \<le> p \<Longrightarrow> p < b \<Longrightarrow> f p = g p) \<Longrightarrow> cnt f v a b = cnt g v a b"
  unfolding cnt_def by (intro arg_cong [where f = length] filter_cong) auto

lemma cnt_pos: "a \<le> p \<Longrightarrow> p < b \<Longrightarrow> f p = v \<Longrightarrow> 0 < cnt f v a b"
  unfolding cnt_def length_greater_0_conv by (auto simp: filter_empty_conv)

text \<open>The blocks of a range one after the other.\<close>

lemma cnt_blocks: "sum_list (map (\<lambda>k. cnt f v (k * m) (Suc k * m)) [0..<n]) = cnt f v 0 (n * m)"
proof (induction n)
  case (Suc n)
  then show ?case using cnt_split [of 0 "n * m" "Suc n * m" f v] by simp
qed (simp add: cnt_def)

section \<open>The masks\<close>

lemma filter_upt_bound:
  assumes "w \<le> n" "\<And>s. P s \<Longrightarrow> s < w"
  shows "filter P [0..<n] = filter P [0..<w]"
proof -
  obtain k where n: "n = w + k" using assms(1) by (auto simp: le_iff_add)
  have "filter P [w..<w + k] = []" using assms(2) by (fastforce simp: filter_empty_conv)
  then show ?thesis unfolding n by (subst upt_add_eq_append) simp_all
qed

lemma ctpop_bits:
  assumes "w \<le> 64" "\<And>s. bit m s \<longleftrightarrow> s < w \<and> P s"
  shows "ctpop m = length (filter P [0..<w])"
    "k \<le> w \<Longrightarrow> ctpop (and m (2 ^ k - 1)) = length (filter P [0..<k])"
proof -
  have all: "ctpop m' = length (filter P [0..<k])" if "k \<le> 64" "\<And>s. bit m' s \<longleftrightarrow> s < k \<and> P s" for k m'
  proof -
    have "filter (bit m') [0..<64] = filter (bit m') [0..<k]" by (rule filter_upt_bound) (use that in auto)
    also have "\<dots> = filter P [0..<k]" using that(2) by (intro filter_cong) auto
    finally show ?thesis by (simp add: ctpop_def)
  qed
  show "ctpop m = length (filter P [0..<w])" using assms by (rule all)
  have m: "(2 :: nat) ^ k - 1 = mask k" by (simp add: mask_eq_exp_minus_1)
  show "ctpop (and m (2 ^ k - 1)) = length (filter P [0..<k])" if "k \<le> w"
    unfolding m
  proof (rule all)
    show "k \<le> 64" using that assms(1) by simp
    show "bit (and m (mask k)) s \<longleftrightarrow> s < k \<and> P s" for s
      unfolding bit_and_iff assms(2) bit_mask_iff using that by auto
  qed
qed

lemma foldl_or_bits:
  "bit (foldl (\<lambda>m s. or m (if P s then 2 ^ s else 0)) (0 :: nat) [0..<w]) s \<longleftrightarrow> s < w \<and> P s"
proof (induction w)
  case (Suc w)
  then show ?case by (auto simp: bit_simps less_Suc_eq)
qed simp

lemma match_any_bits:
  assumes "shuffle_law (lane_src tg)" "0 < w" "t < warps * w"
  shows "bit (match_any tg (warps * w) w d t) s \<longleftrightarrow> s < w \<and> d (t div w * w + s) = d t"
proof -
  have wp: "t div w < warps" using assms(3) by (simp add: less_mult_imp_div_less)
  have "match_active (warps * w) w t = w"
  proof -
    have "Suc (t div w) * w \<le> warps * w" using wp by (intro mult_right_mono) simp_all
    then have "w \<le> warps * w - t div w * w" by (simp only: mult_Suc le_diff_conv2 add.commute)
    then show ?thesis unfolding match_active_def by (simp only: not_less [symmetric] if_False)
  qed
  moreover have "shuffle_idx tg d (\<lambda>t. int (t div w * w + source)) w t = d (t div w * w + source)" if "source < w" for source
  proof -
    have g: "(t div w * w + source) div w = t div w" using that by simp
    have "lane_src tg Idx (int (t div w * w + source)) w t = t div w * w + source"
      using assms(1,2) g unfolding shuffle_law_def by (metis nat_int of_nat_0_le_iff)
    then show ?thesis by (simp add: shuffle_idx_def shuffle_def)
  qed
  ultimately have "match_any tg (warps * w) w d t = foldl (\<lambda>m s. or m (if d (t div w * w + s) = d t then 2 ^ s else 0)) 0 [0..<w]"
    unfolding match_any_def by (intro foldl_cong) auto
  then show ?thesis by (simp add: foldl_or_bits)
qed

lemma atomic_ors_bits:
  "bit (atomic_ors ops slots a) s \<longleftrightarrow> bit (slots a) s \<or> (\<exists>v. (a, v) \<in> set ops \<and> bit v s)"
proof (induction ops arbitrary: slots)
  case (Cons x ops)
  obtain b u where x: "x = (b, u)" by (cases x)
  have "atomic_ors (x # ops) slots = atomic_ors ops (slots(b := or (slots b) u))"
    by (simp add: atomic_ors_def x shared_store_def shared_load_def)
  then show ?case using Cons by (auto simp: x bit_or_iff)
qed (simp add: atomic_ors_def)

lemma fair_mset:
  assumes "fair threads sched"
  shows "mset (sched phase (only_threads threads W)) = mset (concat (map W [0..<threads]))"
proof -
  have "interleaving (only_threads threads W) (sched phase (only_threads threads W))"
  proof -
    have "\<forall>t \<ge> threads. only_threads threads W t = []" by (simp add: only_threads_def)
    then show ?thesis using assms unfolding fair_def by blast
  qed
  then have "mset (sched phase (only_threads threads W)) = mset (concat (map (only_threads threads W) [0..<threads]))"
    by (rule interleaving_mset) (simp add: only_threads_def)
  also have "map (only_threads threads W) [0..<threads] = map W [0..<threads]" by (simp add: only_threads_def)
  finally show ?thesis .
qed

lemma clear_slots_at: "0 < threads \<Longrightarrow> a < n \<Longrightarrow> clear_slots threads n z slots a = z"
  unfolding clear_slots_def by (rule own_bins_phase)

lemma slot_split:
  fixes bins :: nat
  assumes "x < bins" "y < bins"
  shows "p * bins + x = q * bins + y \<longleftrightarrow> p = q \<and> x = y"
  using split_unique [OF _ assms] by auto

lemma ex_image_pair: "(\<exists>x. (a, x) \<in> (\<lambda>u. (A u, B u)) ` T \<and> P x) \<longleftrightarrow> (\<exists>u \<in> T. A u = a \<and> P (B u))"
  by blast

lemma match_or_bits:
  assumes "fair (warps * w) sched" "0 < w" "t < warps * w" and d: "\<And>t. t < warps * w \<Longrightarrow> d t < bins"
  shows "bit (match_or sched phase (warps * w) w bins d masks (t div w * bins + d t)) s \<longleftrightarrow> s < w \<and> d (t div w * w + s) = d t"
proof -
  let ?W = "\<lambda>t. [(t div w * bins + d t, 2 ^ (t mod w))]"
  let ?ops = "sched phase (only_threads (warps * w) ?W)"
  have ops: "set ?ops = (\<lambda>t. (t div w * bins + d t, 2 ^ (t mod w))) ` {..<warps * w}"
  proof -
    have "set ?ops = set (concat (map ?W [0..<warps * w]))"
      by (rule mset_eq_setD, rule fair_mset, rule assms(1))
    then show ?thesis by auto
  qed
  have wp: "t div w < warps" using assms(3) by (simp add: less_mult_imp_div_less)
  have "(warps * w + w - 1) div w = warps"
  proof -
    have "(warps * w + (w - 1)) div w = warps" by (rule group_split(1)) (use assms(2) in simp)
    then show ?thesis using assms(2) by simp
  qed
  then have "clear_slots (warps * w) ((warps * w + w - 1) div w * bins) 0 masks (t div w * bins + d t) = 0"
    using position_bound [OF wp d [OF assms(3)]] assms(2) wp by (intro clear_slots_at) simp_all
  then have "bit (match_or sched phase (warps * w) w bins d masks (t div w * bins + d t)) s
      \<longleftrightarrow> (\<exists>u < warps * w. u div w * bins + d u = t div w * bins + d t \<and> u mod w = s)"
    unfolding match_or_def atomic_ors_bits ops ex_image_pair by (auto simp: bit_simps)
  also have "\<dots> \<longleftrightarrow> (\<exists>u < warps * w. u div w = t div w \<and> d u = d t \<and> u mod w = s)"
    using slot_split [OF d d [OF assms(3)]] by blast
  also have "\<dots> \<longleftrightarrow> s < w \<and> d (t div w * w + s) = d t"
  proof
    assume "s < w \<and> d (t div w * w + s) = d t"
    then show "\<exists>u < warps * w. u div w = t div w \<and> d u = d t \<and> u mod w = s"
      using position_bound [OF wp, of s w] by (intro exI [of _ "t div w * w + s"]) simp
  next
    assume "\<exists>u < warps * w. u div w = t div w \<and> d u = d t \<and> u mod w = s"
    then obtain u where "u div w = t div w" "d u = d t" "u mod w = s" by blast
    then show "s < w \<and> d (t div w * w + s) = d t" using assms(2) div_mult_mod_eq [of u w] by auto
  qed
  finally show ?thesis .
qed


section \<open>The rounds of a warp\<close>

text \<open>
  Warp \<open>q\<close> ranks its items in the order: item by item, and lane by lane in each. Position
  \<open>q * (w * n) + i * w + s\<close> is item \<open>i\<close> of lane \<open>s\<close>.
\<close>

definition match_item :: "nat \<Rightarrow> 'a lanes list \<Rightarrow> nat \<Rightarrow> 'a" where
  "match_item w digits p = (digits ! (p mod (w * length digits) div w)) (p div (w * length digits) * w + p mod w)"

lemma match_item_at:
  assumes "i < length digits" "s < w"
  shows "match_item w digits (q * (w * length digits) + i * w + s) = (digits ! i) (q * w + s)"
proof -
  let ?n = "length digits"
  have lt: "i * w + s < w * ?n" using position_bound [OF assms(1,2)] by (simp add: mult.commute)
  have p: "q * (w * ?n) + i * w + s = q * (w * ?n) + (i * w + s)" by simp
  have "(q * (w * ?n) + (i * w + s)) mod w = (i * w + s + (q * ?n) * w) mod w" by (simp add: ac_simps)
  also have "\<dots> = (i * w + s) mod w" by (rule mod_mult_self1)
  also have "\<dots> = s" using assms(2) by (rule group_split(2))
  finally show ?thesis
    using group_split [OF lt, of q] group_split(1) [OF assms(2), of i] unfolding match_item_def p by simp
qed

definition rounds_inv ::
  "nat \<Rightarrow> nat \<Rightarrow> nat \<Rightarrow> nat lanes list \<Rightarrow> bool \<Rightarrow> rank_storage \<Rightarrow> nat \<Rightarrow> int lanes list \<times> rank_storage \<Rightarrow> bool" where
  "rounds_inv w warps bins digits early st0 k state \<longleftrightarrow> (case state of (result, st) \<Rightarrow>
     let f = match_item w digits; start = (\<lambda>q. q * (w * length digits)) in
     length result = k
     \<and> (\<forall>t < warps * w. \<forall>i < k. (result ! i) t = int (cnt f ((digits ! i) t) (start (t div w)) (start (t div w) + i * w + t mod w)))
     \<and> (\<forall>q < warps. \<forall>v < bins. st_offsets st (q * bins + v) = int (cnt f v (start q) (start q + k * w)))
     \<and> (if early then st_histogram st = st_histogram st0
        else \<forall>q < warps. \<forall>v < bins. st_histogram st (q * bins + v) = int (cnt f v (start q) (start q + k * w)))
     \<and> st_counts st = st_counts st0)"

lemma small_count:
  assumes "x \<le> w * n" "w * n < 2 ^ 31"
  shows "i32 (int x) = int x" "offset_wrap w n (int x) = int x"
proof -
  have x: "x < 2 ^ 31" using assms by (rule le_less_trans)
  show i: "i32 (int x) = int x" using x by (intro signed_small int_small)
  show "offset_wrap w n (int x) = int x"
  proof (cases "w * n < 65536")
    case True
    then have "int x < 2 ^ 16" using assms(1) by simp
    then show ?thesis using True by (simp add: offset_wrap_def take_bit_int_eq_self)
  qed (simp add: offset_wrap_def i)
qed

text \<open>The leaders: among the lanes of a warp with the same digit the first one, and one of them is.\<close>

lemma leader_phase:
  assumes w: "0 < w" and d: "\<And>t. t < warps * w \<Longrightarrow> d t < bins"
    and f: "\<And>q s. q < warps \<Longrightarrow> s < w \<Longrightarrow> f (base q + s) = d (q * w + s)"
    and lead: "\<And>t. t < warps * w \<Longrightarrow> leader t \<longleftrightarrow> cnt f (d t) (base (t div w)) (base (t div w) + t mod w) = 0"
    and val: "\<And>t. t < warps * w \<Longrightarrow> val t = new (t div w) (d t)"
    and old: "\<And>q v. q < warps \<Longrightarrow> v < bins \<Longrightarrow> cnt f v (base q) (base q + w) = 0 \<Longrightarrow> slots (q * bins + v) = new q v"
    and q: "q < warps" "v < bins"
  shows "barrier_phase (warps * w) (store_if leader (\<lambda>t. t div w * bins + d t) val) slots (q * bins + v) = new q v"
proof (cases "\<exists>s < w. f (base q + s) = v")
  case True
  define s where "s = (LEAST s. f (base q + s) = v)"
  have s: "f (base q + s) = v" "s < w" and least: "\<And>r. r < s \<Longrightarrow> f (base q + r) \<noteq> v"
  proof -
    obtain s0 where s0: "s0 < w" "f (base q + s0) = v" using True by blast
    show "f (base q + s) = v" unfolding s_def using s0(2) by (rule LeastI)
    have "s \<le> s0" unfolding s_def using s0(2) by (rule Least_le)
    then show "s < w" using s0(1) by simp
    show "\<And>r. r < s \<Longrightarrow> f (base q + r) \<noteq> v" unfolding s_def by (rule not_less_Least)
  qed
  let ?t = "q * w + s"
  have t: "?t < warps * w" "?t div w = q" "?t mod w = s" using position_bound [OF q(1) s(2)] group_split [OF s(2)] by simp_all
  have dt: "d ?t = v" using f [OF q(1) s(2)] s(1) by simp
  have "cnt f v (base q) (base q + s) = 0" unfolding cnt_shift by (simp add: filter_empty_conv least)
  then have leads: "leader ?t" using lead [OF t(1)] dt t(2,3) by simp
  have "inj_on (\<lambda>t. t div w * bins + d t) {t. t < warps * w \<and> leader t}"
  proof (rule linorder_inj_onI)
    fix t u assume tu: "t < u" "t \<in> {t. t < warps * w \<and> leader t}" "u \<in> {t. t < warps * w \<and> leader t}"
    then have t: "t < warps * w" and u: "u < warps * w" and lu: "leader u" by simp_all
    show "t div w * bins + d t \<noteq> u div w * bins + d u"
    proof
      assume "t div w * bins + d t = u div w * bins + d u"
      then have e: "t div w = u div w" "d t = d u" using slot_split [OF d [OF t] d [OF u]] by auto
      have lt: "t mod w < u mod w" using tu(1) div_mult_mod_eq [of t w] div_mult_mod_eq [of u w] unfolding e(1) by linarith
      have "t div w < warps" using t by (simp add: less_mult_imp_div_less)
      then have "f (base (u div w) + t mod w) = d u" using f [of "t div w" "t mod w"] w e
          div_mult_mod_eq [of t w] by simp
      then have "0 < cnt f (d u) (base (u div w)) (base (u div w) + u mod w)" by (intro cnt_pos [where p = "base (u div w) + t mod w"]) (use lt in simp_all)
      then show False using lead [OF u] lu by simp
    qed
  qed auto
  from phase_store_if [OF this t(1) leads, of val slots] show ?thesis using t dt val [OF t(1)] by simp
next
  case False
  then have none: "cnt f v (base q) (base q + w) = 0" unfolding cnt_shift by (auto simp: filter_empty_conv)
  have "barrier_phase (warps * w) (store_if leader (\<lambda>t. t div w * bins + d t) val) slots (q * bins + v) = slots (q * bins + v)"
  proof (rule barrier_phase_miss)
    fix t assume t: "t < warps * w"
    have "q * bins + v \<noteq> t div w * bins + d t"
    proof
      assume "q * bins + v = t div w * bins + d t"
      then have e: "q = t div w" "v = d t" using slot_split [OF q(2) d [OF t]] by auto
      have "f (base q + t mod w) = d (t div w * w + t mod w)" using f [OF q(1), of "t mod w"] w e(1) by simp
      then show False using False w e(2) by auto
    qed
    then show "q * bins + v \<notin> fst ` set (store_if leader (\<lambda>t. t div w * bins + d t) val t)" by (auto simp: store_if_def)
  qed
  then show ?thesis using old [OF q none] by simp
qed


lemma match_round_inv:
  assumes law: "shuffle_law (lane_src tg)" "fair (warps * w) sched" and w: "0 < w" "w \<le> 64"
    and small: "w * length digits < 2 ^ 31" and k: "k < length digits"
    and d: "\<And>i t. i < length digits \<Longrightarrow> t < warps * w \<Longrightarrow> (digits ! i) t < bins"
    and inv: "rounds_inv w warps bins digits early st0 k state"
  shows "rounds_inv w warps bins digits early st0 (Suc k) (match_round tg sched pass early use_or (warps * w) w bins digits k state)"
proof -
  let ?n = "length digits" and ?d = "digits ! k" and ?f = "match_item w digits"
  define start where "start = (\<lambda>q. q * (w * ?n))"
  define base where "base = (\<lambda>q. start q + k * w)"
  obtain result st where state: "state = (result, st)" by (cases state)
  have I: "length result = k"
    "\<And>t i. t < warps * w \<Longrightarrow> i < k \<Longrightarrow> (result ! i) t = int (cnt ?f ((digits ! i) t) (start (t div w)) (start (t div w) + i * w + t mod w))"
    "\<And>q v. q < warps \<Longrightarrow> v < bins \<Longrightarrow> st_offsets st (q * bins + v) = int (cnt ?f v (start q) (base q))"
    "if early then st_histogram st = st_histogram st0
        else \<forall>q < warps. \<forall>v < bins. st_histogram st (q * bins + v) = int (cnt ?f v (start q) (base q))"
    "st_counts st = st_counts st0"
    using inv by (simp_all add: rounds_inv_def state Let_def start_def base_def)
  have f: "?f (base q + s) = ?d (q * w + s)" if "s < w" for q s
    unfolding base_def start_def by (rule match_item_at [OF k that])
  have dk: "?d t < bins" if "t < warps * w" for t using d [OF k that] .
  have wp: "t div w < warps" if "t < warps * w" for t using that by (simp add: less_mult_imp_div_less)
  define st1 where "st1 = (if use_or then st\<lparr>st_masks := match_or sched (pass, Suc k) (warps * w) w bins ?d (st_masks st)\<rparr> else st)"
  define slot where "slot = (\<lambda>t. t div w * bins + ?d t)"
  define lanes_of where "lanes_of = (\<lambda>t. if use_or then shared_load (st_masks st1) (slot t) else match_any tg (warps * w) w ?d t)"
  have bits: "bit (lanes_of t) s \<longleftrightarrow> s < w \<and> ?f (base (t div w) + s) = ?d t" if t: "t < warps * w" for t s
  proof -
    have "bit (lanes_of t) s \<longleftrightarrow> s < w \<and> ?d (t div w * w + s) = ?d t"
      using match_or_bits [where d = ?d, OF law(2) w(1) t dk] match_any_bits [OF law(1) w(1) t]
      by (simp add: lanes_of_def st1_def slot_def shared_load_def)
    then show ?thesis using f by auto
  qed
  have pop: "ctpop (lanes_of t) = cnt ?f (?d t) (base (t div w)) (base (t div w) + w)"
    "ctpop (and (lanes_of t) (2 ^ (t mod w) - 1)) = cnt ?f (?d t) (base (t div w)) (base (t div w) + t mod w)" if t: "t < warps * w" for t
    unfolding cnt_shift using ctpop_bits [OF w(2) bits [OF t]] w(1) by simp_all
  have kw: "k * w + w \<le> w * ?n" using k mult_right_mono [of "Suc k" ?n w] by (simp add: mult.commute add.commute)
  have le: "cnt ?f v (start q) (base q + s) \<le> w * ?n" if "s \<le> w" for v q s
  proof -
    have "cnt ?f v (start q) (base q + s) \<le> base q + s - start q" by (rule cnt_le)
    also have "\<dots> \<le> w * ?n" using kw that by (simp add: base_def)
    finally show ?thesis .
  qed
  have add: "cnt ?f v (start q) (base q) + cnt ?f v (base q) (base q + s) = cnt ?f v (start q) (base q + s)" for v q s
    by (rule cnt_split [symmetric]) (simp_all add: base_def)
  let ?prev = "\<lambda>t. shared_load (st_offsets st1) (slot t)"
  define grown where "grown = (\<lambda>t. i32 (?prev t + int (ctpop (lanes_of t))))"
  define leader where "leader = (\<lambda>t. ctpop (and (lanes_of t) (2 ^ (t mod w) - 1)) = 0)"
  have prev: "?prev t = int (cnt ?f (?d t) (start (t div w)) (base (t div w)))" if t: "t < warps * w" for t
    using I(3) [OF wp [OF t] dk [OF t]] by (simp add: st1_def slot_def shared_load_def)
  have grown: "grown t = int (cnt ?f (?d t) (start (t div w)) (base (t div w) + w))" if t: "t < warps * w" for t
    unfolding grown_def prev [OF t] pop(1) [OF t] of_nat_add [symmetric] add
    by (rule small_count [OF le small]) simp
  have place: "i32 (?prev t + int (ctpop (and (lanes_of t) (2 ^ (t mod w) - 1))))
      = int (cnt ?f (?d t) (start (t div w)) (base (t div w) + t mod w))" if t: "t < warps * w" for t
    unfolding prev [OF t] pop(2) [OF t] of_nat_add [symmetric] add
    by (rule small_count [OF le small]) (use w(1) in \<open>simp add: less_imp_le\<close>)
  have phase: "barrier_phase (warps * w) (store_if leader slot val) slots (q * bins + v) = int (cnt ?f v (start q) (base q + w))"
    if q: "q < warps" "v < bins" and val: "\<And>t. t < warps * w \<Longrightarrow> val t = int (cnt ?f (?d t) (start (t div w)) (base (t div w) + w))"
      and slots: "\<And>q v. q < warps \<Longrightarrow> v < bins \<Longrightarrow> slots (q * bins + v) = int (cnt ?f v (start q) (base q))" for q v val slots
    unfolding slot_def
  proof (rule leader_phase [where base = base and f = ?f and new = "\<lambda>q v. int (cnt ?f v (start q) (base q + w))", OF w(1) dk f _ val _ q])
    show "leader t \<longleftrightarrow> cnt ?f (?d t) (base (t div w)) (base (t div w) + t mod w) = 0" if "t < warps * w" for t
      using pop(2) [OF that] by (simp add: leader_def)
    show "slots (q * bins + v) = int (cnt ?f v (start q) (base q + w))" if "q < warps" "v < bins" "cnt ?f v (base q) (base q + w) = 0" for q v
      using slots [OF that(1,2)] add [of v q w] that(3) by simp
  qed
  define st2 where "st2 = st1\<lparr>st_offsets := barrier_phase (warps * w)
                (store_if leader slot (\<lambda>t. offset_wrap w ?n (grown t))) (st_offsets st1),
              st_histogram := (if early then st_histogram st1
                else barrier_phase (warps * w) (store_if leader slot grown) (st_histogram st1))\<rparr>"
  define here where "here = (\<lambda>t. i32 (?prev t + int (ctpop (and (lanes_of t) (2 ^ (t mod w) - 1)))))"
  have round: "match_round tg sched pass early use_or (warps * w) w bins digits k state = (result @ [here], st2)"
    unfolding match_round_def state prod.case Let_def here_def st2_def leader_def grown_def lanes_of_def slot_def st1_def ..
  have later: "start q + Suc k * w = base q + w" for q by (simp add: base_def)
  have "((result @ [here]) ! i) t = int (cnt ?f ((digits ! i) t) (start (t div w)) (start (t div w) + i * w + t mod w))"
    if ti: "t < warps * w" "i < Suc k" for t i
  proof (cases "i < k")
    case True
    then show ?thesis using I(1,2) ti(1) by (simp add: nth_append)
  next
    case False
    then have "i = k" using ti(2) by simp
    then show ?thesis using place [OF ti(1)] I(1) by (simp add: nth_append here_def base_def)
  qed
  moreover have "st_offsets st2 (q * bins + v) = int (cnt ?f v (start q) (start q + Suc k * w))" if q: "q < warps" "v < bins" for q v
  proof -
    have "offset_wrap w ?n (grown t) = int (cnt ?f (?d t) (start (t div w)) (base (t div w) + w))" if "t < warps * w" for t
      unfolding grown [OF that] by (rule small_count [OF le small]) simp
    moreover have "st_offsets st1 (q * bins + v) = int (cnt ?f v (start q) (base q))" if "q < warps" "v < bins" for q v
      using I(3) [OF that] by (simp add: st1_def)
    ultimately show ?thesis using phase [OF q] unfolding later by (simp add: st2_def)
  qed
  moreover have "if early then st_histogram st2 = st_histogram st0
        else \<forall>q < warps. \<forall>v < bins. st_histogram st2 (q * bins + v) = int (cnt ?f v (start q) (start q + Suc k * w))"
  proof (cases early)
    case True
    then show ?thesis using I(4) by (simp add: st2_def st1_def)
  next
    case False
    have "st_histogram st1 (q * bins + v) = int (cnt ?f v (start q) (base q))" if "q < warps" "v < bins" for q v
      using I(4) False that by (simp add: st1_def)
    then show ?thesis using phase [where val = grown, OF _ _ grown] False unfolding later by (simp add: st2_def)
  qed
  moreover have "st_counts st2 = st_counts st0" using I(5) by (simp add: st2_def st1_def)
  ultimately show ?thesis unfolding round rounds_inv_def prod.case Let_def start_def [symmetric] using I(1) by simp
qed


lemma fold_upt_inv:
  assumes "I 0 s" "\<And>k s. k < n \<Longrightarrow> I k s \<Longrightarrow> I (Suc k) (f k s)"
  shows "I n (fold f [0..<n] s)"
  using assms(2) by (induction n) (simp_all add: assms(1))

lemma match_rounds_correct:
  assumes "shuffle_law (lane_src tg)" "fair (warps * w) sched" "0 < w" "w \<le> 64" "w * length digits < 2 ^ 31"
    and "\<And>i t. i < length digits \<Longrightarrow> t < warps * w \<Longrightarrow> (digits ! i) t < bins"
    and zero: "\<And>q v. q < warps \<Longrightarrow> v < bins \<Longrightarrow> st_offsets st (q * bins + v) = 0"
      "\<not> early \<Longrightarrow> (\<And>q v. q < warps \<Longrightarrow> v < bins \<Longrightarrow> st_histogram st (q * bins + v) = 0)"
  shows "rounds_inv w warps bins digits early st (length digits) (match_rounds tg sched pass early use_or (warps * w) w bins digits st)"
  unfolding match_rounds_def
proof (rule fold_upt_inv)
  show "rounds_inv w warps bins digits early st 0 ([], st)"
    using zero by (simp add: rounds_inv_def cnt_def)
qed (rule match_round_inv [OF assms(1-5) _ assms(6)])

section \<open>Counts and offsets\<close>

lemma length_filter_sum: "length (filter P xs) = (\<Sum>i < length xs. if P (xs ! i) then 1 else 0)"
  by (induction xs rule: rev_induct) (auto simp: nth_append)

lemma cnt_sum: "cnt f v a (a + m) = (\<Sum>p < m. if f (a + p) = v then 1 else 0)"
  unfolding cnt_shift by (simp add: length_filter_sum cong: if_cong)

lemma length_filter_concat_upt:
  "length (filter P (concat (map W [0..<n]))) = (\<Sum>t < n. length (filter P (W t)))"
  by (induction n) simp_all

lemma sum_groups: "(\<Sum>p < n * k. g p) = (\<Sum>i < n. \<Sum>s < k. g (i * k + s))" for g :: "nat \<Rightarrow> nat"
proof (induction n)
  case (Suc n)
  have "(\<Sum>p < a + b. g p) = (\<Sum>p < a. g p) + (\<Sum>s < b. g (a + s))" for a b
    by (induction b) simp_all
  from this [of "n * k" k] have "(\<Sum>p < Suc n * k. g p) = (\<Sum>p < n * k. g p) + (\<Sum>s < k. g (n * k + s))"
    by (simp add: add.commute)
  then show ?case using Suc by simp
qed simp

lemma atomic_adds_ones:
  assumes "\<And>x. x \<in> set ops \<Longrightarrow> snd x = 1" "0 \<le> slots a" "slots a + int (length (filter (\<lambda>x. fst x = a) ops)) < 2 ^ 31"
  shows "atomic_adds ops slots a = slots a + int (length (filter (\<lambda>x. fst x = a) ops))"
  using assms
proof (induction ops arbitrary: slots)
  case (Cons x ops)
  have one: "snd x = 1" using Cons.prems(1) by simp
  let ?slots = "shared_store slots (fst x) (i32 (shared_load slots (fst x) + 1))"
  have step: "atomic_adds (x # ops) slots = atomic_adds ops ?slots"
    using one by (simp add: atomic_adds_def split_beta)
  have "?slots a = slots a + (if fst x = a then 1 else 0)"
  proof (cases "fst x = a")
    case True
    have "i32 (slots a + 1) = slots a + 1" using Cons.prems(2,3) True by (intro signed_small) simp_all
    then show ?thesis using True by (simp add: shared_store_def shared_load_def)
  qed (simp add: shared_store_def)
  then show ?case unfolding step using Cons.prems by (subst Cons.IH) auto
qed (simp add: atomic_adds_def)

lemma early_histogram_correct:
  assumes sched: "fair (warps * w) sched" and w: "0 < w" and small: "w * length digits < 2 ^ 31"
    and d: "\<And>i t. i < length digits \<Longrightarrow> t < warps * w \<Longrightarrow> (digits ! i) t < bins"
    and zero: "st_histogram st (q * bins + v) = 0" and q: "q < warps" "v < bins"
  shows "st_histogram (early_histogram sched pass (warps * w) w bins digits st) (q * bins + v)
    = int (cnt (match_item w digits) v (q * (w * length digits)) (q * (w * length digits) + w * length digits))"
proof -
  let ?n = "length digits"
  let ?W = "\<lambda>t. map (\<lambda>d. (t div w * bins + d t, 1 :: nat)) digits"
  let ?ops = "sched (pass, 0) (only_threads (warps * w) ?W)"
  note m = fair_mset [OF sched, of "(pass, 0)" ?W]
  have same: "length (filter P ?ops) = length (filter P (concat (map ?W [0..<warps * w])))" for P
    using arg_cong [OF m, of "\<lambda>M. size (filter_mset P M)"] by (simp only: mset_filter [symmetric] size_mset)
  have ones: "snd x = 1" if "x \<in> set ?ops" for x
  proof -
    have "x \<in> set (concat (map ?W [0..<warps * w]))" using that mset_eq_setD [OF m] by blast
    then show ?thesis by auto
  qed
  have "length (filter (\<lambda>x. fst x = q * bins + v) (concat (map ?W [0..<warps * w])))
      = (\<Sum>t < warps * w. \<Sum>i < ?n. if t div w = q \<and> (digits ! i) t = v then 1 else 0)"
    unfolding length_filter_concat_upt
  proof (rule sum.cong [OF refl])
    fix t assume "t \<in> {..<warps * w}"
    then have t: "t < warps * w" by simp
    show "length (filter (\<lambda>x. fst x = q * bins + v) (?W t)) = (\<Sum>i < ?n. if t div w = q \<and> (digits ! i) t = v then 1 else 0)"
      unfolding length_filter_sum length_map
      by (rule sum.cong [OF refl]) (use slot_split [OF d [OF _ t] q(2)] in simp)
  qed
  also have "\<dots> = (\<Sum>r < warps. \<Sum>s < w. \<Sum>i < ?n. if r = q \<and> (digits ! i) (r * w + s) = v then 1 else 0)"
    unfolding sum_groups by (intro sum.cong refl) simp
  also have "\<dots> = (\<Sum>r < warps. if r = q then (\<Sum>s < w. \<Sum>i < ?n. if (digits ! i) (q * w + s) = v then 1 else 0) else 0)"
    by (intro sum.cong refl) simp
  also have "\<dots> = (\<Sum>s < w. \<Sum>i < ?n. if (digits ! i) (q * w + s) = v then 1 else 0)"
    using q(1) by simp
  also have "\<dots> = (\<Sum>i < ?n. \<Sum>s < w. if (digits ! i) (q * w + s) = v then 1 else 0)"
    by (rule sum.swap)
  also have "\<dots> = (\<Sum>i < ?n. \<Sum>s < w. if match_item w digits (q * (w * ?n) + (i * w + s)) = v then 1 else 0)"
    using match_item_at [of _ digits _ w q] by (intro sum.cong refl) (simp add: add.assoc)
  also have "\<dots> = cnt (match_item w digits) v (q * (w * ?n)) (q * (w * ?n) + ?n * w)"
    unfolding cnt_sum by (rule sum_groups [symmetric])
  finally have c: "length (filter (\<lambda>x. fst x = q * bins + v) ?ops) = cnt (match_item w digits) v (q * (w * ?n)) (q * (w * ?n) + w * ?n)"
    unfolding same by (simp add: mult.commute)
  have "cnt (match_item w digits) v (q * (w * ?n)) (q * (w * ?n) + w * ?n) \<le> w * ?n"
    using cnt_le [of _ v "q * (w * ?n)" "q * (w * ?n) + w * ?n"] by simp
  then have "int (cnt (match_item w digits) v (q * (w * ?n)) (q * (w * ?n) + w * ?n)) < 2 ^ 31"
    using small by (intro int_small(2)) linarith
  then show ?thesis
    using atomic_adds_ones [where ops = ?ops and slots = "st_histogram st" and a = "q * bins + v", OF ones] zero c
    by (simp add: early_histogram_def)
qed

lemma foldl_counts:
  assumes "a + (\<Sum>k < min n m. g k) < 2 ^ 31"
  shows "foldl (\<lambda>total k. if k < m then i32 (total + int (g k)) else total) (int a) [0..<n] = int (a + (\<Sum>k < min n m. g k))"
  using assms
proof (induction n)
  case (Suc n)
  show ?case
  proof (cases "n < m")
    case True
    then have e: "min (Suc n) m = Suc n" "min n m = n" by simp_all
    have "i32 (int (a + (\<Sum>k < Suc n. g k))) = int (a + (\<Sum>k < Suc n. g k))"
      using Suc.prems unfolding e by (intro signed_small int_small)
    then show ?thesis using Suc True unfolding e by (simp add: add.assoc)
  next
    case False
    then have "min (Suc n) m = min n m" by simp
    then show ?thesis using Suc False by simp
  qed
qed simp


lemma tracked_total_correct:
  assumes hist: "\<And>q. q < warps \<Longrightarrow> histogram (q * bins + v) = int (cnt f v (q * m) (q * m + m))"
    and v: "v < bins" and small: "warps * m < 2 ^ 31"
  shows "tracked_total warps bins histogram v = int (cnt f v 0 (warps * m))"
proof -
  have total: "(\<Sum>q < k. cnt f v (q * m) (q * m + m)) = cnt f v 0 (k * m)" for k
  proof (induction k)
    case (Suc k)
    then show ?case using cnt_split [of 0 "k * m" "Suc k * m" f v] by (simp add: add.commute)
  qed (simp add: cnt_def)
  have "cnt f v 0 (warps * m) < 2 ^ 31" using cnt_le [of f v 0 "warps * m"] small by linarith
  then have "foldl (\<lambda>total q. if q < warps then i32 (total + int (cnt f v (q * m) (q * m + m))) else total) (int 0) [0..<warps]
      = int (cnt f v 0 (warps * m))"
    using foldl_counts [where a = 0 and n = warps and m = warps and g = "\<lambda>q. cnt f v (q * m) (q * m + m)"] by (simp add: total)
  moreover have "foldl (\<lambda>total q. i32 (total + shared_load histogram (q * bins + v))) 0 [0..<warps]
      = foldl (\<lambda>total q. if q < warps then i32 (total + int (cnt f v (q * m) (q * m + m))) else total) (int 0) [0..<warps]"
    using hist by (intro foldl_cong) (simp_all add: shared_load_def)
  ultimately show ?thesis using v by (simp add: tracked_total_def)
qed

lemma scatter_tracked:
  assumes "v < bins" "bins \<le> threads * tracked"
  shows "barrier_phase threads (scatter_writes tracked (\<lambda>t i. t * tracked + i < bins) (\<lambda>t i. t * tracked + i) val) slots v
    = val (v div tracked) (v mod tracked)"
proof -
  have v: "v < threads * tracked" using assms by simp
  have inj: "scatter_inj threads tracked (\<lambda>t i. t * tracked + i < bins) (\<lambda>t i. t * tracked + i)"
    unfolding scatter_inj_def using split_unique by blast
  show ?thesis
    using scatter_hit [OF inj position_cases(1,2) [OF v], of val slots] position_cases(4) [OF v] assms(1) by simp
qed

text \<open>The number of digits below \<open>v\<close>, as the sum of the counts.\<close>

lemma sum_cnt: "(\<Sum>u < v. cnt f u a b) = length (filter (\<lambda>p. f p < v) [a..<b])"
proof (induction v)
  case (Suc v)
  then show ?case unfolding filter_lt_Suc by (simp add: cnt_def)
qed simp

lemma sum_tracked_counts:
  "(\<Sum>u < m. if u < bins then int (cnt f u a b) else 0) = int (length (filter (\<lambda>p. f p < min m bins) [a..<b]))"
proof (induction m)
  case (Suc m)
  show ?case
  proof (cases "m < bins")
    case True
    then have e: "min (Suc m) bins = Suc m" "min m bins = m" by simp_all
    show ?thesis using Suc True unfolding e filter_lt_Suc by (simp add: cnt_def)
  next
    case False
    then have "min (Suc m) bins = min m bins" by simp
    then show ?thesis using Suc False by simp
  qed
qed simp

lemma rank_of_counts:
  assumes "p < N" "\<And>q. q < N \<Longrightarrow> f q < bins"
  shows "int (stable_rank (digit_key descending bins) (map f [0..<N]) p)
    = (if descending then int N - int (length (filter (\<lambda>q. f q < f p) [0..<N])) - int (cnt f (f p) 0 N)
       else int (length (filter (\<lambda>q. f q < f p) [0..<N]))) + int (cnt f (f p) 0 p)"
proof -
  let ?k = "digit_key descending bins"
  have k: "?k (f q) < ?k (f p) \<longleftrightarrow> (if descending then f p < f q else f q < f p)" "?k (f q) = ?k (f p) \<longleftrightarrow> f q = f p" if "q < N" for q
    using assms(2) [OF that] assms(2) [OF assms(1)] by (auto simp: digit_key_def)
  have tk: "take p (map f [0..<N]) = map f [0..<p]" using assms(1) by (simp add: take_map)
  have less: "length (filter (\<lambda>q. ?k (f q) < ?k (f p)) [0..<N]) = length (filter (\<lambda>q. if descending then f p < f q else f q < f p) [0..<N])"
    by (intro arg_cong [where f = length] filter_cong) (use k in auto)
  have eq: "length (filter (\<lambda>q. ?k (f q) = ?k (f p)) [0..<p]) = cnt f (f p) 0 p"
    unfolding cnt_def by (intro arg_cong [where f = length] filter_cong) (use k assms(1) in auto)
  have three: "length (filter (\<lambda>q. f q < v) xs) + length (filter (\<lambda>q. f q = v) xs) + length (filter (\<lambda>q. v < f q) xs) = length xs" for v and xs :: "nat list"
    by (induction xs) auto
  have "int N = int (length (filter (\<lambda>q. f q < f p) [0..<N])) + int (cnt f (f p) 0 N) + int (length (filter (\<lambda>q. f p < f q) [0..<N]))"
    unfolding cnt_def using three [of "f p" "[0..<N]"] by (simp flip: of_nat_add)
  then show ?thesis
    using assms(1) unfolding stable_rank_def by (simp add: tk filter_map comp_def less eq)
qed

section \<open>A pass\<close>

text \<open>The block scan of the counts: the exclusive sums alone are those of the scan with aggregate.\<close>

locale rank_scan = add_scan +
  fixes exclusive :: "int lanes tile \<Rightarrow> int lanes tile res"
  assumes exclusive_sums: "scan tile = Inr (out, aggregate) \<Longrightarrow> exclusive tile = Inr out"

text \<open>Where the digit \<open>v\<close> starts among the ranks, for any arrangement \<open>f\<close> of \<open>N\<close> digits.\<close>

definition digit_start :: "bool \<Rightarrow> (nat \<Rightarrow> nat) \<Rightarrow> nat \<Rightarrow> nat \<Rightarrow> int" where
  "digit_start descending f N v = int (length (filter (\<lambda>p. if descending then v < f p else f p < v) [0..<N]))"

lemma digit_start_eq:
  "digit_start descending f N v =
    (if descending then int N - int (length (filter (\<lambda>q. f q < v) [0..<N])) - int (cnt f v 0 N)
     else int (length (filter (\<lambda>q. f q < v) [0..<N])))"
proof -
  have "length (filter (\<lambda>q. f q < v) xs) + length (filter (\<lambda>q. f q = v) xs) + length (filter (\<lambda>q. v < f q) xs) = length xs" for xs :: "nat list"
    by (induction xs) auto
  from this [of "[0..<N]"] show ?thesis by (simp add: digit_start_def cnt_def)
qed

context rank_scan
begin

lemma scanned_counts:
  assumes legal and tracked: "0 < tracked" and small: "N < 2 ^ 31"
    and counts: "length counts = tracked"
      "\<And>t i. i < tracked \<Longrightarrow> (counts ! i) t = (if t * tracked + i < bins then int (cnt f (t * tracked + i) 0 N) else 0)"
  obtains prefix where "rbind (exclusive (Items counts)) tile_list = Inr prefix" "length prefix = tracked"
    "\<And>t i. t < threads \<Longrightarrow> i < tracked \<Longrightarrow>
      (prefix ! i) t = int (length (filter (\<lambda>p. f p < min (t * tracked + i) bins) [0..<N]))"
proof -
  have at: "blocked counts p = (if p < bins then int (cnt f p 0 N) else 0)" for p
    using counts(2) [of "p mod tracked" "p div tracked"] tracked counts(1) by (simp add: blocked_def)
  have sums: "(\<Sum>p < m. blocked counts p) = int (length (filter (\<lambda>p. f p < min m bins) [0..<N]))" for m
    unfolding at by (rule sum_tracked_counts)
  have le: "length (filter P [0..<N]) \<le> N" for P by (metis length_filter_le length_upt diff_zero)
  have ne: "counts \<noteq> []" using counts(1) tracked by auto
  have tl: "tile_list (Items counts) = Inr counts" using ne by (simp add: tile_list_def)
  have range: "\<forall>i \<in> set counts. \<forall>l. 0 \<le> i l \<and> i l < 2 ^ 31"
  proof (intro ballI allI)
    fix c l assume "c \<in> set counts"
    then obtain i where i: "i < tracked" "c = counts ! i" by (metis in_set_conv_nth counts(1))
    have "cnt f (l * tracked + i) 0 N < 2 ^ 31" using cnt_le [of f _ 0 N] small by (metis diff_zero le_less_trans)
    then show "0 \<le> c l \<and> c l < 2 ^ 31" using counts(2) [OF i(1)] i(2) int_small(2) by auto
  qed
  have "(\<Sum>p < threads * length counts. blocked counts p) < 2 ^ 31"
    unfolding sums using le small by (intro int_small(2)) (rule le_less_trans)
  then obtain out aggregate where o: "scan (Items counts) = Inr (pack_tile (Items counts) out, aggregate)" "sums_ok threads counts out aggregate"
    using scan_sums [OF \<open>legal\<close> tl range] by blast
  have ol: "length out = tracked" using o(2) counts(1) by (simp add: sums_ok_def)
  then have on: "out \<noteq> []" using tracked by auto
  have "rbind (exclusive (Items counts)) tile_list = Inr out"
    using exclusive_sums [OF o(1)] on by (simp add: pack_tile_def tile_list_def)
  moreover have "(out ! i) t = int (length (filter (\<lambda>p. f p < min (t * tracked + i) bins) [0..<N]))" if "t < threads" "i < tracked" for t i
    using o(2) that counts(1) unfolding sums_ok_def sums by simp
  ultimately show ?thesis using that ol by blast
qed

lemma match_pass_correct:
  assumes legal and law: "shuffle_law (lane_src tg)" "fair threads sched"
    and w: "0 < w" "w \<le> 64" "threads = warps * w"
    and n: "digits \<noteq> []" and small: "threads * length digits < 2 ^ 31"
    and d: "\<And>i t. i < length digits \<Longrightarrow> t < threads \<Longrightarrow> (digits ! i) t < bins"
  defines "f \<equiv> match_item w digits" and "N \<equiv> threads * length digits" and "tracked \<equiv> (bins + threads - 1) div threads"
  shows "\<exists>ranks counts st'. match_pass tg exclusive sched pass early use_or threads w descending bins digits st
      = Inr (ranks, output_prefix bins tracked (st_prefix st'), counts, st')
    \<and> length ranks = length digits
    \<and> (\<forall>t < threads. \<forall>i < length digits. (ranks ! i) t = int (stable_rank (digit_key descending bins) (map f [0..<N])
        (t div w * (w * length digits) + i * w + t mod w)))
    \<and> (\<forall>v < bins. st_prefix st' v = digit_start descending f N v)
    \<and> length counts = tracked
    \<and> (\<forall>t i. i < tracked \<longrightarrow> (counts ! i) t = (if t * tracked + i < bins then int (cnt f (t * tracked + i) 0 N) else 0))"
proof -
  let ?n = "length digits"
  define m where "m = w * ?n"
  have threads: "0 < threads" using threads_pos \<open>legal\<close> .
  then have wd: "threads div w = warps" "0 < warps" using w(1,3) by auto
  have N: "N = warps * m" by (simp add: N_def w(3) m_def)
  have m31: "w * ?n < 2 ^ 31"
  proof -
    have "m \<le> warps * m" using wd(2) by simp
    then show ?thesis using small unfolding N_def [symmetric] N m_def by (rule le_less_trans)
  qed
  have d': "(digits ! i) t < bins" if "i < ?n" "t < warps * w" for i t using d that w(3) by simp
  have "0 < bins" using d [of 0 0] n threads by fastforce
  then have tr: "0 < tracked" "bins \<le> threads * tracked"
  proof -
    have e: "bins + threads - 1 = (bins - 1) + threads" using \<open>0 < bins\<close> by simp
    have t: "tracked = Suc ((bins - 1) div threads)"
      unfolding tracked_def e Suc_eq_plus1 by (rule div_add_self2) (use threads in simp)
    show "0 < tracked" by (simp add: t)
    have "(bins - 1) mod threads < threads" using threads by simp
    moreover have "threads * ((bins - 1) div threads) + (bins - 1) mod threads = bins - 1" by (rule mult_div_mod_eq)
    ultimately show "bins \<le> threads * tracked" unfolding t mult_Suc_right using \<open>0 < bins\<close> by linarith
  qed
  have f_lt: "f p < bins" if p: "p < N" for p
  proof -
    have pm: "p < warps * m" using p N by simp
    have q: "p div m < warps" "p mod m < m" using position_cases(1,2) [OF pm] by auto
    have "p mod m < ?n * w" using q(2) unfolding m_def by (simp add: mult.commute)
    then have "p mod m div w < ?n" using position_cases(1) by blast
    moreover have "p div m * w + p mod w < warps * w" by (rule position_bound [OF q(1)]) (use w(1) in simp)
    ultimately show ?thesis unfolding f_def match_item_def m_def [symmetric] using d' by blast
  qed
  define st0 where "st0 = initialize_ranks threads warps bins st"
  have zero: "st_offsets st0 (q * bins + v) = 0" "st_histogram st0 (q * bins + v) = 0" if "q < warps" "v < bins" for q v
    using clear_slots_at [OF threads position_bound [OF that]] by (simp_all add: st0_def initialize_ranks_def)
  define st1 where "st1 = (if early then snd (read_counts threads warps bins tracked (early_histogram sched pass threads w bins digits st0)) else st0)"
  obtain ranks st2 where r: "match_rounds tg sched pass early use_or threads w bins digits st1 = (ranks, st2)" by fastforce
  have inv: "rounds_inv w warps bins digits early st1 ?n (ranks, st2)"
    unfolding r [symmetric] w(3)
  proof (rule match_rounds_correct [OF law(1) law(2) [unfolded w(3)] w(1,2) m31 d'])
    show "st_offsets st1 (q * bins + v) = 0" if "q < warps" "v < bins" for q v
      using zero [OF that] by (simp add: st1_def read_counts_def early_histogram_def)
    show "st_histogram st1 (q * bins + v) = 0" if "\<not> early" "q < warps" "v < bins" for q v
      using zero [OF that(2,3)] that(1) by (simp add: st1_def)
  qed
  have hist: "st_histogram st2 (q * bins + v) = int (cnt f v (q * m) (q * m + m))" if q: "q < warps" "v < bins" for q v
  proof (cases early)
    case True
    have "st_histogram st1 (q * bins + v) = int (cnt f v (q * m) (q * m + m))"
      using early_histogram_correct [OF law(2) [unfolded w(3)] w(1) m31 d' zero(2) [OF q] q, of pass] True
      unfolding f_def m_def by (simp add: st1_def read_counts_def w(3))
    then show ?thesis using inv True by (simp add: rounds_inv_def Let_def)
  next
    case False
    then show ?thesis using inv q unfolding f_def m_def by (simp add: rounds_inv_def Let_def mult.commute [of ?n])
  qed
  have total: "tracked_total warps bins (st_histogram st2) v = (if v < bins then int (cnt f v 0 N) else 0)" for v
    using tracked_total_correct [where f = f and m = m, OF hist] small unfolding N_def [symmetric] N
    by (cases "v < bins") (simp_all add: tracked_total_def)
  define counts where "counts = map (\<lambda>i t. tracked_total warps bins (st_histogram st2) (t * tracked + i)) [0..<tracked]"
  define st3 where "st3 = (if early then st2 else snd (read_counts threads warps bins tracked st2))"
  have same: "st_histogram (early_histogram sched pass threads w bins digits st0) = st_histogram st2" if early
    using inv that by (simp add: rounds_inv_def Let_def st1_def read_counts_def)
  have h3: "st_histogram st3 = st_histogram st2" by (simp add: st3_def read_counts_def)
  have c3: "st_counts st3 v = int (cnt f v 0 N)" if v: "v < bins" for v
  proof -
    have "v div tracked * tracked + v mod tracked = v" by simp
    then have "st_counts (snd (read_counts threads warps bins tracked s)) v = int (cnt f v 0 N)" if "st_histogram s = st_histogram st2" for s
      unfolding read_counts_def using total [of v] v that
      by (simp add: scatter_tracked [OF v tr(2), where val = "\<lambda>t i. tracked_total warps bins (st_histogram st2) (t * tracked + i)"])
    then show ?thesis using same inv by (cases early) (simp_all add: st3_def rounds_inv_def Let_def st1_def)
  qed
  have countsE: "(let st' = initialize_ranks threads warps bins st;
      (c1, st') = (if early then read_counts threads warps bins tracked (early_histogram sched pass threads w bins digits st') else ([], st'));
      (rs, st') = match_rounds tg sched pass early use_or threads w bins digits st';
      (c2, st') = (if early then (c1, st') else read_counts threads warps bins tracked st') in (c2, rs, st')) = (counts, ranks, st3)"
    using r same unfolding st0_def [symmetric]
    by (cases early) (simp_all add: st1_def st3_def counts_def read_counts_def Let_def)
  have cat: "length counts = tracked" "(counts ! i) t = (if t * tracked + i < bins then int (cnt f (t * tracked + i) 0 N) else 0)"
    if "i < tracked" for t i using that total by (simp_all add: counts_def)
  have N31: "N < 2 ^ 31" using small by (simp add: N_def)
  obtain prefix where p: "rbind (exclusive (Items counts)) tile_list = Inr prefix" "length prefix = tracked"
    "\<And>t i. t < threads \<Longrightarrow> i < tracked \<Longrightarrow>
      (prefix ! i) t = int (length (filter (\<lambda>p. f p < min (t * tracked + i) bins) [0..<N]))"
    using scanned_counts [OF \<open>legal\<close> tr(1) N31 cat(1) [OF tr(1)] cat(2)] by blast
  define st' where "st' = write_prefix threads bins tracked descending N prefix st3"
  define out where "out = add_offsets w bins warps digits ranks st'"
  have run: "match_pass tg exclusive sched pass early use_or threads w descending bins digits st
      = Inr (out, output_prefix bins tracked (st_prefix st'), counts, st')"
  proof -
    obtain ex where "exclusive (Items counts) = Inr ex" "tile_list ex = Inr prefix" using p(1) by (auto simp: rbind_Inr_iff)
    then show ?thesis
      using countsE unfolding match_pass_def tracked_def [symmetric] wd(1) N_def [symmetric] out_def st'_def Let_def
      by (auto simp: split_beta)
  qed
  have starts: "st_prefix st' v = digit_start descending f N v" if v: "v < bins" for v
  proof -
    have vt: "v < threads * tracked" using v tr(2) by simp
    have "(prefix ! (v mod tracked)) (v div tracked) = int (length (filter (\<lambda>p. f p < v) [0..<N]))"
      using p(3) [OF position_cases(1,2) [OF vt]] position_cases(4) [OF vt] v by simp
    moreover have "i32 (digit_start True f N v) = digit_start True f N v"
    proof -
      have "length (filter P [0..<N]) < 2 ^ 31" for P
        using N31 by (metis length_filter_le length_upt diff_zero le_less_trans)
      then show ?thesis unfolding digit_start_def by (intro signed_small int_small)
    qed
    moreover have "st_prefix st' v = (if descending
        then i32 (int N - (prefix ! (v mod tracked)) (v div tracked) - shared_load (st_counts st3) (v div tracked * tracked + v mod tracked))
        else (prefix ! (v mod tracked)) (v div tracked))"
    proof -
      have "st_prefix st' = barrier_phase threads
       (scatter_writes tracked (\<lambda>t i. t * tracked + i < bins) (\<lambda>t i. t * tracked + i)
         (\<lambda>t i. if descending
            then i32 (int N - (prefix ! i) t - shared_load (st_counts st3) (t * tracked + i))
            else (prefix ! i) t)) (st_prefix st3)"
        by (simp add: st'_def write_prefix_def)
      then show ?thesis by (simp only: scatter_tracked [OF v tr(2)])
    qed
    ultimately show ?thesis using c3 [OF v] by (simp add: shared_load_def digit_start_eq)
  qed
  have place: "(out ! i) t = int (stable_rank (digit_key descending bins) (map f [0..<N]) (t div w * m + i * w + t mod w))"
    if ti: "t < threads" "i < ?n" for t i
  proof -
    let ?d = "(digits ! i) t" and ?q = "t div w"
    let ?p = "?q * m + i * w + t mod w"
    have q: "?q < warps" using ti(1) w(3) by (simp add: less_mult_imp_div_less)
    have in_m: "i * w + t mod w < m" using position_bound [OF ti(2), of "t mod w" w] w(1) by (simp add: m_def mult.commute)
    have pN: "?p < N" unfolding N using position_bound [OF q in_m] by (simp add: add.assoc)
    have fp: "f ?p = ?d" using match_item_at [OF ti(2), of "t mod w" w ?q] w(1) by (simp add: f_def m_def)
    have rank: "(ranks ! i) t = int (cnt f ?d (?q * m) ?p)"
      using inv ti w(3) by (simp add: rounds_inv_def Let_def f_def m_def)
    have before: "(\<Sum>k < ?q. cnt f ?d (k * m) (k * m + m)) = cnt f ?d 0 (?q * m)"
      using cnt_blocks [of f ?d m ?q] by (simp add: sum_list_sum_nth atLeast0LessThan add.commute)
    obtain a where a: "digit_start descending f N ?d = int a" by (auto simp: digit_start_def)
    have st: "int (stable_rank (digit_key descending bins) (map f [0..<N]) ?p) = int a + int (cnt f ?d 0 ?p)"
      using rank_of_counts [where f = f and bins = bins and descending = descending, OF pN f_lt]
      unfolding fp a [symmetric] digit_start_eq by simp
    have split: "cnt f ?d 0 ?p = cnt f ?d 0 (?q * m) + cnt f ?d (?q * m) ?p" by (rule cnt_split) simp_all
    have bound: "a + cnt f ?d 0 ?p < 2 ^ 31"
    proof -
      have "stable_rank (digit_key descending bins) (map f [0..<N]) ?p < N"
        using sort_key_nth_rank(2) [of ?p "map f [0..<N]"] pN by simp
      then show ?thesis using st N31 by (simp only: of_nat_add [symmetric] of_nat_eq_iff) 
    qed
    have "foldl (\<lambda>offset wp. if wp < ?q then i32 (offset + shared_load (st_histogram st') (wp * bins + ?d)) else offset)
         (shared_load (st_prefix st') ?d) [0..<warps]
        = foldl (\<lambda>offset wp. if wp < ?q then i32 (offset + int (cnt f ?d (wp * m) (wp * m + m))) else offset) (int a) [0..<warps]"
      using starts [OF d [OF ti(2,1)]] hist [OF _ d [OF ti(2,1)]] h3 a q
      by (intro foldl_cong) (auto simp: shared_load_def st'_def write_prefix_def)
    also have "\<dots> = int (a + cnt f ?d 0 (?q * m))"
      using foldl_counts [where a = a and n = warps and m = ?q and g = "\<lambda>k. cnt f ?d (k * m) (k * m + m)"] bound split q
      unfolding min_absorb2 [OF less_imp_le [OF q]] before by simp
    finally have offset: "foldl (\<lambda>offset wp. if wp < ?q then i32 (offset + shared_load (st_histogram st') (wp * bins + ?d)) else offset)
         (shared_load (st_prefix st') ?d) [0..<warps] = int (a + cnt f ?d 0 (?q * m))" .
    have "length ranks = ?n" using inv by (simp add: rounds_inv_def Let_def)
    then have "(out ! i) t = i32 ((ranks ! i) t + foldl (\<lambda>offset wp. if wp < ?q then i32 (offset + shared_load (st_histogram st') (wp * bins + ?d)) else offset)
         (shared_load (st_prefix st') ?d) [0..<warps])"
      using ti(2) unfolding out_def add_offsets_def by simp
    also have "\<dots> = i32 (int (a + cnt f ?d 0 ?p))" 
    proof -
      have "int (cnt f ?d (?q * m) ?p) + int (a + cnt f ?d 0 (?q * m)) = int (a + cnt f ?d 0 ?p)" unfolding split by simp
      then show ?thesis unfolding offset rank by (rule arg_cong)
    qed
    also have "\<dots> = int (a + cnt f ?d 0 ?p)" using bound by (intro signed_small int_small)
    finally show ?thesis using st by simp
  qed
  have "length out = ?n" using inv by (simp add: out_def add_offsets_def rounds_inv_def Let_def)
  then show ?thesis
    by (intro exI conjI allI impI) (assumption | rule run place [unfolded m_def] starts cat tr(1))+
qed

end

end
