(* ===== verification/Block_Radix_Rank.thy ===== *)
theory Block_Radix_Rank
  imports Radix_Match Radix_Providers
begin

text \<open>
  Stand-alone ranking (\<open>coop/block/radix_rank.py\<close>): the rank of every item in a stable sort of the
  block by some of the bits of its key, or by a digit the caller extracts. \<open>BASIC\<close> and \<open>MEMOIZE\<close> rank
  in blocked order with one scan per digit, the \<open>MATCH\<close> algorithms in warp-striped order
  (\<open>Radix_Match\<close>). Wide keys take several passes: the digits travel to the ranks of the passes
  before, and at the end the ranks travel back.
\<close>

section \<open>Definitions\<close>

datatype rank_algorithm = BASIC | MEMOIZE | MATCH | MATCH_EARLY_COUNTS_ANY | MATCH_EARLY_COUNTS_ATOMIC_OR

text \<open>What a digit extractor makes of a key: a Python integer, a traced integer, or something else.\<close>

datatype digit_extractor = Static_Digit int | Traced_Digit "nat \<Rightarrow> int" | Other_Digit

text \<open>A specialized class; \<open>rk_field\<close> is the key type when it is numeric.\<close>

record rank_class =
  rk_target :: target
  rk_threads :: nat
  rk_warp :: nat
  rk_items :: nat
  rk_field :: "field_type option"
  rk_radix_bits :: nat
  rk_algorithm :: rank_algorithm
  rk_scan :: sum_scan
  rk_exclusive :: "int lanes tile \<Rightarrow> int lanes tile res"

record rank_args =
  ra_descending :: bool
  ra_begin_bit :: int
  ra_end_bit :: "int option"
  ra_extractor :: "digit_extractor option"
  ra_radix_bits :: "int option"
  ra_callback :: bool
  ra_with_prefix :: bool

definition matching :: "rank_class \<Rightarrow> bool" where
  "matching c \<longleftrightarrow> rk_algorithm c \<noteq> BASIC \<and> rk_algorithm c \<noteq> MEMOIZE"

definition with_radix_bits :: "rank_class option \<Rightarrow> int \<Rightarrow> nat res" where
  "with_radix_bits cls radix_bits =
     (if cls \<noteq> None then Inl TypeError else if radix_bits < 1 then Inl ValueError
      else if radix_bits \<ge> 31 then Inl ValueError else Inr (nat radix_bits))"

text \<open>The argument checks of \<open>rank\<close>: the end of the ranked bits.\<close>

definition rank_end_bit :: "rank_class \<Rightarrow> rank_args \<Rightarrow> nat res" where
  "rank_end_bit c a =
     rbind (case ra_radix_bits a of
         Some r \<Rightarrow> (if \<not> (1 \<le> r \<and> r \<le> int (rk_radix_bits c)) then Inl ValueError
           else Inr (case ra_end_bit a of None \<Rightarrow> Some (ra_begin_bit a + r) | Some e \<Rightarrow> Some e))
       | None \<Rightarrow> (if ra_extractor a \<noteq> None then Inl ValueError else Inr (ra_end_bit a))) (\<lambda>end_bit.
     rbind (case ra_extractor a of
         None \<Rightarrow> (case rk_field c of
             Some f \<Rightarrow> (if ft_float f then Inl TypeError else bit_range (ft_width f) (ra_begin_bit a) end_bit)
           | None \<Rightarrow> Inl TypeError)
       | Some _ \<Rightarrow> (if ra_begin_bit a < 0 \<or> end_bit \<noteq> Some (ra_begin_bit a + the (ra_radix_bits a)) then Inl ValueError
           else Inr (nat (the end_bit)))) (\<lambda>end_bit.
     rbind (guard ValueError (\<not> (ra_callback a \<and> \<not> matching c))) (\<lambda>_.
     rbind (guard ValueError (\<not> ((ra_callback a \<or> ra_with_prefix a)
         \<and> int end_bit - ra_begin_bit a > int (rk_radix_bits c)))) (\<lambda>_.
       Inr end_bit))))"

definition rank_width :: "rank_class \<Rightarrow> rank_args \<Rightarrow> nat \<Rightarrow> nat" where
  "rank_width c a end_bit =
     (case ra_radix_bits a of
        Some r \<Rightarrow> nat r
      | None \<Rightarrow> (if ra_callback a \<or> ra_with_prefix a then max 1 (end_bit - nat (ra_begin_bit a))
          else min (rk_radix_bits c) (if matching c then 8 else 4)))"

definition rank_passes :: "rank_class \<Rightarrow> rank_args \<Rightarrow> nat \<Rightarrow> nat list" where
  "rank_passes c a end_bit =
     (let bits = sort_bits (nat (ra_begin_bit a)) end_bit (rank_width c a end_bit)
      in if bits = [] then [nat (ra_begin_bit a)] else bits)"

text \<open>The place of item \<open>i\<close> of thread \<open>t\<close> in the ranked order.\<close>

definition rank_position :: "rank_class \<Rightarrow> nat \<Rightarrow> nat \<Rightarrow> nat" where
  "rank_position c t i =
     (if matching c then t div rk_warp c * rk_warp c * rk_items c + i * match_active (rk_threads c) (rk_warp c) t + t mod rk_warp c
      else t * rk_items c + i)"

subsection \<open>Digits\<close>

definition extract_digits :: "digit_extractor \<Rightarrow> nat \<Rightarrow> nat lanes list \<Rightarrow> nat lanes list res" where
  "extract_digits ex bits items = (case ex of
       Static_Digit d \<Rightarrow> (if 0 \<le> d \<and> d < 2 ^ bits then Inr (map (\<lambda>_ _. nat (i32 d)) items) else Inl ValueError)
     | Traced_Digit g \<Rightarrow> Inr (map (\<lambda>item t. nat (i32 (g (item t)))) items)
     | Other_Digit \<Rightarrow> Inl TypeError)"

definition rank_digits :: "rank_class \<Rightarrow> rank_args \<Rightarrow> nat \<Rightarrow> nat \<Rightarrow> nat lanes list \<Rightarrow> nat lanes list res" where
  "rank_digits c a low bits items = (case ra_extractor a of
       Some ex \<Rightarrow> extract_digits ex bits items
     | None \<Rightarrow> Inr (map (\<lambda>item t. digit (case rk_field c of Some f \<Rightarrow> [(f, item t)] | None \<Rightarrow> []) low bits False) items))"

subsection \<open>One scan per digit\<close>

definition rank_flags :: "bool \<Rightarrow> nat \<Rightarrow> nat lanes list \<Rightarrow> nat \<Rightarrow> int lanes list" where
  "rank_flags memoize bins digits v =
     (if memoize then map (\<lambda>b. map (\<lambda>d t. if d t = b then 1 else (0 :: int)) digits) [0..<bins] ! v
      else map (\<lambda>key t. if key t = v then 1 else (0 :: int)) digits)"

definition basic_bin ::
  "sum_scan \<Rightarrow> bool \<Rightarrow> nat \<Rightarrow> bool \<Rightarrow> nat \<Rightarrow> nat lanes list \<Rightarrow> nat \<Rightarrow> int lanes list \<times> int lanes \<times> int shared
     \<Rightarrow> (int lanes list \<times> int lanes \<times> int shared) res" where
  "basic_bin scan memoize threads descending bins digits b state =
     (case state of (result, offset, starts) \<Rightarrow>
       let n = length digits; v = (if descending then bins - 1 - b else b);
           flags = rank_flags memoize bins digits v in
       rbind (scan (Item (\<lambda>t. sum_list (map (\<lambda>flag. flag t) flags)))) (\<lambda>(prefix, bin_total).
       rbind (tile_list prefix) (\<lambda>prefix.
         Inr (map (\<lambda>i t. if (flags ! i) t \<noteq> 0
                then i32 (offset t + (hd prefix) t + sum_list (map (\<lambda>flag. flag t) (take i flags)))
                else (result ! i) t) [0..<n],
              \<lambda>t. i32 (offset t + bin_total t),
              barrier_phase threads (store_if (\<lambda>_. True) (\<lambda>_. v) offset) starts))))"

definition basic_pass ::
  "sum_scan \<Rightarrow> bool \<Rightarrow> nat \<Rightarrow> bool \<Rightarrow> nat \<Rightarrow> nat lanes list \<Rightarrow> rank_storage
     \<Rightarrow> (int lanes list \<times> int lanes list \<times> int lanes list \<times> rank_storage) res" where
  "basic_pass scan memoize threads descending bins digits st =
     rbind (fold_res (basic_bin scan memoize threads descending bins digits) [0..<bins]
         (replicate (length digits) (\<lambda>_. 0), \<lambda>_. 0, st_prefix st)) (\<lambda>(ranks, _, starts).
       Inr (ranks, output_prefix bins ((bins + threads - 1) div threads) starts, [], st\<lparr>st_prefix := starts\<rparr>))"

definition rank_once ::
  "rank_class \<Rightarrow> bool \<Rightarrow> atomic_schedule \<Rightarrow> nat \<Rightarrow> nat \<Rightarrow> nat lanes list \<Rightarrow> rank_storage
     \<Rightarrow> (int lanes list \<times> int lanes list \<times> int lanes list \<times> rank_storage) res" where
  "rank_once c descending sched pass bins digits st =
     (if matching c
      then match_pass (rk_target c) (rk_exclusive c) sched pass (rk_algorithm c \<noteq> MATCH)
        (rk_algorithm c = MATCH_EARLY_COUNTS_ATOMIC_OR) (rk_threads c) (rk_warp c) descending bins digits st
      else basic_pass (rk_scan c) (rk_algorithm c = MEMOIZE) (rk_threads c) descending bins digits st)"

subsection \<open>Passes\<close>

text \<open>Digits and positions at the ranks of the passes before; what the threads read back in order.\<close>

definition publish_digits ::
  "rank_class \<Rightarrow> nat lanes list \<Rightarrow> int lanes list \<Rightarrow> int lanes list \<Rightarrow> rank_storage \<Rightarrow> rank_storage" where
  "publish_digits c digits indices ranks st =
     st\<lparr>st_digits := barrier_phase (rk_threads c) (scatter_writes (rk_items c) (\<lambda>_ _. True) (\<lambda>t i. nat ((ranks ! i) t))
          (\<lambda>t i. digit_wrap (rk_radix_bits c) (int ((digits ! i) t)))) (st_digits st),
        st_indices := barrier_phase (rk_threads c) (scatter_writes (rk_items c) (\<lambda>_ _. True) (\<lambda>t i. nat ((ranks ! i) t))
          (\<lambda>t i. index_wrap (rk_threads c) (rk_items c) ((indices ! i) t))) (st_indices st)\<rparr>"

definition load_ordered :: "rank_class \<Rightarrow> int shared \<Rightarrow> int lanes list" where
  "load_ordered c slots = map (\<lambda>i t. shared_load slots (rank_position c t i)) [0..<rk_items c]"

definition inverse_ranks :: "rank_class \<Rightarrow> int lanes list \<Rightarrow> int lanes list \<Rightarrow> rank_storage \<Rightarrow> rank_storage" where
  "inverse_ranks c indices ranks st =
     st\<lparr>st_indices := barrier_phase (rk_threads c) (scatter_writes (rk_items c) (\<lambda>_ _. True) (\<lambda>t i. nat ((indices ! i) t))
          (\<lambda>t i. index_wrap (rk_threads c) (rk_items c) ((ranks ! i) t))) (st_indices st)\<rparr>"

text \<open>The digits a pass ranks, the original positions of their items, and the storage.\<close>

definition arrange_digits ::
  "rank_class \<Rightarrow> nat \<Rightarrow> nat lanes list \<Rightarrow> int lanes list \<Rightarrow> rank_storage \<Rightarrow> nat lanes list \<times> int lanes list \<times> rank_storage" where
  "arrange_digits c pass digits original st =
     (let positions = map (\<lambda>i t. int (rank_position c t i)) [0..<rk_items c] in
      if pass > 0
      then let st = publish_digits c digits positions original st
           in (map (\<lambda>d t. nat (d t)) (load_ordered c (st_digits st)), load_ordered c (st_indices st), st)
      else (digits, positions, st))"

type_synonym rank_state = "int lanes list \<times> int lanes list list \<times> rank_storage"

definition rank_pass ::
  "rank_class \<Rightarrow> rank_args \<Rightarrow> atomic_schedule \<Rightarrow> nat \<Rightarrow> nat lanes list \<Rightarrow> nat \<Rightarrow> nat \<Rightarrow> rank_state
     \<Rightarrow> (int lanes list \<times> int lanes list \<times> int lanes list \<times> int lanes list list \<times> rank_storage) res" where
  "rank_pass c a sched end_bit items pass low state =
     (case state of (original, calls, st) \<Rightarrow>
       let bits = min (rank_width c a end_bit) (end_bit - low) in
       rbind (rank_digits c a low bits items) (\<lambda>digits.
       let (digits, indices, st) = arrange_digits c pass digits original st in
       rbind (rank_once c (ra_descending a) sched pass (2 ^ bits) digits st) (\<lambda>(ranks, prefix, counts, st).
         Inr (ranks, prefix, indices, if ra_callback a then calls @ [counts] else calls, st))))"

definition rank_step ::
  "rank_class \<Rightarrow> rank_args \<Rightarrow> atomic_schedule \<Rightarrow> nat \<Rightarrow> nat lanes list \<Rightarrow> nat \<times> nat \<Rightarrow> rank_state \<Rightarrow> rank_state res" where
  "rank_step c a sched end_bit items = (\<lambda>(pass, low) state.
     rbind (rank_pass c a sched end_bit items pass low state) (\<lambda>(ranks, _, indices, calls, st).
       let st = inverse_ranks c indices ranks st
       in Inr (load_ordered c (st_indices st), calls, st)))"

text \<open>
  The result: the ranks, the prefixes when they are asked for, and the counts the callback was given.
\<close>

definition radix_rank ::
  "rank_class option \<Rightarrow> rank_args \<Rightarrow> atomic_schedule \<Rightarrow> nat lanes tile \<Rightarrow> rank_storage
     \<Rightarrow> (int lanes tile \<times> int lanes list option \<times> int lanes list list) res" where
  "radix_rank cls a sched keys st =
     (case cls of None \<Rightarrow> Inl TypeError
      | Some c \<Rightarrow>
        rbind (guard ValueError (length (as_items keys) = rk_items c)) (\<lambda>_.
        rbind (rank_end_bit c a) (\<lambda>end_bit.
        let items = as_items keys;
            positions = map (\<lambda>i t. int (rank_position c t i)) [0..<rk_items c];
            passes = rank_passes c a end_bit in
        rbind (guard ValueError (\<not> (ra_with_prefix a \<and> length passes > 1))) (\<lambda>_.
        if length passes = 1
        then rbind (rank_pass c a sched end_bit items 0 (hd passes) (positions, [], st)) (\<lambda>(ranks, prefix, _, calls, _).
          Inr (pack_tile keys ranks, if ra_with_prefix a then Some prefix else None, calls))
        else rbind (fold_res (rank_step c a sched end_bit items) (enumerate 0 passes) (positions, [], st)) (\<lambda>(original, calls, _).
          Inr (pack_tile keys original, None, calls))))))"


section \<open>The ranked order\<close>

definition rank_order :: "rank_class \<Rightarrow> 'a lanes list \<Rightarrow> nat \<Rightarrow> 'a" where
  "rank_order c items p = (if matching c then match_item (rk_warp c) items p else blocked items p)"

definition rank_ok :: "rank_class \<Rightarrow> nat \<Rightarrow> bool" where
  "rank_ok c warps \<longleftrightarrow> rk_threads c = warps * rk_warp c \<and> 0 < rk_warp c \<and> rk_warp c \<le> 64 \<and> 0 < warps
     \<and> 0 < rk_items c \<and> rk_threads c * rk_items c < 2 ^ 31 \<and> 1 \<le> rk_radix_bits c \<and> rk_radix_bits c < 31"

abbreviation rank_size :: "rank_class \<Rightarrow> nat" where
  "rank_size c \<equiv> rk_threads c * rk_items c"

lemma match_active_full: "t < warps * w \<Longrightarrow> match_active (warps * w) w t = w"
proof -
  assume t: "t < warps * w"
  then have "Suc (t div w) \<le> warps" by (simp add: less_mult_imp_div_less Suc_le_eq)
  then have "Suc (t div w) * w \<le> warps * w" by (rule mult_right_mono) simp
  then have "w \<le> warps * w - t div w * w" by (simp only: mult_Suc le_diff_conv2 add.commute)
  then show ?thesis unfolding match_active_def by (simp only: not_less [symmetric] if_False)
qed

lemma rank_position_eq:
  assumes "rank_ok c warps" "t < rk_threads c"
  shows "rank_position c t i = (if matching c
    then t div rk_warp c * (rk_warp c * rk_items c) + i * rk_warp c + t mod rk_warp c else t * rk_items c + i)"
  using assms match_active_full [of t warps "rk_warp c"] by (simp add: rank_position_def rank_ok_def mult.assoc)

lemma rank_position_bound:
  assumes ok: "rank_ok c warps" and ti: "t < rk_threads c" "i < rk_items c"
  shows "rank_position c t i < rank_size c"
proof (cases "matching c")
  case True
  let ?w = "rk_warp c" and ?n = "rk_items c"
  have w: "0 < ?w" "rk_threads c = warps * ?w" using ok by (simp_all add: rank_ok_def)
  have q: "t div ?w < warps" using ti(1) w(2) by (simp add: less_mult_imp_div_less)
  have "i * ?w + t mod ?w < ?n * ?w" by (rule position_bound [OF ti(2)]) (use w(1) in simp)
  then have "t div ?w * (?w * ?n) + (i * ?w + t mod ?w) < warps * (?w * ?n)"
    using q by (intro position_bound) (simp_all add: mult.commute)
  then show ?thesis using True w(2) by (simp add: rank_position_eq [OF ok ti(1)] add.assoc mult.assoc)
next
  case False
  then show ?thesis using position_bound [OF ti] by (simp add: rank_position_eq [OF ok ti(1)])
qed

lemma rank_order_at:
  assumes ok: "rank_ok c warps" and ti: "t < rk_threads c" "i < rk_items c" and n: "length items = rk_items c"
  shows "rank_order c items (rank_position c t i) = (items ! i) t"
proof (cases "matching c")
  case True
  have w: "0 < rk_warp c" using ok by (simp add: rank_ok_def)
  show ?thesis
    using match_item_at [of i items "t mod rk_warp c" "rk_warp c" "t div rk_warp c"] True ti(2) n w
    by (simp add: rank_order_def rank_position_eq [OF ok ti(1)] mod_less_divisor)
next
  case False
  then show ?thesis using blocked_nth [of i items t] ti(2) n by (simp add: rank_order_def rank_position_eq [OF ok ti(1)])
qed

lemma rank_position_onto:
  assumes ok: "rank_ok c warps" and p: "p < rank_size c"
  obtains t i where "t < rk_threads c" "i < rk_items c" "rank_position c t i = p"
proof (cases "matching c")
  case True
  let ?w = "rk_warp c" and ?n = "rk_items c"
  let ?t = "p div (?w * ?n) * ?w + p mod (?w * ?n) mod ?w" and ?i = "p mod (?w * ?n) div ?w"
  have w: "0 < ?w" "rk_threads c = warps * ?w" using ok by (simp_all add: rank_ok_def)
  have pw: "p < warps * (?w * ?n)" using p w(2) by (simp add: mult.assoc)
  note q = position_cases [OF pw]
  have "p mod (?w * ?n) < ?n * ?w" using q(2) by (simp add: mult.commute)
  note r = position_cases [OF this]
  have t: "?t < rk_threads c" unfolding w(2) by (rule position_bound [OF q(1) r(2)])
  have "?t div ?w = p div (?w * ?n)" "?t mod ?w = p mod (?w * ?n) mod ?w" by (rule group_split [OF r(2)])+
  then have "rank_position c ?t ?i = p div (?w * ?n) * (?w * ?n) + (?i * ?w + p mod (?w * ?n) mod ?w)"
    using True by (simp add: rank_position_eq [OF ok t])
  then have "rank_position c ?t ?i = p" unfolding r(4) q(4) .
  with t r(1) show ?thesis by (rule that)
next
  case False
  note q = position_cases [OF p]
  show ?thesis by (rule that [OF q(1,2)]) (use False q in \<open>simp add: rank_position_eq [OF ok q(1)]\<close>)
qed

lemma rank_position_inj:
  assumes ok: "rank_ok c warps" and ti: "t < rk_threads c" "i < rk_items c" "s < rk_threads c" "j < rk_items c"
    and e: "rank_position c t i = rank_position c s j"
  shows "t = s \<and> i = j"
proof -
  let ?items = "map (\<lambda>i t. (t, i)) [0..<rk_items c]"
  have "rank_order c ?items (rank_position c t i) = (t, i)"
    using rank_order_at [OF ok ti(1,2), of ?items] ti(2) by simp
  moreover have "rank_order c ?items (rank_position c t i) = (s, j)"
    unfolding e using rank_order_at [OF ok ti(3,4), of ?items] ti(4) by simp
  ultimately show ?thesis by (metis prod.inject)
qed

text \<open>Values that agree at the items of the threads agree in the order.\<close>

lemma rank_order_eqI:
  assumes ok: "rank_ok c warps" and p: "p < rank_size c" and n: "length items = rk_items c"
    and "\<And>t i. t < rk_threads c \<Longrightarrow> i < rk_items c \<Longrightarrow> (items ! i) t = g (rank_position c t i)"
  shows "rank_order c items p = g p"
proof -
  obtain t i where ti: "t < rk_threads c" "i < rk_items c" "rank_position c t i = p" using rank_position_onto [OF ok p] .
  show ?thesis using rank_order_at [OF ok ti(1,2) n] assms(4) [OF ti(1,2)] ti(3) by simp
qed

text \<open>Every thread stores its items at \<open>\<sigma>\<close> of their positions: address \<open>\<sigma> p\<close> has the item at \<open>p\<close>.\<close>

lemma scatter_positions:
  assumes ok: "rank_ok c warps" and inj: "inj_on \<sigma> {..<rank_size c}" and p: "p < rank_size c"
    and at: "\<And>t i. t < rk_threads c \<Longrightarrow> i < rk_items c \<Longrightarrow> addr t i = \<sigma> (rank_position c t i)"
    and val: "\<And>t i. t < rk_threads c \<Longrightarrow> i < rk_items c \<Longrightarrow> val t i = g (rank_position c t i)"
  shows "barrier_phase (rk_threads c) (scatter_writes (rk_items c) (\<lambda>_ _. True) addr val) slots (\<sigma> p) = g p"
proof -
  have sinj: "scatter_inj (rk_threads c) (rk_items c) (\<lambda>_ _. True) addr"
    unfolding scatter_inj_def
  proof (intro allI impI)
    fix s i t j assume h: "s < rk_threads c" "i < rk_items c" "t < rk_threads c" "j < rk_items c" "True \<and> True \<and> addr s i = addr t j"
    then have "\<sigma> (rank_position c s i) = \<sigma> (rank_position c t j)" using at by simp
    then have "rank_position c s i = rank_position c t j"
      using inj_onD [OF inj] rank_position_bound [OF ok] h by simp
    then show "s = t \<and> i = j" using rank_position_inj [OF ok] h by blast
  qed
  obtain t i where ti: "t < rk_threads c" "i < rk_items c" "rank_position c t i = p" using rank_position_onto [OF ok p] .
  show ?thesis using scatter_hit [OF sinj ti(1,2), of val slots] at [OF ti(1,2)] val [OF ti(1,2)] ti(3) by simp
qed

section \<open>Ranks of ranks\<close>

text \<open>Ranking by a high digit the sequence that ranking by a low one has arranged ranks by both.\<close>

lemma stable_rank_compose:
  fixes lo hi :: "'a \<Rightarrow> nat"
  assumes len: "length ys = length xs" and at: "\<And>q. q < length xs \<Longrightarrow> ys ! stable_rank lo xs q = hi (xs ! q)"
    and lo: "\<And>x. x \<in> set xs \<Longrightarrow> lo x < b" and p: "p < length xs"
  shows "stable_rank id ys (stable_rank lo xs p) = stable_rank (\<lambda>x. hi x * b + lo x) xs p"
proof -
  let ?s = "stable_rank lo xs" and ?k = "\<lambda>x. hi x * b + lo x" and ?N = "length xs"
  have inj: "inj_on ?s {..<?N}" using stable_rank_inj by (intro inj_onI) auto
  have bound: "?s q < ?N" if "q < ?N" for q using sort_key_nth_rank(2) [OF that] .
  have img: "?s ` {..<?N} = {..<?N}" using inj bound by (intro endo_inj_surj) auto
  have less: "?s q < ?s r \<longleftrightarrow> precedes lo xs q r" if "q < ?N" "r < ?N" for q r
    
  proof
    assume lt: "?s q < ?s r"
    then have "q \<noteq> r" by auto
    then consider "precedes lo xs q r" | "precedes lo xs r q" using precedes_order(3) by blast
    then show "precedes lo xs q r" using lt stable_rank_less [OF that(2,1), of lo] by cases auto
  qed (rule stable_rank_less [OF that])
  have key: "?k x < ?k y \<longleftrightarrow> hi x < hi y \<or> hi x = hi y \<and> lo x < lo y" "?k x = ?k y \<longleftrightarrow> hi x = hi y \<and> lo x = lo y"
    if "lo x < b" "lo y < b" for x y
  proof -
    have mono: "?k x < ?k y" if "hi x < hi y" "lo x < b" for x y
    proof -
      have "Suc (hi x) * b \<le> hi y * b" using that(1) by (intro mult_right_mono) simp_all
      then show ?thesis using that(2) by simp
    qed
    have m: "hi x < hi y \<Longrightarrow> ?k x < ?k y" "hi y < hi x \<Longrightarrow> ?k y < ?k x" using mono that by blast+
    show "?k x < ?k y \<longleftrightarrow> hi x < hi y \<or> hi x = hi y \<and> lo x < lo y" "?k x = ?k y \<longleftrightarrow> hi x = hi y \<and> lo x = lo y"
      by (cases "hi x" "hi y" rule: linorder_cases; use m in simp)+
  qed
  have prec: "precedes id ys (?s q) (?s p) \<longleftrightarrow> precedes ?k xs q p" if q: "q < ?N" for q
  proof -
    have l: "lo (xs ! q) < b" "lo (xs ! p) < b" using lo p q by simp_all
    show ?thesis
      unfolding precedes_def id_apply at [OF q] at [OF p] less [OF q p] key [OF l] by auto
  qed
  have "{r. r < ?N \<and> precedes id ys r (?s p)} = ?s ` {q. q < ?N \<and> precedes ?k xs q p}"
  proof (intro equalityI subsetI)
    fix r assume r: "r \<in> {r. r < ?N \<and> precedes id ys r (?s p)}"
    then have "r \<in> ?s ` {..<?N}" using img by simp
    then obtain q where "q < ?N" "r = ?s q" by auto
    then show "r \<in> ?s ` {q. q < ?N \<and> precedes ?k xs q p}" using r prec by auto
  qed (use bound prec in auto)
  then have "card {r. r < ?N \<and> precedes id ys r (?s p)} = card {q. q < ?N \<and> precedes ?k xs q p}"
    using inj by (simp add: card_image inj_on_def)
  then show ?thesis using stable_rank_card [of "?s p" ys id] stable_rank_card [OF p, of ?k] bound [OF p] len by simp
qed


section \<open>One pass of either algorithm\<close>

lemma store_same:
  assumes "0 < threads" "\<And>t. t < threads \<Longrightarrow> off t = x"
  shows "barrier_phase threads (store_if (\<lambda>_. True) (\<lambda>_. v) off) slots = slots(v := x)"
proof -
  have "run_writes (concat (map (store_if (\<lambda>_. True) (\<lambda>_. v) off) [0..<n])) slots = (if n = 0 then slots else slots(v := x))"
    if "n \<le> threads" for n
    using that by (induction n) (auto simp: store_if_def assms(2))
  from this [of threads] show ?thesis using assms(1) by (simp add: barrier_phase_def)
qed

lemma rank_flags_eq: "v < bins \<Longrightarrow> rank_flags memoize bins digits v = map (\<lambda>key t. if key t = v then 1 else (0 :: int)) digits"
  by (simp add: rank_flags_def)

lemma basic_bin_eq:
  assumes "b < bins"
  shows "basic_bin scan memoize threads descending bins digits b (result, offset, starts)
    = rbind (bin_step scan descending bins digits b (result, offset)) (\<lambda>(result', offset').
        Inr (result', offset', barrier_phase threads
          (store_if (\<lambda>_. True) (\<lambda>_. if descending then bins - 1 - b else b) offset) starts))"
proof -
  define v where "v = (if descending then bins - 1 - b else b)"
  have "v < bins" using assms by (auto simp: v_def)
  note f = rank_flags_eq [OF this]
  show ?thesis
    unfolding basic_bin_def bin_step_def prod.case Let_def v_def [symmetric] f
    by (simp add: rbind_def split: sum.split prod.split)
qed

context add_scan
begin

lemma basic_pass_correct:
  assumes legal and n: "digits \<noteq> []" and small: "threads * length digits < 2 ^ 31"
    and d: "\<And>i t. i < length digits \<Longrightarrow> t < threads \<Longrightarrow> (digits ! i) t < bins"
  shows "\<exists>ranks st'. basic_pass scan memoize threads descending bins digits st
      = Inr (ranks, output_prefix bins ((bins + threads - 1) div threads) (st_prefix st'), [], st')
    \<and> length ranks = length digits
    \<and> (\<forall>p < threads * length digits. blocked ranks p = int (stable_rank (digit_key descending bins) (tile_seq threads digits) p))
    \<and> (\<forall>v < bins. st_prefix st' v = digit_start descending (blocked digits) (threads * length digits) v)"
proof -
  let ?xs = "tile_seq threads digits" and ?k = "digit_key descending bins" and ?n = "length digits"
  let ?v = "\<lambda>b. if descending then bins - 1 - b else b"
  have lt: "x < bins" if "x \<in> set ?xs" for x using that d by (auto simp: set_tile_seq)
  define I where "I = (\<lambda>b (ranks, offset, starts).
    bins_inv threads ?k ?n ?xs b (ranks, offset) \<and> (\<forall>b' < b. starts (?v b') = int (length (filter (\<lambda>x. ?k x < b') ?xs))))"
  have "I 0 (replicate ?n (\<lambda>_. 0), \<lambda>_. 0, st_prefix st)" by (simp add: I_def bins_inv_def)
  moreover have "\<exists>s'. basic_bin scan memoize threads descending bins digits b s = Inr s' \<and> I (Suc b) s'" if b: "b < bins" and i: "I b s" for b s
  proof -
    obtain ranks offset starts where s: "s = (ranks, offset, starts)" by (cases s) auto
    have inv: "bins_inv threads ?k ?n ?xs b (ranks, offset)" using i by (simp add: I_def s)
    obtain r' o' where step: "bin_step scan descending bins digits b (ranks, offset) = Inr (r', o')"
      "bins_inv threads ?k ?n ?xs (Suc b) (r', o')"
      using bin_step_inv [OF \<open>legal\<close> n small lt b inv] by auto
    have "offset t = int (length (filter (\<lambda>x. ?k x < b) ?xs))" if "t < threads" for t
      using inv that by (simp add: bins_inv_def)
    then have st: "barrier_phase threads (store_if (\<lambda>_. True) (\<lambda>_. ?v b) offset) starts
        = starts(?v b := int (length (filter (\<lambda>x. ?k x < b) ?xs)))"
      by (rule store_same [OF threads_pos [OF \<open>legal\<close>]])
    have "?v b' \<noteq> ?v b" if "b' < b" for b' using that b by auto
    then have "I (Suc b) (r', o', starts(?v b := int (length (filter (\<lambda>x. ?k x < b) ?xs))))"
      using i step(2) by (auto simp: I_def s less_Suc_eq)
    then show ?thesis unfolding s basic_bin_eq [OF b] step(1) st by simp
  qed
  ultimately obtain s' where run: "fold_res (basic_bin scan memoize threads descending bins digits) [0..<bins]
      (replicate ?n (\<lambda>_. 0), \<lambda>_. 0, st_prefix st) = Inr s'" "I bins s'"
    using fold_res_upt [of bins I] by blast
  obtain ranks offset starts where s': "s' = (ranks, offset, starts)" by (cases s') auto
  have fin: "bins_inv threads ?k ?n ?xs bins (ranks, offset)"
    "\<And>b'. b' < bins \<Longrightarrow> starts (?v b') = int (length (filter (\<lambda>x. ?k x < b') ?xs))"
    using run(2) by (simp_all add: I_def s')
  have kb: "?k (?xs ! p) < bins" if "p < threads * ?n" for p
  proof -
    have "?xs ! p < bins" using lt that by (metis length_tile_seq nth_mem)
    then show ?thesis by (simp add: digit_key_def)
  qed
  have "starts v = digit_start descending (blocked digits) (threads * ?n) v" if v: "v < bins" for v
  proof -
    have "?v (?v v) = v" "?v v < bins" using v by auto
    then have "starts v = int (length (filter (\<lambda>x. ?k x < ?v v) ?xs))" using fin(2) [of "?v v"] by simp
    also have "filter (\<lambda>x. ?k x < ?v v) ?xs = filter (\<lambda>x. if descending then v < x else x < v) ?xs"
      by (intro filter_cong refl) (use lt v in \<open>force simp: digit_key_def\<close>)
    finally show ?thesis by (simp add: digit_start_def tile_seq_def filter_map comp_def)
  qed
  moreover have "blocked ranks p = int (stable_rank ?k ?xs p)" if "p < threads * ?n" for p
    using fin(1) kb [OF that] that by (simp add: bins_inv_def)
  moreover have "length ranks = ?n" using fin(1) by (simp add: bins_inv_def)
  ultimately show ?thesis
    using run(1) by (intro exI [of _ ranks] exI [of _ "st\<lparr>st_prefix := starts\<rparr>"]) (simp add: basic_pass_def s')
qed

end

text \<open>Both algorithms: the ranks of the digits in the ranked order, and where every digit starts.\<close>

context rank_scan
begin

lemma rank_once_correct:
  assumes legal and ok: "rank_ok c warps" and c: "rk_threads c = threads" "rk_scan c = scan" "rk_exclusive c = exclusive"
    and law: "shuffle_law (lane_src (rk_target c))" "fair threads sched"
    and n: "length digits = rk_items c" and d: "\<And>i t. i < rk_items c \<Longrightarrow> t < threads \<Longrightarrow> (digits ! i) t < bins"
  shows "\<exists>ranks counts st'. rank_once c descending sched pass bins digits st
      = Inr (ranks, output_prefix bins ((bins + threads - 1) div threads) (st_prefix st'), counts, st')
    \<and> length ranks = rk_items c
    \<and> (\<forall>t < threads. \<forall>i < rk_items c. (ranks ! i) t
        = int (stable_rank (digit_key descending bins) (map (rank_order c digits) [0..<rank_size c]) (rank_position c t i)))
    \<and> (\<forall>v < bins. st_prefix st' v = digit_start descending (rank_order c digits) (rank_size c) v)
    \<and> (matching c \<longrightarrow> length counts = (bins + threads - 1) div threads \<and> (\<forall>t i. i < (bins + threads - 1) div threads \<longrightarrow>
        (counts ! i) t = (if t * ((bins + threads - 1) div threads) + i < bins
          then int (cnt (rank_order c digits) (t * ((bins + threads - 1) div threads) + i) 0 (rank_size c)) else 0)))"
proof (cases "matching c")
  case True
  have w: "0 < rk_warp c" "rk_warp c \<le> 64" "threads = warps * rk_warp c" using ok c(1) by (simp_all add: rank_ok_def)
  have ne: "digits \<noteq> []" using ok n by (auto simp: rank_ok_def)
  have small: "threads * length digits < 2 ^ 31" using ok unfolding rank_ok_def c(1) n by blast
  have ord: "rank_order c digits = match_item (rk_warp c) digits" using True by (simp add: rank_order_def fun_eq_iff)
  have pos: "rank_position c t i = t div rk_warp c * (rk_warp c * length digits) + i * rk_warp c + t mod rk_warp c" if "t < threads" for t i
    using rank_position_eq [OF ok, of t i] that True c(1) n by simp
  show ?thesis
    using match_pass_correct [OF \<open>legal\<close> law w ne small, where bins = bins and pass = pass and descending = descending and st = st
        and early = "rk_algorithm c \<noteq> MATCH" and use_or = "rk_algorithm c = MATCH_EARLY_COUNTS_ATOMIC_OR"] d n True
    by (auto simp: rank_once_def c pos ord)
next
  case False
  have ne: "digits \<noteq> []" using ok n by (auto simp: rank_ok_def)
  have small: "threads * length digits < 2 ^ 31" using ok unfolding rank_ok_def c(1) n by blast
  have ord: "rank_order c digits = blocked digits" using False by (simp add: rank_order_def fun_eq_iff)
  have pos: "rank_position c t i = t * rk_items c + i" if "t < threads" for t i
    using rank_position_eq [OF ok, of t i] that False c(1) by simp
  have d': "(digits ! i) t < bins" if "i < length digits" "t < threads" for i t using d that n by simp
  obtain ranks st' where r: "basic_pass scan (rk_algorithm c = MEMOIZE) threads descending bins digits st
      = Inr (ranks, output_prefix bins ((bins + threads - 1) div threads) (st_prefix st'), [], st')"
    "length ranks = length digits"
    "\<forall>p < threads * length digits. blocked ranks p = int (stable_rank (digit_key descending bins) (tile_seq threads digits) p)"
    "\<forall>v < bins. st_prefix st' v = digit_start descending (blocked digits) (threads * length digits) v"
    using basic_pass_correct [OF \<open>legal\<close> ne small d', where descending = descending and st = st
        and memoize = "rk_algorithm c = MEMOIZE"] by blast
  have "(ranks ! i) t = int (stable_rank (digit_key descending bins) (map (rank_order c digits) [0..<rank_size c]) (rank_position c t i))"
    if ti: "t < threads" "i < rk_items c" for t i
    using r(2,3) blocked_nth [of i ranks t] position_bound [OF ti] ti n pos [OF ti(1)] c(1) by (simp add: ord tile_seq_def)
  then show ?thesis using r False n c(1) by (auto simp: rank_once_def c(2) ord)
qed

end


section \<open>Digits of keys\<close>

text \<open>The block's keys in the ranked order, and the digit of a key in a range of bits.\<close>

abbreviation ordered_keys :: "rank_class \<Rightarrow> nat lanes list \<Rightarrow> nat list" where
  "ordered_keys c items \<equiv> map (rank_order c items) [0..<rank_size c]"

definition key_digit :: "rank_args \<Rightarrow> nat \<Rightarrow> nat \<Rightarrow> nat \<Rightarrow> nat" where
  "key_digit a low bits key = (case ra_extractor a of
       None \<Rightarrow> take_bit bits (drop_bit low key)
     | Some (Static_Digit d) \<Rightarrow> nat (i32 d)
     | Some (Traced_Digit g) \<Rightarrow> nat (i32 (g key))
     | Some Other_Digit \<Rightarrow> 0)"

text \<open>What ranking sorts by: the digit of all the bits asked for, from above when descending.\<close>

definition rank_value :: "rank_args \<Rightarrow> nat \<Rightarrow> nat \<Rightarrow> nat" where
  "rank_value a e key =
     digit_key (ra_descending a) (2 ^ (e - nat (ra_begin_bit a))) (key_digit a (nat (ra_begin_bit a)) (e - nat (ra_begin_bit a)) key)"

definition keys_ok :: "rank_class \<Rightarrow> rank_args \<Rightarrow> nat lanes list \<Rightarrow> bool" where
  "keys_ok c a items \<longleftrightarrow> length items = rk_items c
     \<and> (\<forall>t < rk_threads c. \<forall>i < rk_items c. case ra_extractor a of
          None \<Rightarrow> (case rk_field c of Some f \<Rightarrow> (items ! i) t < 2 ^ ft_width f | None \<Rightarrow> True)
        | Some (Static_Digit d) \<Rightarrow> 0 \<le> d \<and> d < 2 ^ nat (the (ra_radix_bits a))
        | Some (Traced_Digit g) \<Rightarrow> 0 \<le> i32 (g ((items ! i) t)) \<and> i32 (g ((items ! i) t)) < 2 ^ nat (the (ra_radix_bits a))
        | Some Other_Digit \<Rightarrow> False)"

text \<open>What the argument checks leave.\<close>

lemma rank_end_bit_Inr:
  assumes "rank_end_bit c a = Inr e"
  shows "0 \<le> ra_begin_bit a" "nat (ra_begin_bit a) \<le> e"
    "ra_radix_bits a = Some r \<Longrightarrow> 1 \<le> r \<and> r \<le> int (rk_radix_bits c)"
    "ra_extractor a = None \<Longrightarrow> \<exists>f. rk_field c = Some f \<and> \<not> ft_float f \<and> e \<le> ft_width f"
    "ra_extractor a = Some ex \<Longrightarrow> \<exists>r. ra_radix_bits a = Some r \<and> e = nat (ra_begin_bit a) + nat r"
    "ra_callback a \<or> ra_with_prefix a \<Longrightarrow> e - nat (ra_begin_bit a) \<le> rk_radix_bits c"
proof -
  obtain eb where eb: "(case ra_radix_bits a of
         Some r \<Rightarrow> (if \<not> (1 \<le> r \<and> r \<le> int (rk_radix_bits c)) then Inl ValueError
           else Inr (case ra_end_bit a of None \<Rightarrow> Some (ra_begin_bit a + r) | Some e \<Rightarrow> Some e))
       | None \<Rightarrow> (if ra_extractor a \<noteq> None then Inl ValueError else Inr (ra_end_bit a))) = Inr eb"
    and e: "(case ra_extractor a of
         None \<Rightarrow> (case rk_field c of
             Some f \<Rightarrow> (if ft_float f then Inl TypeError else bit_range (ft_width f) (ra_begin_bit a) eb)
           | None \<Rightarrow> Inl TypeError)
       | Some _ \<Rightarrow> (if ra_begin_bit a < 0 \<or> eb \<noteq> Some (ra_begin_bit a + the (ra_radix_bits a)) then Inl ValueError
           else Inr (nat (the eb)))) = Inr e"
    and g: "\<not> ((ra_callback a \<or> ra_with_prefix a) \<and> int e - ra_begin_bit a > int (rk_radix_bits c))"
    using assms unfolding rank_end_bit_def by (auto simp: rbind_Inr_iff)
  show r: "1 \<le> r \<and> r \<le> int (rk_radix_bits c)" if "ra_radix_bits a = Some r" for r
    using eb that by (auto split: if_splits)
  have some: "\<exists>r. ra_radix_bits a = Some r" if "ra_extractor a = Some ex" for ex
    using eb that by (auto split: option.splits)
  show ex: "\<exists>r. ra_radix_bits a = Some r \<and> e = nat (ra_begin_bit a) + nat r" if h: "ra_extractor a = Some ex" for ex
  proof -
    obtain r where rb: "ra_radix_bits a = Some r" using some [OF h] by blast
    then have "e = nat (ra_begin_bit a + r)" "0 \<le> ra_begin_bit a" using e h by (auto split: if_splits)
    then show ?thesis using r [OF rb] rb by (simp add: nat_add_distrib)
  qed
  have bounds: "0 \<le> ra_begin_bit a \<and> nat (ra_begin_bit a) \<le> e"
  proof (cases "ra_extractor a")
    case None
    then show ?thesis using e by (auto simp: bit_range_def Let_def split: option.splits if_splits)
  next
    case (Some x)
    then show ?thesis using ex [OF Some] e by (auto split: if_splits)
  qed
  then show "0 \<le> ra_begin_bit a" "nat (ra_begin_bit a) \<le> e" by simp_all
  show "\<exists>f. rk_field c = Some f \<and> \<not> ft_float f \<and> e \<le> ft_width f" if "ra_extractor a = None"
    using e that by (auto simp: bit_range_def Let_def split: option.splits if_splits)
  show "e - nat (ra_begin_bit a) \<le> rk_radix_bits c" if "ra_callback a \<or> ra_with_prefix a"
    using g that bounds by linarith
qed

lemma rank_width_bounds:
  assumes "rank_end_bit c a = Inr e" "1 \<le> rk_radix_bits c"
  shows "1 \<le> rank_width c a e" "rank_width c a e \<le> rk_radix_bits c"
  using rank_end_bit_Inr(3,6) [OF assms(1)] assms(2) by (auto simp: rank_width_def split: option.splits)

lemma single_digit: "key < 2 ^ ft_width f \<Longrightarrow> digit [(f, key)] low bits False = take_bit bits (drop_bit low key)"
proof -
  assume k: "key < 2 ^ ft_width f"
  have o: "ordered_bits f False key = key"
  proof (cases "ft_width f = 1")
    case True
    then have "key = 0 \<or> key = 1" using k by auto
    then show ?thesis using True by (auto simp: ordered_bits_def)
  qed (simp add: ordered_bits_def)
  then have "fields_ok False [(f, key)]" using k by (simp add: fields_ok_def)
  then show ?thesis by (simp add: digit_eq o)
qed

lemma rank_digits_correct:
  assumes e: "rank_end_bit c a = Inr e" and ok: "rank_ok c warps" and items: "keys_ok c a items"
    and bits: "bits \<le> 30" "ra_extractor a \<noteq> None \<Longrightarrow> bits = nat (the (ra_radix_bits a))"
  shows "\<exists>digits. rank_digits c a low bits items = Inr digits \<and> length digits = rk_items c
    \<and> (\<forall>i < rk_items c. \<forall>t < rk_threads c. (digits ! i) t = key_digit a low bits ((items ! i) t) \<and> (digits ! i) t < 2 ^ bits)"
proof -
  have pos: "0 < rk_threads c" "0 < rk_items c" using ok by (auto simp: rank_ok_def)
  have n: "length items = rk_items c" using items by (simp add: keys_ok_def)
  show ?thesis
  proof (cases "ra_extractor a")
    case None
    obtain f where f: "rk_field c = Some f" using rank_end_bit_Inr(4) [OF e None] by blast
    have "digit [(f, (items ! i) t)] low bits False = take_bit bits (drop_bit low ((items ! i) t))"
      if "i < rk_items c" "t < rk_threads c" for i t
      by (rule single_digit) (use items that None f in \<open>simp add: keys_ok_def\<close>)
    then show ?thesis using None f n by (simp add: rank_digits_def key_digit_def)
  next
    case (Some ex)
    have b: "bits = nat (the (ra_radix_bits a))" using bits(2) Some by simp
    have ok: "case ex of Static_Digit d \<Rightarrow> 0 \<le> d \<and> d < 2 ^ bits
        | Traced_Digit g \<Rightarrow> 0 \<le> i32 (g ((items ! i) t)) \<and> i32 (g ((items ! i) t)) < 2 ^ bits
        | Other_Digit \<Rightarrow> False" if "i < rk_items c" "t < rk_threads c" for i t
      using items that Some unfolding keys_ok_def b by auto
    show ?thesis
    proof (cases ex)
      case (Static_Digit d)
      have d: "0 \<le> d" "d < 2 ^ bits" using ok [OF pos(2,1)] Static_Digit by simp_all
      have "(2 :: int) ^ bits \<le> 2 ^ 30" using bits(1) by (intro power_increasing) simp_all
      then have "i32 d = d" using d by (intro signed_small) simp_all
      moreover have "nat d < 2 ^ bits" using d by (simp add: nat_less_iff)
      ultimately show ?thesis using Some Static_Digit d n by (simp add: rank_digits_def extract_digits_def key_digit_def)
    next
      case (Traced_Digit g)
      have "nat (i32 (g ((items ! i) t))) < 2 ^ bits" if "i < rk_items c" "t < rk_threads c" for i t
        using ok [OF that] Traced_Digit by (simp add: nat_less_iff)
      then show ?thesis using Some Traced_Digit n by (simp add: rank_digits_def extract_digits_def key_digit_def)
    next
      case Other_Digit
      then show ?thesis using ok [OF pos(2,1)] by simp
    qed
  qed
qed


section \<open>The passes\<close>

lemma index_wrap_small: "x < threads * n \<Longrightarrow> threads * n < 2 ^ 31 \<Longrightarrow> index_wrap threads n (int x) = int x"
proof -
  assume x: "x < threads * n" "threads * n < 2 ^ 31"
  show ?thesis
  proof (cases "threads * n \<le> 65536")
    case True
    then have "int x < 2 ^ 16" using x(1) by simp
    then show ?thesis using True by (simp add: index_wrap_def take_bit_int_eq_self)
  next
    case False
    have "i32 (int x) = int x" using x by (intro signed_small int_small) linarith+
    then show ?thesis using False by (simp add: index_wrap_def)
  qed
qed

lemma digit_wrap_small:
  assumes "d < 2 ^ radix" "radix < 31"
  shows "digit_wrap radix (int d) = int d"
proof -
  have le: "int d < 2 ^ k" if "radix \<le> k" for k
  proof -
    have "(2 :: nat) ^ radix \<le> 2 ^ k" using that by (intro power_increasing) simp_all
    then have "d < 2 ^ k" using assms(1) by linarith
    then have "int d < int (2 ^ k)" by (simp only: of_nat_less_iff)
    then show ?thesis by simp
  qed
  have "i32 (int d) = int d" using le [of 31] assms(2) by (intro signed_small) simp_all
  then show ?thesis using le [of 8] le [of 16] by (simp add: digit_wrap_def take_bit_int_eq_self)
qed

lemma stable_rank_const: "p < length xs \<Longrightarrow> stable_rank (\<lambda>_. k) xs p = p"
  by (simp add: stable_rank_def)

text \<open>Digits and positions travel to the ranks \<open>\<sigma>\<close> of the passes before.\<close>

lemma arrange_digits_correct:
  assumes ok: "rank_ok c warps" and inj: "inj_on \<sigma> {..<rank_size c}"
    and bij: "\<And>p. p < rank_size c \<Longrightarrow> \<sigma> p < rank_size c"
    and first: "pass = 0 \<Longrightarrow> (\<And>p. p < rank_size c \<Longrightarrow> \<sigma> p = p)"
    and orig: "\<And>t i. t < rk_threads c \<Longrightarrow> i < rk_items c \<Longrightarrow> (original ! i) t = int (\<sigma> (rank_position c t i))"
    and digits: "length digits = rk_items c"
      "\<And>t i. t < rk_threads c \<Longrightarrow> i < rk_items c \<Longrightarrow> (digits ! i) t = g (rank_position c t i)"
    and small: "\<And>p. p < rank_size c \<Longrightarrow> g p < 2 ^ rk_radix_bits c"
  shows "\<exists>digits' indices st'. arrange_digits c pass digits original st = (digits', indices, st')
    \<and> length digits' = rk_items c \<and> length indices = rk_items c
    \<and> (\<forall>p < rank_size c. \<forall>t < rk_threads c. \<forall>i < rk_items c. rank_position c t i = \<sigma> p \<longrightarrow>
        (digits' ! i) t = g p \<and> (indices ! i) t = int p)"
proof (cases "pass = 0")
  case True
  have "(digits ! i) t = g p \<and> (map (\<lambda>i t. int (rank_position c t i)) [0..<rk_items c] ! i) t = int p"
    if "p < rank_size c" "t < rk_threads c" "i < rk_items c" "rank_position c t i = \<sigma> p" for p t i
    using digits(2) [OF that(2,3)] first [OF True that(1)] that(3,4) by simp
  then show ?thesis using True digits(1) by (simp add: arrange_digits_def Let_def)
next
  case False
  let ?positions = "map (\<lambda>i t. int (rank_position c t i)) [0..<rk_items c]"
  define st' where "st' = publish_digits c digits ?positions original st"
  have lt: "rank_size c < 2 ^ 31" "rk_radix_bits c < 31" using ok unfolding rank_ok_def by blast+
  have d: "st_digits st' (\<sigma> p) = int (g p)" if p: "p < rank_size c" for p
  proof -
    have "st_digits st' (\<sigma> p) = digit_wrap (rk_radix_bits c) (int (g p))"
      unfolding st'_def publish_digits_def
      by (simp, rule scatter_positions [OF ok inj p, where g = "\<lambda>p. digit_wrap (rk_radix_bits c) (int (g p))"])
        (simp_all add: orig digits(2))
    then show ?thesis using digit_wrap_small [OF small [OF p] lt(2)] by simp
  qed
  have ix: "st_indices st' (\<sigma> p) = int p" if p: "p < rank_size c" for p
  proof -
    have "st_indices st' (\<sigma> p) = index_wrap (rk_threads c) (rk_items c) (int p)"
      unfolding st'_def publish_digits_def
      by (simp, rule scatter_positions [OF ok inj p, where g = "\<lambda>p. index_wrap (rk_threads c) (rk_items c) (int p)"])
        (simp_all add: orig)
    then show ?thesis using index_wrap_small [OF p lt(1)] by simp
  qed
  have "arrange_digits c pass digits original st
      = (map (\<lambda>d t. nat (d t)) (load_ordered c (st_digits st')), load_ordered c (st_indices st'), st')"
    using False by (simp add: arrange_digits_def Let_def st'_def)
  then show ?thesis using d ix by (simp add: load_ordered_def shared_load_def)
qed

context rank_scan
begin

text \<open>A pass ranks the order of the passes before it by its digits.\<close>

lemma rank_pass_correct:
  assumes legal and ok: "rank_ok c warps" and c: "rk_threads c = threads" "rk_scan c = scan" "rk_exclusive c = exclusive"
    and law: "shuffle_law (lane_src (rk_target c))" "fair threads sched"
    and e: "rank_end_bit c a = Inr e" and items: "keys_ok c a items"
    and bits: "bits = min (rank_width c a e) (e - low)" "ra_extractor a \<noteq> None \<longrightarrow> bits = nat (the (ra_radix_bits a))"
    and inj: "inj_on \<sigma> {..<rank_size c}" and below: "\<forall>p < rank_size c. \<sigma> p < rank_size c"
    and start: "pass = 0 \<longrightarrow> (\<forall>p < rank_size c. \<sigma> p = p)"
    and orig: "\<forall>t < threads. \<forall>i < rk_items c. (original ! i) t = int (\<sigma> (rank_position c t i))"
  shows "\<exists>ranks indices counts st' ys. rank_pass c a sched e items pass low (original, calls, st)
      = Inr (ranks, output_prefix (2 ^ bits) ((2 ^ bits + threads - 1) div threads) (st_prefix st'), indices,
          if ra_callback a then calls @ [counts] else calls, st')
    \<and> length ys = rank_size c
    \<and> (\<forall>p < rank_size c. ys ! \<sigma> p = key_digit a low bits (ordered_keys c items ! p))
    \<and> length ranks = rk_items c \<and> length indices = rk_items c
    \<and> (\<forall>t < threads. \<forall>i < rk_items c. (ranks ! i) t = int (stable_rank (digit_key (ra_descending a) (2 ^ bits)) ys (rank_position c t i)))
    \<and> (\<forall>p < rank_size c. \<forall>t < threads. \<forall>i < rk_items c. rank_position c t i = \<sigma> p \<longrightarrow> (indices ! i) t = int p)
    \<and> (\<forall>v < 2 ^ bits. st_prefix st' v = digit_start (ra_descending a) (\<lambda>p. ys ! p) (rank_size c) v)
    \<and> (matching c \<longrightarrow> length counts = (2 ^ bits + threads - 1) div threads \<and> (\<forall>t i. i < (2 ^ bits + threads - 1) div threads \<longrightarrow>
        (counts ! i) t = (if t * ((2 ^ bits + threads - 1) div threads) + i < 2 ^ bits
          then int (cnt (\<lambda>p. ys ! p) (t * ((2 ^ bits + threads - 1) div threads) + i) 0 (rank_size c)) else 0)))"
proof -
  have bij: "\<sigma> p < rank_size c" if "p < rank_size c" for p using below that by blast
  have first: "\<sigma> p = p" if "pass = 0" "p < rank_size c" for p using start that by blast
  have rb: "1 \<le> rk_radix_bits c" "rk_radix_bits c < 31" using ok by (simp_all add: rank_ok_def)
  note width = rank_width_bounds [OF e rb(1)]
  have le: "bits \<le> rk_radix_bits c" using bits(1) width(2) by simp
  then have b30: "bits \<le> 30" using rb(2) by simp
  obtain digits where dig: "rank_digits c a low bits items = Inr digits" "length digits = rk_items c"
    "\<And>t i. i < rk_items c \<Longrightarrow> t < threads \<Longrightarrow> (digits ! i) t = key_digit a low bits ((items ! i) t) \<and> (digits ! i) t < 2 ^ bits"
    using rank_digits_correct [OF e ok items b30 mp [OF bits(2)], of low] c(1) by blast
  have n: "length items = rk_items c" using items by (simp add: keys_ok_def)
  define g where "g = (\<lambda>p. key_digit a low bits (rank_order c items p))"
  have gd: "(digits ! i) t = g (rank_position c t i)" if "t < rk_threads c" "i < rk_items c" for t i
    using dig(3) that rank_order_at [OF ok that n] c(1) by (simp add: g_def)
  have g_lt: "g p < 2 ^ bits" if p: "p < rank_size c" for p
  proof -
    obtain t i where ti: "t < rk_threads c" "i < rk_items c" "rank_position c t i = p" using rank_position_onto [OF ok p] .
    show ?thesis using gd [OF ti(1,2)] dig(3) [of i t] ti c(1) by simp
  qed
  have pw: "(2 :: nat) ^ bits \<le> 2 ^ rk_radix_bits c" using le by (intro power_increasing) simp_all
  have g_small: "g p < 2 ^ rk_radix_bits c" if "p < rank_size c" for p by (rule less_le_trans [OF g_lt [OF that] pw])
  obtain digits' indices st1 where ar: "arrange_digits c pass digits original st = (digits', indices, st1)"
    "length digits' = rk_items c" "length indices = rk_items c"
    "\<And>p t i. p < rank_size c \<Longrightarrow> t < rk_threads c \<Longrightarrow> i < rk_items c \<Longrightarrow> rank_position c t i = \<sigma> p \<Longrightarrow>
        (digits' ! i) t = g p \<and> (indices ! i) t = int p"
    using arrange_digits_correct [OF ok inj bij first _ dig(2) gd g_small, of pass original st] orig c(1) by blast
  have img: "\<sigma> ` {..<rank_size c} = {..<rank_size c}" using inj bij by (intro endo_inj_surj) auto
  have d': "(digits' ! i) t < 2 ^ bits" if ti: "i < rk_items c" "t < threads" for i t
  proof -
    have "rank_position c t i \<in> \<sigma> ` {..<rank_size c}" unfolding img using rank_position_bound [OF ok] ti c(1) by simp
    then obtain p where "p < rank_size c" "rank_position c t i = \<sigma> p" by auto
    then show ?thesis using ar(4) ti c(1) g_lt by simp
  qed
  define ys where "ys = map (rank_order c digits') [0..<rank_size c]"
  have ys: "ys ! \<sigma> p = key_digit a low bits (ordered_keys c items ! p)" if p: "p < rank_size c" for p
  proof -
    obtain t i where ti: "t < rk_threads c" "i < rk_items c" "rank_position c t i = \<sigma> p" using rank_position_onto [OF ok bij [OF p]] .
    have "ys ! \<sigma> p = rank_order c digits' (rank_position c t i)" using bij [OF p] ti(3) by (simp add: ys_def)
    also have "\<dots> = g p" using rank_order_at [OF ok ti(1,2) ar(2)] ar(4) [OF p ti] by simp
    finally show ?thesis using p by (simp add: g_def)
  qed
  have yo: "rank_order c digits' p = ys ! p" if "p < rank_size c" for p using that by (simp add: ys_def)
  have ds: "digit_start desc (rank_order c digits') (rank_size c) v = digit_start desc (\<lambda>p. ys ! p) (rank_size c) v" for desc v
    unfolding digit_start_def by (intro arg_cong [where f = int] arg_cong [where f = length] filter_cong) (auto simp: yo)
  have cn: "cnt (rank_order c digits') v 0 (rank_size c) = cnt (\<lambda>p. ys ! p) v 0 (rank_size c)" for v
    by (rule cnt_cong) (simp add: yo)
  obtain ranks counts st' where r: "rank_once c (ra_descending a) sched pass (2 ^ bits) digits' st1
      = Inr (ranks, output_prefix (2 ^ bits) ((2 ^ bits + threads - 1) div threads) (st_prefix st'), counts, st')"
    "length ranks = rk_items c"
    "\<forall>t < threads. \<forall>i < rk_items c. (ranks ! i) t = int (stable_rank (digit_key (ra_descending a) (2 ^ bits)) ys (rank_position c t i))"
    "\<forall>v < 2 ^ bits. st_prefix st' v = digit_start (ra_descending a) (\<lambda>p. ys ! p) (rank_size c) v"
    "matching c \<longrightarrow> length counts = (2 ^ bits + threads - 1) div threads \<and> (\<forall>t i. i < (2 ^ bits + threads - 1) div threads \<longrightarrow>
        (counts ! i) t = (if t * ((2 ^ bits + threads - 1) div threads) + i < 2 ^ bits
          then int (cnt (\<lambda>p. ys ! p) (t * ((2 ^ bits + threads - 1) div threads) + i) 0 (rank_size c)) else 0))"
    using rank_once_correct [OF \<open>legal\<close> ok c law ar(2) d', of "ra_descending a" pass st1]
    unfolding ys_def [symmetric] ds cn by blast
  have run: "rank_pass c a sched e items pass low (original, calls, st)
      = Inr (ranks, output_prefix (2 ^ bits) ((2 ^ bits + threads - 1) div threads) (st_prefix st'), indices,
          if ra_callback a then calls @ [counts] else calls, st')"
    unfolding rank_pass_def prod.case Let_def bits(1) [symmetric] dig(1) rbind_simps ar(1) r(1) ..
  have "length ys = rank_size c" by (simp add: ys_def)
  moreover have "\<forall>p < rank_size c. \<forall>t < threads. \<forall>i < rk_items c. rank_position c t i = \<sigma> p \<longrightarrow> (indices ! i) t = int p"
    using ar(4) c(1) by blast
  moreover have "\<forall>p < rank_size c. ys ! \<sigma> p = key_digit a low bits (ordered_keys c items ! p)" using ys by blast
  ultimately show ?thesis
    by (intro exI [of _ ranks] exI [of _ indices] exI [of _ counts] exI [of _ st'] exI [of _ ys] conjI run r(2-5) ar(3))
qed

end


text \<open>Ranks that travelled back: every thread has the rank of its own items.\<close>

definition ranks_are :: "rank_class \<Rightarrow> (nat \<Rightarrow> nat) \<Rightarrow> nat list \<Rightarrow> int lanes list \<Rightarrow> bool" where
  "ranks_are c d xs ranks \<longleftrightarrow> length ranks = rk_items c
     \<and> (\<forall>t < rk_threads c. \<forall>i < rk_items c. (ranks ! i) t = int (stable_rank d xs (rank_position c t i)))"

lemma inverse_ranks_correct:
  assumes ok: "rank_ok c warps" and inj: "inj_on \<sigma> {..<rank_size c}" and bij: "\<And>p. p < rank_size c \<Longrightarrow> \<sigma> p < rank_size c"
    and indices: "\<And>p t i. p < rank_size c \<Longrightarrow> t < rk_threads c \<Longrightarrow> i < rk_items c \<Longrightarrow> rank_position c t i = \<sigma> p \<Longrightarrow> (indices ! i) t = int p"
    and ranks: "\<And>t i. t < rk_threads c \<Longrightarrow> i < rk_items c \<Longrightarrow> (ranks ! i) t = int (r (rank_position c t i))"
    and bound: "\<And>p. p < rank_size c \<Longrightarrow> r p < rank_size c" and p: "p < rank_size c"
  shows "st_indices (inverse_ranks c indices ranks st) p = int (r (\<sigma> p))"
proof -
  let ?N = "rank_size c"
  define \<tau> where "\<tau> = the_inv_into {..<?N} \<sigma>"
  have img: "\<sigma> ` {..<?N} = {..<?N}" using inj bij by (intro endo_inj_surj) auto
  have left: "\<tau> (\<sigma> q) = q" if "q < ?N" for q unfolding \<tau>_def using inj that by (intro the_inv_into_f_f) auto
  have right: "\<sigma> (\<tau> q) = q" "\<tau> q < ?N" if "q < ?N" for q
  proof -
    have q: "q \<in> \<sigma> ` {..<?N}" using that img by simp
    show "\<sigma> (\<tau> q) = q" "\<tau> q < ?N"
      using f_the_inv_into_f [OF inj q] the_inv_into_into [OF inj q order_refl] by (simp_all add: \<tau>_def)
  qed
  have inj': "inj_on \<tau> {..<?N}" using right(1) by (intro inj_onI) (metis lessThan_iff)
  have ix: "nat ((indices ! i) t) = \<tau> (rank_position c t i)" if ti: "t < rk_threads c" "i < rk_items c" for t i
    using indices [OF right(2) ti] right(1) rank_position_bound [OF ok ti] by simp
  have "st_indices (inverse_ranks c indices ranks st) (\<tau> (\<sigma> p)) = index_wrap (rk_threads c) (rk_items c) (int (r (\<sigma> p)))"
    unfolding inverse_ranks_def
    by (simp, rule scatter_positions [OF ok inj' bij [OF p], where g = "\<lambda>p. index_wrap (rk_threads c) (rk_items c) (int (r p))"])
      (simp_all add: ix ranks)
  moreover have "rank_size c < 2 ^ 31" using ok unfolding rank_ok_def by blast
  ultimately show ?thesis using left [OF p] index_wrap_small [OF bound [OF bij [OF p]]] by simp
qed

context rank_scan
begin

lemma rank_step_correct:
  assumes legal and ok: "rank_ok c warps" and c: "rk_threads c = threads" "rk_scan c = scan" "rk_exclusive c = exclusive"
    and law: "shuffle_law (lane_src (rk_target c))" "fair threads sched"
    and e: "rank_end_bit c a = Inr e" and items: "keys_ok c a items" and none: "ra_extractor a = None"
    and low: "low = b + pass * rank_width c a e" "low < e" "b = nat (ra_begin_bit a)"
    and inv: "ranks_are c (passes_key (ra_descending a) b low) (ordered_keys c items) original"
  shows "\<exists>original' calls' st'. rank_step c a sched e items (pass, low) (original, calls, st) = Inr (original', calls', st')
    \<and> ranks_are c (passes_key (ra_descending a) b (min e (low + rank_width c a e))) (ordered_keys c items) original'"
proof -
  let ?xs = "ordered_keys c items" and ?N = "rank_size c" and ?desc = "ra_descending a"
  let ?lo = "passes_key ?desc b low"
  define bits where "bits = min (rank_width c a e) (e - low)"
  let ?DK = "digit_key ?desc (2 ^ bits)"
  define \<sigma> where "\<sigma> = stable_rank ?lo ?xs"
  have bij: "\<sigma> p < ?N" if "p < ?N" for p using sort_key_nth_rank(2) [of p ?xs ?lo] that by (simp add: \<sigma>_def)
  have inj: "inj_on \<sigma> {..<?N}" unfolding \<sigma>_def using stable_rank_inj [of _ ?xs _ ?lo] by (intro inj_onI) simp
  have first: "\<sigma> p = p" if "pass = 0" "p < ?N" for p
  proof -
    have "?lo = (\<lambda>_. passes_key ?desc b b 0)" using that(1) low(1) by (simp add: fun_eq_iff passes_key_def digit_key_def)
    then show ?thesis unfolding \<sigma>_def using stable_rank_const [of p ?xs] that(2) by simp
  qed
  have orig: "(original ! i) t = int (\<sigma> (rank_position c t i))" if "t < threads" "i < rk_items c" for t i
    using inv that c(1) by (simp add: ranks_are_def \<sigma>_def)
  have nx: "ra_extractor a \<noteq> None \<longrightarrow> bits = nat (the (ra_radix_bits a))" using none by simp
  have all: "\<forall>p < ?N. \<sigma> p < ?N" "pass = 0 \<longrightarrow> (\<forall>p < ?N. \<sigma> p = p)"
    "\<forall>t < threads. \<forall>i < rk_items c. (original ! i) t = int (\<sigma> (rank_position c t i))" using bij first orig by blast+
  obtain ranks indices counts st1 ys where r: "rank_pass c a sched e items pass low (original, calls, st)
      = Inr (ranks, output_prefix (2 ^ bits) ((2 ^ bits + threads - 1) div threads) (st_prefix st1), indices,
          if ra_callback a then calls @ [counts] else calls, st1)"
    "length ys = ?N" "\<forall>p < ?N. ys ! \<sigma> p = key_digit a low bits (?xs ! p)"
    "\<forall>t < threads. \<forall>i < rk_items c. (ranks ! i) t = int (stable_rank ?DK ys (rank_position c t i))"
    "\<forall>p < ?N. \<forall>t < threads. \<forall>i < rk_items c. rank_position c t i = \<sigma> p \<longrightarrow> (indices ! i) t = int p"
    using rank_pass_correct [OF \<open>legal\<close> ok c law e items bits_def nx inj all, where calls = calls and st = st]
    by (elim exE conjE) (rule that)
  define st2 where "st2 = inverse_ranks c indices ranks st1"
  have ybound: "stable_rank ?DK ys p < ?N" if "p < ?N" for p using sort_key_nth_rank(2) [of p ys] that r(2) by simp
  have mem: "st_indices st2 p = int (stable_rank ?DK ys (\<sigma> p))" if p: "p < ?N" for p
    unfolding st2_def by (rule inverse_ranks_correct [OF ok inj bij _ _ ybound p]) (use r(4,5) c(1) in blast)+
  have "stable_rank ?DK ys (\<sigma> p) = stable_rank (passes_key ?desc b (min e (low + rank_width c a e))) ?xs p" if p: "p < ?N" for p
  proof -
    let ?hi = "\<lambda>key. ?DK (take_bit bits (drop_bit low key))"
    have "stable_rank ?DK ys (\<sigma> p) = stable_rank id (map ?DK ys) (\<sigma> p)"
      using stable_rank_map [of "\<sigma> p" ys id ?DK] bij [OF p] r(2) by simp
    also have "\<dots> = stable_rank (\<lambda>x. ?hi x * 2 ^ (low - b) + ?lo x) ?xs p"
      unfolding \<sigma>_def
      by (rule stable_rank_compose)
        (use r(2,3) bij p none in \<open>auto simp: key_digit_def \<sigma>_def [symmetric] passes_key_bound\<close>)
    also have "(\<lambda>x. ?hi x * 2 ^ (low - b) + ?lo x) = passes_key ?desc b (low + bits)"
      using passes_key_step [of b low ?desc bits] low(1) by (simp add: fun_eq_iff)
    also have "low + bits = min e (low + rank_width c a e)" using low(2) by (simp add: bits_def)
    finally show ?thesis .
  qed
  then have "ranks_are c (passes_key ?desc b (min e (low + rank_width c a e))) ?xs (load_ordered c (st_indices st2))"
    using mem rank_position_bound [OF ok] by (simp add: ranks_are_def load_ordered_def shared_load_def)
  moreover have "rank_step c a sched e items (pass, low) (original, calls, st)
      = Inr (load_ordered c (st_indices st2), if ra_callback a then calls @ [counts] else calls, st2)"
    by (simp add: rank_step_def r(1) st2_def Let_def)
  ultimately show ?thesis by blast
qed

end

text \<open>The whole ranking.\<close>

lemma fold_res_map: "fold_res f (map g xs) s = fold_res (f \<circ> g) xs s"
proof (induction xs arbitrary: s)
  case (Cons x xs)
  then show ?case by (cases "f (g x) s") simp_all
qed simp

lemma enumerate_map_upt: "enumerate 0 (map f [0..<n]) = map (\<lambda>k. (k, f k)) [0..<n]"
  by (simp add: enumerate_eq_zip zip_map2 map_zip_map2 zip_same_conv_map)

definition starts_are :: "rank_class \<Rightarrow> bool \<Rightarrow> nat \<Rightarrow> nat list \<Rightarrow> int lanes list \<Rightarrow> bool" where
  "starts_are c descending bins ds prefix \<longleftrightarrow> (let tracked = (bins + rk_threads c - 1) div rk_threads c in
     length prefix = tracked \<and> (\<forall>t i. i < tracked \<longrightarrow>
       (prefix ! i) t = digit_start descending (\<lambda>p. ds ! p) (length ds) ((t * tracked + i) mod bins)))"

definition counts_are :: "rank_class \<Rightarrow> nat \<Rightarrow> nat list \<Rightarrow> int lanes list \<Rightarrow> bool" where
  "counts_are c bins ds counts \<longleftrightarrow> (let tracked = (bins + rk_threads c - 1) div rk_threads c in
     length counts = tracked \<and> (\<forall>t i. i < tracked \<longrightarrow>
       (counts ! i) t = (if t * tracked + i < bins then int (count_list ds (t * tracked + i)) else 0)))"


lemma cnt_count_list: "cnt (\<lambda>p. ds ! p) v 0 (length ds) = count_list ds v"
proof -
  have "cnt (\<lambda>p. ds ! p) v 0 (length ds) = length (filter (\<lambda>d. d = v) (map (\<lambda>p. ds ! p) [0..<length ds]))"
    by (simp add: cnt_def filter_map comp_def)
  also have "\<dots> = length (filter (\<lambda>d. d = v) ds)" by (simp only: map_nth)
  also have "\<dots> = count_list ds v" by (induction ds) auto
  finally show ?thesis .
qed

lemma rank_passes_cases:
  assumes e: "rank_end_bit c a = Inr e" and r: "1 \<le> rk_radix_bits c"
  defines "w \<equiv> rank_width c a e" and "b \<equiv> nat (ra_begin_bit a)"
  shows "length (rank_passes c a e) = 1 \<Longrightarrow> rank_passes c a e = [b] \<and> e - b \<le> w"
    "length (rank_passes c a e) \<noteq> 1 \<Longrightarrow> rank_passes c a e = map (\<lambda>k. b + k * w) [0..<(e - b + w - 1) div w]
      \<and> e \<le> b + (e - b + w - 1) div w * w \<and> ra_extractor a = None"
proof -
  have w: "0 < w" using rank_width_bounds [OF e r] by (simp add: w_def)
  let ?K = "(e - b + w - 1) div w"
  have bits: "sort_bits b e w = map (\<lambda>k. b + k * w) [0..<?K]" by (simp add: sort_bits_def)
  have "e - b + w - 1 < Suc ?K * w" using w dividend_less_div_times [of w "e - b + w - 1"] by simp
  then have K: "e - b \<le> ?K * w" using w by simp
  have p: "rank_passes c a e = (if ?K = 0 then [b] else map (\<lambda>k. b + k * w) [0..<?K])"
    by (simp add: rank_passes_def Let_def w_def [symmetric] b_def [symmetric] bits)
  show "rank_passes c a e = [b] \<and> e - b \<le> w" if "length (rank_passes c a e) = 1"
  proof -
    have "?K = 0 \<or> ?K = 1" using that unfolding p by (simp split: if_splits)
    then show ?thesis
    proof
      assume "?K = 0"
      then show ?thesis using K unfolding p by simp
    next
      assume one: "?K = 1"
      then show ?thesis using K unfolding p one by simp
    qed
  qed
  show "rank_passes c a e = map (\<lambda>k. b + k * w) [0..<?K] \<and> e \<le> b + ?K * w \<and> ra_extractor a = None"
    if many: "length (rank_passes c a e) \<noteq> 1"
  proof -
    have "?K \<noteq> 1" "?K \<noteq> 0" using many unfolding p by (auto split: if_splits)
    moreover have "?K = 1" if h: "ra_extractor a = Some ex" for ex
    proof -
      obtain x where x: "ra_radix_bits a = Some x" "e = b + nat x" using rank_end_bit_Inr(5) [OF e h] unfolding b_def by blast
      then have "w = nat x" by (simp add: w_def rank_width_def)
      then have s: "e - b + w - 1 = (w - 1) + w" using x(2) w by simp
      have "(w - 1 + w) div w = (w - 1) div w + 1" by (rule div_add_self2) (use w in simp)
      then show ?thesis unfolding s using w by simp
    qed
    ultimately show ?thesis unfolding p using K by (cases "ra_extractor a") auto
  qed
qed

context rank_scan
begin

lemma radix_rank_correct:
  assumes legal and ok: "rank_ok c warps" and c: "rk_threads c = threads" "rk_scan c = scan" "rk_exclusive c = exclusive"
    and law: "shuffle_law (lane_src (rk_target c))" "fair threads sched"
    and e: "rank_end_bit c a = Inr e" and items: "keys_ok c a (as_items keys)"
    and single: "ra_with_prefix a \<Longrightarrow> length (rank_passes c a e) = 1"
  defines "ds \<equiv> map (key_digit a (nat (ra_begin_bit a)) (e - nat (ra_begin_bit a))) (ordered_keys c (as_items keys))"
    and "bins \<equiv> 2 ^ (e - nat (ra_begin_bit a))"
  shows "\<exists>ranks prefix calls. radix_rank (Some c) a sched keys st = Inr (pack_tile keys ranks, prefix, calls)
    \<and> ranks_are c (rank_value a e) (ordered_keys c (as_items keys)) ranks
    \<and> (ra_with_prefix a \<longrightarrow> (\<exists>starts. prefix = Some starts \<and> starts_are c (ra_descending a) bins ds starts))
    \<and> (ra_callback a \<and> length (rank_passes c a e) = 1 \<longrightarrow> (\<exists>counts. calls = [counts] \<and> counts_are c bins ds counts))"
proof -
  let ?items = "as_items keys" and ?N = "rank_size c" and ?desc = "ra_descending a"
  let ?xs = "ordered_keys c ?items"
  define b where "b = nat (ra_begin_bit a)"
  define w where "w = rank_width c a e"
  define positions where "positions = map (\<lambda>i t. int (rank_position c t i)) [0..<rk_items c]"
  have r: "1 \<le> rk_radix_bits c" using ok by (simp add: rank_ok_def)
  note passes = rank_passes_cases [OF e r, folded b_def w_def]
  have n: "length ?items = rk_items c" using items by (simp add: keys_ok_def)
  have at: "(positions ! i) t = int (rank_position c t i)" if "i < rk_items c" for t i using that by (simp add: positions_def)
  show ?thesis
  proof (cases "length (rank_passes c a e) = 1")
    case True
    have p: "rank_passes c a e = [b]" and le: "e - b \<le> w" using passes(1) [OF True] by simp_all
    have bits: "e - b = min (rank_width c a e) (e - b)" using le by (simp add: w_def)
    have ex: "ra_extractor a \<noteq> None \<longrightarrow> e - b = nat (the (ra_radix_bits a))"
      using rank_end_bit_Inr(5) [OF e] unfolding b_def by fastforce
    have id: "inj_on (\<lambda>p. p) {..<?N}" "\<forall>p < ?N. p < ?N" "(0 :: nat) = 0 \<longrightarrow> (\<forall>p < ?N. p = p)"
      "\<forall>t < threads. \<forall>i < rk_items c. (positions ! i) t = int (rank_position c t i)" using at by simp_all
    obtain ranks indices counts st1 ys where run: "rank_pass c a sched e ?items 0 b (positions, [], st)
      = Inr (ranks, output_prefix (2 ^ (e - b)) ((2 ^ (e - b) + threads - 1) div threads) (st_prefix st1), indices,
          if ra_callback a then [] @ [counts] else [], st1)"
      and ys: "length ys = ?N" "\<forall>p < ?N. ys ! p = key_digit a b (e - b) (?xs ! p)" "length ranks = rk_items c"
      and rk: "\<forall>t < threads. \<forall>i < rk_items c. (ranks ! i) t = int (stable_rank (digit_key ?desc (2 ^ (e - b))) ys (rank_position c t i))"
      and starts: "\<forall>v < 2 ^ (e - b). st_prefix st1 v = digit_start ?desc (\<lambda>p. ys ! p) ?N v"
      and counts: "matching c \<longrightarrow> length counts = (2 ^ (e - b) + threads - 1) div threads \<and> (\<forall>t i. i < (2 ^ (e - b) + threads - 1) div threads \<longrightarrow>
        (counts ! i) t = (if t * ((2 ^ (e - b) + threads - 1) div threads) + i < 2 ^ (e - b)
          then int (cnt (\<lambda>p. ys ! p) (t * ((2 ^ (e - b) + threads - 1) div threads) + i) 0 ?N) else 0))"
      using rank_pass_correct [OF \<open>legal\<close> ok c law e items bits ex id, where calls = "[]" and st = st]
      by (elim exE conjE) (rule that)
    have ds: "ys = ds" by (rule nth_equalityI) (simp_all add: ys ds_def b_def [symmetric])
    have len: "length ds = ?N" by (simp add: ds_def)
    have bn: "bins = 2 ^ (e - b)" by (simp add: bins_def b_def)
    have ra: "ranks_are c (rank_value a e) ?xs ranks"
    proof -
      have "stable_rank (digit_key ?desc (2 ^ (e - b))) ds q = stable_rank (rank_value a e) ?xs q" if "q < ?N" for q
      proof -
        have rv: "rank_value a e = (\<lambda>key. digit_key ?desc (2 ^ (e - b)) (key_digit a b (e - b) key))"
          by (simp add: fun_eq_iff rank_value_def b_def)
        show ?thesis unfolding rv ds_def b_def [symmetric] by (rule stable_rank_map [symmetric]) (simp add: that)
      qed
      then show ?thesis using rk ys(3) rank_position_bound [OF ok] c(1) by (simp add: ranks_are_def ds)
    qed
    have sa: "starts_are c ?desc bins ds (output_prefix (2 ^ (e - b)) ((2 ^ (e - b) + threads - 1) div threads) (st_prefix st1))"
      using starts by (simp add: starts_are_def output_prefix_def Let_def c(1) bn len ds shared_load_def)
    have ca: "counts_are c bins ds counts" if "ra_callback a"
    proof -
      have "matching c" using e that unfolding rank_end_bit_def by (auto simp: rbind_Inr_iff)
      then show ?thesis using counts cnt_count_list [of ds] by (simp add: counts_are_def Let_def c(1) bn ds len)
    qed
    have "radix_rank (Some c) a sched keys st = Inr (pack_tile keys ranks,
        if ra_with_prefix a then Some (output_prefix (2 ^ (e - b)) ((2 ^ (e - b) + threads - 1) div threads) (st_prefix st1)) else None,
        if ra_callback a then [counts] else [])"
      using run by (simp add: radix_rank_def n e p positions_def Let_def)
    then show ?thesis using ra sa ca by auto
  next
    case False
    let ?K = "(e - b + w - 1) div w"
    have p: "rank_passes c a e = map (\<lambda>k. b + k * w) [0..<?K]" and K: "e \<le> b + ?K * w" and none: "ra_extractor a = None"
      using passes(2) [OF False] by simp_all
    define I where "I = (\<lambda>k (state :: rank_state). ranks_are c (passes_key ?desc b (min e (b + k * w))) ?xs (fst state))"
    have be: "b \<le> e" using rank_end_bit_Inr(2) [OF e] by (simp add: b_def)
    have w: "0 < w" using rank_width_bounds [OF e r] by (simp add: w_def)
    have "I 0 (positions, [], st)"
    proof -
      have "passes_key ?desc b b = (\<lambda>_. passes_key ?desc b b 0)" by (simp add: fun_eq_iff passes_key_def digit_key_def)
      then have "stable_rank (passes_key ?desc b b) ?xs q = q" if "q < ?N" for q
        using stable_rank_const [of q ?xs "passes_key ?desc b b 0"] that by simp
      moreover have "length positions = rk_items c" by (simp add: positions_def)
      ultimately show ?thesis
        unfolding I_def ranks_are_def using at rank_position_bound [OF ok] be by (simp add: min_absorb2)
    qed
    moreover have "\<exists>s'. (rank_step c a sched e ?items \<circ> (\<lambda>k. (k, b + k * w))) k s = Inr s' \<and> I (Suc k) s'"
      if k: "k < ?K" and i: "I k s" for k s
    proof -
      obtain original calls st0 where s: "s = (original, calls, st0)" by (cases s) auto
      have "Suc k * w \<le> ?K * w" using k by (intro mult_right_mono) simp_all
      also have "\<dots> \<le> e - b + w - 1" by simp
      finally have lt: "b + k * w < e" using w by simp
      have low: "b + k * w = b + k * rank_width c a e" "b = nat (ra_begin_bit a)" by (simp_all add: w_def b_def)
      have "ranks_are c (passes_key ?desc b (b + k * w)) ?xs original" using i lt by (simp add: I_def s)
      then obtain original' calls' st' where "rank_step c a sched e ?items (k, b + k * w) (original, calls, st0) = Inr (original', calls', st')"
        "ranks_are c (passes_key ?desc b (min e (b + k * w + w))) ?xs original'"
        using rank_step_correct [OF \<open>legal\<close> ok c law e items none low(1) lt low(2), of original calls st0] unfolding w_def by blast
      then show ?thesis by (simp add: s I_def ac_simps)
    qed
    ultimately obtain s' where fin: "fold_res (rank_step c a sched e ?items \<circ> (\<lambda>k. (k, b + k * w))) [0..<?K] (positions, [], st) = Inr s'" "I ?K s'"
      using fold_res_upt [of ?K I] by blast
    obtain original calls st' where s': "s' = (original, calls, st')" by (cases s') auto
    have np: "\<not> ra_with_prefix a" using single False by blast
    have "radix_rank (Some c) a sched keys st = Inr (pack_tile keys original, None, calls)"
      using fin(1) False np unfolding s' radix_rank_def option.case n e Let_def positions_def [symmetric]
      by (simp add: p enumerate_map_upt fold_res_map)
    moreover have "rank_value a e = passes_key ?desc b e"
      by (simp add: fun_eq_iff rank_value_def passes_key_def key_digit_def none b_def)
    then have "ranks_are c (rank_value a e) ?xs original" using fin(2) K by (simp add: I_def s' min_absorb1)
    ultimately show ?thesis using np False by auto
  qed
qed

end


section \<open>Both providers\<close>

definition counter_exclusive :: "int block_scan_class \<Rightarrow> int scan_storage \<Rightarrow> int lanes tile \<Rightarrow> int lanes tile res" where
  "counter_exclusive c st tile = block_exclusive c (Builtin ADD) st None None None None tile"

lemma counter_exclusive_sums: "counter_scan c st tile = Inr (out, aggregate) \<Longrightarrow> counter_exclusive c st tile = Inr out"
  by (simp add: counter_scan_def counter_exclusive_def block_exclusive_def block_exclusive_with_aggregate_def)

interpretation portable_ranks: rank_scan "portable_legal tg int32 w nw" "w * nw"
  "counter_scan (portable_scan_class tg int32 alg w nw) st" "counter_exclusive (portable_scan_class tg int32 alg w nw) st"
  by unfold_locales (rule counter_exclusive_sums)

interpretation rocdl_ranks: rank_scan "rocdl_legal tg int32 w nw" "w * nw"
  "counter_scan (rocdl_scan_class tg int32 alg w nw) st" "counter_exclusive (rocdl_scan_class tg int32 alg w nw) st"
  by unfold_locales (rule counter_exclusive_sums)

definition rank_provider :: "rank_class \<Rightarrow> bool" where
  "rank_provider c \<longleftrightarrow> (\<exists>tg alg w nw st. rk_threads c = w * nw
     \<and> (portable_legal tg int32 w nw \<and> rk_scan c = counter_scan (portable_scan_class tg int32 alg w nw) st
          \<and> rk_exclusive c = counter_exclusive (portable_scan_class tg int32 alg w nw) st))
   \<or> (\<exists>tg alg w nw st. rk_threads c = w * nw
     \<and> (rocdl_legal tg int32 w nw \<and> rk_scan c = counter_scan (rocdl_scan_class tg int32 alg w nw) st
          \<and> rk_exclusive c = counter_exclusive (rocdl_scan_class tg int32 alg w nw) st))"

definition ordered_digits :: "rank_class \<Rightarrow> rank_args \<Rightarrow> nat \<Rightarrow> nat lanes list \<Rightarrow> nat list" where
  "ordered_digits c a e items = map (key_digit a (nat (ra_begin_bit a)) (e - nat (ra_begin_bit a))) (ordered_keys c items)"

definition digit_bins :: "rank_args \<Rightarrow> nat \<Rightarrow> nat" where
  "digit_bins a e = 2 ^ (e - nat (ra_begin_bit a))"

text \<open>
  C8: \<open>BlockRadixRank\<close>, with every algorithm and on either provider of warp operations, gives every
  thread the stable ranks of its items among the block's, by the bits \<open>[begin_bit, end_bit)\<close> or the
  extracted digit, in however many passes; whatever the order of the atomic operations. With
  \<open>with_prefix\<close> it returns where every digit starts, and a callback is given how often each occurs.
\<close>

theorem radix_rank_ranks:
  assumes "rank_provider c" "rank_ok c warps"
    and "shuffle_law (lane_src (rk_target c))" "fair (rk_threads c) sched"
    and "rank_end_bit c a = Inr e" "keys_ok c a (as_items keys)"
    and "ra_with_prefix a \<longrightarrow> length (rank_passes c a e) = 1"
  shows "\<exists>ranks prefix calls. radix_rank (Some c) a sched keys st = Inr (pack_tile keys ranks, prefix, calls)
    \<and> ranks_are c (rank_value a e) (ordered_keys c (as_items keys)) ranks
    \<and> (ra_with_prefix a \<longrightarrow> (\<exists>starts. prefix = Some starts
        \<and> starts_are c (ra_descending a) (digit_bins a e) (ordered_digits c a e (as_items keys)) starts))
    \<and> (ra_callback a \<and> length (rank_passes c a e) = 1 \<longrightarrow> (\<exists>counts. calls = [counts]
        \<and> counts_are c (digit_bins a e) (ordered_digits c a e (as_items keys)) counts))"
  using assms(1) [unfolded rank_provider_def]
proof (elim disjE exE conjE)
  fix tg alg w nw sst
  assume p: "rk_threads c = w * nw" "portable_legal tg int32 w nw"
    "rk_scan c = counter_scan (portable_scan_class tg int32 alg w nw) sst"
    "rk_exclusive c = counter_exclusive (portable_scan_class tg int32 alg w nw) sst"
  show ?thesis unfolding ordered_digits_def digit_bins_def
    by (rule portable_ranks.radix_rank_correct [OF p(2) assms(2) p(1,3,4) assms(3) assms(4) [unfolded p(1)] assms(5,6) mp [OF assms(7)]])
next
  fix tg alg w nw sst
  assume p: "rk_threads c = w * nw" "rocdl_legal tg int32 w nw"
    "rk_scan c = counter_scan (rocdl_scan_class tg int32 alg w nw) sst"
    "rk_exclusive c = counter_exclusive (rocdl_scan_class tg int32 alg w nw) sst"
  show ?thesis unfolding ordered_digits_def digit_bins_def
    by (rule rocdl_ranks.radix_rank_correct [OF p(2) assms(2) p(1,3,4) assms(3) assms(4) [unfolded p(1)] assms(5,6) mp [OF assms(7)]])
qed

definition demo_rank :: rank_class where
  "demo_rank = \<lparr>rk_target = demo_target, rk_threads = 12, rk_warp = 4, rk_items = 2, rk_field = Some uint8_field, rk_radix_bits = 4,
     rk_algorithm = MATCH_EARLY_COUNTS_ATOMIC_OR,
     rk_scan = counter_scan (portable_scan_class demo_target int32 RAKING 4 3) demo_storage,
     rk_exclusive = counter_exclusive (portable_scan_class demo_target int32 RAKING 4 3) demo_storage\<rparr>"

definition demo_rank_args :: rank_args where
  "demo_rank_args = \<lparr>ra_descending = True, ra_begin_bit = 0, ra_end_bit = None, ra_extractor = None, ra_radix_bits = None,
     ra_callback = False, ra_with_prefix = False\<rparr>"

definition demo_ranked :: "nat lanes list" where
  "demo_ranked = [\<lambda>t. (t * 37) mod 256, \<lambda>t. (t * 50) mod 256]"

lemma demo_ordered: "ordered_keys demo_rank demo_ranked = [0, 37, 74, 111, 0, 50, 100, 150, 148, 185, 222, 3, 200, 250, 44, 94, 40, 77, 114, 151, 144, 194, 244, 38]"
  by (simp add: rank_order_def matching_def demo_rank_def demo_ranked_def match_item_def upt_conv_Cons)

lemma demo_rank_value: "rank_value demo_rank_args 8 = (\<lambda>key. 255 - key mod 256)"
  by (simp add: fun_eq_iff rank_value_def digit_key_def key_digit_def demo_rank_args_def take_bit_eq_mod)

definition demo_rank_storage :: rank_storage where
  "demo_rank_storage = \<lparr>st_histogram = \<lambda>_. 9, st_offsets = \<lambda>_. 9, st_counts = \<lambda>_. 9, st_prefix = \<lambda>_. 9, st_masks = \<lambda>_. 9,
     st_digits = \<lambda>_. 9, st_indices = \<lambda>_. 9\<rparr>"

theorem radix_rank_ranks_witness:
  "\<exists>ranks calls. radix_rank (Some demo_rank) demo_rank_args (\<lambda>_ W. concat (map W [0..<12])) (Items demo_ranked) demo_rank_storage
      = Inr (Items ranks, None, calls)
    \<and> map (ranks ! 0) [0..<12] = [22, 20, 15, 11, 8, 5, 2, 21, 18, 14, 10, 6]
    \<and> map (ranks ! 1) [0..<12] = [23, 16, 12, 7, 3, 0, 17, 13, 9, 4, 1, 19]"
proof -
  let ?sched = "\<lambda>_ W. concat (map W [0..<12]) :: (nat \<times> nat) list"
  let ?r = "stable_rank (\<lambda>key :: nat. 255 - key mod 256) [0, 37, 74, 111, 0, 50, 100, 150, 148, 185, 222, 3, 200, 250, 44, 94, 40, 77, 114, 151, 144, 194, 244, 38]"
  have provider: "rank_provider demo_rank"
    unfolding rank_provider_def using demo_legal
    by (intro disjI1 exI [of _ demo_target] exI [of _ RAKING] exI [of _ 4] exI [of _ 3] exI [of _ demo_storage]) (simp add: demo_rank_def)
  have ok: "rank_ok demo_rank 3" by (simp add: rank_ok_def demo_rank_def)
  have law: "shuffle_law (lane_src (rk_target demo_rank))" "fair (rk_threads demo_rank) ?sched"
    by (simp_all add: demo_rank_def fair_def interleaving_seq)
  have e: "rank_end_bit demo_rank demo_rank_args = Inr 8"
    by (simp add: rank_end_bit_def demo_rank_def demo_rank_args_def bit_range_def uint8_field_def)
  have keys: "keys_ok demo_rank demo_rank_args (as_items (Items demo_ranked))"
    by (auto simp: keys_ok_def demo_rank_def demo_rank_args_def demo_ranked_def uint8_field_def nth_Cons')
  have "\<exists>ranks prefix calls. radix_rank (Some demo_rank) demo_rank_args ?sched (Items demo_ranked) demo_rank_storage = Inr (pack_tile (Items demo_ranked) ranks, prefix, calls)
    \<and> ranks_are demo_rank (rank_value demo_rank_args 8) (ordered_keys demo_rank demo_ranked) ranks"
    using radix_rank_ranks [OF provider ok law e keys, of demo_rank_storage] by (auto simp: demo_rank_args_def)
  then obtain ranks prefix calls where r: "radix_rank (Some demo_rank) demo_rank_args ?sched (Items demo_ranked) demo_rank_storage = Inr (Items ranks, prefix, calls)"
    "ranks_are demo_rank (rank_value demo_rank_args 8) (ordered_keys demo_rank demo_ranked) ranks"
    by (auto simp: pack_tile_def)
  have none: "prefix = None"
    using r(1) by (auto simp: radix_rank_def demo_rank_args_def rbind_Inr_iff Let_def split: if_splits)
  have at: "(ranks ! i) t = int (?r (rank_position demo_rank t i))" if "t < 12" "i < 2" for t i
    using r(2) that unfolding demo_ordered demo_rank_value by (simp add: ranks_are_def demo_rank_def)
  have all: "map (ranks ! i) [0..<12] = map int (map ?r (map (\<lambda>t. rank_position demo_rank t i) [0..<12]))" if "i < 2" for i
    using at that by simp
  have pos: "map (\<lambda>t. rank_position demo_rank t 0) [0..<12] = [0, 1, 2, 3, 8, 9, 10, 11, 16, 17, 18, 19]"
    "map (\<lambda>t. rank_position demo_rank t 1) [0..<12] = [4, 5, 6, 7, 12, 13, 14, 15, 20, 21, 22, 23]"
    by (simp_all add: rank_position_def match_active_def matching_def demo_rank_def upt_conv_Cons)
  have m: "map (ranks ! 0) [0..<12] = map int (map ?r [0, 1, 2, 3, 8, 9, 10, 11, 16, 17, 18, 19])"
    "map (ranks ! 1) [0..<12] = map int (map ?r [4, 5, 6, 7, 12, 13, 14, 15, 20, 21, 22, 23])"
    using all [of 0] all [of 1] unfolding pos by simp_all
  have v: "map ?r [0, 1, 2, 3, 8, 9, 10, 11, 16, 17, 18, 19] = [22, 20, 15, 11, 8, 5, 2, 21, 18, 14, 10, 6]"
    "map ?r [4, 5, 6, 7, 12, 13, 14, 15, 20, 21, 22, 23] = [23, 16, 12, 7, 3, 0, 17, 13, 9, 4, 1, 19]" by code_simp+
  show ?thesis using r(1) m unfolding v none by auto
qed

end
