(* ===== verification/Warp_Batched.thy ===== *)
theory Warp_Batched
  imports Warp_Reduce
begin

text \<open>
  Batched warp reductions (\<open>coop/warp/reduce_batched.py\<close>): one reduction for every item of the lanes.
  Each round of the tree exchanges half of the batches for the other half of the lanes, so the results
  end spread over the lanes.
\<close>

section \<open>Definitions\<close>

datatype output_layout = To_scalar | To_blocked | To_striped

text \<open>The batch at a base (\<open>batch\<close> in the source).\<close>

definition batch_at :: "output_layout \<Rightarrow> nat \<Rightarrow> nat \<Rightarrow> nat \<Rightarrow> nat" where
  "batch_at layout w columns base = (if layout = To_blocked then base div w + (base mod w) * columns else base)"

text \<open>\<open>batch_tree \<dots> k base\<close> is the source's \<open>_tree(base, 2 ** k)\<close>; \<open>sw\<close> is the width of its shuffles.\<close>

primrec batch_tree ::
  "target \<Rightarrow> 'a dtype \<Rightarrow> 'a operator \<Rightarrow> output_layout \<Rightarrow> nat \<Rightarrow> nat \<Rightarrow> 'a lanes list \<Rightarrow> nat \<Rightarrow> nat \<Rightarrow> 'a lanes" where
  "batch_tree tg d op layout w sw items 0 base =
     (let batch = batch_at layout w ((length items + w - 1) div w) base
      in if batch \<ge> length items then last items else items ! batch)"
| "batch_tree tg d op layout w sw items (Suc k) base =
     (let batch = batch_at layout w ((length items + w - 1) div w) base
      in if batch \<ge> length items then last items
         else
           let stride = 2 ^ k;
               left = batch_tree tg d op layout w sw items k base;
               right = batch_tree tg d op layout w sw items k (base + stride);
               is_left = (\<lambda>l. l mod w mod (2 * stride) < stride);
               kept = select_value is_left left right;
               exchanged = shuffle_value tg d (select_value is_left right left) (\<lambda>_. int stride) sw Xor
           in (\<lambda>l. combine d op (select_value is_left kept exchanged l) (select_value is_left exchanged kept l)))"

definition reduce_batched ::
  "target \<Rightarrow> 'a dtype \<Rightarrow> 'a operator \<Rightarrow> output_layout \<Rightarrow> bool \<Rightarrow> int option \<Rightarrow> 'a lanes tile \<Rightarrow> 'a lanes tile res" where
  "reduce_batched tg d op layout sync_physical_warp width value =
     rbind (resolve_warp_width tg width) (\<lambda>w.
       case value of Item _ \<Rightarrow> Inl TypeError
       | Items items \<Rightarrow>
         if layout = To_scalar \<and> \<not> (1 \<le> length items \<and> length items \<le> w) then Inl ValueError
         else if items = [] then Inr (Items [])
         else
           let columns = (length items + w - 1) div w;
               sw = (if sync_physical_warp then warp_size tg else w);
               outputs = map (\<lambda>slot. batch_tree tg d op layout w sw items (bit_length w - 1) (slot * w)) [0..<columns]
           in Inr (if layout = To_scalar then Item (outputs ! 0) else Items outputs))"

definition warp_reduce_batched ::
  "target \<Rightarrow> 'a dtype \<Rightarrow> 'a operator \<Rightarrow> int option \<Rightarrow> bool \<Rightarrow> 'a lanes tile \<Rightarrow> 'a lanes tile res" where
  "warp_reduce_batched tg d op width sync = reduce_batched tg d op To_scalar sync width"

definition warp_reduce_batched_to_blocked ::
  "target \<Rightarrow> 'a dtype \<Rightarrow> 'a operator \<Rightarrow> int option \<Rightarrow> bool \<Rightarrow> 'a lanes tile \<Rightarrow> 'a lanes tile res" where
  "warp_reduce_batched_to_blocked tg d op width sync = reduce_batched tg d op To_blocked sync width"

definition warp_reduce_batched_to_striped ::
  "target \<Rightarrow> 'a dtype \<Rightarrow> 'a operator \<Rightarrow> int option \<Rightarrow> bool \<Rightarrow> 'a lanes tile \<Rightarrow> 'a lanes tile res" where
  "warp_reduce_batched_to_striped tg d op width sync = reduce_batched tg d op To_striped sync width"

section \<open>The tree\<close>

lemma pow2_add_div:
  fixes w base r :: nat
  assumes "w = 2 ^ K" "k \<le> K" "2 ^ k dvd base" "r < 2 ^ k"
  shows "(base + r) div w = base div w" "(base + r) mod w = base mod w + r"
proof -
  obtain b where b: "w = 2 ^ k * b" using assms(1,2) le_imp_power_dvd dvdE by metis
  then have "2 ^ k dvd base mod w" using assms(3) by (simp add: dvd_mod_iff)
  then obtain a where a: "base mod w = 2 ^ k * a" ..
  have "base mod w < w" using assms(1) by simp
  then have "2 ^ k * a < 2 ^ k * b" using a b by simp
  then have "a < b" by simp
  then have "2 ^ k * (a + 1) \<le> 2 ^ k * b" by (intro mult_left_mono) simp_all
  then have "base mod w + 2 ^ k \<le> w" using a b by simp
  then have lt: "base mod w + r < w" using assms(4) by simp
  show "(base + r) div w = base div w" using group_add(1) [OF lt] .
  show "(base + r) mod w = base mod w + r" using group_add(2) [OF lt] .
qed

lemma batch_at_mono:
  fixes w base r :: nat
  assumes "w = 2 ^ K" "k \<le> K" "2 ^ k dvd base" "r < 2 ^ k"
  shows "batch_at layout w columns base \<le> batch_at layout w columns (base + r)"
  using pow2_add_div [OF assms] by (simp add: batch_at_def)

lemma xor_pow2_mod: "xor l (2 ^ k) mod 2 ^ k = l mod 2 ^ k" for l :: nat
proof (cases "odd (l div 2 ^ k)")
  case True
  then have "2 ^ k \<le> l" by (metis div_less even_zero linorder_not_less)
  then show ?thesis using True by (simp add: xor_pow2_nat le_mod_geq)
next
  case False
  then show ?thesis by (simp add: xor_pow2_nat)
qed


lemma batch_tree_correct:
  fixes d :: "'a dtype"
  assumes law: "shuffle_law (lane_src tg)" and f: "assoc_op (combine d op)" and w: "w = 2 ^ K"
    and sw: "is_pow2 sw" "w \<le> sw"
  defines "columns items \<equiv> (length items + w - 1) div w"
  shows "k \<le> K \<Longrightarrow> 2 ^ k dvd base \<Longrightarrow> batch_at layout w (columns items) (base + l mod 2 ^ k) < length items \<Longrightarrow>
    batch_tree tg d op layout w sw items k base l
      = block_fold (combine d op) (items ! batch_at layout w (columns items) (base + l mod 2 ^ k)) k (l div 2 ^ k)"
proof (induction k arbitrary: base l)
  case 0
  then show ?case by (simp add: block_fold_def columns_def Let_def)
next
  case (Suc k)
  let ?f = "combine d op" and ?s = "2 ^ k :: nat" and ?b = "\<lambda>base. batch_at layout w (columns items) base"
  let ?T = "batch_tree tg d op layout w sw items k" and ?q = "l div 2 ^ k"
  let ?left = "\<lambda>l :: nat. l mod w mod (2 * ?s) < ?s" and ?p = "xor l ?s"
  have k: "k < K" "k \<le> K" using Suc.prems(1) by simp_all
  have dvd: "?s dvd base" "?s dvd base + ?s"
    using Suc.prems(2) by (simp_all add: power_dvd_imp_le dvd_trans [OF le_imp_power_dvd [of k "Suc k"]])
  have half: "j mod 2 ^ Suc k = j mod ?s + (if even (j div ?s) then 0 else ?s)" for j :: nat
    using mod_mult2_eq [of j ?s 2] by (auto simp: mult.commute odd_iff_mod_2_eq_one even_iff_mod_2_eq_zero)
  have left: "?left j \<longleftrightarrow> even (j div ?s)" for j
  proof -
    have "2 ^ Suc k dvd w" unfolding w by (rule le_imp_power_dvd [OF Suc.prems(1)])
    then have "j mod w mod 2 ^ Suc k = j mod 2 ^ Suc k" by (rule mod_mod_cancel)
    then show ?thesis using half [of j] by simp
  qed
  have p: "?p mod ?s = l mod ?s" "even (?p div ?s) \<longleftrightarrow> odd ?q" by (simp_all add: xor_pow2_mod xor_pow2_div)
  have "?s < w" using k(1) by (simp add: w)
  then have move: "shuffle_value tg d v (\<lambda>_. 2 ^ k) sw Xor l = v ?p" for v :: "'a lanes"
    using shuffle_value_xor [OF law sw(1), of ?s d v l] sw(2) by simp
  have "?b base \<le> ?b (base + l mod 2 ^ Suc k)" by (rule batch_at_mono [OF w Suc.prems(1,2)]) simp
  then have open_batch: "?b base < length items" using Suc.prems(3) by simp
  have step: "batch_tree tg d op layout w sw items (Suc k) base l =
      (if even ?q then ?f (?T base l) (?T base ?p) else ?f (?T (base + ?s) ?p) (?T (base + ?s) l))"
    using open_batch left [of l] left [of ?p] p(2)
    by (simp add: Let_def columns_def move select_value_def)
  have read: "?T base' j = block_fold ?f (items ! ?b (base + l mod 2 ^ Suc k)) k (j div ?s)"
    if "j mod ?s = l mod ?s" "base' = base + (if even ?q then 0 else ?s)" for base' j
  proof -
    have e: "base' + j mod ?s = base + l mod 2 ^ Suc k" using that half [of l] by simp
    show ?thesis using Suc.IH [OF k(2), of base' j] dvd that Suc.prems(3) unfolding e by simp
  qed
  have q: "l div 2 ^ Suc k = ?q div 2" by (metis div_mult2_eq mult.commute power_Suc)
  show ?case
  proof (cases "even ?q")
    case True
    then have "?p div ?s = Suc ?q" "2 * (?q div 2) = ?q" by (simp_all add: xor_pow2_div)
    then show ?thesis unfolding step q block_fold_Suc [OF f] using True read [of l base] read [of ?p base] p(1) by simp
  next
    case False
    then have "?p div ?s = ?q - 1" "2 * (?q div 2) + 1 = ?q" "2 * (?q div 2) = ?q - 1" by (simp_all add: xor_pow2_div)
    then show ?thesis unfolding step q block_fold_Suc [OF f]
      using False read [of l "base + ?s"] read [of ?p "base + ?s"] p(1) by simp
  qed
qed


section \<open>Properties\<close>

text \<open>The batch whose result a lane finds in a slot of its outputs.\<close>

definition batch_of :: "output_layout \<Rightarrow> nat \<Rightarrow> nat \<Rightarrow> nat \<Rightarrow> nat \<Rightarrow> nat" where
  "batch_of layout w columns slot l = (if layout = To_blocked then l mod w * columns + slot else slot * w + l mod w)"

lemma batch_at_slot:
  assumes "0 < w"
  shows "batch_at layout w columns (slot * w + l mod w) = batch_of layout w columns slot l"
  using group_split [of "l mod w" w slot] assms by (simp add: batch_at_def batch_of_def add.commute)

definition batched_ok :: "'a dtype \<Rightarrow> 'a operator \<Rightarrow> output_layout \<Rightarrow> nat \<Rightarrow> 'a lanes list \<Rightarrow> 'a lanes list \<Rightarrow> bool" where
  "batched_ok d op layout w items outputs \<longleftrightarrow> (let columns = (length items + w - 1) div w in
     length outputs = columns \<and> (\<forall>slot < columns. \<forall>l. batch_of layout w columns slot l < length items
       \<longrightarrow> (outputs ! slot) l = group_fold (combine d op) (items ! batch_of layout w columns slot l) w l))"

lemma reduce_batched_correct:
  assumes law: "shuffle_law (lane_src tg)" "is_pow2 (warp_size tg)" and f: "assoc_op (combine d op)"
    and w: "resolve_warp_width tg width = Inr w"
    and items: "items \<noteq> []" "layout = To_scalar \<longrightarrow> length items \<le> w"
  shows "\<exists>outputs. reduce_batched tg d op layout sync width (Items items)
      = Inr (if layout = To_scalar then Item (outputs ! 0) else Items outputs) \<and> batched_ok d op layout w items outputs"
proof -
  have p: "is_pow2 w" "w \<le> warp_size tg" using resolve_warp_width_pow2 [OF w law(2)] by auto
  obtain K where K: "w = 2 ^ K" using p(1) by (auto simp: is_pow2_def)
  let ?columns = "(length items + w - 1) div w" and ?sw = "if sync then warp_size tg else w"
  let ?outputs = "map (\<lambda>slot. batch_tree tg d op layout w ?sw items (bit_length w - 1) (slot * w)) [0..<?columns]"
  have sw: "is_pow2 ?sw" "w \<le> ?sw" using p law(2) by simp_all
  have "batch_tree tg d op layout w ?sw items (bit_length w - 1) (slot * w) l
      = group_fold (combine d op) (items ! batch_of layout w ?columns slot l) w l"
    if b: "batch_of layout w ?columns slot l < length items" for slot l
  proof -
    have at: "batch_at layout w ?columns (slot * w + l mod 2 ^ K) = batch_of layout w ?columns slot l"
      using batch_at_slot [of w layout ?columns slot l] by (simp add: K)
    have "batch_tree tg d op layout w ?sw items K (slot * w) l
        = block_fold (combine d op) (items ! batch_at layout w ?columns (slot * w + l mod 2 ^ K)) K (l div 2 ^ K)"
      by (rule batch_tree_correct [OF law(1) f K sw order_refl]) (use b at K in simp_all)
    moreover have "block_fold (combine d op) v K (l div 2 ^ K) = group_fold (combine d op) v w l" for v
      by (simp add: block_fold_def group_fold_def group_base_def K)
    ultimately show ?thesis unfolding at by (simp add: K)
  qed
  then have "batched_ok d op layout w items ?outputs" by (simp add: batched_ok_def Let_def)
  moreover have "reduce_batched tg d op layout sync width (Items items)
      = Inr (if layout = To_scalar then Item (?outputs ! 0) else Items ?outputs)"
    using items w by (auto simp: reduce_batched_def Let_def Suc_le_eq)
  ultimately show ?thesis by blast
qed

text \<open>
  C40: the three batched reductions: with one to \<open>w\<close> items a lane gets the reduction of the item of its own
  rank; with any number of items, the results are spread over the lanes in blocked or in striped
  order. Every result is the ordered fold of that item over the lanes of the group, for any associative
  operator, with or without the synchronization of the physical warp. The wrong number of items and a
  single item are rejected.
\<close>

theorem batched_reductions:
  assumes "shuffle_law (lane_src tg)" "is_pow2 (warp_size tg)" "assoc_op (combine d op)"
    and "resolve_warp_width tg width = Inr w" "items \<noteq> []"
  shows "(if length items \<le> w
      then \<exists>out. warp_reduce_batched tg d op width sync (Items items) = Inr (Item out)
        \<and> (\<forall>l. l mod w < length items \<longrightarrow> out l = group_fold (combine d op) (items ! (l mod w)) w l)
      else warp_reduce_batched tg d op width sync (Items items) = Inl ValueError)
    \<and> (\<exists>outputs. warp_reduce_batched_to_blocked tg d op width sync (Items items) = Inr (Items outputs)
        \<and> batched_ok d op To_blocked w items outputs)
    \<and> (\<exists>outputs. warp_reduce_batched_to_striped tg d op width sync (Items items) = Inr (Items outputs)
        \<and> batched_ok d op To_striped w items outputs)
    \<and> warp_reduce_batched tg d op width sync (Item v) = Inl TypeError"
proof -
  note correct = reduce_batched_correct [OF assms(1-4) assms(5)]
  have "\<exists>out. warp_reduce_batched tg d op width sync (Items items) = Inr (Item out)
      \<and> (\<forall>l. l mod w < length items \<longrightarrow> out l = group_fold (combine d op) (items ! (l mod w)) w l)"
    if le: "length items \<le> w"
  proof -
    obtain outputs where o: "reduce_batched tg d op To_scalar sync width (Items items) = Inr (Item (outputs ! 0))"
      "batched_ok d op To_scalar w items outputs"
      using correct [of To_scalar sync] le by auto
    have pos: "0 < length items" using assms(5) by simp
    then have "0 < w" using le by (rule less_le_trans)
    then have "0 < (length items + w - 1) div w" using pos unfolding div_greater_zero_iff by linarith
    then have "(outputs ! 0) l = group_fold (combine d op) (items ! (l mod w)) w l" if "l mod w < length items" for l
      using o(2) that by (auto simp: batched_ok_def batch_of_def Let_def)
    then show ?thesis using o(1) by (auto simp: warp_reduce_batched_def)
  qed
  moreover have "warp_reduce_batched tg d op width sync (Items items) = Inl ValueError" if "\<not> length items \<le> w"
    using that assms(4) by (simp add: warp_reduce_batched_def reduce_batched_def)
  moreover have "warp_reduce_batched tg d op width sync (Item v) = Inl TypeError"
    using assms(4) by (simp add: warp_reduce_batched_def reduce_batched_def)
  moreover have "\<exists>outputs. warp_reduce_batched_to_blocked tg d op width sync (Items items) = Inr (Items outputs)
      \<and> batched_ok d op To_blocked w items outputs"
    using correct [of To_blocked sync] by (auto simp: warp_reduce_batched_to_blocked_def)
  moreover have "\<exists>outputs. warp_reduce_batched_to_striped tg d op width sync (Items items) = Inr (Items outputs)
      \<and> batched_ok d op To_striped w items outputs"
    using correct [of To_striped sync] by (auto simp: warp_reduce_batched_to_striped_def)
  ultimately show ?thesis by simp
qed

theorem batched_reductions_witness:
  "\<exists>out. warp_reduce_batched demo_target (num_dtype int32) (Builtin ADD) (Some 4) True
      (Items [int, \<lambda>l. 10 * int l, \<lambda>l. 100]) = Inr (Item out) \<and> out 5 = 220"
proof -
  let ?items = "[int, \<lambda>l. 10 * int l, \<lambda>l. 100]"
  obtain out where o: "warp_reduce_batched demo_target (num_dtype int32) (Builtin ADD) (Some 4) True (Items ?items) = Inr (Item out)"
    "\<forall>l. l mod 4 < 3 \<longrightarrow> out l = group_fold (num_combine int32 ADD) (?items ! (l mod 4)) 4 l"
    using batched_reductions [of demo_target "num_dtype int32" "Builtin ADD" "Some 4" 4 ?items True]
    by (auto simp: numeral_3_eq_3)
  have "group_fold (num_combine int32 ADD) (\<lambda>l. 10 * int l) 4 5 = 220" by code_simp
  then have "out 5 = 220" using spec [OF o(2), of 5] by simp
  then show ?thesis using o(1) by blast
qed

end
