(* ===== verification/Random_Words.thy ===== *)
theory Random_Words
  imports Coop_Common
begin

text \<open>
  Counter-based random numbers (\<open>python/flydsl/extension/random/universal.py\<close>): Philox on blocks of
  four 32-bit or 64-bit words, the draws at an offset, and the conversion of a word to a single
  precision number. Arguments are the integers the source's values stand for; \<open>Uint32(x)\<close> and
  \<open>Uint64(x)\<close> are \<open>word_of_int\<close>.
\<close>

unbundle bit_operations_syntax

section \<open>Definitions\<close>

type_synonym 'w block4 = "'w word \<times> 'w word \<times> 'w word \<times> 'w word"

datatype words4 = Words32 "32 block4" | Words64 "64 block4"

definition word_width :: "nat \<Rightarrow> nat res" where
  "word_width width = (if width = 32 \<or> width = 64 then Inr width else Inl NotImplementedError)"

text \<open>An offset is a value with the width of its type.\<close>

definition offset_words :: "nat \<times> int \<Rightarrow> 32 word \<times> 32 word" where
  "offset_words offset = (let (width, value) = offset; low = word_of_int value in
     if width > 32 then (low, ucast (drop_bit 32 (word_of_int value :: 64 word))) else (low, 0))"

text \<open>One round: the products are taken at twice the width.\<close>

definition philox_round ::
  "('v :: len) word \<Rightarrow> 'v word \<Rightarrow> ('w :: len) word \<times> 'w word \<Rightarrow> 'w block4 \<Rightarrow> 'w block4" where
  "philox_round mul_a mul_b keys c = (let
     (k0, k1) = keys; (c0, c1, c2, c3) = c; shift = LENGTH('w);
     prod_b = ucast c2 * mul_b;
     prod_a = ucast c0 * mul_a
     in (ucast (drop_bit shift prod_b) XOR c1 XOR k0, ucast prod_b, ucast (drop_bit shift prod_a) XOR c3 XOR k1, ucast prod_a))"

primrec philox_rounds ::
  "('v :: len) word \<Rightarrow> 'v word \<Rightarrow> ('w :: len) word \<times> 'w word \<Rightarrow> nat \<Rightarrow> 'w word \<times> 'w word \<Rightarrow> 'w block4 \<Rightarrow> 'w block4" where
  "philox_rounds mul_a mul_b step 0 keys c = c"
| "philox_rounds mul_a mul_b step (Suc n) keys c = philox_rounds mul_a mul_b step n
     (fst keys + fst step, snd keys + snd step) (philox_round mul_a mul_b keys c)"

definition philox32 :: "nat \<Rightarrow> 32 word \<times> 32 word \<Rightarrow> 32 block4 \<Rightarrow> 32 block4" where
  "philox32 = philox_rounds (0xD2511F53 :: 64 word) 0xCD9E8D57 (0x9E3779B9, 0xBB67AE85)"

definition philox64 :: "nat \<Rightarrow> 64 word \<times> 64 word \<Rightarrow> 64 block4 \<Rightarrow> 64 block4" where
  "philox64 = philox_rounds (0xD2E7470EE14C6C93 :: 128 word) 0xCA5A826395121157 (0x9E3779B97F4A7C15, 0xBB67AE8584CAA73B)"

text \<open>\<open>width\<close> is that of the first counter word; \<open>range(n_rounds)\<close> is empty for a negative number.\<close>

definition philox_impl :: "nat \<Rightarrow> int \<times> int \<times> int \<times> int \<Rightarrow> int \<times> int \<Rightarrow> int \<Rightarrow> words4 res" where
  "philox_impl width c k n_rounds = (let (c0, c1, c2, c3) = c; (k0, k1) = k in
     rbind (word_width width) (\<lambda>width. Inr (if width = 32
       then Words32 (philox32 (nat n_rounds) (word_of_int k0, word_of_int k1)
         (word_of_int c0, word_of_int c1, word_of_int c2, word_of_int c3))
       else Words64 (philox64 (nat n_rounds) (word_of_int k0, word_of_int k1)
         (word_of_int c0, word_of_int c1, word_of_int c2, word_of_int c3)))))"

definition philox :: "int \<Rightarrow> nat \<Rightarrow> int \<times> int \<times> int \<times> int \<Rightarrow> int \<Rightarrow> words4 res" where
  "philox key width c n_rounds = (let wide = (word_of_int key :: 64 word) in
     rbind (word_width width) (\<lambda>w.
       philox_impl width c (if w = 32 then (uint (ucast wide :: 32 word), uint (ucast (drop_bit 32 wide) :: 32 word))
         else (uint wide, 0)) n_rounds))"

definition randint4x :: "int \<Rightarrow> nat \<times> int \<Rightarrow> int \<Rightarrow> words4 res" where
  "randint4x key offset n_rounds = (let (low, high) = offset_words offset in
     philox key 32 (uint low, uint high, 0, 0) n_rounds)"

definition randint :: "int \<Rightarrow> nat \<times> int \<Rightarrow> int \<Rightarrow> 32 word res" where
  "randint key offset n_rounds = rbind (randint4x key offset n_rounds) (\<lambda>words.
     case words of Words32 (word, _, _, _) \<Rightarrow> Inr word | Words64 _ \<Rightarrow> Inl TypeError)"

subsection \<open>Single precision\<close>

text \<open>
  A number is a fraction \<open>(m, k)\<close>, standing for \<open>m / 2 ^ k\<close>. \<open>round24\<close> rounds \<open>m\<close> to 24 significant
  bits, to nearest with ties to even, which is what the conversion of an integer and a multiplication
  do in single precision, as no number here is subnormal or too large.
\<close>

definition round24 :: "nat \<Rightarrow> nat" where
  "round24 m = (let e = bit_length m - 24; q = m div 2 ^ e; r = m mod 2 ^ e in
     if e = 0 then m
     else (if 2 * r > 2 ^ e \<or> (2 * r = 2 ^ e \<and> odd q) then q + 1 else q) * 2 ^ e)"

text \<open>The two scales are the single precision numbers next to \<open>4.6566127342e-10\<close> and \<open>1.0842020432385337e-19\<close>.\<close>

definition uniform_scale32 :: "nat \<times> nat" where
  "uniform_scale32 = (16777215, 55)"

definition uniform_scale64 :: "nat \<times> nat" where
  "uniform_scale64 = (16777214, 87)"

definition fold_sign :: "('w :: len) word \<Rightarrow> 'w word" where
  "fold_sign word = (if sint word < 0 then - word - 1 else word)"

definition uniform_from :: "nat \<times> nat \<Rightarrow> ('w :: len) word \<Rightarrow> nat \<times> nat" where
  "uniform_from scale word = (round24 (round24 (nat (sint (fold_sign word))) * fst scale), snd scale)"

definition uint_to_uniform_float :: "nat \<Rightarrow> int \<Rightarrow> (nat \<times> nat) res" where
  "uint_to_uniform_float width word = rbind (word_width width) (\<lambda>width.
     Inr (if width = 32 then uniform_from uniform_scale32 (word_of_int word :: 32 word)
       else uniform_from uniform_scale64 (word_of_int word :: 64 word)))"

definition rand :: "int \<Rightarrow> nat \<times> int \<Rightarrow> int \<Rightarrow> (nat \<times> nat) res" where
  "rand key offset n_rounds = rbind (randint key offset n_rounds) (\<lambda>word. uint_to_uniform_float 32 (uint word))"

definition rand4x :: "int \<Rightarrow> nat \<times> int \<Rightarrow> int \<Rightarrow> (nat \<times> nat) list res" where
  "rand4x key offset n_rounds = rbind (randint4x key offset n_rounds) (\<lambda>words.
     case words of Words32 (w0, w1, w2, w3) \<Rightarrow> mapM (\<lambda>w. uint_to_uniform_float 32 (uint w)) [w0, w1, w2, w3]
       | Words64 _ \<Rightarrow> Inl TypeError)"

section \<open>Rounds are bijections\<close>

lemma odd_mult_cancel:
  fixes a b m :: "('w :: len) word"
  assumes "odd m" "a * m = b * m"
  shows "a = b"
proof -
  have "odd (uint m)" using assms(1) unfolding bit_0 [symmetric] by (simp add: bit_uint_iff)
  then have c: "coprime (2 ^ LENGTH('w)) (uint m)" by simp
  have "(uint a * uint m) mod 2 ^ LENGTH('w) = (uint b * uint m) mod 2 ^ LENGTH('w)"
    using arg_cong [OF assms(2), of uint] by (simp add: uint_word_ariths)
  then have "2 ^ LENGTH('w) dvd (uint a - uint b) * uint m" by (simp add: mod_eq_dvd_iff left_diff_distrib)
  then have "2 ^ LENGTH('w) dvd uint a - uint b" using c coprime_dvd_mult_left_iff by blast
  then have "take_bit LENGTH('w) (uint a) = take_bit LENGTH('w) (uint b)"
    unfolding take_bit_eq_mod by (rule mod_eq_dvd_iff [THEN iffD2])
  then show ?thesis by (metis word_of_int_eq_iff word_of_int_uint)
qed


lemma xor_cancel: "h XOR c XOR k = h XOR d XOR k \<Longrightarrow> c = d" for h c d k :: "('w :: len) word"
  by (auto simp: bit_eq_iff bit_xor_iff)

lemma philox_round_inj:
  fixes c d :: "('w :: len) block4" and mul_a mul_b :: "('v :: len) word"
  assumes m: "odd mul_a" "odd mul_b" and l: "LENGTH('w) \<le> LENGTH('v)"
    and e: "philox_round mul_a mul_b keys c = philox_round mul_a mul_b keys d"
  shows "c = d"
proof -
  obtain c0 c1 c2 c3 d0 d1 d2 d3 k0 k1 where s: "c = (c0, c1, c2, c3)" "d = (d0, d1, d2, d3)" "keys = (k0, k1)"
    by (metis surj_pair)
  have low: "x = y" if "ucast (ucast x * mul) = (ucast (ucast y * mul) :: 'w word)" "odd mul" for x y :: "'w word" and mul :: "'v word"
  proof (rule odd_mult_cancel)
    show "odd (ucast mul :: 'w word)" using that(2) l unfolding bit_0 [symmetric] by (simp add: bit_ucast_iff)
    have "ucast (ucast z * mul) = (z * ucast mul :: 'w word)" for z :: "'w word"
    proof (rule word_uint_eqI)
      let ?n = "LENGTH('w)"
      have "uint (ucast (ucast z * mul) :: 'w word) = take_bit ?n (take_bit LENGTH('v) (take_bit LENGTH('v) (uint z) * uint mul))"
        by (simp only: unsigned_ucast_eq uint_word_arith_bintrs)
      also have "\<dots> = take_bit ?n (take_bit LENGTH('v) (uint z) * uint mul)"
        unfolding take_bit_take_bit min_absorb1 [OF l] ..
      also have "\<dots> = take_bit ?n (take_bit ?n (take_bit LENGTH('v) (uint z)) * take_bit ?n (uint mul))"
        by (rule take_bit_mult [symmetric])
      also have "\<dots> = take_bit ?n (take_bit ?n (uint z) * take_bit ?n (take_bit ?n (uint mul)))"
        unfolding take_bit_take_bit min_absorb1 [OF l] min.idem ..
      also have "\<dots> = take_bit ?n (uint z * take_bit ?n (uint mul))" by (rule take_bit_mult)
      also have "\<dots> = uint (z * ucast mul)" by (simp only: unsigned_ucast_eq uint_word_arith_bintrs)
      finally show "uint (ucast (ucast z * mul) :: 'w word) = uint (z * ucast mul :: 'w word)" .
    qed
    then show "x * ucast mul = y * ucast mul" using that(1) by simp
  qed
  have e': "ucast (ucast c0 * mul_a) = (ucast (ucast d0 * mul_a) :: 'w word)" "ucast (ucast c2 * mul_b) = (ucast (ucast d2 * mul_b) :: 'w word)"
    using e by (simp_all add: s philox_round_def Let_def)
  have "c0 = d0" "c2 = d2" by (rule low [OF e'(1) m(1)], rule low [OF e'(2) m(2)])
  moreover have "c1 = d1" "c3 = d3"
    using e calculation by (auto simp: s philox_round_def Let_def dest!: xor_cancel)
  ultimately show ?thesis by (simp add: s)
qed


lemma philox_rounds_inj:
  fixes c d :: "('w :: len) block4" and mul_a mul_b :: "('v :: len) word"
  assumes "odd mul_a" "odd mul_b" "LENGTH('w) \<le> LENGTH('v)"
  shows "philox_rounds mul_a mul_b step n keys c = philox_rounds mul_a mul_b step n keys d \<Longrightarrow> c = d"
  proof (induction n arbitrary: keys c d)
  case (Suc n)
  have "philox_round mul_a mul_b keys c = philox_round mul_a mul_b keys d"
    by (rule Suc.IH) (use Suc.prems in simp)
  then show ?case by (rule philox_round_inj [OF assms])
qed simp

lemma philox_inj: "inj (philox32 n keys)" "inj (philox64 n' keys')"
  unfolding philox32_def philox64_def by (rule injI, erule philox_rounds_inj [rotated -1]; simp)+

lemma philox_bij: "bij (philox32 n keys)" "bij (philox64 n' keys')"
  by (simp_all add: philox_inj finite_UNIV_inj_surj bij_def)

text \<open>The offset fits its type, so its two words determine it.\<close>

lemma take_bit_64_split:
  assumes "take_bit 32 a = take_bit 32 b"
    and "ucast (drop_bit 32 (word_of_int a :: 64 word)) = (ucast (drop_bit 32 (word_of_int b :: 64 word)) :: 32 word)"
  shows "take_bit 64 a = take_bit 64 (b :: int)"
proof (rule bit_eqI)
  fix n
  have low: "bit a n = bit b n" if "n < 32"
    using arg_cong [OF assms(1), of "\<lambda>x. bit x n"] that by (simp add: bit_take_bit_iff)
  have high: "bit a n = bit b n" if h: "32 \<le> n" "n < 64"
  proof -
    obtain m where "n = 32 + m" using le_Suc_ex [OF h(1)] by blast
    then show ?thesis
      using arg_cong [OF assms(2), of "\<lambda>x. bit x m"] h
      by (simp add: bit_ucast_iff bit_drop_bit_eq bit_word_of_int_iff)
  qed
  show "bit (take_bit 64 a) n = bit (take_bit 64 b) n"
    using low high by (cases "n < 32") (auto simp: bit_take_bit_iff)
qed

lemma offset_words_inj:
  assumes "nt_range t a" "nt_range t b" "0 < nt_width t" "nt_width t \<le> 64"
    and "offset_words (nt_width t, a) = offset_words (nt_width t, b)"
  shows "a = b"
proof -
  have low: "take_bit 32 a = take_bit 32 b"
    using assms(5) by (simp add: offset_words_def Let_def word_of_int_eq_iff split: if_splits)
  have "take_bit (nt_width t) a = take_bit (nt_width t) b"
  proof (cases "32 < nt_width t")
    case True
    have "take_bit 64 a = take_bit 64 b"
      by (rule take_bit_64_split [OF low]) (use assms(5) True in \<open>simp add: offset_words_def Let_def\<close>)
    then have "take_bit (nt_width t) (take_bit 64 a) = take_bit (nt_width t) (take_bit 64 b)" by simp
    then show ?thesis using assms(4) by (simp add: min_absorb1)
  next
    case False
    then show ?thesis using arg_cong [OF low, of "take_bit (nt_width t)"] by (simp add: min_def)
  qed
  then have "nt_wrap t a = nt_wrap t b"
    using assms(3) by (auto simp: nt_wrap_def signed_take_bit_eq_iff_take_bit_eq)
  then show ?thesis using assms(1,2) by (simp add: nt_range_def)
qed

section \<open>Numbers below one\<close>

lemma round24_le:
  assumes "m \<le> k * 2 ^ j" "m < 2 ^ (24 + j)"
  shows "round24 m \<le> k * 2 ^ j"
proof -
  let ?e = "bit_length m - 24"
  have e: "?e \<le> j" using bit_length_mono_bound [of m "24 + j"] assms(2) by simp
  let ?k = "k * 2 ^ (j - ?e)"
  have k: "k * 2 ^ j = ?k * 2 ^ ?e" using e by (simp add: mult.assoc flip: power_add)
  have split: "m = m div 2 ^ ?e * 2 ^ ?e + m mod 2 ^ ?e" by (rule div_mult_mod_eq [symmetric])
  show ?thesis
  proof (cases "m mod 2 ^ ?e = 0")
    case True
    then show ?thesis using assms(1) by (auto simp: round24_def Let_def)
  next
    case False
    have "m div 2 ^ ?e < ?k"
    proof (rule ccontr)
      assume "\<not> m div 2 ^ ?e < ?k"
      then have "?k * 2 ^ ?e \<le> m div 2 ^ ?e * 2 ^ ?e" by (intro mult_right_mono) simp_all
      then show False using split False assms(1) k by linarith
    qed
    then show ?thesis using assms(1) unfolding k round24_def Let_def by auto
  qed
qed

lemma fold_sign_bound: "0 \<le> sint (fold_sign w)" "sint (fold_sign w) < 2 ^ (LENGTH('w) - 1)" for w :: "('w :: len) word"
proof -
  have s: "sint (- w - 1) = - sint w - 1" if "sint w < 0"
  proof -
    have "- w - 1 = NOT w" by (simp add: not_eq_complement)
    then have "sint (- w - 1) = signed_take_bit LENGTH('w) (NOT (sint w))" by (simp add: signed_not_eq)
    also have "\<dots> = NOT (sint w)"
    proof (rule signed_take_bit_int_eq_self)
      have "(2 :: int) ^ (LENGTH('w) - 1) \<le> 2 ^ LENGTH('w)" by simp
      then show "- (2 ^ LENGTH('w)) \<le> NOT (sint w)" "NOT (sint w) < 2 ^ LENGTH('w)"
        using sint_lt [of w] sint_ge [of w] unfolding not_int_def by linarith+
    qed
    finally show ?thesis by (simp add: not_int_def)
  qed
  have b: "- (2 ^ (LENGTH('w) - 1)) \<le> sint w" "sint w < 2 ^ (LENGTH('w) - 1)"
    using sint_ge [of w] sint_lt [of w] by simp_all
  show "0 \<le> sint (fold_sign w)" "sint (fold_sign w) < 2 ^ (LENGTH('w) - 1)"
    using s b by (auto simp: fold_sign_def)
qed


lemma uniform_from_bound:
  fixes w :: "('w :: len) word"
  assumes "scale < 2 ^ 24" "0 < scale"
  shows "fst (uniform_from (scale, LENGTH('w) + 23) w) < 2 ^ (LENGTH('w) + 23)"
proof -
  let ?n = "nat (sint (fold_sign w))" and ?j = "LENGTH('w) - 1"
  have j: "24 + ?j = LENGTH('w) + 23" using len_gt_0 [where 'a = 'w] by linarith
  have "?n < 2 ^ ?j" using fold_sign_bound [of w] by (simp add: nat_less_iff)
  then have "round24 ?n \<le> 1 * 2 ^ ?j" by (intro round24_le) (simp_all add: less_le_trans)
  then have "round24 ?n * scale \<le> scale * 2 ^ ?j" by simp
  moreover have below: "scale * 2 ^ ?j < 2 ^ (24 + ?j)" using assms by (simp add: power_add)
  ultimately have "round24 (round24 ?n * scale) \<le> scale * 2 ^ ?j" by (intro round24_le) linarith+
  also note below
  finally show ?thesis unfolding j uniform_from_def by simp
qed

lemma snd_uniform_from [simp]: "snd (uniform_from scale word) = snd scale"
  by (simp add: uniform_from_def)

section \<open>Properties\<close>

lemma randint4x_words: "randint4x key offset n_rounds = Inr (Words32 (philox32 (nat n_rounds)
    (ucast (word_of_int key :: 64 word), ucast (drop_bit 32 (word_of_int key :: 64 word)))
    (fst (offset_words offset), snd (offset_words offset), 0, 0)))"
  by (simp add: randint4x_def philox_def philox_impl_def word_width_def Let_def split: prod.split)

text \<open>
  C14: two draws with one key and one number of rounds agree in all four words only if they are at the
  same offset, whatever integer type of at most 64 bits the offsets have: a round is a bijection of
  counter blocks, since the multipliers are odd.
\<close>

theorem draws_distinct:
  assumes "nt_range t a" "nt_range t b" "0 < nt_width t" "nt_width t \<le> 64"
    and "randint4x key (nt_width t, a) n_rounds = randint4x key (nt_width t, b) n_rounds"
  shows "a = b"
proof (rule offset_words_inj [OF assms(1-4)])
  show "offset_words (nt_width t, a) = offset_words (nt_width t, b)"
    using assms(5) by (auto simp: randint4x_words prod_eq_iff [of "offset_words _"] dest!: injD [OF philox_inj(1)])
qed

theorem draws_distinct_witness:
  "randint4x 1 (64, 2 ^ 40 + 7) 10 \<noteq> randint4x 1 (64, 7) 10"
proof
  assume "randint4x 1 (64, 2 ^ 40 + 7) 10 = randint4x 1 (64, 7) 10"
  then have "2 ^ 40 + 7 = (7 :: int)"
    using draws_distinct [of "\<lparr>nt_width = 64, nt_signed = True\<rparr>" "2 ^ 40 + 7" 7 1 10]
    by (simp add: nt_range_def nt_wrap_def signed_take_bit_int_eq_self)
  then show False by simp
qed


text \<open>The first block of the all-zero key, as published with the generator, and of its 64-bit form.\<close>

lemma philox_known: "philox32 10 (0, 0) (0, 0, 0, 0) = (0x6627e8d5, 0xe169c58d, 0xbc57ac4c, 0x9b00dbd8)"
  by code_simp

end
