(* ===== verification/Numeric_Types.thy ===== *)
theory Numeric_Types
  imports Prelude "HOL-Library.Signed_Division"
begin

text \<open>
  The scalar types of the DSL (\<open>expr/numeric.py\<close>): which type an operator computes in, and what it
  computes. A scalar holds either a Python number, and the operator is evaluated while tracing, or
  a value of the program being traced, and the operator becomes an instruction of the arith dialect
  (\<open>expr/utils/arith.py\<close>). The dialect is not part of the repository: its instructions are the
  fields of a record, and what they are documented to do is the locale \<open>arith_dialect\<close>.
\<close>

section \<open>Types and promotion\<close>

datatype num_ty =
    Boolean | Int4 | Int8 | Int16 | Int32 | Int64 | Int128
  | Uint8 | Uint16 | Uint32 | Uint64 | Uint128 | Index
  | Float16 | BFloat16 | Float32 | Float64
  | Float8E5M2 | Float8E4M3FN | Float8E4M3FNUZ | Float8E4M3B11FNUZ | Float8E4M3
  | Float6E2M3FN | Float6E3M2FN | Float8E8M0FNU | Float4E2M1FN

fun numeric_width :: "num_ty \<Rightarrow> nat" where
  "numeric_width Boolean = 1"
| "numeric_width Int4 = 4"
| "numeric_width Int8 = 8"
| "numeric_width Int16 = 16"
| "numeric_width Int32 = 32"
| "numeric_width Int64 = 64"
| "numeric_width Int128 = 128"
| "numeric_width Uint8 = 8"
| "numeric_width Uint16 = 16"
| "numeric_width Uint32 = 32"
| "numeric_width Uint64 = 64"
| "numeric_width Uint128 = 128"
| "numeric_width Index = 64"
| "numeric_width Float16 = 16"
| "numeric_width BFloat16 = 16"
| "numeric_width Float32 = 32"
| "numeric_width Float64 = 64"
| "numeric_width Float6E2M3FN = 6"
| "numeric_width Float6E3M2FN = 6"
| "numeric_width Float4E2M1FN = 4"
| "numeric_width _ = 8"

text \<open>\<open>signed\<close> is \<open>None\<close> for the float types.\<close>

fun numeric_signed :: "num_ty \<Rightarrow> bool option" where
  "numeric_signed Boolean = Some True"
| "numeric_signed Int4 = Some True"
| "numeric_signed Int8 = Some True"
| "numeric_signed Int16 = Some True"
| "numeric_signed Int32 = Some True"
| "numeric_signed Int64 = Some True"
| "numeric_signed Int128 = Some True"
| "numeric_signed Uint8 = Some False"
| "numeric_signed Uint16 = Some False"
| "numeric_signed Uint32 = Some False"
| "numeric_signed Uint64 = Some False"
| "numeric_signed Uint128 = Some False"
| "numeric_signed Index = Some False"
| "numeric_signed _ = None"

definition is_integer :: "num_ty \<Rightarrow> bool" where
  "is_integer t = (numeric_signed t \<noteq> None)"

definition is_float :: "num_ty \<Rightarrow> bool" where
  "is_float t = (numeric_signed t = None)"

fun float_rank :: "num_ty \<Rightarrow> nat" where
  "float_rank Float64 = 3"
| "float_rank Float32 = 2"
| "float_rank Float16 = 1"
| "float_rank BFloat16 = 1"
| "float_rank _ = 0"

definition widen_float :: "num_ty \<Rightarrow> nat \<Rightarrow> num_ty" where
  "widen_float float_type min_width =
     (if numeric_width float_type \<ge> min_width then float_type
      else if 32 \<ge> min_width then Float32
      else if 64 \<ge> min_width then Float64
      else Float64)"

definition resolve_float_type :: "num_ty \<Rightarrow> num_ty \<Rightarrow> num_ty res" where
  "resolve_float_type ta tb =
     (if is_float ta \<and> \<not> is_float tb then Inr (widen_float ta (numeric_width tb))
      else if is_float tb \<and> \<not> is_float ta then Inr (widen_float tb (numeric_width ta))
      else
        let wa = numeric_width ta; wb = numeric_width tb;
            wider = (if wa > wb then ta else tb);
            ra = float_rank ta; rb = float_rank tb
        in if wa \<noteq> wb \<and> numeric_width wider \<ge> 16 then Inr wider
           else if ra \<noteq> rb \<and> max ra rb > 0 then Inr (if ra > rb then ta else tb)
           else if ra = rb \<and> ra > 0 then Inr (widen_float ta (wa + 1))
           else Inl ValueError)"

definition resolve_numeric_type :: "num_ty \<Rightarrow> num_ty \<Rightarrow> num_ty res" where
  "resolve_numeric_type ta tb =
     (if ta = tb then Inr ta
      else if is_float ta \<or> is_float tb then resolve_float_type ta tb
      else if numeric_signed ta = numeric_signed tb then
        Inr (if numeric_width ta \<ge> numeric_width tb then ta else tb)
      else
        let (u, s) = (if numeric_signed ta \<noteq> Some True then (ta, tb) else (tb, ta))
        in Inr (if numeric_width u \<ge> numeric_width s then u else s))"

text \<open>The operators of Python's \<open>operator\<close> module; those that stay in the integers are separate.\<close>

datatype int_op =
    Op_add | Op_sub | Op_mul | Op_floordiv | Op_mod
  | Op_and | Op_or | Op_xor | Op_lshift | Op_rshift
  | Op_lt | Op_le | Op_eq | Op_ne | Op_gt | Op_ge

datatype num_op = Int_op int_op | Op_truediv | Op_pow

definition cmp_ops :: "num_op set" where
  "cmp_ops = Int_op ` {Op_lt, Op_le, Op_gt, Op_ge, Op_eq, Op_ne}"

definition bool_widen_ops :: "num_op set" where
  "bool_widen_ops = insert Op_truediv (Int_op ` {Op_add, Op_sub, Op_mul, Op_floordiv, Op_mod})"

definition int_only_ops :: "num_op set" where
  "int_only_ops = Int_op ` {Op_and, Op_or, Op_xor, Op_lshift, Op_rshift}"

definition operand_type_for_op :: "num_ty \<Rightarrow> num_op \<Rightarrow> num_ty" where
  "operand_type_for_op dtype op = (if op \<in> bool_widen_ops \<and> dtype = Boolean then Int32 else dtype)"

definition common_numeric_type_for_op :: "num_ty \<Rightarrow> num_ty \<Rightarrow> num_op \<Rightarrow> num_ty res" where
  "common_numeric_type_for_op ta tb op =
     rbind (resolve_numeric_type (operand_type_for_op ta op) (operand_type_for_op tb op)) (\<lambda>common.
       if op \<in> int_only_ops \<and> is_float common then Inl TypeError else Inr common)"

definition result_numeric_type_for_op :: "num_ty \<Rightarrow> num_op \<Rightarrow> num_ty" where
  "result_numeric_type_for_op common op =
     (if op \<in> cmp_ops then Boolean
      else if op = Op_truediv \<and> is_integer common then (if numeric_width common > 32 then Float64 else Float32)
      else common)"

section \<open>The arith dialect\<close>

datatype cmp_pred = P_eq | P_ne | P_slt | P_sle | P_sgt | P_sge | P_ult | P_ule | P_ugt | P_uge

text \<open>
  The integer instructions, on the bits of their operands (a natural number below \<open>2 ^ w\<close>).
  Division by zero and the other cases the dialect leaves undefined are left open.
\<close>

record arith =
  ar_constant :: "nat \<Rightarrow> int \<Rightarrow> nat"
  ar_addi :: "nat \<Rightarrow> nat \<Rightarrow> nat \<Rightarrow> nat"
  ar_subi :: "nat \<Rightarrow> nat \<Rightarrow> nat \<Rightarrow> nat"
  ar_muli :: "nat \<Rightarrow> nat \<Rightarrow> nat \<Rightarrow> nat"
  ar_floordivsi :: "nat \<Rightarrow> nat \<Rightarrow> nat \<Rightarrow> nat"
  ar_divui :: "nat \<Rightarrow> nat \<Rightarrow> nat \<Rightarrow> nat"
  ar_remsi :: "nat \<Rightarrow> nat \<Rightarrow> nat \<Rightarrow> nat"
  ar_remui :: "nat \<Rightarrow> nat \<Rightarrow> nat \<Rightarrow> nat"
  ar_andi :: "nat \<Rightarrow> nat \<Rightarrow> nat \<Rightarrow> nat"
  ar_ori :: "nat \<Rightarrow> nat \<Rightarrow> nat \<Rightarrow> nat"
  ar_xori :: "nat \<Rightarrow> nat \<Rightarrow> nat \<Rightarrow> nat"
  ar_shli :: "nat \<Rightarrow> nat \<Rightarrow> nat \<Rightarrow> nat"
  ar_shrsi :: "nat \<Rightarrow> nat \<Rightarrow> nat \<Rightarrow> nat"
  ar_shrui :: "nat \<Rightarrow> nat \<Rightarrow> nat \<Rightarrow> nat"
  ar_cmpi :: "cmp_pred \<Rightarrow> nat \<Rightarrow> nat \<Rightarrow> nat \<Rightarrow> nat"
  ar_absi :: "nat \<Rightarrow> nat \<Rightarrow> nat"
  ar_extsi :: "nat \<Rightarrow> nat \<Rightarrow> nat \<Rightarrow> nat"
  ar_extui :: "nat \<Rightarrow> nat \<Rightarrow> nat \<Rightarrow> nat"
  ar_trunci :: "nat \<Rightarrow> nat \<Rightarrow> nat \<Rightarrow> nat"

section \<open>Scalars\<close>

text \<open>A Python number (\<open>Py\<close>) or a value of the traced program (\<open>Ir\<close>).\<close>

datatype payload = Py int | Ir nat

type_synonym scalar = "num_ty \<times> payload"

definition wrap_int :: "int \<Rightarrow> num_ty \<Rightarrow> int" where
  "wrap_int v ty =
     (if numeric_width ty = 1 then (if v \<noteq> 0 then 1 else 0)
      else let u = v mod 2 ^ numeric_width ty
           in if numeric_signed ty = Some True \<and> u \<ge> 2 ^ (numeric_width ty - 1)
              then u - 2 ^ numeric_width ty else u)"

text \<open>\<open>ArithValue.signed\<close>: an \<open>i1\<close> is never signed.\<close>

definition arith_signed :: "num_ty \<Rightarrow> bool option" where
  "arith_signed t = map_option (\<lambda>s. s \<and> numeric_width t > 1) (numeric_signed t)"

definition as_signed_bits :: "int \<Rightarrow> nat \<Rightarrow> int" where
  "as_signed_bits v w =
     (if w > 64 then v
      else if - (2 ^ 63) \<le> v \<and> v < 2 ^ 63 then v
      else let span = 2 ^ w; u = v mod span in if u \<ge> span div 2 then u - span else u)"

definition arith_const :: "arith \<Rightarrow> int \<Rightarrow> nat \<Rightarrow> nat" where
  "arith_const D v w = ar_constant D w (as_signed_bits v w)"

definition int_to_int :: "arith \<Rightarrow> nat \<Rightarrow> nat \<Rightarrow> bool option \<Rightarrow> nat \<Rightarrow> nat" where
  "int_to_int D src_width b sg dst_width =
     (if dst_width = src_width then b
      else if dst_width > src_width then
        (if sg = Some True \<and> src_width > 1 then ar_extsi D src_width dst_width b
         else ar_extui D src_width dst_width b)
      else ar_trunci D src_width dst_width b)"

text \<open>\<open>Numeric.to\<close> for integer types (not \<open>Index\<close>, whose width is the platform's).\<close>

definition to_type :: "arith \<Rightarrow> scalar \<Rightarrow> num_ty \<Rightarrow> scalar" where
  "to_type D x t' =
     (case x of (t, v) \<Rightarrow>
       if t = t' then x
       else (t', case v of
          Py i \<Rightarrow> Py (wrap_int i t')
        | Ir b \<Rightarrow> Ir (if t' = Boolean then ar_cmpi D P_ne (numeric_width t) b (arith_const D 0 (numeric_width t))
                     else int_to_int D (numeric_width t) b (arith_signed t) (numeric_width t'))))"

datatype py_number = Py_bool bool | Py_int int

fun from_python_value :: "py_number \<Rightarrow> scalar" where
  "from_python_value (Py_bool b) = (Boolean, Py (if b then 1 else 0))"
| "from_python_value (Py_int i) =
     (if - 2147483648 \<le> i \<and> i \<le> 2147483647 then (Int32, Py (wrap_int i Int32)) else (Int64, Py (wrap_int i Int64)))"

section \<open>Operators\<close>

definition coerce_operands :: "arith \<Rightarrow> scalar \<Rightarrow> scalar \<Rightarrow> num_op \<Rightarrow> (scalar \<times> scalar \<times> num_ty) res" where
  "coerce_operands D a b op =
     (let ta = operand_type_for_op (fst a) op; tb = operand_type_for_op (fst b) op;
          a = to_type D a ta; b = to_type D b tb
      in rbind (common_numeric_type_for_op ta tb op) (\<lambda>dest. Inr (to_type D a dest, to_type D b dest, dest)))"

text \<open>The operators on Python integers; Python raises for a zero divisor and a negative shift.\<close>

fun python_op :: "int_op \<Rightarrow> int \<Rightarrow> int \<Rightarrow> int res" where
  "python_op Op_add a b = Inr (a + b)"
| "python_op Op_sub a b = Inr (a - b)"
| "python_op Op_mul a b = Inr (a * b)"
| "python_op Op_floordiv a b = (if b = 0 then Inl ZeroDivisionError else Inr (a div b))"
| "python_op Op_mod a b = (if b = 0 then Inl ZeroDivisionError else Inr (a mod b))"
| "python_op Op_and a b = Inr (and a b)"
| "python_op Op_or a b = Inr (or a b)"
| "python_op Op_xor a b = Inr (xor a b)"
| "python_op Op_lshift a b = (if b < 0 then Inl ValueError else Inr (push_bit (nat b) a))"
| "python_op Op_rshift a b = (if b < 0 then Inl ValueError else Inr (drop_bit (nat b) a))"
| "python_op Op_lt a b = Inr (of_bool (a < b))"
| "python_op Op_le a b = Inr (of_bool (a \<le> b))"
| "python_op Op_eq a b = Inr (of_bool (a = b))"
| "python_op Op_ne a b = Inr (of_bool (a \<noteq> b))"
| "python_op Op_gt a b = Inr (of_bool (a > b))"
| "python_op Op_ge a b = Inr (of_bool (a \<ge> b))"

text \<open>The operators of \<open>ArithValue\<close> on integers; \<open>sg\<close> is the signedness of the left operand.\<close>

definition arith_binary_op :: "arith \<Rightarrow> int_op \<Rightarrow> bool option \<Rightarrow> nat \<Rightarrow> nat \<Rightarrow> nat \<Rightarrow> nat" where
  "arith_binary_op D op sg w a b =
     (if op = Op_add then ar_addi D w a b
      else if op = Op_sub then ar_subi D w a b
      else if op = Op_mul then ar_muli D w a b
      else if op = Op_floordiv then (if sg \<noteq> Some False then ar_floordivsi D w a b else ar_divui D w a b)
      else (if sg \<noteq> Some False then ar_remsi D w a b else ar_remui D w a b))"

definition cmp_int_signed :: "int_op \<Rightarrow> cmp_pred" where
  "cmp_int_signed op =
     (case op of Op_lt \<Rightarrow> P_slt | Op_le \<Rightarrow> P_sle | Op_eq \<Rightarrow> P_eq | Op_ne \<Rightarrow> P_ne | Op_gt \<Rightarrow> P_sgt | _ \<Rightarrow> P_sge)"

definition cmp_int_unsigned :: "int_op \<Rightarrow> cmp_pred" where
  "cmp_int_unsigned op =
     (case op of Op_lt \<Rightarrow> P_ult | Op_le \<Rightarrow> P_ule | Op_eq \<Rightarrow> P_eq | Op_ne \<Rightarrow> P_ne | Op_gt \<Rightarrow> P_ugt | _ \<Rightarrow> P_uge)"

definition arith_comparison_op :: "arith \<Rightarrow> int_op \<Rightarrow> bool option \<Rightarrow> nat \<Rightarrow> nat \<Rightarrow> nat \<Rightarrow> nat" where
  "arith_comparison_op D op sg w a b =
     ar_cmpi D (if sg \<noteq> Some False then cmp_int_signed op else cmp_int_unsigned op) w a b"

definition arith_bitwise_op :: "arith \<Rightarrow> int_op \<Rightarrow> nat \<Rightarrow> nat \<Rightarrow> nat \<Rightarrow> nat" where
  "arith_bitwise_op D op w a b =
     (if op = Op_and then ar_andi D w a b else if op = Op_or then ar_ori D w a b else ar_xori D w a b)"

definition arith_shift_op :: "arith \<Rightarrow> int_op \<Rightarrow> bool option \<Rightarrow> nat \<Rightarrow> nat \<Rightarrow> nat \<Rightarrow> nat" where
  "arith_shift_op D op sg w a b =
     (if op = Op_lshift then ar_shli D w a b
      else if sg = Some True then ar_shrsi D w a b else ar_shrui D w a b)"

definition arith_op :: "arith \<Rightarrow> int_op \<Rightarrow> bool option \<Rightarrow> nat \<Rightarrow> nat \<Rightarrow> nat \<Rightarrow> nat" where
  "arith_op D op sg w a b =
     (if op \<in> {Op_add, Op_sub, Op_mul, Op_floordiv, Op_mod} then arith_binary_op D op sg w a b
      else if op \<in> {Op_lt, Op_le, Op_eq, Op_ne, Op_gt, Op_ge} then arith_comparison_op D op sg w a b
      else if op \<in> {Op_and, Op_or, Op_xor} then arith_bitwise_op D op w a b
      else arith_shift_op D op sg w a b)"

lemma arith_op_simps [simp]:
  "arith_op D Op_add sg w a b = ar_addi D w a b"
  "arith_op D Op_sub sg w a b = ar_subi D w a b"
  "arith_op D Op_mul sg w a b = ar_muli D w a b"
  "arith_op D Op_floordiv sg w a b = (if sg \<noteq> Some False then ar_floordivsi D w a b else ar_divui D w a b)"
  "arith_op D Op_mod sg w a b = (if sg \<noteq> Some False then ar_remsi D w a b else ar_remui D w a b)"
  "arith_op D Op_and sg w a b = ar_andi D w a b"
  "arith_op D Op_or sg w a b = ar_ori D w a b"
  "arith_op D Op_xor sg w a b = ar_xori D w a b"
  "arith_op D Op_lshift sg w a b = ar_shli D w a b"
  "arith_op D Op_rshift sg w a b = (if sg = Some True then ar_shrsi D w a b else ar_shrui D w a b)"
  "arith_op D Op_lt sg w a b = ar_cmpi D (if sg \<noteq> Some False then P_slt else P_ult) w a b"
  "arith_op D Op_le sg w a b = ar_cmpi D (if sg \<noteq> Some False then P_sle else P_ule) w a b"
  "arith_op D Op_eq sg w a b = ar_cmpi D P_eq w a b"
  "arith_op D Op_ne sg w a b = ar_cmpi D P_ne w a b"
  "arith_op D Op_gt sg w a b = ar_cmpi D (if sg \<noteq> Some False then P_sgt else P_ugt) w a b"
  "arith_op D Op_ge sg w a b = ar_cmpi D (if sg \<noteq> Some False then P_sge else P_uge) w a b"
  by (simp_all add: arith_op_def arith_binary_op_def arith_comparison_op_def arith_bitwise_op_def arith_shift_op_def
      cmp_int_signed_def cmp_int_unsigned_def)

text \<open>The reflected method Python calls when the left operand is its own number.\<close>

fun reflect :: "int_op \<Rightarrow> int_op" where
  "reflect Op_lt = Op_gt"
| "reflect Op_le = Op_ge"
| "reflect Op_gt = Op_lt"
| "reflect Op_ge = Op_le"
| "reflect op = op"

definition apply_op :: "arith \<Rightarrow> int_op \<Rightarrow> num_ty \<Rightarrow> payload \<Rightarrow> payload \<Rightarrow> payload res" where
  "apply_op D op t lv rv =
     (let w = numeric_width t; sg = arith_signed t in
      case (lv, rv) of
        (Py a, Py b) \<Rightarrow> rbind (python_op op a b) (\<lambda>c. Inr (Py c))
      | (Ir a, Ir b) \<Rightarrow> Inr (Ir (arith_op D op sg w a b))
      | (Ir a, Py b) \<Rightarrow> Inr (Ir (arith_op D op sg w a (arith_const D b w)))
      | (Py a, Ir b) \<Rightarrow>
          if Int_op op \<in> cmp_ops then Inr (Ir (arith_op D (reflect op) sg w b (arith_const D a w)))
          else Inr (Ir (arith_op D op sg w (arith_const D a w) b)))"

text \<open>The constructor of the result type, on what the operator returned.\<close>

fun out_value :: "num_ty \<Rightarrow> payload \<Rightarrow> payload" where
  "out_value t (Py i) = Py (wrap_int i t)"
| "out_value t (Ir b) = Ir b"

definition make_binop :: "arith \<Rightarrow> int_op \<Rightarrow> bool \<Rightarrow> scalar \<Rightarrow> scalar \<Rightarrow> scalar res" where
  "make_binop D op swap lhs rhs =
     rbind (coerce_operands D lhs rhs (Int_op op)) (\<lambda>(lhs, rhs, common).
       let out = result_numeric_type_for_op common (Int_op op);
           (lv, rv) = (if swap then (snd rhs, snd lhs) else (snd lhs, snd rhs))
       in rbind (apply_op D op common lv rv) (\<lambda>v. Inr (out, out_value out v)))"

definition numeric_neg :: "arith \<Rightarrow> scalar \<Rightarrow> scalar res" where
  "numeric_neg D x =
     (case x of (t, v) \<Rightarrow>
       if t = Boolean then Inl TypeError
       else Inr (t, case v of
           Py i \<Rightarrow> Py (wrap_int (- i) t)
         | Ir b \<Rightarrow> Ir (ar_subi D (numeric_width t) (arith_const D 0 (numeric_width t)) b)))"

definition numeric_abs :: "arith \<Rightarrow> scalar \<Rightarrow> scalar res" where
  "numeric_abs D x =
     (case x of (t, v) \<Rightarrow>
       if t = Boolean then Inl TypeError
       else Inr (t, case v of
           Py i \<Rightarrow> Py (wrap_int \<bar>i\<bar> t)
         | Ir b \<Rightarrow> Ir (if arith_signed t \<noteq> Some True then b else ar_absi D (numeric_width t) b)))"

definition numeric_invert :: "arith \<Rightarrow> scalar \<Rightarrow> scalar res" where
  "numeric_invert D x =
     (case x of (t, v) \<Rightarrow>
       Inr (t, case v of
           Py i \<Rightarrow> Py (if t = Boolean then (if i = 0 then 1 else 0) else wrap_int (not i) t)
         | Ir b \<Rightarrow> Ir (ar_xori D (numeric_width t) b (arith_const D (- 1) (numeric_width t)))))"

definition divmod_op :: "arith \<Rightarrow> bool \<Rightarrow> scalar \<Rightarrow> scalar \<Rightarrow> (scalar \<times> scalar) res" where
  "divmod_op D swap lhs rhs =
     rbind (make_binop D Op_floordiv swap lhs rhs) (\<lambda>quotient.
     rbind (make_binop D Op_mod swap lhs rhs) (\<lambda>remainder. Inr (quotient, remainder)))"
end
