(* ===== verification/Numeric_Folding.thy ===== *)
theory Numeric_Folding
  imports Numeric_Types
begin

text \<open>
  Evaluating an operator while tracing and executing its instruction give the same number. The
  instructions are used through the locale \<open>arith_dialect\<close> only, which states what the dialect
  documents; \<open>standard_arith\<close> is the instance that shows that the laws can be met.
\<close>

section \<open>Bits and their values\<close>

definition bits_of :: "nat \<Rightarrow> int \<Rightarrow> nat" where
  "bits_of w v = nat (v mod 2 ^ w)"

definition sval :: "nat \<Rightarrow> nat \<Rightarrow> int" where
  "sval w b = (if b \<ge> 2 ^ (w - 1) then int b - 2 ^ w else int b)"

definition dval :: "num_ty \<Rightarrow> nat \<Rightarrow> int" where
  "dval t b = (if arith_signed t = Some True then sval (numeric_width t) b else int b)"

fun scalar_value :: "scalar \<Rightarrow> int" where
  "scalar_value (t, Py i) = i"
| "scalar_value (t, Ir b) = dval t b"

definition int_scalar_type :: "num_ty \<Rightarrow> bool" where
  "int_scalar_type t \<longleftrightarrow> is_integer t \<and> t \<noteq> Index"

text \<open>A scalar is well formed if its number is in the range of its type.\<close>

fun scalar_ok :: "scalar \<Rightarrow> bool" where
  "scalar_ok (t, Py i) \<longleftrightarrow> int_scalar_type t \<and> wrap_int i t = i"
| "scalar_ok (t, Ir b) \<longleftrightarrow> int_scalar_type t \<and> b < 2 ^ numeric_width t"

lemma int_bits_of [simp]: "int (bits_of w v) = v mod 2 ^ w"
  by (simp add: bits_of_def)

lemma bits_of_less [simp]: "bits_of w v < 2 ^ w"
proof -
  have "int (bits_of w v) < 2 ^ w" by simp
  then show ?thesis by (metis of_nat_less_iff of_nat_numeral of_nat_power)
qed

lemma bits_of_int [simp]: "b < 2 ^ w \<Longrightarrow> bits_of w (int b) = b"
  by (simp add: bits_of_def nat_mod_distrib nat_power_eq)

lemma bits_of_cong: "u mod 2 ^ w = v mod 2 ^ w \<Longrightarrow> bits_of w u = bits_of w v"
  by (simp add: bits_of_def)

lemma sval_mod: "0 < w \<Longrightarrow> b < 2 ^ w \<Longrightarrow> sval w b mod 2 ^ w = int b"
proof -
  assume b: "0 < w" "b < 2 ^ w"
  have "int b < 2 ^ w" using b(2) by (metis of_nat_less_iff of_nat_numeral of_nat_power)
  then have "int b mod 2 ^ w = int b" "(int b - 2 ^ w) mod 2 ^ w = int b" by (simp_all add: minus_mod_self2)
  then show ?thesis by (simp add: sval_def)
qed

lemma sval_bits_of:
  assumes "0 < w" "- (2 ^ (w - 1)) \<le> v" "v < 2 ^ (w - 1)"
  shows "sval w (bits_of w v) = v"
proof -
  have p: "(2 :: int) ^ w = 2 * 2 ^ (w - 1)" using assms(1) by (cases w) simp_all
  have ge: "bits_of w v \<ge> 2 ^ (w - 1) \<longleftrightarrow> v mod 2 ^ w \<ge> 2 ^ (w - 1)"
    by (metis int_bits_of of_nat_le_iff of_nat_numeral of_nat_power)
  show ?thesis
  proof (cases "0 \<le> v")
    case True
    then have "v mod 2 ^ w = v" using assms(3) p by (intro mod_pos_pos_trivial) simp_all
    then show ?thesis using assms(3) ge by (simp add: sval_def)
  next
    case False
    have "v mod 2 ^ w = (v + 2 ^ w) mod 2 ^ w" by simp
    also have "\<dots> = v + 2 ^ w" using False assms(2) p by (intro mod_pos_pos_trivial) simp_all
    finally show ?thesis using assms(2) ge p by (simp add: sval_def)
  qed
qed

lemma bits_of_ge: "2 ^ (w - Suc 0) \<le> bits_of w v \<longleftrightarrow> 2 ^ (w - Suc 0) \<le> v mod 2 ^ w"
  by (metis int_bits_of of_nat_le_iff of_nat_numeral of_nat_power)

lemma width_pos [simp]: "0 < numeric_width t"
  by (cases t) simp_all

lemma arith_signed_simps:
  "int_scalar_type t \<Longrightarrow> arith_signed t = Some (numeric_signed t = Some True \<and> t \<noteq> Boolean)"
  "numeric_width t = 1 \<longleftrightarrow> t = Boolean" "numeric_width t = Suc 0 \<longleftrightarrow> t = Boolean"
  by (cases t; simp add: arith_signed_def int_scalar_type_def is_integer_def)+

text \<open>Wrapping a number into a type is reading its bits back.\<close>

lemma dval_bits_of:
  assumes "int_scalar_type t" "t \<noteq> Boolean"
  shows "dval t (bits_of (numeric_width t) v) = wrap_int v t"
proof -
  have "numeric_width t \<noteq> Suc 0" "numeric_signed t = Some True \<or> numeric_signed t = Some False"
    using assms arith_signed_simps(3) [of t] by (auto simp: int_scalar_type_def is_integer_def)
  then show ?thesis
    using assms by (auto simp: dval_def sval_def wrap_int_def arith_signed_simps(1) bits_of_ge Let_def)
qed

lemma wrap_idem: "int_scalar_type t \<Longrightarrow> wrap_int (wrap_int v t) t = wrap_int v t"
proof (cases "t = Boolean")
  case False
  assume t: "int_scalar_type t"
  have "wrap_int v t mod 2 ^ numeric_width t = v mod 2 ^ numeric_width t"
    using False arith_signed_simps(3) [of t] by (simp add: wrap_int_def Let_def minus_mod_self2)
  then have "bits_of (numeric_width t) (wrap_int v t) = bits_of (numeric_width t) v" by (rule bits_of_cong)
  then show ?thesis using dval_bits_of [OF t False, of "wrap_int v t"] dval_bits_of [OF t False, of v] by simp
qed (simp add: wrap_int_def)

lemma bits_of_dval: "int_scalar_type t \<Longrightarrow> b < 2 ^ numeric_width t \<Longrightarrow> bits_of (numeric_width t) (dval t b) = b"
  using sval_mod [of "numeric_width t" b] by (auto simp: dval_def bits_of_def)

lemma wrap_dval: "int_scalar_type t \<Longrightarrow> b < 2 ^ numeric_width t \<Longrightarrow> wrap_int (dval t b) t = dval t b"
proof (cases "t = Boolean")
  case True
  assume "int_scalar_type t" "b < 2 ^ numeric_width t"
  then have "b < 2" using True by simp
  then have "b = 0 \<or> b = 1" by auto
  then show ?thesis using True by (auto simp: dval_def wrap_int_def arith_signed_def)
next
  case False
  assume "int_scalar_type t" "b < 2 ^ numeric_width t"
  then show ?thesis using dval_bits_of [of t "dval t b"] bits_of_dval [of t b] False by simp
qed

lemma scalar_ok_wrap: "scalar_ok x \<Longrightarrow> wrap_int (scalar_value x) (fst x) = scalar_value x \<and> int_scalar_type (fst x)"
  by (cases x rule: scalar_ok.cases) (simp_all add: wrap_dval)

lemma wrap_range:
  assumes "int_scalar_type t" "wrap_int v t = v"
  shows "arith_signed t = Some True \<Longrightarrow> - (2 ^ (numeric_width t - 1)) \<le> v \<and> v < 2 ^ (numeric_width t - 1)"
    "arith_signed t \<noteq> Some True \<Longrightarrow> 0 \<le> v \<and> v < 2 ^ numeric_width t"
proof -
  let ?w = "numeric_width t"
  define h :: int where "h = 2 ^ (?w - Suc 0)"
  define m where "m = v mod 2 ^ ?w"
  have p: "(2 :: int) ^ ?w = 2 * h" unfolding h_def using width_pos [of t] by (cases ?w) simp_all
  have m: "0 \<le> m" "m < 2 * h" unfolding p [symmetric] m_def by simp_all
  show "- (2 ^ (?w - 1)) \<le> v \<and> v < 2 ^ (?w - 1)" if "arith_signed t = Some True"
  proof -
    have "t \<noteq> Boolean" "numeric_signed t = Some True" using that assms(1) by (auto simp: arith_signed_simps(1))
    then have "wrap_int v t = (if m \<ge> h then m - 2 ^ ?w else m)"
      using arith_signed_simps(3) [of t] by (simp add: wrap_int_def Let_def m_def h_def)
    then have "v = (if m \<ge> h then m - 2 * h else m)" using assms(2) unfolding p by simp
    then have "- h \<le> v \<and> v < h" using m by (auto split: if_splits)
    then show ?thesis by (simp add: h_def)
  qed
  show "0 \<le> v \<and> v < 2 ^ ?w" if "arith_signed t \<noteq> Some True"
  proof (cases "t = Boolean")
    case True
    then show ?thesis using assms(2) by (auto simp: wrap_int_def split: if_splits)
  next
    case False
    then have "numeric_signed t \<noteq> Some True" using that assms(1) by (auto simp: arith_signed_simps(1))
    then have "v = m" using assms(2) False arith_signed_simps(3) [of t] by (simp add: wrap_int_def Let_def m_def)
    then show ?thesis using m p by simp
  qed
qed

section \<open>What the dialect documents\<close>

locale arith_dialect =
  fixes D :: arith
  assumes constant_law: "\<lbrakk>0 < w; - (2 ^ (w - 1)) \<le> v; v < 2 ^ w; - (2 ^ 63) \<le> v; v < 2 ^ 63\<rbrakk> \<Longrightarrow> ar_constant D w v = bits_of w v"
    and addi_law: "\<lbrakk>a < 2 ^ w; b < 2 ^ w\<rbrakk> \<Longrightarrow> ar_addi D w a b = bits_of w (int a + int b)"
    and subi_law: "\<lbrakk>a < 2 ^ w; b < 2 ^ w\<rbrakk> \<Longrightarrow> ar_subi D w a b = bits_of w (int a - int b)"
    and muli_law: "\<lbrakk>a < 2 ^ w; b < 2 ^ w\<rbrakk> \<Longrightarrow> ar_muli D w a b = bits_of w (int a * int b)"
    and floordivsi_law: "\<lbrakk>0 < w; a < 2 ^ w; b < 2 ^ w; b \<noteq> 0; \<not> (sval w a = - (2 ^ (w - 1)) \<and> sval w b = - 1)\<rbrakk>
      \<Longrightarrow> ar_floordivsi D w a b = bits_of w (sval w a div sval w b)"
    and divui_law: "\<lbrakk>a < 2 ^ w; b < 2 ^ w; b \<noteq> 0\<rbrakk> \<Longrightarrow> ar_divui D w a b = a div b"
    and remsi_law: "\<lbrakk>0 < w; a < 2 ^ w; b < 2 ^ w; b \<noteq> 0\<rbrakk> \<Longrightarrow> ar_remsi D w a b = bits_of w (sval w a smod sval w b)"
    and remui_law: "\<lbrakk>a < 2 ^ w; b < 2 ^ w; b \<noteq> 0\<rbrakk> \<Longrightarrow> ar_remui D w a b = a mod b"
    and andi_law: "\<lbrakk>a < 2 ^ w; b < 2 ^ w\<rbrakk> \<Longrightarrow> ar_andi D w a b = and a b"
    and ori_law: "\<lbrakk>a < 2 ^ w; b < 2 ^ w\<rbrakk> \<Longrightarrow> ar_ori D w a b = or a b"
    and xori_law: "\<lbrakk>a < 2 ^ w; b < 2 ^ w\<rbrakk> \<Longrightarrow> ar_xori D w a b = xor a b"
    and shli_law: "\<lbrakk>a < 2 ^ w; b < w\<rbrakk> \<Longrightarrow> ar_shli D w a b = bits_of w (push_bit b (int a))"
    and shrsi_law: "\<lbrakk>0 < w; a < 2 ^ w; b < w\<rbrakk> \<Longrightarrow> ar_shrsi D w a b = bits_of w (drop_bit b (sval w a))"
    and shrui_law: "\<lbrakk>a < 2 ^ w; b < w\<rbrakk> \<Longrightarrow> ar_shrui D w a b = drop_bit b a"
    and cmpi_law: "\<lbrakk>a < 2 ^ w; b < 2 ^ w\<rbrakk> \<Longrightarrow> ar_cmpi D p w a b = of_bool (case p of
        P_eq \<Rightarrow> a = b | P_ne \<Rightarrow> a \<noteq> b
      | P_slt \<Rightarrow> sval w a < sval w b | P_sle \<Rightarrow> sval w a \<le> sval w b
      | P_sgt \<Rightarrow> sval w a > sval w b | P_sge \<Rightarrow> sval w a \<ge> sval w b
      | P_ult \<Rightarrow> a < b | P_ule \<Rightarrow> a \<le> b | P_ugt \<Rightarrow> a > b | P_uge \<Rightarrow> a \<ge> b)"
    and absi_law: "\<lbrakk>0 < w; a < 2 ^ w\<rbrakk> \<Longrightarrow> ar_absi D w a = bits_of w \<bar>sval w a\<bar>"
    and extsi_law: "\<lbrakk>0 < w; w < w'; a < 2 ^ w\<rbrakk> \<Longrightarrow> ar_extsi D w w' a = bits_of w' (sval w a)"
    and extui_law: "\<lbrakk>w < w'; a < 2 ^ w\<rbrakk> \<Longrightarrow> ar_extui D w w' a = a"
    and trunci_law: "\<lbrakk>w' < w; a < 2 ^ w\<rbrakk> \<Longrightarrow> ar_trunci D w w' a = bits_of w' (int a)"

text \<open>An instance, for the witnesses.\<close>

definition standard_arith :: arith where
  "standard_arith = \<lparr>
     ar_constant = bits_of,
     ar_addi = (\<lambda>w a b. bits_of w (int a + int b)),
     ar_subi = (\<lambda>w a b. bits_of w (int a - int b)),
     ar_muli = (\<lambda>w a b. bits_of w (int a * int b)),
     ar_floordivsi = (\<lambda>w a b. bits_of w (sval w a div sval w b)),
     ar_divui = (\<lambda>w a b. a div b),
     ar_remsi = (\<lambda>w a b. bits_of w (sval w a smod sval w b)),
     ar_remui = (\<lambda>w a b. a mod b),
     ar_andi = (\<lambda>w a b. and a b), ar_ori = (\<lambda>w a b. or a b), ar_xori = (\<lambda>w a b. xor a b),
     ar_shli = (\<lambda>w a b. bits_of w (push_bit b (int a))),
     ar_shrsi = (\<lambda>w a b. bits_of w (drop_bit b (sval w a))),
     ar_shrui = (\<lambda>w a b. drop_bit b a),
     ar_cmpi = (\<lambda>p w a b. of_bool (case p of
         P_eq \<Rightarrow> a = b | P_ne \<Rightarrow> a \<noteq> b
       | P_slt \<Rightarrow> sval w a < sval w b | P_sle \<Rightarrow> sval w a \<le> sval w b
       | P_sgt \<Rightarrow> sval w a > sval w b | P_sge \<Rightarrow> sval w a \<ge> sval w b
       | P_ult \<Rightarrow> a < b | P_ule \<Rightarrow> a \<le> b | P_ugt \<Rightarrow> a > b | P_uge \<Rightarrow> a \<ge> b)),
     ar_absi = (\<lambda>w a. bits_of w \<bar>sval w a\<bar>),
     ar_extsi = (\<lambda>w w' a. bits_of w' (sval w a)),
     ar_extui = (\<lambda>w w' a. a),
     ar_trunci = (\<lambda>w w' a. bits_of w' (int a))\<rparr>"

interpretation standard: arith_dialect standard_arith
  by unfold_locales (simp_all add: standard_arith_def)

section \<open>Operands and conversions\<close>

context arith_dialect
begin

lemma arith_const_bits:
  assumes "int_scalar_type t" "wrap_int a t = a" "numeric_width t \<le> 64"
  shows "arith_const D a (numeric_width t) = bits_of (numeric_width t) a"
proof -
  let ?w = "numeric_width t"
  have p: "(2 :: int) ^ ?w = 2 * 2 ^ (?w - 1)" using width_pos [of t] by (cases ?w) simp_all
  have r: "- (2 ^ (?w - 1)) \<le> a" "a < 2 ^ ?w"
    using wrap_range [OF assms(1,2)] p by (cases "arith_signed t = Some True"; fastforce)+
  have le: "(2 :: int) ^ (?w - 1) \<le> 2 ^ 63" using assms(3) by (intro power_increasing) simp_all
  show ?thesis
  proof (cases "a < 2 ^ 63")
    case True
    then show ?thesis using r le assms(3) by (simp add: arith_const_def as_signed_bits_def constant_law)
  next
    case False
    then have "?w = 64"
      using r(2) assms(3) power_increasing [of ?w 63 "2 :: int"] by (cases "?w = 64") simp_all
    then have "as_signed_bits a ?w = a - 2 ^ 64" "arith_const D a ?w = bits_of ?w (a - 2 ^ 64)"
      using False r by (simp_all add: as_signed_bits_def arith_const_def constant_law Let_def)
    then show ?thesis using \<open>?w = 64\<close> by (simp add: bits_of_def minus_mod_self2)
  qed
qed

lemma to_type_value:
  assumes ok: "scalar_ok x" and t': "int_scalar_type t'"
  shows "scalar_ok (to_type D x t')" "scalar_value (to_type D x t') = wrap_int (scalar_value x) t'"
    "fst (to_type D x t') = t'" "(\<exists>i. snd (to_type D x t') = Py i) \<longleftrightarrow> (\<exists>i. snd x = Py i)"
proof -
  obtain t v where x: "x = (t, v)" by (cases x)
  have "scalar_ok (to_type D x t') \<and> scalar_value (to_type D x t') = wrap_int (scalar_value x) t'
      \<and> fst (to_type D x t') = t' \<and> ((\<exists>i. snd (to_type D x t') = Py i) \<longleftrightarrow> (\<exists>i. snd x = Py i))"
  proof (cases "t = t'")
    case True
    then show ?thesis using scalar_ok_wrap [OF ok] ok by (simp add: x to_type_def)
  next
    case False
    show ?thesis
    proof (cases v)
      case (Py i)
      then show ?thesis using False t' by (simp add: x to_type_def wrap_idem)
    next
      case (Ir b)
      have t: "int_scalar_type t" "b < 2 ^ numeric_width t" using ok by (simp_all add: x Ir)
      show ?thesis
      proof (cases "t' = Boolean")
        case True
        have "arith_const D 0 (numeric_width t) = 0"
          by (simp add: arith_const_def as_signed_bits_def constant_law bits_of_def)
        moreover have "dval t b = 0 \<longleftrightarrow> b = 0"
        proof
          assume "dval t b = 0"
          then show "b = 0" using bits_of_dval [OF t] by (simp add: bits_of_def)
        qed (simp add: dval_def sval_def)
        ultimately show ?thesis
          using False True t t' by (simp add: x Ir to_type_def cmpi_law wrap_int_def dval_def arith_signed_def)
      next
        case nb: False
        let ?r = "int_to_int D (numeric_width t) b (arith_signed t) (numeric_width t')"
        have "?r = bits_of (numeric_width t') (dval t b)"
        proof (cases "numeric_width t' = numeric_width t")
          case True
          then show ?thesis using bits_of_dval [OF t] by (simp add: int_to_int_def)
        next
          case False
          show ?thesis
          proof (cases "numeric_width t < numeric_width t'")
            case True
            have "b < 2 ^ numeric_width t'"
              using t(2) True by (meson less_le_trans less_imp_le one_le_numeral power_increasing)
            moreover have "arith_signed t = Some True \<Longrightarrow> 1 < numeric_width t" by (auto simp: arith_signed_def)
            ultimately show ?thesis using True t by (auto simp: int_to_int_def dval_def extsi_law extui_law)
          next
            case lt: False
            then have "numeric_width t' \<le> numeric_width t" by simp
            then have d: "(2 :: int) ^ numeric_width t' dvd 2 ^ numeric_width t" by (rule le_imp_power_dvd)
            have "dval t b mod 2 ^ numeric_width t = int b"
              using sval_mod [of "numeric_width t" b] t by (simp add: dval_def)
            then have "int b mod 2 ^ numeric_width t' = dval t b mod 2 ^ numeric_width t'"
              using d by (metis mod_mod_cancel)
            then show ?thesis using lt False t by (simp add: int_to_int_def trunci_law bits_of_def)
          qed
        qed
        then show ?thesis using False nb t' t by (simp add: x Ir to_type_def dval_bits_of)
      qed
    qed
  qed
  then show "scalar_ok (to_type D x t')" "scalar_value (to_type D x t') = wrap_int (scalar_value x) t'"
    "fst (to_type D x t') = t'" "(\<exists>i. snd (to_type D x t') = Py i) \<longleftrightarrow> (\<exists>i. snd x = Py i)" by blast+
qed

end
section \<open>One instruction\<close>

text \<open>
  Where the instruction is defined and agrees with Python: no overflowing quotient, remainders of
  non-negative numbers only (\<open>arith.remsi\<close> truncates, Python rounds down), shifts below the width.
\<close>

definition fold_ok :: "num_ty \<Rightarrow> int_op \<Rightarrow> int \<Rightarrow> int \<Rightarrow> bool" where
  "fold_ok t op a b =
     (if op = Op_floordiv then \<not> (a = - (2 ^ (numeric_width t - 1)) \<and> b = - 1)
      else if op = Op_mod then 0 \<le> a \<and> 0 < b
      else if op \<in> {Op_lshift, Op_rshift} then 0 \<le> b \<and> b < int (numeric_width t)
      else True)"

lemma bits_of_bitwise:
  "and (bits_of w a) (bits_of w b) = bits_of w (and a b)"
  "or (bits_of w a) (bits_of w b) = bits_of w (or a b)"
  "xor (bits_of w a) (bits_of w b) = bits_of w (xor a b)"
proof -
  have e: "int x = int (bits_of w z) \<Longrightarrow> x = bits_of w z" for x z by (simp only: of_nat_eq_iff)
  show "and (bits_of w a) (bits_of w b) = bits_of w (and a b)"
    by (rule e) (simp add: of_nat_and_eq take_bit_eq_mod [symmetric])
  show "or (bits_of w a) (bits_of w b) = bits_of w (or a b)"
    by (rule e) (simp add: of_nat_or_eq take_bit_eq_mod [symmetric])
  show "xor (bits_of w a) (bits_of w b) = bits_of w (xor a b)"
    by (rule e) (simp add: of_nat_xor_eq take_bit_eq_mod [symmetric])
qed

context arith_dialect
begin

lemma arith_op_value:
  fixes t a b op
  defines "w \<equiv> numeric_width t" and "out \<equiv> result_numeric_type_for_op t (Int_op op)"
  assumes t: "int_scalar_type t" and a: "wrap_int a t = a" and b: "wrap_int b t = b"
    and py: "python_op op a b = Inr c" and ok: "fold_ok t op a b"
    and bool: "t = Boolean \<Longrightarrow> Int_op op \<notin> bool_widen_ops"
  shows "arith_op D op (arith_signed t) w (bits_of w a) (bits_of w b) = bits_of (numeric_width out) c
    \<and> (out = Boolean \<longrightarrow> c = 0 \<or> c = 1)"
proof -
  let ?A = "bits_of w a" and ?B = "bits_of w b"
  have w: "0 < w" by (simp add: w_def)
  have lt: "?A < 2 ^ w" "?B < 2 ^ w" by simp_all
  have s: "sval w ?A = a" "sval w ?B = b" if "arith_signed t = Some True"
    using wrap_range(1) [OF t a that] wrap_range(1) [OF t b that] sval_bits_of [OF w] by (simp_all add: w_def)
  have u: "int ?A = a" "int ?B = b" "0 \<le> a" "0 \<le> b" if "arith_signed t \<noteq> Some True"
    using wrap_range(2) [OF t a that] wrap_range(2) [OF t b that] by (simp_all add: w_def)
  have sg: "arith_signed t = Some True \<or> arith_signed t = Some False"
    using t by (simp add: arith_signed_simps(1))
  have le: "?A \<le> ?B \<longleftrightarrow> a \<le> b" "?A < ?B \<longleftrightarrow> a < b" "?B \<le> ?A \<longleftrightarrow> b \<le> a" "?B < ?A \<longleftrightarrow> b < a" if "arith_signed t \<noteq> Some True"
    using u(1,2) [OF that] by (metis of_nat_le_iff, metis of_nat_less_iff, metis of_nat_le_iff, metis of_nat_less_iff)
  have eq: "?A = ?B \<longleftrightarrow> a = b"
  proof (cases "arith_signed t = Some True")
    case True
    then show ?thesis using s by metis
  next
    case False
    then show ?thesis using u by metis
  qed
  have B0: "?B \<noteq> 0" if "b \<noteq> 0"
  proof
    assume "?B = 0"
    moreover have "bits_of w 0 = 0" "sval w 0 = 0" by (simp_all add: bits_of_def sval_def)
    ultimately show False using s(2) u(2) that by (cases "arith_signed t = Some True") auto
  qed
  have shift: "?B = nat b \<and> nat b < w" if "0 \<le> b" "b < int w"
  proof -
    have "int w < 2 ^ w" by (metis less_exp of_nat_less_iff of_nat_numeral of_nat_power)
    then have "b mod 2 ^ w = b" using that by (intro mod_pos_pos_trivial) linarith+
    then show ?thesis using that by (simp add: bits_of_def nat_less_iff)
  qed
  have cmp: "Int_op op \<in> cmp_ops \<Longrightarrow> numeric_width out = 1"
    by (simp add: out_def result_numeric_type_for_op_def)
  have same: "Int_op op \<notin> cmp_ops \<Longrightarrow> out = t"
    by (auto simp: out_def result_numeric_type_for_op_def)
  have bool01: "a = 0 \<or> a = 1" "b = 0 \<or> b = 1" if "t = Boolean"
    using a b that by (auto simp: wrap_int_def split: if_splits)
  have ring: "bits_of w (int ?A + int ?B) = bits_of w (a + b)" "bits_of w (int ?A - int ?B) = bits_of w (a - b)"
    "bits_of w (int ?A * int ?B) = bits_of w (a * b)"
    by (rule bits_of_cong, simp add: mod_simps)+
  note ops = cmp_ops_def bool_widen_ops_def
  show ?thesis
  proof (cases op)
    case Op_add
    then show ?thesis using py bool same by (auto simp: ops addi_law lt ring w_def [symmetric] simp del: int_bits_of)
  next
    case Op_sub
    then show ?thesis using py bool same by (auto simp: ops subi_law lt ring w_def [symmetric] simp del: int_bits_of)
  next
    case Op_mul
    then show ?thesis using py bool same by (auto simp: ops muli_law lt ring w_def [symmetric] simp del: int_bits_of)
  next
    case Op_floordiv
    then have b0: "b \<noteq> 0" "c = a div b" using py by (auto split: if_splits)
    have out: "out = t" "t \<noteq> Boolean" using same bool Op_floordiv by (auto simp: ops)
    show ?thesis
    proof (cases "arith_signed t = Some True")
      case True
      then show ?thesis using Op_floordiv ok b0 B0 s [OF True] out w
        by (simp add: floordivsi_law fold_ok_def w_def)
    next
      case False
      have "int (?A div ?B) = a div b" using u [OF False] by (simp only: of_nat_div)
      moreover have "?A div ?B < 2 ^ w" using lt(1) by (meson div_le_dividend le_less_trans)
      ultimately have "?A div ?B = bits_of w (a div b)" by (metis bits_of_int)
      then show ?thesis using Op_floordiv b0 B0 out sg False by (simp add: divui_law w_def)
    qed
  next
    case Op_mod
    then have b0: "b \<noteq> 0" "c = a mod b" using py by (auto split: if_splits)
    have out: "out = t" "t \<noteq> Boolean" using same bool Op_mod by (auto simp: ops)
    have pos: "0 \<le> a" "0 < b" using ok Op_mod by (simp_all add: fold_ok_def)
    show ?thesis
    proof (cases "arith_signed t = Some True")
      case True
      then show ?thesis using Op_mod pos B0 b0 s [OF True] out w
        by (simp add: remsi_law w_def signed_modulo_int_def sgn_if)
    next
      case False
      have "int (?A mod ?B) = a mod b" using u [OF False] by (simp only: of_nat_mod)
      moreover have "?A mod ?B < 2 ^ w" using lt(1) by (meson mod_less_eq_dividend le_less_trans)
      ultimately have "?A mod ?B = bits_of w (a mod b)" by (metis bits_of_int)
      then show ?thesis using Op_mod b0 B0 out sg False by (simp add: remui_law w_def)
    qed
  next
    case Op_and
    then show ?thesis using py same bool01 by (auto simp: ops andi_law lt bits_of_bitwise w_def)
  next
    case Op_or
    then show ?thesis using py same bool01 by (auto simp: ops ori_law lt bits_of_bitwise w_def)
  next
    case Op_xor
    then show ?thesis using py same bool01 by (auto simp: ops xori_law lt bits_of_bitwise w_def)
  next
    case Op_lshift
    then have sh: "0 \<le> b" "b < int w" "c = push_bit (nat b) a" using ok py by (auto simp: fold_ok_def w_def split: if_splits)
    have out: "out = t" using same Op_lshift by (auto simp: ops)
    have "c mod 2 ^ w = push_bit (nat b) (int ?A) mod 2 ^ w"
      by (simp add: sh(3) push_bit_eq_mult mod_mult_left_eq)
    moreover have "t = Boolean \<Longrightarrow> c = a" using sh by (simp add: w_def)
    ultimately show ?thesis
      using Op_lshift shift [OF sh(1,2)] out bool01 lt(1) by (auto simp: shli_law w_def intro: bits_of_cong)
  next
    case Op_rshift
    then have sh: "0 \<le> b" "b < int w" "c = drop_bit (nat b) a" using ok py by (auto simp: fold_ok_def w_def split: if_splits)
    have out: "out = t" using same Op_rshift by (auto simp: ops)
    have bo: "t = Boolean \<Longrightarrow> c = a" using sh by (simp add: w_def)
    show ?thesis
    proof (cases "arith_signed t = Some True")
      case True
      then show ?thesis
        using Op_rshift shift [OF sh(1,2)] out bo bool01 lt(1) s [OF True] w by (auto simp: shrsi_law sh(3) w_def)
    next
      case False
      have i: "int (drop_bit (nat b) ?A) = c" using u(1) [OF False] by (simp only: of_nat_drop_bit sh(3))
      have "drop_bit (nat b) ?A \<le> ?A" by (simp add: drop_bit_eq_div)
      then have "drop_bit (nat b) ?A < 2 ^ w" using lt(1) by linarith
      then have "drop_bit (nat b) ?A = bits_of w c" using i by (metis bits_of_int)
      then show ?thesis
        using Op_rshift shift [OF sh(1,2)] out bo bool01 lt(1) False by (auto simp: shrui_law w_def)
    qed
  next
    case Op_lt
    then show ?thesis using py cmp sg le s by (auto simp: ops cmpi_law lt bits_of_def w_def)
  next
    case Op_le
    then show ?thesis using py cmp sg le s by (auto simp: ops cmpi_law lt bits_of_def w_def)
  next
    case Op_eq
    then show ?thesis using py cmp eq by (auto simp: ops cmpi_law lt bits_of_def w_def)
  next
    case Op_ne
    then show ?thesis using py cmp eq by (auto simp: ops cmpi_law lt bits_of_def w_def)
  next
    case Op_gt
    then show ?thesis using py cmp sg le s by (auto simp: ops cmpi_law lt bits_of_def w_def)
  next
    case Op_ge
    then show ?thesis using py cmp sg le s by (auto simp: ops cmpi_law lt bits_of_def w_def)
  qed
qed

end
section \<open>Whole operators\<close>

definition mixed :: "payload \<Rightarrow> payload \<Rightarrow> bool" where
  "mixed p q \<longleftrightarrow> (\<exists>i b. p = Py i \<and> q = Ir b \<or> p = Ir b \<and> q = Py i)"

lemma python_reflect: "Int_op op \<in> cmp_ops \<Longrightarrow> python_op (reflect op) b a = python_op op a b"
  by (cases op) (auto simp: cmp_ops_def)

lemma reflect_cmp: "Int_op op \<in> cmp_ops \<Longrightarrow> Int_op (reflect op) \<in> cmp_ops"
  by (cases op) (auto simp: cmp_ops_def)

lemma fold_ok_cmp: "Int_op op \<in> cmp_ops \<Longrightarrow> fold_ok t op a b"
  by (cases op) (auto simp: cmp_ops_def fold_ok_def)

lemma cmp_not_widen: "Int_op op \<in> cmp_ops \<Longrightarrow> Int_op op \<notin> bool_widen_ops"
  by (cases op) (auto simp: cmp_ops_def bool_widen_ops_def)

lemma result_type_ok: "int_scalar_type t \<Longrightarrow> int_scalar_type (result_numeric_type_for_op t (Int_op op))"
  by (auto simp: result_numeric_type_for_op_def int_scalar_type_def is_integer_def)

lemma dval_result:
  assumes "int_scalar_type out" "out = Boolean \<Longrightarrow> c = 0 \<or> c = 1"
  shows "dval out (bits_of (numeric_width out) c) = wrap_int c out"
proof (cases "out = Boolean")
  case True
  then show ?thesis using assms(2) by (auto simp: dval_def arith_signed_def wrap_int_def bits_of_def)
qed (use assms dval_bits_of in blast)

context arith_dialect
begin

lemma apply_op_value:
  assumes ok: "scalar_ok (t, lv)" "scalar_ok (t, rv)" and val: "scalar_value (t, lv) = a" "scalar_value (t, rv) = b"
    and py: "python_op op a b = Inr c" and fold: "fold_ok t op a b"
    and bool: "t = Boolean \<Longrightarrow> Int_op op \<notin> bool_widen_ops"
    and const: "mixed lv rv \<Longrightarrow> numeric_width t \<le> 64"
    and out: "out = result_numeric_type_for_op t (Int_op op)"
  shows "\<exists>v. apply_op D op t lv rv = Inr v \<and> scalar_ok (out, out_value out v)
    \<and> scalar_value (out, out_value out v) = wrap_int c out"
proof -
  let ?w = "numeric_width t"
  have t: "int_scalar_type t" "wrap_int a t = a" "wrap_int b t = b"
    using scalar_ok_wrap [OF ok(1)] scalar_ok_wrap [OF ok(2)] val by simp_all
  have to: "int_scalar_type out" using t out result_type_ok by simp
  have run: "arith_op D op (arith_signed t) ?w (bits_of ?w a) (bits_of ?w b) = bits_of (numeric_width out) c"
    "out = Boolean \<Longrightarrow> c = 0 \<or> c = 1"
    using arith_op_value [OF t py fold bool] by (simp_all add: out)
  have fin: "scalar_ok (out, Ir (bits_of (numeric_width out) c))
      \<and> scalar_value (out, Ir (bits_of (numeric_width out) c)) = wrap_int c out"
    using to dval_result [OF to run(2)] by simp
  have bits: "x = bits_of ?w (dval t x)" if "scalar_ok (t, Ir x)" for x
    using that bits_of_dval [of t x] by simp
  show ?thesis
  proof (cases lv)
    case (Py i)
    then have i: "a = i" using val by simp
    show ?thesis
    proof (cases rv)
      case (Py j)
      then show ?thesis using \<open>lv = Py i\<close> val py to by (simp add: apply_op_def wrap_idem)
    next
      case (Ir y)
      then have c: "arith_const D i ?w = bits_of ?w a"
        using arith_const_bits [OF t(1)] t(2) const i \<open>lv = Py i\<close> by (auto simp: mixed_def)
      have y: "y = bits_of ?w b" using bits [of y] Ir ok(2) val(2) by simp
      show ?thesis
      proof (cases "Int_op op \<in> cmp_ops")
        case True
        note rc = reflect_cmp [OF True]
        have "arith_op D (reflect op) (arith_signed t) ?w (bits_of ?w b) (bits_of ?w a) = bits_of (numeric_width out) c"
          using arith_op_value [OF t(1,3,2), of "reflect op" c] py python_reflect [OF True, of b a] fold_ok_cmp [OF rc] cmp_not_widen [OF rc]
            True rc by (simp add: out result_numeric_type_for_op_def)
        then have "apply_op D op t lv rv = Inr (Ir (bits_of (numeric_width out) c))"
          using Ir \<open>lv = Py i\<close> True c y by (simp add: apply_op_def)
        then show ?thesis using fin by simp
      next
        case False
        then have "apply_op D op t lv rv = Inr (Ir (bits_of (numeric_width out) c))"
          using Ir \<open>lv = Py i\<close> c y run(1) by (simp add: apply_op_def)
        then show ?thesis using fin by simp
      qed
    qed
  next
    case (Ir x)
    have x: "x = bits_of ?w a" using bits [of x] Ir ok(1) val(1) by simp
    have "\<exists>y. apply_op D op t lv rv = Inr (Ir (arith_op D op (arith_signed t) ?w x y)) \<and> y = bits_of ?w b"
    proof (cases rv)
      case (Py j)
      then have "arith_const D j ?w = bits_of ?w b"
        using arith_const_bits [OF t(1)] t(3) const val(2) Ir by (auto simp: mixed_def)
      then show ?thesis using Py Ir by (simp add: apply_op_def Let_def)
    next
      case (Ir y)
      then show ?thesis using bits [of y] ok(2) val(2) \<open>lv = Ir x\<close> by (simp add: apply_op_def)
    qed
    then show ?thesis using fin run(1) x by auto
  qed
qed

lemma operand_type_value:
  assumes "scalar_ok x"
  shows "int_scalar_type (operand_type_for_op (fst x) op)"
    "wrap_int (scalar_value x) (operand_type_for_op (fst x) op) = scalar_value x"
proof -
  note w = scalar_ok_wrap [OF assms]
  show "int_scalar_type (operand_type_for_op (fst x) op)"
    using w by (auto simp: operand_type_for_op_def int_scalar_type_def is_integer_def)
  show "wrap_int (scalar_value x) (operand_type_for_op (fst x) op) = scalar_value x"
  proof (cases "op \<in> bool_widen_ops \<and> fst x = Boolean")
    case True
    then have "scalar_value x = 0 \<or> scalar_value x = 1" using w by (auto simp: wrap_int_def split: if_splits)
    then show ?thesis using True by (auto simp: operand_type_for_op_def wrap_int_def)
  qed (use w in \<open>auto simp: operand_type_for_op_def\<close>)
qed

lemma common_type_ok:
  assumes "int_scalar_type ta" "int_scalar_type tb" "common_numeric_type_for_op ta tb op = Inr t"
  shows "int_scalar_type t" "op \<in> bool_widen_ops \<Longrightarrow> t \<noteq> Boolean"
proof -
  have r: "resolve_numeric_type (operand_type_for_op ta op) (operand_type_for_op tb op) = Inr t"
    using assms(3) by (auto simp: common_numeric_type_for_op_def rbind_Inr_iff split: if_splits)
  have nf: "\<not> is_float (operand_type_for_op ta op)" "\<not> is_float (operand_type_for_op tb op)"
    using assms(1,2) by (auto simp: operand_type_for_op_def is_float_def int_scalar_type_def is_integer_def)
  have "t = operand_type_for_op ta op \<or> t = operand_type_for_op tb op"
    using r nf by (auto simp: resolve_numeric_type_def Let_def split: if_splits)
  then show "int_scalar_type t" "op \<in> bool_widen_ops \<Longrightarrow> t \<noteq> Boolean"
    using assms(1,2) by (auto simp: operand_type_for_op_def int_scalar_type_def is_integer_def split: if_splits)
qed

text \<open>Whatever the payloads, the result is the Python result on the converted numbers, wrapped.\<close>

lemma make_binop_value:
  assumes ok: "scalar_ok x" "scalar_ok y"
    and common: "common_numeric_type_for_op (fst x) (fst y) (Int_op op) = Inr t"
    and ab: "(a, b) = (if swap then (wrap_int (scalar_value y) t, wrap_int (scalar_value x) t)
                       else (wrap_int (scalar_value x) t, wrap_int (scalar_value y) t))"
    and py: "python_op op a b = Inr c" and fold: "fold_ok t op a b"
    and const: "mixed (snd x) (snd y) \<Longrightarrow> numeric_width t \<le> 64"
    and out: "out = result_numeric_type_for_op t (Int_op op)"
  shows "\<exists>v. make_binop D op swap x y = Inr (out, v) \<and> scalar_ok (out, v) \<and> scalar_value (out, v) = wrap_int c out"
proof -
  let ?ta = "operand_type_for_op (fst x) (Int_op op)" and ?tb = "operand_type_for_op (fst y) (Int_op op)"
  define l where "l = to_type D (to_type D x ?ta) t"
  define r where "r = to_type D (to_type D y ?tb) t"
  have ty: "int_scalar_type (fst x)" "int_scalar_type (fst y)" using scalar_ok_wrap ok by blast+
  note t = common_type_ok [OF ty common]
  note x1 = to_type_value [OF ok(1) operand_type_value(1) [OF ok(1), of "Int_op op"]]
  note y1 = to_type_value [OF ok(2) operand_type_value(1) [OF ok(2), of "Int_op op"]]
  note x2 = to_type_value [OF x1(1) t(1)] and y2 = to_type_value [OF y1(1) t(1)]
  have l: "scalar_ok l" "scalar_value l = wrap_int (scalar_value x) t" "fst l = t" "(\<exists>i. snd l = Py i) \<longleftrightarrow> (\<exists>i. snd x = Py i)"
    using x1 x2 operand_type_value(2) [OF ok(1)] by (simp_all add: l_def)
  have r: "scalar_ok r" "scalar_value r = wrap_int (scalar_value y) t" "fst r = t" "(\<exists>i. snd r = Py i) \<longleftrightarrow> (\<exists>i. snd y = Py i)"
    using y1 y2 operand_type_value(2) [OF ok(2)] by (simp_all add: r_def)
  have "operand_type_for_op (operand_type_for_op s op') op' = operand_type_for_op s op'" for s op'
    by (simp add: operand_type_for_op_def)
  then have co: "coerce_operands D x y (Int_op op) = Inr (l, r, t)"
    using common by (simp add: coerce_operands_def l_def r_def common_numeric_type_for_op_def Let_def)
  have mix: "mixed (snd l) (snd r) \<longleftrightarrow> mixed (snd x) (snd y)"
  proof -
    have k: "mixed p q \<longleftrightarrow> (\<exists>i. p = Py i) \<noteq> (\<exists>i. q = Py i)" for p q
      by (cases p; cases q) (auto simp: mixed_def)
    show ?thesis unfolding k l(4) r(4) ..
  qed
  have sym: "mixed p q \<longleftrightarrow> mixed q p" for p q by (auto simp: mixed_def)
  define lv rv where "lv = (if swap then snd r else snd l)" and "rv = (if swap then snd l else snd r)"
  have "\<exists>v. apply_op D op t lv rv = Inr v \<and> scalar_ok (out, out_value out v)
    \<and> scalar_value (out, out_value out v) = wrap_int c out"
  proof (rule apply_op_value [OF _ _ _ _ py fold _ _ out])
    show "scalar_ok (t, lv)" "scalar_ok (t, rv)"
      using l r by (cases l; cases r; simp add: lv_def rv_def)+
    show "scalar_value (t, lv) = a" "scalar_value (t, rv) = b"
      using l r ab by (cases l; cases r; simp add: lv_def rv_def split: if_splits)+
    show "t = Boolean \<Longrightarrow> Int_op op \<notin> bool_widen_ops" using t(2) by blast
    show "mixed lv rv \<Longrightarrow> numeric_width t \<le> 64"
      using const mix sym by (auto simp: lv_def rv_def split: if_splits)
  qed
  then show ?thesis
    by (auto simp: make_binop_def co out [symmetric] Let_def lv_def rv_def split: if_splits)
qed

end
section \<open>Unary operators\<close>

context arith_dialect
begin

lemma unary_value:
  assumes ok: "scalar_ok (t, v)" and b: "t \<noteq> Boolean" and w: "numeric_width t \<le> 64"
  shows "\<exists>v'. numeric_neg D (t, v) = Inr (t, v') \<and> scalar_ok (t, v') \<and> scalar_value (t, v') = wrap_int (- scalar_value (t, v)) t"
    "\<exists>v'. numeric_invert D (t, v) = Inr (t, v') \<and> scalar_ok (t, v') \<and> scalar_value (t, v') = wrap_int (not (scalar_value (t, v))) t"
    "\<exists>v'. numeric_abs D (t, v) = Inr (t, v') \<and> scalar_ok (t, v') \<and> scalar_value (t, v') = wrap_int \<bar>scalar_value (t, v)\<bar> t"
proof -
  let ?w = "numeric_width t"
  have t: "int_scalar_type t" using scalar_ok_wrap [OF ok] by simp
  have val: "scalar_ok (t, Ir (bits_of ?w c)) \<and> scalar_value (t, Ir (bits_of ?w c)) = wrap_int c t" for c
    using t b by (simp add: dval_bits_of)
  have "wrap_int 0 t = 0" "wrap_int (- 1) t = - 1 \<or> numeric_signed t = Some False"
    using t b by (cases t; simp add: wrap_int_def int_scalar_type_def is_integer_def Let_def)+
  then have zero: "arith_const D 0 ?w = bits_of ?w 0" using arith_const_bits [OF t _ w] by simp
  have ones: "arith_const D (- 1) ?w = bits_of ?w (- 1)"
  proof -
    have "(- 1 :: int) < 2 ^ ?w" by (rule less_trans [of _ 0]) simp_all
    then have "ar_constant D ?w (- 1) = bits_of ?w (- 1)" by (intro constant_law) simp_all
    then show ?thesis using w by (simp add: arith_const_def as_signed_bits_def)
  qed
  show "\<exists>v'. numeric_neg D (t, v) = Inr (t, v') \<and> scalar_ok (t, v') \<and> scalar_value (t, v') = wrap_int (- scalar_value (t, v)) t"
  proof (cases v)
    case (Py i)
    then show ?thesis using b t by (simp add: numeric_neg_def wrap_idem)
  next
    case (Ir x)
    then have x: "x < 2 ^ ?w" using ok by simp
    have e: "int x = dval t x mod 2 ^ ?w" using bits_of_dval [OF t x] int_bits_of [of ?w "dval t x"] by metis
    have "bits_of ?w (- int x) = bits_of ?w (- dval t x)"
      by (rule bits_of_cong) (simp only: e mod_minus_eq)
    moreover have "bits_of ?w 0 = 0" by (simp add: bits_of_def)
    moreover have "bits_of ?w 0 < 2 ^ ?w" by simp
    ultimately show ?thesis
      using Ir b val [of "- dval t x"] subi_law [OF \<open>bits_of ?w 0 < 2 ^ ?w\<close> x] by (simp add: numeric_neg_def zero)
  qed
  show "\<exists>v'. numeric_invert D (t, v) = Inr (t, v') \<and> scalar_ok (t, v') \<and> scalar_value (t, v') = wrap_int (not (scalar_value (t, v))) t"
  proof (cases v)
    case (Py i)
    then show ?thesis using b t by (simp add: numeric_invert_def wrap_idem)
  next
    case (Ir x)
    then have x: "x < 2 ^ ?w" "x = bits_of ?w (dval t x)" using ok bits_of_dval [of t x] by simp_all
    have "ar_xori D ?w x (bits_of ?w (- 1)) = bits_of ?w (xor (dval t x) (- 1))"
      using x bits_of_bitwise(3) [of ?w "dval t x" "- 1"] by (simp add: xori_law)
    then show ?thesis using Ir b val [of "not (dval t x)"] by (simp add: numeric_invert_def ones)
  qed
  show "\<exists>v'. numeric_abs D (t, v) = Inr (t, v') \<and> scalar_ok (t, v') \<and> scalar_value (t, v') = wrap_int \<bar>scalar_value (t, v)\<bar> t"
  proof (cases v)
    case (Py i)
    then show ?thesis using b t by (simp add: numeric_abs_def wrap_idem)
  next
    case (Ir x)
    then have x: "x < 2 ^ ?w" "wrap_int (dval t x) t = dval t x" using ok wrap_dval [OF t] by simp_all
    show ?thesis
    proof (cases "arith_signed t = Some True")
      case True
      then show ?thesis using Ir b val [of "\<bar>dval t x\<bar>"] x by (simp add: numeric_abs_def absi_law dval_def)
    next
      case False
      then have "0 \<le> dval t x" using wrap_range(2) [OF t x(2)] by simp
      then show ?thesis using Ir b False x t by (simp add: numeric_abs_def)
    qed
  qed
qed

end

section \<open>Promotion\<close>

text \<open>The order the integer types are promoted along: by width, unsigned above signed.\<close>

definition int_rank :: "num_ty \<Rightarrow> nat" where
  "int_rank t = 2 * numeric_width t + (if numeric_signed t = Some False then 1 else 0)"

lemma int_rank_inj: "int_scalar_type s \<Longrightarrow> int_scalar_type t \<Longrightarrow> int_rank s = int_rank t \<Longrightarrow> s = t"
  by (cases s; cases t; simp add: int_rank_def int_scalar_type_def is_integer_def)

lemma resolve_is_max:
  assumes "int_scalar_type s" "int_scalar_type t"
  shows "resolve_numeric_type s t = Inr (if int_rank t \<le> int_rank s then s else t)"
proof -
  have f: "\<not> is_float s" "\<not> is_float t" using assms by (simp_all add: is_float_def int_scalar_type_def is_integer_def)
  have sg: "numeric_signed s = Some True \<or> numeric_signed s = Some False" "numeric_signed t = Some True \<or> numeric_signed t = Some False"
    using assms by (auto simp: int_scalar_type_def is_integer_def)
  show ?thesis
    using f sg int_rank_inj [OF assms] by (auto simp: resolve_numeric_type_def int_rank_def)
qed

lemma wrap_wider:
  assumes t: "int_scalar_type s" "int_scalar_type t" and r: "int_rank s \<le> int_rank t"
    and v: "wrap_int v s = v" "0 \<le> v \<or> numeric_signed t = Some True"
  shows "wrap_int v t = v"
proof (cases "s = t")
  case False
  let ?w = "numeric_width t" and ?u = "numeric_width s"
  have sg: "numeric_signed s = Some True \<or> numeric_signed s = Some False" "numeric_signed t = Some True \<or> numeric_signed t = Some False"
    using t by (auto simp: int_scalar_type_def is_integer_def)
  have tb: "t \<noteq> Boolean" "?w \<noteq> Suc 0"
  proof -
    show nb: "t \<noteq> Boolean"
    proof
      assume "t = Boolean"
      then have "numeric_width s \<le> 1" using r by (simp add: int_rank_def split: if_splits)
      moreover have "numeric_width s \<noteq> 0" by (metis width_pos less_irrefl)
      ultimately have "numeric_width s = Suc 0" by linarith
      then show False using False \<open>t = Boolean\<close> by (simp add: arith_signed_simps(3))
    qed
    then show "?w \<noteq> Suc 0" by (simp add: arith_signed_simps(3))
  qed
  have le: "?u \<le> ?w" using r by (auto simp: int_rank_def split: if_splits)
  have pw: "(2 :: int) ^ ?u \<le> 2 ^ ?w" "(2 :: int) ^ (?u - 1) \<le> 2 ^ (?w - 1)" using le by (simp_all add: power_increasing diff_le_mono)
  have h: "(2 :: int) ^ ?w = 2 * 2 ^ (?w - 1)" using width_pos [of t] by (cases ?w) simp_all
  show ?thesis
  proof (cases "numeric_signed t = Some True")
    case False
    then have "0 \<le> v" using v(2) by simp
    moreover have "v < 2 ^ ?w"
    proof (cases "arith_signed s = Some True")
      case True
      have "(0 :: int) < 2 ^ (?w - 1)" by simp
      then show ?thesis using wrap_range(1) [OF t(1) v(1) True] pw(2) h by linarith
    next
      case False
      then show ?thesis using wrap_range(2) [OF t(1) v(1)] pw(1) by linarith
    qed
    ultimately have "0 \<le> v" "v < 2 ^ ?w" .
    then show ?thesis using False tb by (simp add: wrap_int_def Let_def)
  next
    case True
    have "- (2 ^ (?w - 1)) \<le> v \<and> v < 2 ^ (?w - 1)"
    proof (cases "arith_signed s = Some True")
      case True
      then show ?thesis using wrap_range(1) [OF t(1) v(1) True] pw by linarith
    next
      case False
      consider "numeric_signed s = Some False" | "s = Boolean"
        using False sg(1) arith_signed_simps(1) [OF t(1)] by auto
      then have "?u < ?w"
      proof cases
        case 1
        then show ?thesis using r True by (simp add: int_rank_def)
      next
        case 2
        moreover have "numeric_width t \<noteq> 0" by (metis width_pos less_irrefl)
        ultimately have "Suc 0 < numeric_width t" using tb(2) by linarith
        then show ?thesis using \<open>s = Boolean\<close> by simp
      qed
      then have "(2 :: int) ^ ?u \<le> 2 ^ (?w - 1)" by (intro power_increasing) simp_all
      moreover have "(0 :: int) < 2 ^ (?w - 1)" by simp
      ultimately show ?thesis using wrap_range(2) [OF t(1) v(1) False] by linarith
    qed
    then have "dval t (bits_of ?w v) = v" using True t tb sval_bits_of [of ?w v] by (simp add: dval_def arith_signed_simps(1))
    then show ?thesis using dval_bits_of [OF t(2) tb(1)] by simp
  qed
qed (use v in simp)

section \<open>Properties\<close>

text \<open>
  C24: on the integer types promotion is the join of a total order. The common type does not depend on
  the order or the grouping of the operands, it is one of their types, and converting an operand to
  it keeps its number unless a negative number meets an unsigned common type.
\<close>

theorem promotion_is_join:
  assumes "int_scalar_type ta" "int_scalar_type tb" "int_scalar_type tc"
  shows "(\<exists>t \<in> {ta, tb}. resolve_numeric_type ta tb = Inr t \<and> resolve_numeric_type tb ta = Inr t
      \<and> (\<forall>v. wrap_int v ta = v \<and> (0 \<le> v \<or> numeric_signed t = Some True) \<longrightarrow> wrap_int v t = v))
    \<and> rbind (resolve_numeric_type ta tb) (\<lambda>t. resolve_numeric_type t tc)
      = rbind (resolve_numeric_type tb tc) (\<lambda>t. resolve_numeric_type ta t)"
proof -
  let ?t = "if int_rank tb \<le> int_rank ta then ta else tb"
  have "resolve_numeric_type ta tb = Inr ?t" "resolve_numeric_type tb ta = Inr ?t"
    using resolve_is_max [OF assms(1,2)] resolve_is_max [OF assms(2,1)] int_rank_inj [OF assms(1,2)] by auto
  moreover have "wrap_int v ?t = v" if "wrap_int v ta = v" "0 \<le> v \<or> numeric_signed ?t = Some True" for v
    by (rule wrap_wider [OF assms(1) _ _ that]) (use assms in auto)
  ultimately have "\<exists>t \<in> {ta, tb}. resolve_numeric_type ta tb = Inr t \<and> resolve_numeric_type tb ta = Inr t
      \<and> (\<forall>v. wrap_int v ta = v \<and> (0 \<le> v \<or> numeric_signed t = Some True) \<longrightarrow> wrap_int v t = v)"
    by (intro bexI [of _ ?t]) auto
  moreover have "rbind (resolve_numeric_type ta tb) (\<lambda>t. resolve_numeric_type t tc)
      = rbind (resolve_numeric_type tb tc) (\<lambda>t. resolve_numeric_type ta t)"
    using assms by (simp add: resolve_is_max)
  ultimately show ?thesis by blast
qed

theorem promotion_is_join_witness:
  "resolve_numeric_type Int32 Uint32 = Inr Uint32 \<and> resolve_numeric_type Uint32 Int32 = Inr Uint32 \<and> wrap_int 7 Uint32 = 7"
  using promotion_is_join [of Int32 Uint32 Int8]
  by (auto simp: int_scalar_type_def is_integer_def wrap_int_def resolve_numeric_type_def is_float_def)



text \<open>
  The remainder is the exception: Python's \<open>divmod\<close> satisfies \<open>q * b + r = a\<close>; on values of the traced
  program the quotient is rounded down and the remainder belongs to the truncated quotient.
\<close>

theorem divmod_traced_inconsistent:
  "divmod_op standard_arith False (Int32, Py (- 7)) (Int32, Py 2) = Inr ((Int32, Py (- 4)), (Int32, Py 1))
    \<and> divmod_op standard_arith False (Int32, Ir (bits_of 32 (- 7))) (Int32, Py 2)
      = Inr ((Int32, Ir (bits_of 32 (- 4))), (Int32, Ir (bits_of 32 (- 1))))"
proof -
  have common: "common_numeric_type_for_op Int32 Int32 (Int_op op) = Inr Int32" for op
    by (simp add: common_numeric_type_for_op_def operand_type_for_op_def resolve_numeric_type_def is_float_def)
  have out: "result_numeric_type_for_op Int32 (Int_op Op_floordiv) = Int32" "result_numeric_type_for_op Int32 (Int_op Op_mod) = Int32"
    by (auto simp: result_numeric_type_for_op_def cmp_ops_def)
  have "sval 32 (bits_of 32 (- 7)) = - 7" "sval 32 (bits_of 32 2) = 2" by (simp_all add: sval_bits_of)
  then show ?thesis
    by (simp add: divmod_op_def make_binop_def coerce_operands_def to_type_def operand_type_for_op_def common out
        apply_op_def arith_const_def as_signed_bits_def standard_arith_def arith_signed_def signed_modulo_int_def wrap_int_def)
qed
end
