(* ===== verification/Struct_Layout.thy ===== *)
theory Struct_Layout
  imports Numeric_Types
begin

text \<open>
  Composite types and storage (\<open>expr/struct.py\<close>, \<open>Array\<close> of \<open>expr/typing.py\<close>): the byte layout of
  structs and unions, the bump allocator, and moving values between the program being traced, its
  flat list of IR values, and memory.

  A class is described by what the code computes with: a struct class by its declared fields and its
  effective fields, which differ from the declared ones where a value has specialized a \<open>Constexpr\<close> or
  a nested struct. Two classes with the same description are not told apart.
\<close>

section \<open>Type specifications\<close>

datatype 'c spec =
    Num num_ty
  | VectorT num_ty nat
  | PointerT bool
  | ArrayT "'c spec" nat nat
  | AlignT "'c spec" nat
  | ConstT "'c option"
  | EmptyT
  | StructT "(string \<times> 'c spec) list" "(string \<times> 'c spec) list"
  | UnionT "(string \<times> 'c spec) list"
  | OpaqueT

fun is_constexpr :: "'c spec \<Rightarrow> bool" where
  "is_constexpr (ConstT _) = True"
| "is_constexpr _ = False"

text \<open>\<open>_align_up\<close> with the check of the alignment.\<close>

definition checked_align_up :: "nat \<Rightarrow> nat \<Rightarrow> nat res" where
  "checked_align_up v a = (if a = 0 then Inl ValueError else Inr (align_up v a))"

text \<open>Offsets of a product: the fields one after another, each at its alignment.\<close>

definition product_step ::
  "string \<times> nat \<times> nat \<Rightarrow> nat \<times> nat \<times> (string \<times> nat) list \<Rightarrow> nat \<times> nat \<times> (string \<times> nat) list" where
  "product_step field state =
     (case (field, state) of ((name, field_size, field_align), (offset, align, offsets)) \<Rightarrow>
       let offset = align_up offset field_align
       in (offset + field_size, max align field_align, offsets @ [(name, offset)]))"

definition product_layout :: "(string \<times> nat \<times> nat) list \<Rightarrow> nat \<times> nat \<times> (string \<times> nat) list" where
  "product_layout decls =
     (case fold product_step decls (0, 1, []) of (offset, align, offsets) \<Rightarrow> (align_up offset align, align, offsets))"

definition sum_layout :: "(string \<times> nat \<times> nat) list \<Rightarrow> nat \<times> nat \<times> (string \<times> nat) list" where
  "sum_layout decls =
     (if decls = [] then (0, 1, [])
      else let align = Max ((\<lambda>(_, _, a). a) ` set decls); sz = Max ((\<lambda>(_, s, _). s) ` set decls)
           in (align_up sz align, align, map (\<lambda>(name, _, _). (name, 0)) decls))"

text \<open>\<open>_field_layout\<close>: an empty field takes no alignment padding.\<close>

definition field_layout :: "string \<Rightarrow> (nat \<times> nat) res \<Rightarrow> (string \<times> nat \<times> nat) res" where
  "field_layout name sa = rbind sa (\<lambda>(sz, align). Inr (name, sz, if sz \<noteq> 0 then align else 1))"

lemma mapM_cong [fundef_cong]:
  "xs = ys \<Longrightarrow> (\<And>x. x \<in> set ys \<Longrightarrow> f x = g x) \<Longrightarrow> mapM f xs = mapM g ys"
  by (induction ys arbitrary: xs) auto

text \<open>\<open>dsl_size_of\<close> and \<open>dsl_align_of\<close>; a type that is not storable raises a \<open>TypeError\<close>.\<close>

fun size_align :: "'c spec \<Rightarrow> (nat \<times> nat) res" where
  "size_align (Num t) =
     (if numeric_width t < 8 then Inl TypeError
      else Inr ((numeric_width t + 7) div 8, (numeric_width t + 7) div 8))"
| "size_align (VectorT t numel) =
     (if t = Index then Inl TypeError
      else if numeric_width t * numel mod 8 \<noteq> 0 then Inl TypeError
      else Inr (numeric_width t * numel div 8, max 1 ((numeric_width t + 7) div 8)))"
| "size_align (PointerT is_global) = (if is_global then Inr (8, 8) else Inr (4, 4))"
| "size_align (ArrayT elem n align) =
     (case elem of
        Num t \<Rightarrow> Inr (max 1 (numeric_width t * n div 8), align)
      | _ \<Rightarrow> rbind (size_align elem) (\<lambda>(sz, _). Inr (sz * n, align)))"
| "size_align (AlignT inner align) = rbind (size_align inner) (\<lambda>(sz, _). Inr (sz, align))"
| "size_align (ConstT _) = Inl TypeError"
| "size_align EmptyT = Inr (0, 1)"
| "size_align (StructT decls effective) =
     rbind (mapM (\<lambda>(name, t). field_layout name (size_align t)) (filter (\<lambda>(_, t). \<not> is_constexpr t) decls))
       (\<lambda>fs. case product_layout fs of (sz, align, _) \<Rightarrow> Inr (sz, align))"
| "size_align (UnionT decls) =
     rbind (mapM (\<lambda>(name, t). field_layout name (size_align t)) (filter (\<lambda>(_, t). \<not> is_constexpr t) decls))
       (\<lambda>fs. case sum_layout fs of (sz, align, _) \<Rightarrow> Inr (sz, align))"
| "size_align OpaqueT = Inl TypeError"

definition field_layouts :: "(string \<times> 'c spec) list \<Rightarrow> (string \<times> nat \<times> nat) list res" where
  "field_layouts decls =
     mapM (\<lambda>(name, t). field_layout name (size_align t)) (filter (\<lambda>(_, t). \<not> is_constexpr t) decls)"

text \<open>\<open>_storage_layout\<close>: size, alignment and the byte offsets of the fields.\<close>

fun storage_layout :: "'c spec \<Rightarrow> (nat \<times> nat \<times> (string \<times> nat) list) res" where
  "storage_layout (StructT decls effective) = rbind (field_layouts decls) (\<lambda>fs. Inr (product_layout fs))"
| "storage_layout (UnionT decls) = rbind (field_layouts decls) (\<lambda>fs. Inr (sum_layout fs))"
| "storage_layout _ = Inl AttributeError"

section \<open>Making types\<close>

text \<open>
  \<open>Array[dtype, size, align]\<close>. The elements of a numeric array are packed and its alignment is not
  restricted; other elements keep their size and the array at least their alignment.
\<close>

definition array_class :: "'c spec \<Rightarrow> int \<Rightarrow> int option \<Rightarrow> 'c spec res" where
  "array_class dtype n align =
     rbind (guard TypeError (\<not> (is_constexpr dtype \<or> dtype = OpaqueT))) (\<lambda>_.
     rbind (guard TypeError (0 < n)) (\<lambda>_.
     rbind (case dtype of Num t \<Rightarrow> Inr (max 1 (numeric_width t div 8)) | _ \<Rightarrow> rbind (size_align dtype) (\<lambda>(_, a). Inr a)) (\<lambda>elem_align.
       let is_numeric = (case dtype of Num t \<Rightarrow> True | _ \<Rightarrow> False) in
     rbind (case align of
         None \<Rightarrow> Inr elem_align
       | Some a \<Rightarrow>
           rbind (guard TypeError (0 < a)) (\<lambda>_.
           rbind (guard ValueError (\<not> (\<not> is_numeric \<and> a mod int elem_align \<noteq> 0))) (\<lambda>_. Inr (nat a)))) (\<lambda>a.
     rbind (guard ValueError (\<not> (\<not> is_numeric \<and> and a (a - 1) \<noteq> 0))) (\<lambda>_.
       Inr (ArrayT dtype (nat n) a))))))"

definition align_class :: "'c spec \<Rightarrow> int \<Rightarrow> 'c spec res" where
  "align_class dtype requested =
     rbind (guard ValueError (0 < requested)) (\<lambda>_.
     rbind (guard ValueError (and (nat requested) (nat requested - 1) = 0)) (\<lambda>_.
     rbind (size_align dtype) (\<lambda>(_, natural).
     rbind (guard ValueError (int natural \<le> requested)) (\<lambda>_. Inr (AlignT dtype (nat requested))))))"

definition reserved_field_names :: "string set" where
  "reserved_field_names = {''replace'', ''peek'', ''poke''}"

definition validate_field_name :: "string \<Rightarrow> unit res" where
  "validate_field_name name =
     rbind (guard ValueError (\<not> (name \<noteq> [] \<and> hd name = CHR ''_''))) (\<lambda>_.
       guard ValueError (name \<notin> reserved_field_names))"

text \<open>\<open>Struct['name': Type, \<dots>]\<close>: an item without a name is called after its position.\<close>

fun anonymous_name :: "nat \<Rightarrow> string" where
  "anonymous_name n = (if n < 10 then [CHR ''_'', char_of (48 + n)]
     else anonymous_name (n div 10) @ [char_of (48 + n mod 10)])"

definition normalize_inline_fields :: "(string option \<times> 'c spec) list \<Rightarrow> (string \<times> 'c spec) list res" where
  "normalize_inline_fields params =
     rbind (guard ValueError (params \<noteq> [])) (\<lambda>_.
       fold (\<lambda>(idx, given, t) acc. rbind acc (\<lambda>fs.
           rbind (case given of None \<Rightarrow> Inr (anonymous_name idx)
                | Some name \<Rightarrow> rbind (validate_field_name name) (\<lambda>_. Inr name)) (\<lambda>name.
           rbind (guard ValueError (name \<notin> fst ` set fs)) (\<lambda>_. Inr (fs @ [(name, t)])))))
         (enumerate 0 params) (Inr []))"

text \<open>\<open>_resolve_field\<close> by name.\<close>

definition resolve_field :: "(string \<times> 'c spec) list \<Rightarrow> string \<Rightarrow> (string \<times> 'c spec) res" where
  "resolve_field decls key = (case find (\<lambda>f. fst f = key) decls of Some f \<Rightarrow> Inr f | None \<Rightarrow> Inl KeyError)"

text \<open>\<open>_field_values_from_args\<close>: the arguments of a struct constructor, by position and by name.\<close>

definition field_values_from_args :: "string list \<Rightarrow> 'v list \<Rightarrow> (string \<times> 'v) list \<Rightarrow> (string \<rightharpoonup> 'v) res" where
  "field_values_from_args names args kwargs =
     rbind (guard TypeError (\<not> length args > length names)) (\<lambda>_.
       let vals = map_of (zip names args); kw = map_of kwargs in
     rbind (fold (\<lambda>name acc. rbind acc (\<lambda>vals.
           case kw name of None \<Rightarrow> Inr vals
           | Some v \<Rightarrow> if vals name \<noteq> None then Inl TypeError else Inr (vals(name \<mapsto> v)))) names (Inr vals)) (\<lambda>vals.
     rbind (guard TypeError (\<not> (\<exists>name \<in> dom kw. name \<notin> set names))) (\<lambda>_.
     rbind (guard TypeError (\<not> (\<exists>name \<in> set names. vals name = None))) (\<lambda>_. Inr vals))))"

section \<open>Allocation\<close>

text \<open>\<open>Arena._bump\<close>: a request without bytes does not consume alignment padding.\<close>

definition bump :: "nat \<Rightarrow> nat \<Rightarrow> nat \<Rightarrow> (nat \<times> nat) res" where
  "bump cursor nbytes align =
     rbind (checked_align_up cursor align) (\<lambda>offset. Inr (offset, if nbytes \<noteq> 0 then offset + nbytes else cursor))"

datatype 'c request = Bytes int "nat option" | Typed "'c spec" "nat option"

text \<open>\<open>Arena.allocate\<close>: the offset of the allocation with its size and alignment, and the new cursor.\<close>

definition allocate :: "nat \<Rightarrow> 'c request \<Rightarrow> nat \<Rightarrow> ((nat \<times> nat \<times> nat) \<times> nat) res" where
  "allocate base_alignment request cursor =
     (case request of
        Bytes nbytes alignment \<Rightarrow>
          rbind (guard ValueError (0 < nbytes)) (\<lambda>_.
            let align = (case alignment of Some a \<Rightarrow> a | None \<Rightarrow> base_alignment) in
          rbind (bump cursor (nat nbytes) align) (\<lambda>(offset, cursor). Inr ((offset, nat nbytes, align), cursor)))
      | Typed storable alignment \<Rightarrow>
          rbind (size_align storable) (\<lambda>(nbytes, natural).
            let align = (case alignment of None \<Rightarrow> natural | Some a \<Rightarrow> max natural a) in
          rbind (bump cursor nbytes align) (\<lambda>(offset, cursor). Inr ((offset, nbytes, align), cursor))))"

text \<open>A sequence of requests on one arena; a failing request leaves it as it was.\<close>

fun allocate_all :: "nat \<Rightarrow> 'c request list \<Rightarrow> nat \<Rightarrow> (nat \<times> nat \<times> nat) list \<times> nat" where
  "allocate_all base_alignment [] cursor = ([], cursor)"
| "allocate_all base_alignment (r # rs) cursor =
     (case allocate base_alignment r cursor of
        Inl _ \<Rightarrow> allocate_all base_alignment rs cursor
      | Inr (a, cursor) \<Rightarrow> (case allocate_all base_alignment rs cursor of (allocs, cursor) \<Rightarrow> (a # allocs, cursor)))"

text \<open>
  \<open>SharedAllocator._build_static_tree\<close>: one allocation (bytes, alignment) for every leaf and every
  union, with the path of the field.
\<close>

fun build_static_tree :: "'c spec \<Rightarrow> (string list \<times> nat \<times> nat) list res" where
  "build_static_tree EmptyT = Inr []"
| "build_static_tree (StructT decls effective) =
     rbind (mapM (\<lambda>(name, t). rbind (build_static_tree t) (\<lambda>leaves. Inr (map (\<lambda>(path, sa). (name # path, sa)) leaves)))
         (filter (\<lambda>(_, t). \<not> is_constexpr t) effective)) (\<lambda>lss. Inr (concat lss))"
| "build_static_tree t = rbind (size_align t) (\<lambda>(nbytes, align). Inr [([], nbytes, align)])"

definition allocate_static :: "nat \<Rightarrow> 'c request \<Rightarrow> nat \<Rightarrow> ((string list \<times> nat \<times> nat) list \<times> nat) res" where
  "allocate_static base_alignment request cursor =
     (case request of
        Bytes nbytes alignment \<Rightarrow>
          rbind (guard ValueError (0 < nbytes)) (\<lambda>_.
            let align = (case alignment of Some a \<Rightarrow> a | None \<Rightarrow> base_alignment) in
          rbind (bump cursor (nat nbytes) align) (\<lambda>(_, cursor). Inr ([([], nat nbytes, align)], cursor)))
      | Typed storable alignment \<Rightarrow>
          rbind (size_align storable) (\<lambda>(nbytes, natural).
            let align = (case alignment of None \<Rightarrow> natural | Some a \<Rightarrow> max natural a) in
          rbind (bump cursor nbytes align) (\<lambda>(_, cursor).
          rbind (build_static_tree storable) (\<lambda>leaves. Inr (leaves, cursor)))))"

section \<open>Fields do not overlap\<close>

text \<open>The types the class constructors return.\<close>

fun well_made :: "'c spec \<Rightarrow> bool" where
  "well_made (ArrayT elem n align) \<longleftrightarrow>
     well_made elem \<and> array_class elem (int n) (Some (int align)) = Inr (ArrayT elem n align)"
| "well_made (AlignT t align) \<longleftrightarrow> well_made t \<and> align_class t (int align) = Inr (AlignT t align)"
| "well_made (StructT decls effective) \<longleftrightarrow> distinct (map fst decls) \<and> (\<forall>(_, t) \<in> set decls. well_made t)"
| "well_made (UnionT decls) \<longleftrightarrow> distinct (map fst decls) \<and> (\<forall>(_, t) \<in> set decls. well_made t)"
| "well_made _ \<longleftrightarrow> True"

definition field_name :: "string \<times> nat \<times> nat \<Rightarrow> string" where "field_name f = fst f"
definition field_size :: "string \<times> nat \<times> nat \<Rightarrow> nat" where "field_size f = fst (snd f)"
definition field_align :: "string \<times> nat \<times> nat \<Rightarrow> nat" where "field_align f = snd (snd f)"

lemmas field_sel = field_name_def field_size_def field_align_def

text \<open>What the loop over the fields keeps.\<close>

definition placed :: "(string \<times> nat \<times> nat) list \<Rightarrow> nat \<times> nat \<times> (string \<times> nat) list \<Rightarrow> bool" where
  "placed fs state \<longleftrightarrow> (case state of (offset, align, offsets) \<Rightarrow>
     map fst offsets = map field_name fs \<and>
     (\<forall>i < length fs. snd (offsets ! i) + field_size (fs ! i) \<le> offset \<and> field_align (fs ! i) dvd snd (offsets ! i)
        \<and> field_align (fs ! i) \<le> align) \<and>
     (\<forall>j < length fs. \<forall>i < j. snd (offsets ! i) + field_size (fs ! i) \<le> snd (offsets ! j)) \<and>
     (align = 1 \<or> (\<exists>i < length fs. align = field_align (fs ! i))))"

lemma placed_step:
  assumes "placed fs state" and "0 < field_align f"
  shows "placed (fs @ [f]) (product_step f state)"
proof -
  obtain offset align offsets where s: "state = (offset, align, offsets)" by (cases state) auto
  obtain n z a where f: "f = (n, z, a)" by (cases f) auto
  let ?o = "align_up offset a"
  have a: "0 < a" using assms(2) by (simp add: f field_sel)
  have ge: "offset \<le> ?o" by (rule align_up_ge [OF a])
  have dvd: "a dvd ?o" by (rule align_up_dvd)
  from assms(1) have len: "length offsets = length fs"
    unfolding placed_def s by (auto dest: map_eq_imp_length_eq)
  have old: "snd (offsets ! i) + field_size (fs ! i) \<le> offset" "field_align (fs ! i) dvd snd (offsets ! i)"
      "field_align (fs ! i) \<le> align" if "i < length fs" for i
    using assms(1) that unfolding placed_def s by auto
  have ord: "snd (offsets ! i) + field_size (fs ! i) \<le> snd (offsets ! j)" if "j < length fs" "i < j" for i j
    using assms(1) that unfolding placed_def s by auto
  have mx: "align = 1 \<or> (\<exists>i < length fs. align = field_align (fs ! i))" and nm: "map fst offsets = map field_name fs"
    using assms(1) unfolding placed_def s by auto
  have bnd: "snd ((offsets @ [(n, ?o)]) ! i) + field_size ((fs @ [f]) ! i) \<le> ?o + z
      \<and> field_align ((fs @ [f]) ! i) dvd snd ((offsets @ [(n, ?o)]) ! i) \<and> field_align ((fs @ [f]) ! i) \<le> max align a"
    if "i < length (fs @ [f])" for i
  proof (cases "i < length fs")
    case True
    then show ?thesis using old [OF True] ge by (simp add: nth_append len)
  next
    case False
    with that have "i = length fs" by simp
    then show ?thesis using dvd by (simp add: nth_append len f field_sel)
  qed
  have sep: "snd ((offsets @ [(n, ?o)]) ! i) + field_size ((fs @ [f]) ! i) \<le> snd ((offsets @ [(n, ?o)]) ! j)"
    if "j < length (fs @ [f])" "i < j" for i j
  proof (cases "j < length fs")
    case True
    then show ?thesis using ord [OF True that(2)] that by (simp add: nth_append len)
  next
    case False
    with that have "j = length fs" "i < length fs" by auto
    then show ?thesis using old(1) [of i] ge by (simp add: nth_append len)
  qed
  have m: "max align a = 1 \<or> (\<exists>i < length (fs @ [f]). max align a = field_align ((fs @ [f]) ! i))"
  proof (cases "align \<le> a")
    case True
    then have "max align a = field_align ((fs @ [f]) ! length fs)" by (simp add: f field_sel)
    then show ?thesis by (intro disjI2 exI [of _ "length fs"]) simp
  next
    case False
    then have e: "max align a = align" and ne: "align \<noteq> 1" using a by simp_all
    from mx ne obtain i where i: "i < length fs" "align = field_align (fs ! i)" by auto
    then have "max align a = field_align ((fs @ [f]) ! i)" using e by (simp add: nth_append)
    then show ?thesis using i by (intro disjI2 exI [of _ i]) simp
  qed
  have st: "product_step f state = (?o + z, max align a, offsets @ [(n, ?o)])"
    by (simp add: product_step_def s f Let_def)
  have nm': "map fst (offsets @ [(n, ?o)]) = map field_name (fs @ [f])" using nm by (simp add: f field_sel)
  show ?thesis unfolding placed_def st prod.case
    using nm' bnd sep m by blast
qed

lemma placed_fold:
  "\<forall>f \<in> set fs. 0 < field_align f \<Longrightarrow> placed fs (fold product_step fs (0, 1, []))"
proof (induction fs rule: rev_induct)
  case Nil
  then show ?case by (simp add: placed_def)
next
  case (snoc f fs)
  then have "placed fs (fold product_step fs (0, 1, []))" by simp
  then show ?case using placed_step [of fs _ f] snoc.prems by simp
qed

lemma pow2_dvd:
  assumes "is_pow2 a" and "is_pow2 b" and "a \<le> b"
  shows "a dvd b"
proof -
  obtain i j where "a = 2 ^ i" "b = 2 ^ j" using assms(1,2) by (auto simp: is_pow2_def)
  moreover from this assms(3) have "i \<le> j" by (auto dest: power_le_imp_le_exp [rotated])
  ultimately show ?thesis by (simp add: le_imp_power_dvd)
qed

text \<open>Alignments are positive.\<close>

lemma array_align_pos:
  "array_class elem n (Some a) = Inr s \<Longrightarrow> 0 < a"
  by (auto simp: array_class_def rbind_Inr_iff guard_Inr_iff Let_def split: if_splits)

lemma align_class_pos: "align_class t a = Inr s \<Longrightarrow> 0 < a"
  by (auto simp: align_class_def rbind_Inr_iff guard_Inr_iff)

lemma mapM_list_all2:
  "mapM f xs = Inr ys \<longleftrightarrow> list_all2 (\<lambda>x y. f x = Inr y) xs ys"
proof (induction xs arbitrary: ys)
  case (Cons x xs)
  then show ?case by (cases ys) (auto simp: rbind_Inr_iff)
qed auto

lemma list_all2_img: "list_all2 P xs ys \<Longrightarrow> y \<in> set ys \<Longrightarrow> \<exists>x \<in> set xs. P x y"
  by (fastforce simp: list_all2_conv_all_nth in_set_conv_nth)

lemma field_layouts_pos:
  assumes "field_layouts decls = Inr fs"
    and "\<And>n t sz a. (n, t) \<in> set decls \<Longrightarrow> size_align t = Inr (sz, a) \<Longrightarrow> 0 < a"
  shows "\<forall>f \<in> set fs. 0 < field_align f"
proof
  fix f assume "f \<in> set fs"
  with assms(1) obtain n t where "(n, t) \<in> set decls" "field_layout n (size_align t) = Inr f"
    by (auto simp: field_layouts_def mapM_list_all2 dest!: list_all2_img)
  then show "0 < field_align f" using assms(2)
    by (auto simp: field_layout_def rbind_Inr_iff field_sel split: if_splits)
qed

lemma max_pos: "finite A \<Longrightarrow> A \<noteq> {} \<Longrightarrow> \<forall>x \<in> A. 0 < x \<Longrightarrow> (0::nat) < Max A"
  by (simp add: Max_gr_iff) auto

lemma placed_align_pos: "placed fs (off, align, offs) \<Longrightarrow> \<forall>f \<in> set fs. 0 < field_align f \<Longrightarrow> 0 < align"
  unfolding placed_def by (auto simp: all_set_conv_all_nth)

lemma size_align_pos: "well_made s \<Longrightarrow> size_align s = Inr (sz, a) \<Longrightarrow> 0 < a"
proof (induction s arbitrary: sz a)
  case (ArrayT elem n align)
  have "a = align" using ArrayT.prems(2) by (cases elem) (auto simp: rbind_Inr_iff)
  with ArrayT.prems(1) show ?case using array_align_pos [of elem "int n" "int align"] by simp
next
  case (AlignT t align)
  have "a = align" using AlignT.prems(2) by (auto simp: rbind_Inr_iff)
  with AlignT.prems(1) show ?case using align_class_pos [of t "int align"] by simp
next
  case (StructT decls effective)
  from StructT.prems obtain fs where fs: "field_layouts decls = Inr fs" and l: "product_layout fs = (sz, a, snd (snd (product_layout fs)))"
    by (auto simp: rbind_Inr_iff field_layouts_def split: prod.splits)
  have "\<forall>f \<in> set fs. 0 < field_align f"
    by (rule field_layouts_pos [OF fs]) (use StructT in auto)
  from placed_fold [OF this] placed_align_pos [OF _ this] l show ?case
    by (auto simp: product_layout_def split: prod.splits)
next
  case (UnionT decls)
  from UnionT.prems obtain fs where fs: "field_layouts decls = Inr fs" and l: "sum_layout fs = (sz, a, snd (snd (sum_layout fs)))"
    by (auto simp: rbind_Inr_iff field_layouts_def split: prod.splits)
  have p: "\<forall>f \<in> set fs. 0 < field_align f"
    by (rule field_layouts_pos [OF fs]) (use UnionT in auto)
  show ?case
  proof (cases "fs = []")
    case False
    with l have "a = Max ((\<lambda>(_, _, a). a) ` set fs)" by (auto simp: sum_layout_def Let_def)
    moreover have "\<forall>x \<in> (\<lambda>(_, _, a). a) ` set fs. 0 < x" using p by (auto simp: field_sel)
    ultimately show ?thesis using max_pos [of "(\<lambda>(_, _, a). a) ` set fs"] False by simp
  qed (use l in \<open>simp add: sum_layout_def\<close>)
qed (auto split: if_splits)


text \<open>
  C10: the byte layout of a struct is sound: every stored field has an offset that is a multiple of its
  alignment, no two fields overlap, every field ends within the size of the struct, and that size is a multiple
  of the alignment of the struct, so that consecutive elements of an array of it are placed alike.
  When the alignments are powers of two, which only numeric arrays may break, a struct placed at its
  alignment has every field at its own.
\<close>

theorem struct_fields_placed:
  assumes "well_made (StructT decls effective)"
    and "storage_layout (StructT decls effective) = Inr (sz, align, offsets)"
  shows "\<exists>fs. field_layouts decls = Inr fs \<and> map fst offsets = map field_name fs \<and>
    (\<forall>i < length fs. snd (offsets ! i) + field_size (fs ! i) \<le> sz \<and> field_align (fs ! i) dvd snd (offsets ! i)) \<and>
    (\<forall>i < length fs. \<forall>j < length fs. i \<noteq> j \<longrightarrow>
       {snd (offsets ! i) ..< snd (offsets ! i) + field_size (fs ! i)} \<inter>
       {snd (offsets ! j) ..< snd (offsets ! j) + field_size (fs ! j)} = {}) \<and>
    align dvd sz \<and>
    ((\<forall>f \<in> set fs. is_pow2 (field_align f)) \<longrightarrow> (\<forall>f \<in> set fs. field_align f dvd align))"
proof -
  obtain fs where fs: "field_layouts decls = Inr fs" and l: "product_layout fs = (sz, align, offsets)"
    using assms(2) by (auto simp: rbind_Inr_iff)
  have pos: "\<forall>f \<in> set fs. 0 < field_align f"
    by (rule field_layouts_pos [OF fs]) (use assms(1) in \<open>auto dest: size_align_pos [rotated]\<close>)
  obtain off where st: "fold product_step fs (0, 1, []) = (off, align, offsets)" and sz: "sz = align_up off align"
    using l by (auto simp: product_layout_def split: prod.splits)
  have p: "placed fs (off, align, offsets)" using placed_fold [OF pos] unfolding st .
  have le: "off \<le> sz" unfolding sz by (rule align_up_ge [OF placed_align_pos [OF p pos]])
  have 1: "map fst offsets = map field_name fs"
    and 2: "\<And>i. i < length fs \<Longrightarrow> snd (offsets ! i) + field_size (fs ! i) \<le> off \<and> field_align (fs ! i) dvd snd (offsets ! i)
        \<and> field_align (fs ! i) \<le> align"
    and 3: "\<And>i j. j < length fs \<Longrightarrow> i < j \<Longrightarrow> snd (offsets ! i) + field_size (fs ! i) \<le> snd (offsets ! j)"
    and 4: "align = 1 \<or> (\<exists>i < length fs. align = field_align (fs ! i))"
    using p unfolding placed_def by auto
  have 5: "\<forall>i < length fs. snd (offsets ! i) + field_size (fs ! i) \<le> sz \<and> field_align (fs ! i) dvd snd (offsets ! i)"
    using 2 le by (meson le_trans)
  have 6: "{snd (offsets ! i) ..< snd (offsets ! i) + field_size (fs ! i)} \<inter>
       {snd (offsets ! j) ..< snd (offsets ! j) + field_size (fs ! j)} = {}"
    if "i < length fs" "j < length fs" "i \<noteq> j" for i j
    using 3 [of j i] 3 [of i j] that by (cases "i < j") auto
  have 7: "align dvd sz" unfolding sz by (rule align_up_dvd)
  have 8: "field_align f dvd align" if pw: "\<forall>f \<in> set fs. is_pow2 (field_align f)" and f: "f \<in> set fs" for f
  proof -
    have a: "is_pow2 align"
      using 4
    proof (elim disjE exE conjE)
      assume "align = 1"
      then show ?thesis using is_pow2_power [of 0] by simp
    next
      fix i assume "i < length fs" "align = field_align (fs ! i)"
      then show ?thesis using pw by simp
    qed
    obtain i where "i < length fs" "f = fs ! i" using f by (auto simp: in_set_conv_nth)
    then show ?thesis using 2 [of i] pw f a pow2_dvd by blast
  qed
  show ?thesis using fs 1 5 6 7 8 by blast
qed

theorem struct_fields_placed_witness:
  "well_made (StructT [(''head'', Num Int32), (''payload'', AlignT (Num Int32) 16), (''n'', ConstT (Some ()))] [])
   \<and> storage_layout (StructT [(''head'', Num Int32), (''payload'', AlignT (Num Int32) 16), (''n'', ConstT (Some ()))] [])
     = Inr (32, 16, [(''head'', 0), (''payload'', 16)])
   \<and> (16::nat) dvd 32"
proof -
  let ?s = "StructT [(''head'', Num Int32), (''payload'', AlignT (Num Int32) 16), (''n'', ConstT (Some ()))] []"
  have w: "well_made ?s" by (simp add: align_class_def)
  have l: "storage_layout ?s = Inr (32, 16, [(''head'', 0), (''payload'', 16)])"
    by (simp add: field_layouts_def field_layout_def product_layout_def product_step_def align_up_def)
  show ?thesis using w l struct_fields_placed [OF w l] by blast
qed

section \<open>Allocations do not overlap\<close>

lemma bump_Inr:
  assumes "bump cursor nbytes align = Inr (off, cursor')"
  shows "0 < align" "off = align_up cursor align" "cursor' = (if nbytes \<noteq> 0 then off + nbytes else cursor)"
  using assms by (auto simp: bump_def checked_align_up_def split: if_splits)

lemma allocate_Inr:
  assumes "allocate base_alignment r cursor = Inr ((off, n, a), cursor')"
  shows "0 < a \<and> off = align_up cursor a \<and> cursor' = (if n \<noteq> 0 then off + n else cursor)"
proof -
  have "bump cursor n a = Inr (off, cursor')"
    using assms by (auto simp: allocate_def rbind_Inr_iff Let_def split: request.splits)
  from bump_Inr [OF this] show ?thesis by simp
qed

text \<open>
  C21: an arena never hands out the same byte twice: whatever is requested, in whatever order, and whichever
  requests fail, every allocation starts at a multiple of its alignment at or after the initial cursor, ends
  at or before the final one, and the byte ranges of two allocations are disjoint.
\<close>

theorem allocations_disjoint:
  "case allocate_all base_alignment rs cursor of (allocs, cursor') \<Rightarrow>
     cursor \<le> cursor' \<and>
     (\<forall>(off, n, a) \<in> set allocs. 0 < a \<and> a dvd off \<and> {off ..< off + n} \<subseteq> {cursor ..< cursor'}) \<and>
     sorted_wrt (\<lambda>(off, n, _) (off', n', _). {off ..< off + n} \<inter> {off' ..< off' + n'} = {}) allocs"
proof (induction rs arbitrary: cursor)
  case (Cons r rs)
  show ?case
  proof (cases "allocate base_alignment r cursor")
    case Inl
    then show ?thesis using Cons by simp
  next
    case (Inr x)
    obtain off n a c where x: "x = ((off, n, a), c)" by (cases x) auto
    obtain as c' where as: "allocate_all base_alignment rs c = (as, c')" by (cases "allocate_all base_alignment rs c")
    from allocate_Inr [OF Inr [unfolded x]] have b: "0 < a" "off = align_up cursor a" "c = (if n \<noteq> 0 then off + n else cursor)"
      by auto
    have ge: "cursor \<le> off" using align_up_ge [OF b(1)] b(2) by simp
    have dvd: "a dvd off" unfolding b(2) by (rule align_up_dvd)
    note IH = Cons.IH [of c, unfolded as prod.case]
    have "\<forall>(off', n', a') \<in> set as. {off ..< off + n} \<inter> {off' ..< off' + n'} = {}"
      using IH b(3) by (fastforce split: if_splits)
    moreover have "c \<le> c'" using IH by simp
    moreover have "cursor \<le> c" using b(3) ge by (cases "n = 0") auto
    moreover have "{off ..< off + n} \<subseteq> {cursor ..< c'}" using b(3) ge \<open>c \<le> c'\<close> by (cases "n = 0") auto
    moreover have "\<forall>(off', n', a') \<in> set as. 0 < a' \<and> a' dvd off' \<and> {off' ..< off' + n'} \<subseteq> {cursor ..< c'}"
      using IH \<open>cursor \<le> c\<close> by fastforce
    ultimately show ?thesis using IH Inr x as b(1) dvd by auto
  qed
qed simp

theorem allocations_disjoint_witness:
  "(let (allocs, cursor) = allocate_all 16 [Bytes 5 None, Typed EmptyT (Some 64), Bytes 0 None, Typed (Num Int32 :: unit spec) None] 0
    in (allocs, cursor) = ([(0, 5, 16), (64, 0, 64), (8, 4, 4)], 12) \<and>
       {0 ..< 0 + 5} \<inter> {8 ..< 8 + 4 :: nat} = {})"
proof -
  have e: "allocate_all 16 [Bytes 5 None, Typed EmptyT (Some 64), Bytes 0 None, Typed (Num Int32 :: unit spec) None] 0
      = ([(0, 5, 16), (64, 0, 64), (8, 4, 4)], 12)"
    by (simp add: allocate_def bump_def checked_align_up_def align_up_def)
  show ?thesis using allocations_disjoint [where base_alignment = 16 and cursor = 0 and rs = "[Bytes 5 None, Typed EmptyT (Some 64), Bytes 0 None, Typed (Num Int32 :: unit spec) None]"]
    unfolding e by simp
qed

text \<open>The static allocator: the start alignment of a typed request does not reach the symbol it makes.\<close>

theorem static_drops_alignment:
  "allocate_static 16 (Typed (Num Int32) (Some 16)) 0 = Inr ([([], 4, 4)], 4)"
  by (simp add: allocate_static_def bump_def checked_align_up_def align_up_def)

text \<open>Packed elements that do not fill their last byte do not fit.\<close>

theorem packed_array_too_small:
  "array_class (Num Float4E2M1FN) 3 None = Inr (ArrayT (Num Float4E2M1FN) 3 1 :: unit spec)"
  "size_align (ArrayT (Num Float4E2M1FN) 3 1 :: unit spec) = Inr (1, 1)"
  "8 * 1 < numeric_width Float4E2M1FN * 3"
  by (simp_all add: array_class_def)

text \<open>The elements of an array of an aligned type are placed at their size, not at their alignment.\<close>

theorem aligned_elements_unaligned:
  "array_class (AlignT (Num Float64) 16) 4 None = Inr (ArrayT (AlignT (Num Float64) 16) 4 16 :: unit spec)"
  "size_align (ArrayT (AlignT (Num Float64) 16) 4 16 :: unit spec) = Inr (4 * 8, 16)"
  "\<not> (16::nat) dvd 8"
  by (simp_all add: array_class_def and_pred_zero_iff_pow2 is_pow2_power [of 4, simplified])
end
