(* ===== verification/Struct_Values.thy ===== *)
theory Struct_Values
  imports Struct_Layout
begin

text \<open>
  Values of the composite types of \<open>expr/struct.py\<close>: their flat list of IR values, and how they are
  read from and written to memory (\<open>__peek_from_ptr__\<close>, \<open>__poke_into_ptr__\<close> and the dispatch of
  \<open>compiler/protocol.py\<close>). Memory is outside the repository; its loads and stores are the fields of
  a record, and what they are documented to do is the locale \<open>byte_memory\<close>.
\<close>


section \<open>Values\<close>

text \<open>
  A value of the DSL: a scalar, vector or pointer is one IR value (its bits); an array is a view of an
  address; a struct value has its class (declared and effective fields) and its fields' values.
\<close>

datatype 'c dsl_value =
    VLeaf "'c spec" nat
  | VArray "'c spec" nat
  | VConst 'c
  | VEmpty
  | VStruct "(string \<times> 'c spec) list" "(string \<times> 'c spec) list" "'c dsl_value list"

type_synonym 'c ir_value = "'c spec \<times> nat"

fun is_leaf :: "'c spec \<Rightarrow> bool" where
  "is_leaf (Num _) = True"
| "is_leaf (VectorT _ _) = True"
| "is_leaf (PointerT _) = True"
| "is_leaf _ = False"

text \<open>\<open>extract_to_ir_values\<close>; the compile-time fields have none.\<close>

fun extract_ir :: "'c dsl_value \<Rightarrow> 'c ir_value list" where
  "extract_ir (VLeaf s x) = [(s, x)]"
| "extract_ir (VArray s p) = [(s, p)]"
| "extract_ir (VConst c) = []"
| "extract_ir VEmpty = []"
| "extract_ir (VStruct decls effective vals) = concat (map extract_ir vals)"

text \<open>\<open>_ir_value_count_from_type\<close>\<close>

fun ir_value_count :: "'c spec \<Rightarrow> nat" where
  "ir_value_count (AlignT t _) = ir_value_count t"
| "ir_value_count (StructT decls effective) = sum_list (map (\<lambda>(_, t). ir_value_count t) effective)"
| "ir_value_count (ConstT _) = 0"
| "ir_value_count EmptyT = 0"
| "ir_value_count _ = 1"

text \<open>
  \<open>__construct_from_ir_values__\<close>: every effective field takes its number of values from the list;
  values left over are an error. \<open>conv\<close> is the conversion of an IR value of another type.
\<close>

function construct_ir :: "('c spec \<Rightarrow> 'c ir_value \<Rightarrow> 'c dsl_value res) \<Rightarrow> 'c spec \<Rightarrow> 'c ir_value list \<Rightarrow> 'c dsl_value res"
  and construct_fields :: "('c spec \<Rightarrow> 'c ir_value \<Rightarrow> 'c dsl_value res) \<Rightarrow> (string \<times> 'c spec) list \<Rightarrow> 'c ir_value list
    \<Rightarrow> ('c dsl_value list \<times> 'c ir_value list) res" where
  "construct_ir conv (Num t) vs = (case vs of [] \<Rightarrow> Inl IndexError
     | v # _ \<Rightarrow> if fst v = Num t then Inr (VLeaf (Num t) (snd v)) else conv (Num t) v)"
| "construct_ir conv (VectorT t n) vs = (case vs of [] \<Rightarrow> Inl IndexError
     | v # _ \<Rightarrow> if fst v = VectorT t n then Inr (VLeaf (VectorT t n) (snd v)) else conv (VectorT t n) v)"
| "construct_ir conv (PointerT g) vs = (case vs of [] \<Rightarrow> Inl IndexError
     | v # _ \<Rightarrow> if fst v = PointerT g then Inr (VLeaf (PointerT g) (snd v)) else conv (PointerT g) v)"
| "construct_ir conv (ArrayT e n a) vs =
     (if length vs \<noteq> 1 then Inl ValueError else Inr (VArray (ArrayT e n a) (snd (hd vs))))"
| "construct_ir conv (AlignT t a) vs = construct_ir conv t vs"
| "construct_ir conv (ConstT c) vs =
     (if vs \<noteq> [] then Inl ValueError else case c of None \<Rightarrow> Inl TypeError | Some c \<Rightarrow> Inr (VConst c))"
| "construct_ir conv EmptyT vs = (if vs \<noteq> [] then Inl ValueError else Inr VEmpty)"
| "construct_ir conv (StructT decls effective) vs =
     rbind (construct_fields conv effective vs) (\<lambda>(vals, rest).
     rbind (guard ValueError (rest = [])) (\<lambda>_. Inr (VStruct decls effective vals)))"
| "construct_ir conv (UnionT decls) vs = Inl TypeError"
| "construct_ir conv OpaqueT vs = Inl TypeError"
| "construct_fields conv [] vs = Inr ([], vs)"
| "construct_fields conv ((name, t) # fs) vs =
     rbind (construct_ir conv t (take (ir_value_count t) vs)) (\<lambda>v.
     rbind (construct_fields conv fs (drop (ir_value_count t) vs)) (\<lambda>(vals, rest). Inr (v # vals, rest)))"
  by pat_completeness auto
termination
  by (relation "measure (\<lambda>x. case x of Inl (_, s, _) \<Rightarrow> size s | Inr (_, fs, _) \<Rightarrow> size_list (size_prod (\<lambda>_. 0) size) fs)") auto

section \<open>Memory\<close>

text \<open>Loads and stores of \<open>n\<close> bytes; memory itself is a parameter.\<close>

record 'm memory =
  mem_load :: "'m \<Rightarrow> nat \<Rightarrow> nat \<Rightarrow> nat"
  mem_store :: "'m \<Rightarrow> nat \<Rightarrow> nat \<Rightarrow> nat \<Rightarrow> 'm"

definition leaf_bytes :: "'c spec \<Rightarrow> nat res" where
  "leaf_bytes s = rbind (size_align s) (\<lambda>(n, _). Inr n)"

text \<open>\<open>peek_from_ptr\<close>: structs recursively, arrays as views.\<close>

function peek :: "'m memory \<Rightarrow> 'm \<Rightarrow> 'c spec \<Rightarrow> nat \<Rightarrow> 'c dsl_value res"
  and peek_fields :: "'m memory \<Rightarrow> 'm \<Rightarrow> (string \<times> 'c spec) list \<Rightarrow> (string \<times> nat) list \<Rightarrow> nat \<Rightarrow> 'c dsl_value list res" where
  "peek M (m :: 'm) (Num t) p = rbind (leaf_bytes (Num t :: 'c spec)) (\<lambda>n. Inr (VLeaf (Num t) (mem_load M m p n)))"
| "peek M m (VectorT t k) p = rbind (leaf_bytes (VectorT t k :: 'c spec)) (\<lambda>n. Inr (VLeaf (VectorT t k) (mem_load M m p n)))"
| "peek M m (PointerT g) p = rbind (leaf_bytes (PointerT g :: 'c spec)) (\<lambda>n. Inr (VLeaf (PointerT g) (mem_load M m p n)))"
| "peek M m (ArrayT e n a) p = Inr (VArray (ArrayT e n a) p)"
| "peek M m (AlignT t a) p = peek M m t p"
| "peek M m (ConstT c) p = Inl TypeError"
| "peek M m EmptyT p = Inr VEmpty"
| "peek M m (StructT decls effective) p =
     rbind (storage_layout (StructT decls effective)) (\<lambda>(_, _, offsets).
     rbind (peek_fields M m effective offsets p) (\<lambda>vals. Inr (VStruct decls effective vals)))"
| "peek M m (UnionT decls) p = Inl NotImplementedError"
| "peek M m OpaqueT p = Inl TypeError"
| "peek_fields M m [] offsets p = Inr []"
| "peek_fields M m ((name, t) # fs) offsets p =
     rbind (if is_constexpr t then (case t of ConstT (Some c) \<Rightarrow> Inr (VConst c) | _ \<Rightarrow> Inl TypeError)
            else case map_of offsets name of
                None \<Rightarrow> Inl TypeError
              | Some offset \<Rightarrow> peek M m t (p + offset)) (\<lambda>v.
     rbind (peek_fields M m fs offsets p) (\<lambda>vals. Inr (v # vals)))"
  by pat_completeness auto
termination
  by (relation "measure (\<lambda>x. case x of Inl (_, _, s, _) \<Rightarrow> size s | Inr (_, _, fs, _) \<Rightarrow> size_list (size_prod (\<lambda>_. 0) size) fs)") auto

text \<open>
  \<open>poke_into_ptr\<close>: the fields of a struct in the order of the declaration, each with the effective type
  the value's class gives it. \<open>conv\<close> converts a scalar, vector or pointer of another type.
\<close>

definition instance_of :: "(string \<times> 'c spec) list \<Rightarrow> (string \<times> 'c spec) list \<Rightarrow> (string \<times> 'c spec) list
    \<Rightarrow> (string \<times> 'c spec) list \<Rightarrow> bool" where
  "instance_of vdecls veffective decls effective \<longleftrightarrow> vdecls = decls \<and> (effective = veffective \<or> effective = decls)"

function poke :: "'m memory \<Rightarrow> ('c spec \<Rightarrow> 'c dsl_value \<Rightarrow> nat res) \<Rightarrow> 'c spec \<Rightarrow> nat \<Rightarrow> 'c dsl_value \<Rightarrow> 'm \<Rightarrow> 'm res"
  and poke_fields :: "'m memory \<Rightarrow> ('c spec \<Rightarrow> 'c dsl_value \<Rightarrow> nat res) \<Rightarrow> (string \<times> 'c spec) list \<Rightarrow> 'c dsl_value list
    \<Rightarrow> (string \<times> nat) list \<Rightarrow> nat \<Rightarrow> 'm \<Rightarrow> 'm res" where
  "poke M conv (AlignT t a) p v m = poke M conv t p v m"
| "poke M conv EmptyT p v m = (if v = VEmpty then Inr m else Inl TypeError)"
| "poke M conv (StructT decls effective) p v m =
     (case v of
        VStruct vdecls veffective vals \<Rightarrow>
          if instance_of vdecls veffective decls effective then
            rbind (storage_layout (StructT decls effective)) (\<lambda>(_, _, offsets).
              poke_fields M conv veffective vals offsets p m)
          else Inl TypeError
      | _ \<Rightarrow> Inl TypeError)"
| "poke M conv (UnionT decls) p v m = Inl NotImplementedError"
| "poke M conv (ArrayT e n a) p v m = Inl NotImplementedError"
| "poke M conv (ConstT c) p v m = Inl TypeError"
| "poke M conv OpaqueT p v m = Inl TypeError"
| "poke M conv (Num t) p v m = rbind (leaf_bytes (Num t :: 'c spec)) (\<lambda>n.
     rbind (case v of VLeaf s x \<Rightarrow> if s = Num t then Inr x else conv (Num t) v | _ \<Rightarrow> conv (Num t) v) (\<lambda>x.
       Inr (mem_store M m p n x)))"
| "poke M conv (VectorT t k) p v m = rbind (leaf_bytes (VectorT t k :: 'c spec)) (\<lambda>n.
     rbind (case v of VLeaf s x \<Rightarrow> if s = VectorT t k then Inr x else conv (VectorT t k) v | _ \<Rightarrow> conv (VectorT t k) v) (\<lambda>x.
       Inr (mem_store M m p n x)))"
| "poke M conv (PointerT g) p v m = rbind (leaf_bytes (PointerT g :: 'c spec)) (\<lambda>n.
     rbind (case v of VLeaf s x \<Rightarrow> if s = PointerT g then Inr x else conv (PointerT g) v | _ \<Rightarrow> conv (PointerT g) v) (\<lambda>x.
       Inr (mem_store M m p n x)))"
| "poke_fields M conv [] vals offsets p m = Inr m"
| "poke_fields M conv (f # fs) [] offsets p m = Inl AttributeError"
| "poke_fields M conv ((name, t) # fs) (v # vals) offsets p m =
     rbind (if is_constexpr t then Inr m
            else case map_of offsets name of
                None \<Rightarrow> Inl TypeError
              | Some offset \<Rightarrow> poke M conv t (p + offset) v m)
       (\<lambda>m. poke_fields M conv fs vals offsets p m)"
  by pat_completeness auto
termination
  by (relation "measure (\<lambda>x. case x of Inl (_, _, s, _, v, _) \<Rightarrow> size s + size v
      | Inr (_, _, fs, vals, _) \<Rightarrow> size_list (size_prod (\<lambda>_. 0) size) fs + size_list size vals)") auto


section \<open>IR values round trip\<close>

text \<open>The values of a type; a compile-time field has the value its effective type records.\<close>

function fits :: "'c spec \<Rightarrow> 'c dsl_value \<Rightarrow> bool"
  and fits_fields :: "(string \<times> 'c spec) list \<Rightarrow> 'c dsl_value list \<Rightarrow> bool" where
  "fits (Num t) v \<longleftrightarrow> (case v of VLeaf s x \<Rightarrow> s = Num t | _ \<Rightarrow> False)"
| "fits (VectorT t n) v \<longleftrightarrow> (case v of VLeaf s x \<Rightarrow> s = VectorT t n | _ \<Rightarrow> False)"
| "fits (PointerT g) v \<longleftrightarrow> (case v of VLeaf s x \<Rightarrow> s = PointerT g | _ \<Rightarrow> False)"
| "fits (ArrayT e n a) v \<longleftrightarrow> (case v of VArray s x \<Rightarrow> s = ArrayT e n a | _ \<Rightarrow> False)"
| "fits (AlignT t a) v \<longleftrightarrow> fits t v"
| "fits (ConstT c) v \<longleftrightarrow> (case v of VConst k \<Rightarrow> c = Some k | _ \<Rightarrow> False)"
| "fits EmptyT v \<longleftrightarrow> v = VEmpty"
| "fits (StructT decls effective) v \<longleftrightarrow>
     (case v of VStruct d e vals \<Rightarrow> d = decls \<and> e = effective \<and> fits_fields effective vals | _ \<Rightarrow> False)"
| "fits (UnionT decls) v \<longleftrightarrow> False"
| "fits OpaqueT v \<longleftrightarrow> False"
| "fits_fields [] vals \<longleftrightarrow> vals = []"
| "fits_fields ((name, t) # fs) vals \<longleftrightarrow> (case vals of [] \<Rightarrow> False | v # vals \<Rightarrow> fits t v \<and> fits_fields fs vals)"
  by pat_completeness auto
termination
  by (relation "measure (\<lambda>x. case x of Inl (s, _) \<Rightarrow> size s | Inr (fs, _) \<Rightarrow> size_list (size_prod (\<lambda>_. 0) size) fs)") auto

lemma ir_value_count_extract:
  fixes s :: "'c spec" and fs :: "(string \<times> 'c spec) list"
  shows "fits s v \<Longrightarrow> length (extract_ir v) = ir_value_count s"
  "fits_fields fs vals \<Longrightarrow> length (concat (map extract_ir vals)) = sum_list (map (\<lambda>(_, t). ir_value_count t) fs)"
  by (induction s v and fs vals rule: fits_fits_fields.induct) (auto split: dsl_value.splits list.splits)

lemma construct_extract:
  fixes s :: "'c spec" and fs :: "(string \<times> 'c spec) list"
  shows "fits s v \<Longrightarrow> vs = extract_ir v \<Longrightarrow> construct_ir conv s vs = Inr v"
  "fits_fields fs vals \<Longrightarrow> vs = concat (map extract_ir vals) @ rest \<Longrightarrow> construct_fields conv fs vs = Inr (vals, rest)"
proof (induction conv s vs and conv fs vs arbitrary: v and vals rest rule: construct_ir_construct_fields.induct)
  case (8 conv decls effective vs)
  then obtain vals where v: "v = VStruct decls effective vals" and f: "fits_fields effective vals"
    by (auto split: dsl_value.splits)
  then show ?case using 8(1) [OF f, of "[]"] 8(3) by simp
next
  case (12 conv name t fs vs)
  then obtain v vals' where v: "vals = v # vals'" and f: "fits t v" "fits_fields fs vals'"
    by (auto split: list.splits)
  have l: "length (extract_ir v) = ir_value_count t" by (rule ir_value_count_extract(1) [OF f(1)])
  have t: "take (ir_value_count t) vs = extract_ir v" "drop (ir_value_count t) vs = concat (map extract_ir vals') @ rest"
    using 12 v l by auto
  have 1: "construct_ir conv t (take (ir_value_count t) vs) = Inr v" by (rule 12(1) [OF f(1) t(1)])
  have 2: "construct_fields conv fs (drop (ir_value_count t) vs) = Inr (vals', rest)" by (rule 12(2) [OF f(2) t(2)])
  show ?case unfolding construct_fields.simps 1 2 v by simp
qed (auto split: dsl_value.splits)

text \<open>
  C22: a value survives the trip through its flat list of IR values, the form in which it crosses the boundary
  of a traced region: rebuilding it from the values it was taken apart into gives it back, whatever its
  nesting, and the type alone tells how many values that takes. A struct that is given more values rejects them.
\<close>

theorem ir_values_roundtrip:
  assumes "fits s v"
  shows "construct_ir conv s (extract_ir v) = Inr v \<and> length (extract_ir v) = ir_value_count s \<and>
    (\<forall>decls effective extra. s = StructT decls effective \<and> extra \<noteq> [] \<longrightarrow>
       construct_ir conv s (extract_ir v @ extra) = Inl ValueError)"
proof (intro conjI allI impI)
  show "construct_ir conv s (extract_ir v) = Inr v" by (rule construct_extract(1) [OF assms refl])
  show "length (extract_ir v) = ir_value_count s" by (rule ir_value_count_extract(1) [OF assms])
next
  fix decls effective and extra :: "'a ir_value list"
  assume x: "s = StructT decls effective \<and> extra \<noteq> []"
  then have s: "s = StructT decls effective" by simp
  from assms obtain vals where v: "v = VStruct decls effective vals" and f: "fits_fields effective vals"
    unfolding s by (auto split: dsl_value.splits)
  show "construct_ir conv s (extract_ir v @ extra) = Inl ValueError"
    using construct_extract(2) [OF f refl, of conv extra] x by (simp add: s v)
qed

theorem ir_values_roundtrip_witness:
  "let s = StructT [(''a'', Num Int32), (''n'', ConstT None), (''p'', AlignT (PointerT True) 16)]
             [(''a'', Num Int32), (''n'', ConstT (Some (7::int))), (''p'', AlignT (PointerT True) 16)];
       v = VStruct [(''a'', Num Int32), (''n'', ConstT None), (''p'', AlignT (PointerT True) 16)]
             [(''a'', Num Int32), (''n'', ConstT (Some 7)), (''p'', AlignT (PointerT True) 16)]
             [VLeaf (Num Int32) 5, VConst 7, VLeaf (PointerT True) 4096]
   in extract_ir v = [(Num Int32, 5), (PointerT True, 4096)] \<and> construct_ir (\<lambda>_ _. Inl TypeError) s (extract_ir v) = Inr v"
proof -
  let ?d = "[(''a'', Num Int32), (''n'', ConstT None), (''p'', AlignT (PointerT True) 16)]"
  let ?e = "[(''a'', Num Int32), (''n'', ConstT (Some (7::int))), (''p'', AlignT (PointerT True) 16)]"
  let ?v = "VStruct ?d ?e [VLeaf (Num Int32) 5, VConst 7, VLeaf (PointerT True) 4096]"
  have "fits (StructT ?d ?e) ?v" by simp
  from ir_values_roundtrip [OF this, of "\<lambda>_ _. Inl TypeError"] show ?thesis unfolding Let_def by simp
qed

section \<open>Storage round trip\<close>

text \<open>What loads and stores of whole bytes are documented to do.\<close>

locale byte_memory =
  fixes M :: "'m memory"
  assumes load_same: "x < 256 ^ n \<Longrightarrow> mem_load M (mem_store M m p n x) p n = x"
    and load_other: "p + n \<le> q \<or> q + k \<le> p \<Longrightarrow> mem_load M (mem_store M m p n x) q k = mem_load M m q k"

text \<open>Two memories agree on the bytes of an interval, or outside it.\<close>

definition agree_on :: "'m memory \<Rightarrow> 'm \<Rightarrow> 'm \<Rightarrow> nat \<Rightarrow> nat \<Rightarrow> bool" where
  "agree_on M m m' lo hi \<longleftrightarrow> (\<forall>q k. lo \<le> q \<and> q + k \<le> hi \<longrightarrow> mem_load M m' q k = mem_load M m q k)"

definition agree_outside :: "'m memory \<Rightarrow> 'm \<Rightarrow> 'm \<Rightarrow> nat \<Rightarrow> nat \<Rightarrow> bool" where
  "agree_outside M m m' lo hi \<longleftrightarrow> (\<forall>q k. q + k \<le> lo \<or> hi \<le> q \<longrightarrow> mem_load M m' q k = mem_load M m q k)"

text \<open>The leaves of a value have as many bits as their type.\<close>

fun in_range :: "'c dsl_value \<Rightarrow> bool" where
  "in_range (VLeaf s x) \<longleftrightarrow> (case leaf_bytes s of Inl _ \<Rightarrow> False | Inr n \<Rightarrow> x < 256 ^ n)"
| "in_range (VStruct decls effective vals) \<longleftrightarrow> list_all in_range vals"
| "in_range _ \<longleftrightarrow> True"

text \<open>Types with a value form that can be stored: no array anywhere.\<close>

fun storable_value :: "'c spec \<Rightarrow> bool" where
  "storable_value (ArrayT e n a) \<longleftrightarrow> False"
| "storable_value (AlignT t a) \<longleftrightarrow> storable_value t"
| "storable_value (StructT decls effective) \<longleftrightarrow> (\<forall>(_, t) \<in> set effective. storable_value t)"
| "storable_value (UnionT decls) \<longleftrightarrow> False"
| "storable_value OpaqueT \<longleftrightarrow> False"
| "storable_value _ \<longleftrightarrow> True"

text \<open>The effective fields of a class differ from the declared ones in the compile-time values only.\<close>

fun compatible :: "'c spec \<Rightarrow> 'c spec \<Rightarrow> bool" where
  "compatible (ConstT c) e \<longleftrightarrow> is_constexpr e"
| "compatible (AlignT t a) e \<longleftrightarrow> (case e of AlignT t' a' \<Rightarrow> a' = a \<and> compatible t t' | _ \<Rightarrow> False)"
| "compatible (StructT decls effective) e \<longleftrightarrow> (case e of StructT decls' _ \<Rightarrow> decls' = decls | _ \<Rightarrow> False)"
| "compatible d e \<longleftrightarrow> e = d"

fun class_ok :: "'c spec \<Rightarrow> bool" where
  "class_ok (AlignT t a) \<longleftrightarrow> class_ok t"
| "class_ok (StructT decls effective) \<longleftrightarrow>
     list_all2 (\<lambda>d e. fst d = fst e \<and> compatible (snd d) (snd e)) decls effective \<and> (\<forall>(_, t) \<in> set effective. class_ok t)"
| "class_ok _ \<longleftrightarrow> True"

lemma compatible_same:
  "compatible d e \<Longrightarrow> is_constexpr d = is_constexpr e \<and> size_align d = size_align e \<and> well_made d = well_made e"
  by (induction d e rule: compatible.induct) (auto simp: align_class_def rbind_Inr_iff split: spec.splits elim!: is_constexpr.elims)

text \<open>
  The constructor of a struct gives its value the effective fields \<open>_specialize_type\<close> computes, so its class
  and the value have the properties the lemmas below ask for.
\<close>

fun specialize_field :: "'c spec \<Rightarrow> 'c dsl_value \<Rightarrow> 'c spec" where
  "specialize_field (ConstT c) v = (case v of VConst k \<Rightarrow> ConstT (Some k) | _ \<Rightarrow> ConstT c)"
| "specialize_field (AlignT t a) v = AlignT (specialize_field t v) a"
| "specialize_field t v = (case v of VStruct decls effective _ \<Rightarrow> StructT decls effective | _ \<Rightarrow> t)"

definition specialize_type :: "(string \<times> 'c spec) list \<Rightarrow> 'c dsl_value list \<Rightarrow> (string \<times> 'c spec) list" where
  "specialize_type decls vals = map (\<lambda>((name, t), v). (name, specialize_field t v)) (zip decls vals)"

definition has_type :: "'c spec \<Rightarrow> 'c dsl_value \<Rightarrow> bool" where
  "has_type t v \<longleftrightarrow> (\<exists>e. compatible t e \<and> class_ok e \<and> fits e v)"

lemma specialize_field_fits: "compatible t e \<Longrightarrow> fits e v \<Longrightarrow> specialize_field t v = e"
  by (induction t e rule: compatible.induct) (auto split: spec.splits dsl_value.splits elim!: is_constexpr.elims)

lemma specialize_type_fits:
  assumes "list_all2 (\<lambda>d v. has_type (snd d) v) decls vals"
  shows "class_ok (StructT decls (specialize_type decls vals)) \<and>
    fits (StructT decls (specialize_type decls vals)) (VStruct decls (specialize_type decls vals) vals)"
  using assms
proof (induction decls vals rule: list_all2_induct)
  case Nil
  then show ?case by (simp add: specialize_type_def)
next
  case (Cons d decls v vals)
  obtain name t where d: "d = (name, t)" by (cases d)
  from Cons(1) obtain e where e: "compatible t e" "class_ok e" "fits e v" by (auto simp: has_type_def d)
  from specialize_field_fits [OF e(1,3)] e Cons.IH show ?case by (simp add: specialize_type_def d)
qed

text \<open>The stored fields of a list lie in order between two offsets.\<close>

fun in_order :: "(string \<times> nat) list \<Rightarrow> nat \<Rightarrow> nat \<Rightarrow> (string \<times> 'c spec) list \<Rightarrow> bool" where
  "in_order offsets lo hi [] \<longleftrightarrow> lo \<le> hi"
| "in_order offsets lo hi ((name, t) # fs) \<longleftrightarrow>
     (if is_constexpr t then in_order offsets lo hi fs
      else \<exists>off sz a. map_of offsets name = Some off \<and> size_align t = Inr (sz, a) \<and> lo \<le> off \<and> in_order offsets (off + sz) hi fs)"

lemma in_order_le: "in_order offsets lo hi fs \<Longrightarrow> lo \<le> hi"
proof (induction offsets lo hi fs rule: in_order.induct)
  case (2 offsets lo hi name t fs)
  then show ?case by (fastforce split: if_splits)
qed simp

lemma fold_in_order:
  assumes "mapM (\<lambda>(name, t). field_layout name (size_align t)) (filter (\<lambda>(_, t). \<not> is_constexpr t) decls) = Inr fs"
    and "fold product_step fs (lo, al, offs) = (hi, al', offs')"
    and "distinct (map fst offs @ map fst decls)"
    and "\<forall>(_, t) \<in> set decls. well_made t"
    and "list_all2 (\<lambda>d e. fst d = fst e \<and> compatible (snd d) (snd e)) decls effective"
  shows "(\<exists>new. offs' = offs @ new) \<and> in_order offs' lo hi effective"
  using assms
proof (induction decls arbitrary: fs lo al offs effective)
  case (Cons d decls)
  obtain name t where d: "d = (name, t)" by (cases d)
  obtain u es where e: "effective = (name, u) # es" and c: "compatible t u"
      and es: "list_all2 (\<lambda>d e. fst d = fst e \<and> compatible (snd d) (snd e)) decls es"
    using Cons.prems(5) d by (auto simp: list_all2_Cons1)
  have cs: "is_constexpr t = is_constexpr u" "size_align t = size_align u" using compatible_same [OF c] by auto
  show ?case
  proof (cases "is_constexpr t")
    case True
    with Cons.prems have "(\<exists>new. offs' = offs @ new) \<and> in_order offs' lo hi es"
      by (intro Cons.IH [of fs lo al offs es]) (use es d in auto)
    then show ?thesis using True cs by (simp add: e)
  next
    case False
    with Cons.prems(1) obtain sz a fs' where sa: "size_align t = Inr (sz, a)"
        and fs: "fs = (name, sz, if sz \<noteq> 0 then a else 1) # fs'"
        and m: "mapM (\<lambda>(name, t). field_layout name (size_align t)) (filter (\<lambda>(_, t). \<not> is_constexpr t) decls) = Inr fs'"
      by (auto simp: d rbind_Inr_iff field_layout_def)
    define a' where "a' = (if sz \<noteq> 0 then a else 1)"
    have "0 < a" using size_align_pos [OF _ sa] Cons.prems(4) d by simp
    then have a': "0 < a'" by (simp add: a'_def)
    let ?o = "align_up lo a'"
    have step: "product_step (name, sz, a') (lo, al, offs) = (?o + sz, max al a', offs @ [(name, ?o)])"
      by (simp add: product_step_def Let_def)
    have f: "fold product_step fs' (?o + sz, max al a', offs @ [(name, ?o)]) = (hi, al', offs')"
      using Cons.prems(2) unfolding fs a'_def [symmetric] fold_simps step .
    have "(\<exists>new. offs' = (offs @ [(name, ?o)]) @ new) \<and> in_order offs' (?o + sz) hi es"
      by (rule Cons.IH [OF m f]) (use Cons.prems es d in auto)
    then obtain new where new: "offs' = offs @ (name, ?o) # new" and io: "in_order offs' (?o + sz) hi es" by auto
    have "name \<notin> fst ` set offs" using Cons.prems(3) d by auto
    then have "map_of offs' name = Some ?o" by (simp add: new map_add_dom_app_simps map_of_eq_None_iff [symmetric] map_add_Some_iff)
    moreover have "size_align u = Inr (sz, a)" using cs(2) sa by simp
    moreover have "lo \<le> ?o" by (rule align_up_ge [OF a'])
    ultimately have "in_order offs' lo hi ((name, u) # es)"
      using False cs(1) io unfolding in_order.simps by auto
    then show ?thesis using new by (simp add: e)
  qed
qed simp

lemma storage_in_order:
  assumes "well_made (StructT decls effective)" and "class_ok (StructT decls effective)"
    and "storage_layout (StructT decls effective) = Inr (sz, al, offsets)"
  shows "in_order offsets 0 sz effective"
proof -
  obtain fs where fs: "field_layouts decls = Inr fs" and l: "product_layout fs = (sz, al, offsets)"
    using assms(3) by (auto simp: rbind_Inr_iff)
  obtain off where st: "fold product_step fs (0, 1, []) = (off, al, offsets)" and sz: "sz = align_up off al"
    using l by (auto simp: product_layout_def split: prod.splits)
  have io: "in_order offsets 0 off effective"
    using fold_in_order [OF fs [unfolded field_layouts_def] st] assms(1,2) by simp
  have "\<forall>f \<in> set fs. 0 < field_align f"
    by (rule field_layouts_pos [OF fs]) (use assms(1) in \<open>auto dest: size_align_pos [rotated]\<close>)
  from placed_align_pos [OF _ this] placed_fold [OF this] have "0 < al" using st by metis
  then have "off \<le> sz" unfolding sz by (rule align_up_ge)
  have "in_order offsets lo hi fs \<Longrightarrow> hi \<le> hi' \<Longrightarrow> in_order offsets lo hi' fs" for lo hi hi' and fs :: "(string \<times> 'a spec) list"
    by (induction offsets lo hi fs rule: in_order.induct) auto
  from this [OF io \<open>off \<le> sz\<close>] show ?thesis .
qed

lemma effective_well_made:
  assumes "well_made (StructT decls effective)" and "class_ok (StructT decls effective)"
  shows "\<forall>(_, t) \<in> set effective. well_made t \<and> class_ok t"
proof -
  have l: "list_all2 (\<lambda>d e. fst d = fst e \<and> compatible (snd d) (snd e)) decls effective" using assms(2) by simp
  have "well_made (snd e)" if e: "e \<in> set effective" for e
  proof -
    from list_all2_img [OF l e] obtain d where "d \<in> set decls" "compatible (snd d) (snd e)" by auto
    moreover have "well_made (snd d)" using assms(1) \<open>d \<in> set decls\<close> by auto
    ultimately show ?thesis using compatible_same by blast
  qed
  then show ?thesis using assms(2) by auto
qed

lemma agree_on_sub: "agree_on M m m' lo hi \<Longrightarrow> lo \<le> lo' \<Longrightarrow> hi' \<le> hi \<Longrightarrow> agree_on M m m' lo' hi'"
  by (auto simp: agree_on_def)

lemma agree_outside_on: "agree_outside M m m' lo hi \<Longrightarrow> hi' \<le> lo \<Longrightarrow> agree_on M m m' lo' hi'"
  by (auto simp: agree_outside_def agree_on_def)

lemma agree_on_trans: "agree_on M m m' lo hi \<Longrightarrow> agree_on M m' m'' lo hi \<Longrightarrow> agree_on M m m'' lo hi"
  by (auto simp: agree_on_def)

lemma agree_outside_trans:
  "agree_outside M m m' lo hi \<Longrightarrow> agree_outside M m' m'' lo' hi' \<Longrightarrow> lo \<le> lo' \<Longrightarrow> hi \<le> hi' \<Longrightarrow> L \<le> lo
    \<Longrightarrow> hi' \<le> H \<Longrightarrow> agree_outside M m m'' L H"
  by (auto simp: agree_outside_def)

context byte_memory
begin

lemma leaf_store:
  assumes "leaf_bytes s = Inr n" and "x < 256 ^ n"
  shows "agree_outside M m (mem_store M m p n x) p (p + n)"
    and "agree_on M (mem_store M m p n x) m'' p (p + n) \<Longrightarrow> mem_load M m'' p n = x"
  using assms load_same load_other by (auto simp: agree_outside_def agree_on_def)

lemma poke_peek:
  fixes s :: "'c spec" and fs :: "(string \<times> 'c spec) list"
  shows "well_made s \<Longrightarrow> class_ok s \<Longrightarrow> fits s v \<Longrightarrow> in_range v \<Longrightarrow> storable_value s \<Longrightarrow> size_align s = Inr (sz, a) \<Longrightarrow>
      \<exists>m'. poke M conv s p v m = Inr m' \<and> agree_outside M m m' p (p + sz) \<and>
        (\<forall>m''. agree_on M m' m'' p (p + sz) \<longrightarrow> peek M m'' s p = Inr v)"
    and "in_order offsets lo hi fs \<Longrightarrow> fits_fields fs vals \<Longrightarrow> list_all in_range vals \<Longrightarrow>
      (\<forall>(_, t) \<in> set fs. well_made t \<and> class_ok t \<and> storable_value t) \<Longrightarrow>
      \<exists>m'. poke_fields M conv fs vals offsets p m = Inr m' \<and> agree_outside M m m' (p + lo) (p + hi) \<and>
        (\<forall>m''. agree_on M m' m'' (p + lo) (p + hi) \<longrightarrow> peek_fields M m'' fs offsets p = Inr vals)"
proof (induction s v and fs vals arbitrary: p m sz a and p m lo hi offsets rule: fits_fits_fields.induct)
  case (1 t v)
  then obtain x where v: "v = VLeaf (Num t) x" by (auto split: dsl_value.splits)
  have b: "leaf_bytes (Num t :: 'c spec) = Inr sz" using 1(6) by (simp add: leaf_bytes_def)
  show ?case using leaf_store [OF b, of x m p] 1(4) v b by (auto simp del: size_align.simps)
next
  case (2 t n v)
  then obtain x where v: "v = VLeaf (VectorT t n) x" by (auto split: dsl_value.splits)
  have b: "leaf_bytes (VectorT t n :: 'c spec) = Inr sz" using 2(6) by (simp add: leaf_bytes_def)
  show ?case using leaf_store [OF b, of x m p] 2(4) v b by (auto simp del: size_align.simps)
next
  case (3 g v)
  then obtain x where v: "v = VLeaf (PointerT g) x" by (auto split: dsl_value.splits)
  have b: "leaf_bytes (PointerT g :: 'c spec) = Inr sz" using 3(6) by (simp add: leaf_bytes_def)
  show ?case using leaf_store [OF b, of x m p] 3(4) v b by (auto simp del: size_align.simps)
next
  case (5 t a' v)
  then obtain a0 where "size_align t = Inr (sz, a0)" by (auto simp: rbind_Inr_iff)
  with 5 show ?case by simp
next
  case (7 v)
  then show ?case by (simp add: agree_outside_def)
next
  case (8 decls effective v)
  then obtain vals where v: "v = VStruct decls effective vals" and f: "fits_fields effective vals"
    by (auto split: dsl_value.splits)
  have r: "list_all in_range vals" using 8(5) v by simp
  from 8(7) obtain al offsets where l: "storage_layout (StructT decls effective) = Inr (sz, al, offsets)"
    by (cases "field_layouts decls") (auto simp: field_layouts_def split: prod.splits)
  have io: "in_order offsets 0 sz effective" by (rule storage_in_order [OF 8(2,3) l])
  have ok: "\<forall>(_, t) \<in> set effective. well_made t \<and> class_ok t \<and> storable_value t"
    using effective_well_made [OF 8(2,3)] 8(6) by auto
  from 8(1) [OF v io f r ok, of p m] obtain m' where m': "poke_fields M conv effective vals offsets p m = Inr m'"
      "agree_outside M m m' p (p + sz)" "\<And>m''. agree_on M m' m'' p (p + sz) \<Longrightarrow> peek_fields M m'' effective offsets p = Inr vals"
    by auto
  have "instance_of decls effective decls effective" by (simp add: instance_of_def)
  then have "poke M conv (StructT decls effective) p v m = Inr m'"
    unfolding poke.simps v dsl_value.case l using m'(1) by simp
  moreover have "peek M m'' (StructT decls effective) p = Inr v" if "agree_on M m' m'' p (p + sz)" for m''
    unfolding peek.simps l using m'(3) [OF that] v by simp
  ultimately show ?case using m'(2) by blast
next
  case (11 vals)
  then show ?case by (auto simp: agree_outside_def)
next
  case (12 name t fs vals)
  then obtain v vals' where v: "vals = v # vals'" and f: "fits t v" "fits_fields fs vals'" and r: "in_range v" "list_all in_range vals'"
    by (auto split: list.splits)
  have ok: "well_made t" "class_ok t" "storable_value t" "\<forall>(_, t) \<in> set fs. well_made t \<and> class_ok t \<and> storable_value t"
    using 12(6) by auto
  show ?case
  proof (cases "is_constexpr t")
    case True
    then obtain k where t: "t = ConstT (Some k)" and k: "v = VConst k" using f(1) by (cases t) (auto split: dsl_value.splits)
    have io: "in_order offsets lo hi fs" using 12(3) True by simp
    from 12(2) [OF v io f(2) r(2) ok(4), of p m] show ?thesis by (auto simp: v t k)
  next
    case False
    from 12(3) False obtain off sz a where off: "map_of offsets name = Some off" and sa: "size_align t = Inr (sz, a)"
        and lo: "lo \<le> off" and io: "in_order offsets (off + sz) hi fs" by auto
    have hi: "off + sz \<le> hi" by (rule in_order_le [OF io])
    from 12(1) [OF v ok(1,2) f(1) r(1) ok(3) sa, of "p + off" m] obtain m1 where m1: "poke M conv t (p + off) v m = Inr m1"
        "agree_outside M m m1 (p + off) (p + off + sz)"
        "\<And>m''. agree_on M m1 m'' (p + off) (p + off + sz) \<Longrightarrow> peek M m'' t (p + off) = Inr v"
      by auto
    from 12(2) [OF v io f(2) r(2) ok(4), of p m1] obtain m2 where m2: "poke_fields M conv fs vals' offsets p m1 = Inr m2"
        "agree_outside M m1 m2 (p + (off + sz)) (p + hi)"
        "\<And>m''. agree_on M m2 m'' (p + (off + sz)) (p + hi) \<Longrightarrow> peek_fields M m'' fs offsets p = Inr vals'"
      by auto
    have "poke_fields M conv ((name, t) # fs) vals offsets p m = Inr m2"
      using False off m1(1) m2(1) by (simp add: v)
    moreover have "agree_outside M m m2 (p + lo) (p + hi)"
      by (rule agree_outside_trans [OF m1(2) m2(2)]) (use lo hi in auto)
    moreover have "peek_fields M m'' ((name, t) # fs) offsets p = Inr vals" if ag: "agree_on M m2 m'' (p + lo) (p + hi)" for m''
    proof -
      have "agree_on M m1 m'' (p + off) (p + off + sz)"
        by (rule agree_on_trans [OF agree_outside_on [OF m2(2)] agree_on_sub [OF ag]]) (use lo hi in auto)
      from m1(3) [OF this] have 1: "peek M m'' t (p + off) = Inr v" .
      have "agree_on M m2 m'' (p + (off + sz)) (p + hi)" by (rule agree_on_sub [OF ag]) (use lo hi in auto)
      from m2(3) [OF this] show ?thesis using 1 False off by (simp add: v)
    qed
    ultimately show ?thesis by blast
  qed
qed auto

end

text \<open>A little-endian memory of bytes.\<close>

fun le_load :: "(nat \<Rightarrow> nat) \<Rightarrow> nat \<Rightarrow> nat \<Rightarrow> nat" where
  "le_load m p 0 = 0"
| "le_load m p (Suc n) = m p + 256 * le_load m (Suc p) n"

fun le_store :: "(nat \<Rightarrow> nat) \<Rightarrow> nat \<Rightarrow> nat \<Rightarrow> nat \<Rightarrow> (nat \<Rightarrow> nat)" where
  "le_store m p 0 x = m"
| "le_store m p (Suc n) x = le_store (m(p := x mod 256)) (Suc p) n (x div 256)"

definition le_memory :: "(nat \<Rightarrow> nat) memory" where
  "le_memory = \<lparr>mem_load = le_load, mem_store = le_store\<rparr>"

lemma le_store_below: "q < p \<Longrightarrow> le_store m p n x q = m q"
  by (induction m p n x rule: le_store.induct) auto

lemma le_store_above: "p + n \<le> q \<Longrightarrow> le_store m p n x q = m q"
  by (induction m p n x rule: le_store.induct) auto

lemma le_load_cong: "(\<And>i. p \<le> i \<Longrightarrow> i < p + n \<Longrightarrow> m i = m' i) \<Longrightarrow> le_load m p n = le_load m' p n"
  by (induction m p n rule: le_load.induct) auto

interpretation le: byte_memory le_memory
proof
  fix x n p :: nat and m :: "nat \<Rightarrow> nat"
  show "x < 256 ^ n \<Longrightarrow> mem_load le_memory (mem_store le_memory m p n x) p n = x"
    unfolding le_memory_def memory.simps
    by (induction m p n x rule: le_store.induct) (auto simp: le_store_below less_mult_imp_div_less)
next
  fix x n p q k :: nat and m :: "nat \<Rightarrow> nat"
  assume "p + n \<le> q \<or> q + k \<le> p"
  then show "mem_load le_memory (mem_store le_memory m p n x) q k = mem_load le_memory m q k"
    unfolding le_memory_def memory.simps by (intro le_load_cong) (auto simp: le_store_below le_store_above)
qed

text \<open>
  C11: storing a value and reading it back: whatever the nesting of structs, alignments, pointers and
  compile-time fields, writing a value of a type at an address succeeds, reading that address as
  the type gives the value back, and no byte outside the size of the type has changed. Types holding an array, which
  has no value form to store, are excluded.
\<close>

theorem peek_after_poke:
  assumes "well_made s" and "class_ok s" and "storable_value s" and "size_align s = Inr (sz, a)"
    and "fits s v" and "in_range v"
  shows "\<exists>m'. poke le_memory conv s p v m = Inr m' \<and> peek le_memory m' s p = Inr v \<and>
    (\<forall>q. q < p \<or> p + sz \<le> q \<longrightarrow> m' q = m q)"
proof -
  from le.poke_peek(1) [OF assms(1,2,5,6,3,4), of conv p m] obtain m'
    where m': "poke le_memory conv s p v m = Inr m'" "agree_outside le_memory m m' p (p + sz)"
      "\<And>m''. agree_on le_memory m' m'' p (p + sz) \<Longrightarrow> peek le_memory m'' s p = Inr v"
    by blast
  have "m' q = m q" if "q < p \<or> p + sz \<le> q" for q
  proof -
    have "le_load m' q (Suc 0) = le_load m q (Suc 0)"
      using m'(2) [unfolded agree_outside_def le_memory_def memory.simps, rule_format, of q "Suc 0"] that by (simp add: Suc_le_eq)
    then show ?thesis by simp
  qed
  then show ?thesis using m'(1) m'(3) [of m'] by (auto simp: agree_on_def)
qed

theorem peek_after_poke_witness:
  "let i = StructT [(''x'', Num Uint8), (''y'', Num Int32)] [(''x'', Num Uint8), (''y'', Num Int32)];
       s = StructT [(''a'', Num Int16), (''n'', ConstT None), (''b'', i)] [(''a'', Num Int16), (''n'', ConstT (Some ())), (''b'', i)];
       v = VStruct [(''a'', Num Int16), (''n'', ConstT None), (''b'', i)] [(''a'', Num Int16), (''n'', ConstT (Some ())), (''b'', i)]
         [VLeaf (Num Int16) 513, VConst (), VStruct [(''x'', Num Uint8), (''y'', Num Int32)] [(''x'', Num Uint8), (''y'', Num Int32)]
            [VLeaf (Num Uint8) 3, VLeaf (Num Int32) 70000]]
   in \<exists>m'. poke le_memory (\<lambda>_ _. Inl TypeError) s 8 v (\<lambda>_. 0) = Inr m' \<and> peek le_memory m' s 8 = Inr v \<and>
       (\<forall>q. q < 8 \<or> 8 + 12 \<le> q \<longrightarrow> m' q = 0)"
proof -
  let ?i = "StructT [(''x'', Num Uint8), (''y'', Num Int32)] [(''x'', Num Uint8), (''y'', Num Int32)]"
  let ?d = "[(''a'', Num Int16), (''n'', ConstT None), (''b'', ?i)]"
  let ?e = "[(''a'', Num Int16), (''n'', ConstT (Some ())), (''b'', ?i)]"
  let ?v = "VStruct ?d ?e [VLeaf (Num Int16) 513, VConst (), VStruct [(''x'', Num Uint8), (''y'', Num Int32)]
      [(''x'', Num Uint8), (''y'', Num Int32)] [VLeaf (Num Uint8) 3, VLeaf (Num Int32) 70000]]"
  have 1: "well_made (StructT ?d ?e)" "class_ok (StructT ?d ?e)" "storable_value (StructT ?d ?e)" "fits (StructT ?d ?e) ?v"
    by simp_all
  have 2: "size_align (StructT ?d ?e) = Inr (12, 4)"
    by (simp add: field_layout_def product_layout_def product_step_def align_up_def)
  have 3: "in_range ?v" by (simp add: leaf_bytes_def)
  show ?thesis
    using peek_after_poke [OF 1(1,2,3) 2 1(4) 3, where conv = "\<lambda>_ _. Inl TypeError" and p = 8 and m = "\<lambda>_. 0"] unfolding Let_def .
qed
end
