(* ===== verification/Signal_Barrier.thy ===== *)
theory Signal_Barrier
  imports Prelude "HOL-Library.Word"
begin

text \<open>
  The handshake of the all-reduce kernels (\<open>kernels/comm/custom_all_reduce_kernel.py\<close>): the threads of the
  blocks with one index on all GPUs meet through flags in memory. Every GPU has a signal buffer that all GPUs
  write; a block numbers its synchronizations with a flag word, lane \<open>i\<close> writes the number into the slot of its own
  rank in the buffer of GPU \<open>i\<close>, and spins until the slot of rank \<open>i\<close> in the own buffer has reached it.
  Threads interleave freely; a step of a thread is one access to the buffers, the arrival at a barrier of the
  block, or its departure from it.
\<close>

section \<open>Signal buffers\<close>

definition max_blocks :: nat where "max_blocks = 80"

datatype sync_kind = Start | End

definition sg_start_off :: nat where "sg_start_off = 0"
definition sg_end_off :: nat where "sg_end_off = max_blocks * 8 * 4"
definition sg_flag_off :: nat where "sg_flag_off = max_blocks * 8 * 4 * 2"

text \<open>\<open>FlyDSLAllreduce._SIGNAL_SIZE\<close>\<close>

definition signal_size :: nat where
  "signal_size = (max_blocks * 8 * 4 * 2 + max_blocks * 4 + 127) div 128 * 128"

fun slot_addr :: "sync_kind \<Rightarrow> nat \<Rightarrow> nat \<Rightarrow> nat" where
  "slot_addr Start bid i = sg_start_off + (bid * 8 + i) * 4"
| "slot_addr End bid i = sg_end_off + (bid * 8 + i) * 4"

definition flag_addr :: "nat \<Rightarrow> nat" where
  "flag_addr bid = sg_flag_off + bid * 4"

lemmas layout_defs = max_blocks_def sg_start_off_def sg_end_off_def sg_flag_off_def flag_addr_def

lemma slot_index:
  assumes "i < 8" and "i' < 8"
  shows "b * 8 + i = b' * 8 + i' \<longleftrightarrow> b = b' \<and> i = (i' :: nat)"
proof -
  have d: "(b * 8 + i) div 8 = b" "(b' * 8 + i') div 8 = b'" using assms by simp_all
  show ?thesis
  proof
    assume e: "b * 8 + i = b' * 8 + i'"
    then have "b = b'" using d by metis
    with e show "b = b' \<and> i = i'" by simp
  qed simp
qed

lemma slot_inj:
  assumes "b < max_blocks" "b' < max_blocks" "i < 8" "i' < 8"
  shows "slot_addr k b i = slot_addr k' b' i' \<longleftrightarrow> k = k' \<and> b = b' \<and> i = i'"
proof -
  define x x' where "x = b * 8 + i" and "x' = b' * 8 + i'"
  have "x < 640" "x' < 640" using assms by (simp_all add: max_blocks_def x_def x'_def)
  moreover have "slot_addr k b i = (case k of Start \<Rightarrow> 0 | End \<Rightarrow> 2560) + x * 4"
      "slot_addr k' b' i' = (case k' of Start \<Rightarrow> 0 | End \<Rightarrow> 2560) + x' * 4"
    by (cases k; simp add: layout_defs x_def)+ (cases k'; simp add: layout_defs x'_def)
  moreover have "x = x' \<longleftrightarrow> b = b' \<and> i = i'"
    unfolding x_def x'_def by (rule slot_index [OF assms(3,4)])
  ultimately show ?thesis by (cases k; cases k') simp_all
qed

lemma flag_inj [simp]: "flag_addr b = flag_addr b' \<longleftrightarrow> b = b'"
  by (simp add: flag_addr_def)

lemma slot_not_flag:
  assumes "b < max_blocks" "i < 8"
  shows "slot_addr k b i \<noteq> flag_addr b'"
  using assms by (cases k) (auto simp: layout_defs)

section \<open>Threads\<close>

text \<open>
  What a kernel launch does between two synchronizations is one step \<open>Work\<close>. A synchronization is one of the
  \<open>Start\<close> or the \<open>End\<close> slots; the work before it may begin a new launch, which waits for all threads of the previous
  one on this GPU, and may end with a barrier of the block before the signals are sent.
\<close>

record sync =
  kind :: sync_kind
  launch :: bool
  fenced :: bool

record geometry =
  gpus :: nat
  grid :: nat
  lanes :: nat

datatype pc = Work | Ready | Signal "32 word" | Wait "32 word" | Arrived "32 word" | Publish "32 word"

type_synonym tid = "nat \<times> nat \<times> nat"

record state =
  signals :: "nat \<Rightarrow> nat \<Rightarrow> 32 word"
  thr :: "tid \<Rightarrow> nat \<times> pc"

fun stage :: "pc \<Rightarrow> nat" where
  "stage Work = 0"
| "stage Ready = 1"
| "stage (Signal _) = 2"
| "stage (Wait _) = 3"
| "stage (Arrived _) = 4"
| "stage (Publish _) = 5"

text \<open>How far a thread is: six stages for each synchronization.\<close>

definition pos :: "nat \<times> pc \<Rightarrow> nat" where
  "pos x = 6 * fst x + stage (snd x)"

definition poke_signal :: "nat \<Rightarrow> nat \<Rightarrow> 32 word \<Rightarrow> state \<Rightarrow> state" where
  "poke_signal g a f s = s\<lparr>signals := (signals s)(g := (signals s g)(a := f))\<rparr>"

definition move :: "tid \<Rightarrow> nat \<times> pc \<Rightarrow> state \<Rightarrow> state" where
  "move i x s = s\<lparr>thr := (thr s)(i := x)\<rparr>"

text \<open>All threads of a block, and all threads of a GPU, are at least that far.\<close>

definition block_reached :: "geometry \<Rightarrow> state \<Rightarrow> nat \<Rightarrow> nat \<Rightarrow> nat \<Rightarrow> bool" where
  "block_reached geo s g b p = list_all (\<lambda>t. p \<le> pos (thr s (g, b, t))) [0..<lanes geo]"

definition gpu_reached :: "geometry \<Rightarrow> state \<Rightarrow> nat \<Rightarrow> nat \<Rightarrow> bool" where
  "gpu_reached geo s g p = list_all (\<lambda>b. block_reached geo s g b p) [0..<grid geo]"

text \<open>
  A step of a thread; \<open>None\<close> when it cannot take one. \<open>_signal_start_sync\<close> and \<open>_signal_end_sync\<close> are the steps
  from \<open>Ready\<close>: read the flag, signal the peer, spin, meet at the barrier, and publish the flag (lane 0).
\<close>

fun thread_step :: "geometry \<Rightarrow> sync list \<Rightarrow> state \<Rightarrow> tid \<Rightarrow> state option" where
  "thread_step geo sched s (rank, bid, lane) =
     (case thr s (rank, bid, lane) of (n, p) \<Rightarrow>
       if length sched \<le> n then None
       else let y = sched ! n; me = (rank, bid, lane) in
       (case p of
          Work \<Rightarrow> if launch y \<and> \<not> gpu_reached geo s rank (6 * n) then None
                  else Some (move me (n, Ready) s)
        | Ready \<Rightarrow> if fenced y \<and> \<not> block_reached geo s rank bid (6 * n + 1) then None
                  else let flag = signals s rank (flag_addr bid) + 1
                    in Some (move me (n, if lane < gpus geo then Signal flag else Arrived flag) s)
        | Signal flag \<Rightarrow> Some (move me (n, Wait flag) (poke_signal lane (slot_addr (kind y) bid rank) flag s))
        | Wait flag \<Rightarrow> if signals s rank (slot_addr (kind y) bid lane) < flag then Some s
                  else Some (move me (n, Arrived flag) s)
        | Arrived flag \<Rightarrow> if \<not> block_reached geo s rank bid (6 * n + 4) then None
                  else Some (move me (if lane = 0 then (n, Publish flag) else (Suc n, Work)) s)
        | Publish flag \<Rightarrow> Some (move me (Suc n, Work) (poke_signal rank (flag_addr bid) flag s))))"

definition valid :: "geometry \<Rightarrow> tid \<Rightarrow> bool" where
  "valid geo i = (case i of (g, b, t) \<Rightarrow> g < gpus geo \<and> b < grid geo \<and> t < lanes geo)"

text \<open>The buffers are zeroed when they are allocated (\<open>_alloc_uncached\<close>).\<close>

definition initial :: state where
  "initial = \<lparr>signals = \<lambda>_ _. 0, thr = \<lambda>_. (0, Work)\<rparr>"

inductive reachable :: "geometry \<Rightarrow> sync list \<Rightarrow> state \<Rightarrow> bool" for geo sched where
  start: "reachable geo sched initial"
| step: "reachable geo sched s \<Longrightarrow> valid geo i \<Longrightarrow> thread_step geo sched s i = Some s' \<Longrightarrow> reachable geo sched s'"

text \<open>The schedules of the kernels: each launch of the 1-stage kernel, the 2-stage kernel and its write mode.\<close>

definition one_stage :: "sync list" where
  "one_stage = [\<lparr>kind = Start, launch = True, fenced = False\<rparr>]"

definition two_stage :: "sync list" where
  "two_stage = [\<lparr>kind = Start, launch = True, fenced = False\<rparr>, \<lparr>kind = End, launch = False, fenced = True\<rparr>]"

definition write_mode :: "sync list" where
  "write_mode = [\<lparr>kind = Start, launch = True, fenced = False\<rparr>, \<lparr>kind = End, launch = False, fenced = True\<rparr>]"

definition legal :: "geometry \<Rightarrow> sync list \<Rightarrow> bool" where
  "legal geo sched \<longleftrightarrow> 0 < gpus geo \<and> gpus geo \<le> 8 \<and> gpus geo \<le> lanes geo \<and> grid geo \<le> max_blocks \<and>
     length sched < 2 ^ 32 \<and> (\<forall>y \<in> set sched. launch y \<or> fenced y)"


section \<open>Invariants\<close>

lemma block_reached_iff: "block_reached geo s g b p \<longleftrightarrow> (\<forall>t < lanes geo. p \<le> pos (thr s (g, b, t)))"
  by (auto simp: block_reached_def list_all_iff)

lemma gpu_reached_iff: "gpu_reached geo s g p \<longleftrightarrow> (\<forall>b < grid geo. \<forall>t < lanes geo. p \<le> pos (thr s (g, b, t)))"
  by (auto simp: gpu_reached_def list_all_iff block_reached_iff)

lemma move_sel [simp]:
  "signals (move i x s) = signals s"
  "thr (move i x s) = (thr s)(i := x)"
  by (simp_all add: move_def)

lemma poke_sel [simp]:
  "thr (poke_signal g a f s) = thr s"
  "signals (poke_signal g a f s) h c = (if h = g \<and> c = a then f else signals s h c)"
  by (simp_all add: poke_signal_def)

lemma pos_simps [simp]:
  "pos (n, Work) = 6 * n" "pos (n, Ready) = 6 * n + 1" "pos (n, Signal f) = 6 * n + 2"
  "pos (n, Wait f) = 6 * n + 3" "pos (n, Arrived f) = 6 * n + 4" "pos (n, Publish f) = 6 * n + 5"
  by (simp_all add: pos_def)

lemma stage_le: "stage p \<le> 5"
  by (cases p) auto

text \<open>The cases of a step.\<close>

lemma thread_step_cases:
  assumes "thread_step geo sched s (g, b, t) = Some s'"
  obtains (spin) n f where "thr s (g, b, t) = (n, Wait f)" "s' = s"
  | (work) n where "n < length sched" "thr s (g, b, t) = (n, Work)" "launch (sched ! n) \<Longrightarrow> gpu_reached geo s g (6 * n)"
      "s' = move (g, b, t) (n, Ready) s"
  | (ready) n f where "n < length sched" "thr s (g, b, t) = (n, Ready)" "fenced (sched ! n) \<Longrightarrow> block_reached geo s g b (6 * n + 1)"
      "f = signals s g (flag_addr b) + 1" "s' = move (g, b, t) (n, if t < gpus geo then Signal f else Arrived f) s"
  | (signal) n f where "n < length sched" "thr s (g, b, t) = (n, Signal f)"
      "s' = move (g, b, t) (n, Wait f) (poke_signal t (slot_addr (kind (sched ! n)) b g) f s)"
  | (wait) n f where "n < length sched" "thr s (g, b, t) = (n, Wait f)" "f \<le> signals s g (slot_addr (kind (sched ! n)) b t)"
      "s' = move (g, b, t) (n, Arrived f) s"
  | (arrived) n f where "n < length sched" "thr s (g, b, t) = (n, Arrived f)" "block_reached geo s g b (6 * n + 4)"
      "s' = move (g, b, t) (if t = 0 then (n, Publish f) else (Suc n, Work)) s"
  | (publish) n f where "n < length sched" "thr s (g, b, t) = (n, Publish f)"
      "s' = move (g, b, t) (Suc n, Work) (poke_signal g (flag_addr b) f s)"
proof -
  obtain n p where np: "thr s (g, b, t) = (n, p)" by (cases "thr s (g, b, t)")
  have n: "n < length sched" using assms np by (auto split: if_splits)
  show thesis
  proof (cases p)
    case Work
    then show thesis using assms np n by (intro work) (auto simp: Let_def split: if_splits)
  next
    case Ready
    then show thesis using assms np n by (intro ready) (auto simp: Let_def split: if_splits)
  next
    case (Signal f)
    then show thesis using assms np n by (intro signal) (auto simp: Let_def)
  next
    case (Wait f)
    then show thesis using assms np n
      by (cases "signals s g (slot_addr (kind (sched ! n)) b t) < f") (auto simp: Let_def not_less intro: spin wait)
  next
    case (Arrived f)
    then show thesis using assms np n by (intro arrived) (auto simp: Let_def split: if_splits)
  next
    case (Publish f)
    then show thesis using assms np n by (intro publish) (auto simp: Let_def)
  qed
qed

text \<open>A step moves its own thread forward or changes nothing.\<close>

lemma step_moves:
  assumes "thread_step geo sched s i = Some s'"
  shows "s' = s \<or> (thr s' = (thr s)(i := thr s' i) \<and> pos (thr s i) < pos (thr s' i) \<and> pos (thr s' i) \<le> 6 * length sched)"
proof -
  obtain g b t where i: "i = (g, b, t)" by (cases i) auto
  from assms[unfolded i] show ?thesis by (cases rule: thread_step_cases) (simp_all add: i)
qed

lemma step_mono:
  assumes "thread_step geo sched s i = Some s'"
  shows "pos (thr s j) \<le> pos (thr s' j)"
  using step_moves [OF assms] by (cases "j = i") (auto dest!: fun_cong [of "thr s'" _ j])

lemma step_other:
  assumes "thread_step geo sched s i = Some s'" and "j \<noteq> i"
  shows "thr s' j = thr s j"
  using step_moves [OF assms(1)] assms(2) by (auto dest!: fun_cong [of "thr s'" _ j])

lemma reached_mono:
  assumes "thread_step geo sched s i = Some s'"
  shows "block_reached geo s g b p \<Longrightarrow> block_reached geo s' g b p" "gpu_reached geo s g p \<Longrightarrow> gpu_reached geo s' g p"
  using step_mono [OF assms] unfolding block_reached_iff gpu_reached_iff by (meson le_trans)+

text \<open>Number and register of a thread.\<close>

definition in_sync :: "geometry \<Rightarrow> sync list \<Rightarrow> nat \<Rightarrow> nat \<times> pc \<Rightarrow> bool" where
  "in_sync geo sched t x = (case x of (n, p) \<Rightarrow> n \<le> length sched \<and> (p \<noteq> Work \<longrightarrow> n < length sched) \<and>
     (case p of
        Signal f \<Rightarrow> t < gpus geo \<and> f = of_nat (n + 1)
      | Wait f \<Rightarrow> t < gpus geo \<and> f = of_nat (n + 1)
      | Arrived f \<Rightarrow> f = of_nat (n + 1)
      | Publish f \<Rightarrow> t = 0 \<and> f = of_nat (n + 1)
      | _ \<Rightarrow> True))"

definition inv_register :: "geometry \<Rightarrow> sync list \<Rightarrow> state \<Rightarrow> bool" where
  "inv_register geo sched s \<longleftrightarrow> (\<forall>g b t. valid geo (g, b, t) \<longrightarrow> in_sync geo sched t (thr s (g, b, t)))"

definition inv_flag :: "geometry \<Rightarrow> state \<Rightarrow> bool" where
  "inv_flag geo s \<longleftrightarrow> (\<forall>g < gpus geo. \<forall>b < grid geo. signals s g (flag_addr b) = of_nat (fst (thr s (g, b, 0))))"

text \<open>No thread leaves a barrier before all of its block are there.\<close>

definition inv_barrier :: "geometry \<Rightarrow> state \<Rightarrow> bool" where
  "inv_barrier geo s \<longleftrightarrow> (\<forall>g b t n. valid geo (g, b, t) \<longrightarrow> 6 * n + 5 \<le> pos (thr s (g, b, t)) \<longrightarrow> block_reached geo s g b (6 * n + 4))"

text \<open>A thread past the start of a launch, or past the barrier before the signals, has the others behind it.\<close>

definition inv_launch :: "geometry \<Rightarrow> sync list \<Rightarrow> state \<Rightarrow> bool" where
  "inv_launch geo sched s \<longleftrightarrow> (\<forall>g b t n. valid geo (g, b, t) \<longrightarrow> n < length sched \<longrightarrow> launch (sched ! n) \<longrightarrow>
     6 * n + 1 \<le> pos (thr s (g, b, t)) \<longrightarrow> gpu_reached geo s g (6 * n))"

definition inv_fence :: "geometry \<Rightarrow> sync list \<Rightarrow> state \<Rightarrow> bool" where
  "inv_fence geo sched s \<longleftrightarrow> (\<forall>g b t n. valid geo (g, b, t) \<longrightarrow> n < length sched \<longrightarrow> fenced (sched ! n) \<longrightarrow>
     6 * n + 2 \<le> pos (thr s (g, b, t)) \<longrightarrow> block_reached geo s g b (6 * n + 1))"

text \<open>The slot of GPU \<open>g\<close> in the buffer of GPU \<open>h\<close> has the number of the last signal of its lane \<open>h\<close>.\<close>

definition inv_slots :: "geometry \<Rightarrow> sync list \<Rightarrow> state \<Rightarrow> bool" where
  "inv_slots geo sched s \<longleftrightarrow> (\<forall>g < gpus geo. \<forall>h < gpus geo. \<forall>b < grid geo. \<forall>k n. n < length sched \<longrightarrow>
     (kind (sched ! n) = k \<and> 6 * n + 3 \<le> pos (thr s (g, b, h)) \<longrightarrow> n + 1 \<le> unat (signals s h (slot_addr k b g))) \<and>
     (n + 1 \<le> unat (signals s h (slot_addr k b g)) \<longrightarrow> 6 * n + 3 \<le> pos (thr s (g, b, h))))"

text \<open>A thread that has seen the signal of a peer is not ahead of it.\<close>

definition inv_seen :: "geometry \<Rightarrow> state \<Rightarrow> bool" where
  "inv_seen geo s \<longleftrightarrow> (\<forall>g < gpus geo. \<forall>h < gpus geo. \<forall>b < grid geo. \<forall>n.
     6 * n + 4 \<le> pos (thr s (h, b, g)) \<longrightarrow> 6 * n + 3 \<le> pos (thr s (g, b, h)))"

lemma in_sync_simps [simp]:
  "in_sync geo sched t (n, Work) \<longleftrightarrow> n \<le> length sched"
  "in_sync geo sched t (n, Ready) \<longleftrightarrow> n < length sched"
  "in_sync geo sched t (n, Signal f) \<longleftrightarrow> n < length sched \<and> t < gpus geo \<and> f = of_nat (n + 1)"
  "in_sync geo sched t (n, Wait f) \<longleftrightarrow> n < length sched \<and> t < gpus geo \<and> f = of_nat (n + 1)"
  "in_sync geo sched t (n, Arrived f) \<longleftrightarrow> n < length sched \<and> f = of_nat (n + 1)"
  "in_sync geo sched t (n, Publish f) \<longleftrightarrow> n < length sched \<and> t = 0 \<and> f = of_nat (n + 1)"
  by (auto simp: in_sync_def)

lemma fst_bounds: "6 * fst x \<le> pos x" "pos x < 6 * fst x + 6"
  using stage_le [of "snd x"] by (simp_all add: pos_def)

text \<open>Comparisons of positions, one synchronization and one stage at a time.\<close>

lemma pos_at_least:
  assumes "k \<le> 5"
  shows "6 * n + k \<le> pos (m, p) \<longleftrightarrow> n < m \<or> n = m \<and> k \<le> stage p"
proof -
  have "6 * n + k \<le> 6 * m + stage p \<longleftrightarrow> n < m \<or> n = m \<and> k \<le> stage p" if "stage p \<le> 5"
  proof (cases n m rule: linorder_cases)
    case less
    then have "Suc n \<le> m" by simp
    then have "6 * n + 6 \<le> 6 * m" by linarith
    with less assms show ?thesis by linarith
  next
    case greater
    then have "Suc m \<le> n" by simp
    then have "6 * m + 6 \<le> 6 * n" by linarith
    with greater that show ?thesis by linarith
  qed simp
  then show ?thesis using stage_le [of p] by (simp add: pos_def)
qed

lemma pos_case: "k \<le> 5 \<Longrightarrow> 6 * n + k \<le> pos x \<longleftrightarrow> n < fst x \<or> n = fst x \<and> k \<le> stage (snd x)"
  using pos_at_least [of k n "fst x" "snd x"] by simp

lemmas pos_cases = pos_case [of 0, simplified] pos_case [of 1, simplified] pos_case [of 2, simplified]
  pos_case [of 3, simplified] pos_case [of 4, simplified] pos_case [of 5, simplified]

lemma legalD:
  assumes "legal geo sched"
  shows "0 < gpus geo" "gpus geo \<le> 8" "gpus geo \<le> lanes geo" "grid geo \<le> max_blocks" "length sched < 2 ^ 32" "0 < lanes geo"
    "n < length sched \<Longrightarrow> launch (sched ! n) \<or> fenced (sched ! n)"
  using assms by (auto simp: legal_def)

text \<open>The flag a thread reads is the number of the synchronizations its block has completed.\<close>

lemma lane0_number:
  assumes l: "legal geo sched" and v: "valid geo (g, b, t)" and n: "n < length sched" and r: "thr s (g, b, t) = (n, Ready)"
    and inv: "inv_barrier geo s" "inv_launch geo sched s"
    and fence: "fenced (sched ! n) \<Longrightarrow> block_reached geo s g b (6 * n + 1)"
  shows "fst (thr s (g, b, 0)) = n"
proof -
  have 0: "valid geo (g, b, 0)" using v legalD(6) [OF l] by (simp add: valid_def)
  have "6 * n \<le> pos (thr s (g, b, 0))"
    using legalD(7) [OF l n]
  proof
    assume "launch (sched ! n)"
    then have "gpu_reached geo s g (6 * n)" using inv(2) v n r unfolding inv_launch_def by fastforce
    then show ?thesis using 0 by (auto simp: gpu_reached_iff valid_def)
  next
    assume "fenced (sched ! n)"
    from fence [OF this] show ?thesis using 0 by (auto simp: block_reached_iff valid_def)
  qed
  then have "n \<le> fst (thr s (g, b, 0))" using fst_bounds(2) [of "thr s (g, b, 0)"] by linarith
  moreover have "\<not> Suc n \<le> fst (thr s (g, b, 0))"
  proof
    assume "Suc n \<le> fst (thr s (g, b, 0))"
    then have "6 * n + 5 \<le> pos (thr s (g, b, 0))" using fst_bounds(1) [of "thr s (g, b, 0)"] by linarith
    then have "block_reached geo s g b (6 * n + 4)" using inv(1) 0 unfolding inv_barrier_def by blast
    then have "6 * n + 4 \<le> pos (thr s (g, b, t))" using v by (auto simp: block_reached_iff valid_def)
    then show False using r by simp
  qed
  ultimately show ?thesis by simp
qed

lemma register_step:
  assumes l: "legal geo sched" and v: "valid geo i" and st: "thread_step geo sched s i = Some s'"
    and inv: "inv_register geo sched s" "inv_flag geo s" "inv_barrier geo s" "inv_launch geo sched s"
  shows "inv_register geo sched s'"
proof -
  obtain g b t where i: "i = (g, b, t)" by (cases i) auto
  have old: "in_sync geo sched t (thr s (g, b, t))" using inv(1) v by (simp add: inv_register_def i)
  have "in_sync geo sched t (thr s' (g, b, t))"
    using st [unfolded i]
  proof (cases rule: thread_step_cases)
    case (ready n f)
    have "fst (thr s (g, b, 0)) = n"
      using lane0_number [OF l v[unfolded i] ready(1,2) inv(3,4)] ready(3) by blast
    then have "f = of_nat (n + 1)" using inv(2) v ready(4) by (auto simp: inv_flag_def valid_def i)
    then show ?thesis using ready by simp
  qed (use old in auto)
  then show ?thesis unfolding inv_register_def
    using inv(1) step_other [OF st] i unfolding inv_register_def by (metis prod.inject)
qed

lemma flag_step:
  assumes l: "legal geo sched" and v: "valid geo i" and st: "thread_step geo sched s i = Some s'"
    and inv: "inv_register geo sched s" "inv_flag geo s"
  shows "inv_flag geo s'"
proof -
  obtain g b t where i: "i = (g, b, t)" by (cases i) auto
  have old: "in_sync geo sched t (thr s (g, b, t))" using inv(1) v by (simp add: inv_register_def i)
  have bd: "b < max_blocks" "g < 8" using v legalD(2,4) [OF l] by (auto simp: valid_def i)
  from st [unfolded i] show ?thesis
  proof (cases rule: thread_step_cases)
    case (signal n f)
    have "flag_addr b' \<noteq> slot_addr (kind (sched ! n)) b g" for b' using slot_not_flag [OF bd] by metis
    moreover have "fst (thr s' (h, c, 0)) = fst (thr s (h, c, 0))" for h c using signal by auto
    ultimately show ?thesis using inv(2) signal(3) unfolding inv_flag_def by simp
  next
    case (publish n f)
    then have "t = 0" "f = of_nat (n + 1)" using old by auto
    then show ?thesis using inv(2) publish unfolding inv_flag_def by simp
  qed (use inv(2) old in \<open>auto simp: inv_flag_def\<close>)
qed

lemma barrier_step:
  assumes v: "valid geo i" and st: "thread_step geo sched s i = Some s'" and inv: "inv_barrier geo s"
  shows "inv_barrier geo s'"
  unfolding inv_barrier_def
proof (intro allI impI)
  fix g b t n
  assume j: "valid geo (g, b, t)" and p: "6 * n + 5 \<le> pos (thr s' (g, b, t))"
  have "block_reached geo s g b (6 * n + 4)"
  proof (cases "6 * n + 5 \<le> pos (thr s (g, b, t))")
    case True
    then show ?thesis using inv j unfolding inv_barrier_def by blast
  next
    case False
    then have i: "i = (g, b, t)" using p step_other [OF st, of "(g, b, t)"] by fastforce
    from st [unfolded i] show ?thesis
    proof (cases rule: thread_step_cases)
      case (arrived m f)
      then have "m = n" using p False by (auto simp: pos_cases simp del: pos_simps split: if_splits)
      then show ?thesis using arrived by simp
    qed (use p False in \<open>auto simp: pos_cases simp del: pos_simps split: if_splits\<close>)
  qed
  then show "block_reached geo s' g b (6 * n + 4)" by (rule reached_mono [OF st])
qed

lemma launch_step:
  assumes v: "valid geo i" and st: "thread_step geo sched s i = Some s'" and inv: "inv_launch geo sched s"
  shows "inv_launch geo sched s'"
  unfolding inv_launch_def
proof (intro allI impI)
  fix g b t n
  assume j: "valid geo (g, b, t)" and p: "6 * n + 1 \<le> pos (thr s' (g, b, t))" and n: "n < length sched" "launch (sched ! n)"
  have "gpu_reached geo s g (6 * n)"
  proof (cases "6 * n + 1 \<le> pos (thr s (g, b, t))")
    case True
    then show ?thesis using inv j n unfolding inv_launch_def by blast
  next
    case False
    then have i: "i = (g, b, t)" using p step_other [OF st, of "(g, b, t)"] by fastforce
    from st [unfolded i] show ?thesis
    proof (cases rule: thread_step_cases)
      case (work m)
      then have "m = n" using p False by (auto simp: pos_cases simp del: pos_simps)
      then show ?thesis using work n by simp
    qed (use p False in \<open>auto simp: pos_cases simp del: pos_simps split: if_splits\<close>)
  qed
  then show "gpu_reached geo s' g (6 * n)" by (rule reached_mono [OF st])
qed

lemma fence_step:
  assumes v: "valid geo i" and st: "thread_step geo sched s i = Some s'" and inv: "inv_fence geo sched s"
  shows "inv_fence geo sched s'"
  unfolding inv_fence_def
proof (intro allI impI)
  fix g b t n
  assume j: "valid geo (g, b, t)" and p: "6 * n + 2 \<le> pos (thr s' (g, b, t))" and n: "n < length sched" "fenced (sched ! n)"
  have "block_reached geo s g b (6 * n + 1)"
  proof (cases "6 * n + 2 \<le> pos (thr s (g, b, t))")
    case True
    then show ?thesis using inv j n unfolding inv_fence_def by blast
  next
    case False
    then have i: "i = (g, b, t)" using p step_other [OF st, of "(g, b, t)"] by fastforce
    from st [unfolded i] show ?thesis
    proof (cases rule: thread_step_cases)
      case (ready m f)
      then have "m = n" using p False by (auto simp: pos_cases simp del: pos_simps split: if_splits)
      then show ?thesis using ready n by simp
    qed (use p False in \<open>auto simp: pos_cases simp del: pos_simps split: if_splits\<close>)
  qed
  then show "block_reached geo s' g b (6 * n + 1)" by (rule reached_mono [OF st])
qed


text \<open>The number of a synchronization fits in the flag word.\<close>

lemma number_bound: "legal geo sched \<Longrightarrow> n < length sched \<Longrightarrow> unat (of_nat (n + 1) :: 32 word) = n + 1"
  unfolding unat_of_nat by (rule mod_less) (simp add: legal_def)

lemma slots_step:
  assumes l: "legal geo sched" and v: "valid geo i" and st: "thread_step geo sched s i = Some s'"
    and inv: "inv_register geo sched s" "inv_slots geo sched s"
  shows "inv_slots geo sched s'"
proof -
  obtain a c t where i: "i = (a, c, t)" by (cases i) auto
  have old: "in_sync geo sched t (thr s (a, c, t))" using inv(1) v by (simp add: inv_register_def i)
  have bd: "c < max_blocks" "a < 8" using v legalD(2,4) [OF l] by (auto simp: valid_def i)
  show ?thesis unfolding inv_slots_def
  proof (intro allI impI)
    fix g h b k n
    assume g: "g < gpus geo" and h: "h < gpus geo" and b: "b < grid geo" and n: "n < length sched"
    note IH = inv(2) [unfolded inv_slots_def, rule_format, OF g h b n, of k]
    have bd': "b < max_blocks" "g < 8" using g b legalD(2,4) [OF l] by auto
    let ?v = "\<lambda>s. signals s h (slot_addr k b g)" and ?p = "\<lambda>s. pos (thr s (g, b, h))"
    show "(kind (sched ! n) = k \<and> 6 * n + 3 \<le> ?p s' \<longrightarrow> n + 1 \<le> unat (?v s')) \<and> (n + 1 \<le> unat (?v s') \<longrightarrow> 6 * n + 3 \<le> ?p s')"
    proof (cases "\<exists>m f. thr s i = (m, Signal f)")
      case True
      then obtain m f where sig: "thr s i = (m, Signal f)" by blast
      have m: "m < length sched" and f: "f = of_nat (m + 1)" and t: "t < gpus geo" using old sig by (auto simp: i)
      have s': "s' = move i (m, Wait f) (poke_signal t (slot_addr (kind (sched ! m)) c a) f s)"
        using st sig m by (simp add: i Let_def)
      have fm: "unat f = m + 1" unfolding f by (rule number_bound [OF l m])
      show ?thesis
      proof (cases "(g, b, h) = i")
        case True
        then have gbh: "g = a" "b = c" "h = t" by (auto simp: i)
        have p: "?p s' = 6 * m + 3" "?p s = 6 * m + 2" using s' sig True by (auto simp: i)
        show ?thesis
        proof (cases "kind (sched ! m) = k")
          case True
          then have "?v s' = f" using s' gbh by simp
          then show ?thesis using fm p by auto
        next
          case False
          then have "slot_addr k b g \<noteq> slot_addr (kind (sched ! m)) c a"
            using slot_inj [OF bd'(1) bd(1) bd'(2) bd(2)] by metis
          then have "?v s' = ?v s" using s' by simp
          moreover have "6 * n + 3 \<le> ?p s' \<Longrightarrow> n = m \<or> 6 * n + 3 \<le> ?p s" using p by presburger
          ultimately show ?thesis using IH False p by auto
        qed
      next
        case False
        then have p: "?p s' = ?p s" using s' by simp
        have "h = t \<Longrightarrow> slot_addr k b g \<noteq> slot_addr (kind (sched ! m)) c a"
          using slot_inj [OF bd'(1) bd(1) bd'(2) bd(2)] False by (auto simp: i)
        then have "?v s' = ?v s" using s' by auto
        then show ?thesis using IH p by simp
      qed
    next
      case False
      have "?v s' = ?v s \<and> (6 * n + 3 \<le> ?p s' \<longleftrightarrow> 6 * n + 3 \<le> ?p s)"
        using st [unfolded i]
      proof (cases rule: thread_step_cases)
        case (publish m f)
        then show ?thesis using slot_not_flag [OF bd', of k] by (auto simp: pos_cases simp del: pos_simps)
      next
        case (ready m f)
        then show ?thesis using h by (auto simp: pos_cases simp del: pos_simps split: if_splits)
      qed (use False i in \<open>auto simp: pos_cases simp del: pos_simps\<close>)
      then show ?thesis using IH by simp
    qed
  qed
qed

lemma seen_step:
  assumes l: "legal geo sched" and v: "valid geo i" and st: "thread_step geo sched s i = Some s'"
    and inv: "inv_register geo sched s" "inv_slots geo sched s" "inv_seen geo s"
  shows "inv_seen geo s'"
  unfolding inv_seen_def
proof (intro allI impI)
  fix g h b n
  assume g: "g < gpus geo" and h: "h < gpus geo" and b: "b < grid geo" and p: "6 * n + 4 \<le> pos (thr s' (h, b, g))"
  have "6 * n + 3 \<le> pos (thr s (g, b, h))"
  proof (cases "6 * n + 4 \<le> pos (thr s (h, b, g))")
    case True
    then show ?thesis using inv(3) g h b unfolding inv_seen_def by blast
  next
    case False
    then have i: "i = (h, b, g)" using p step_other [OF st, of "(h, b, g)"] by fastforce
    have old: "in_sync geo sched g (thr s (h, b, g))" using inv(1) v by (simp add: inv_register_def i)
    from st [unfolded i] show ?thesis
    proof (cases rule: thread_step_cases)
      case (wait m f)
      then have n: "m = n" using p False by (auto simp: pos_cases simp del: pos_simps)
      have "n < length sched" "f = of_nat (n + 1)" using old wait n by auto
      then have "n + 1 \<le> unat (signals s h (slot_addr (kind (sched ! n)) b g))"
        using wait(3) number_bound [OF l, of n] n by (simp add: word_le_nat_alt)
      then show ?thesis using inv(2) g h b \<open>n < length sched\<close> unfolding inv_slots_def by blast
    next
      case (ready m f)
      then show ?thesis using p False g by (auto simp: pos_cases simp del: pos_simps)
    qed (use p False in \<open>auto simp: pos_cases simp del: pos_simps split: if_splits\<close>)
  qed
  then show "6 * n + 3 \<le> pos (thr s' (g, b, h))" using step_mono [OF st] le_trans by blast
qed

definition handshake :: "geometry \<Rightarrow> sync list \<Rightarrow> state \<Rightarrow> bool" where
  "handshake geo sched s \<longleftrightarrow> inv_register geo sched s \<and> inv_flag geo s \<and> inv_barrier geo s \<and> inv_launch geo sched s \<and>
     inv_fence geo sched s \<and> inv_slots geo sched s \<and> inv_seen geo s"

lemma handshake_initial: "handshake geo sched initial"
  by (simp add: handshake_def initial_def inv_register_def inv_flag_def inv_barrier_def inv_launch_def inv_fence_def
      inv_slots_def inv_seen_def)

lemma handshake_reachable:
  assumes l: "legal geo sched"
  shows "reachable geo sched s \<Longrightarrow> handshake geo sched s"
proof (induction rule: reachable.induct)
  case (step s i s')
  then have "handshake geo sched s" by blast
  then have H: "inv_register geo sched s" "inv_flag geo s" "inv_barrier geo s" "inv_launch geo sched s"
      "inv_fence geo sched s" "inv_slots geo sched s" "inv_seen geo s"
    by (simp_all add: handshake_def)
  note st = step(2,3)
  show ?case unfolding handshake_def
    using register_step [OF l st H(1-4)] flag_step [OF l st H(1,2)] barrier_step [OF st H(3)] launch_step [OF st H(4)]
      fence_step [OF st H(5)] slots_step [OF l st H(1,6)] seen_step [OF l st H(1,6,7)]
    by simp
qed (rule handshake_initial)

section \<open>The synchronization separates\<close>

definition completed :: "nat \<Rightarrow> nat \<times> pc \<Rightarrow> bool" where
  "completed n x \<longleftrightarrow> n < fst x"

definition work_done :: "nat \<Rightarrow> nat \<times> pc \<Rightarrow> bool" where
  "work_done n x \<longleftrightarrow> n < fst x \<or> n = fst x \<and> snd x \<noteq> Work"

lemma work_done_pos: "work_done n x \<longleftrightarrow> 6 * n + 1 \<le> pos x"
  using pos_case [of 1 n x] by (cases "snd x") (auto simp: work_done_def)

text \<open>Who has completed a synchronization has the signal of every peer.\<close>

lemma completed_signalled:
  assumes l: "legal geo sched" and r: "reachable geo sched s" and v: "valid geo (g, b, t)" "h < gpus geo"
    and c: "completed n (thr s (g, b, t))"
  shows "6 * n + 3 \<le> pos (thr s (h, b, g))"
proof -
  have H: "inv_barrier geo s" "inv_seen geo s" using handshake_reachable [OF l r] by (simp_all add: handshake_def)
  have "6 * n + 5 \<le> pos (thr s (g, b, t))" using c by (simp add: completed_def pos_case)
  then have "block_reached geo s g b (6 * n + 4)" using H(1) v unfolding inv_barrier_def by blast
  then have "6 * n + 4 \<le> pos (thr s (g, b, h))" using v legalD(3) [OF l] by (simp add: block_reached_iff)
  then show ?thesis using H(2) v unfolding inv_seen_def by (auto simp: valid_def)
qed


text \<open>A run: the threads that step, in order.\<close>

fun run :: "geometry \<Rightarrow> sync list \<Rightarrow> tid list \<Rightarrow> state \<Rightarrow> state option" where
  "run geo sched [] s = Some s"
| "run geo sched (i # is) s =
     (if valid geo i then (case thread_step geo sched s i of None \<Rightarrow> None | Some s' \<Rightarrow> run geo sched is s') else None)"

lemma run_reachable: "run geo sched is s = Some s' \<Longrightarrow> reachable geo sched s \<Longrightarrow> reachable geo sched s'"
  by (induction "is" arbitrary: s) (auto split: if_splits option.splits intro: reachable.step)

definition two_gpus :: geometry where "two_gpus = \<lparr>gpus = 2, grid = 1, lanes = 2\<rparr>"

text \<open>One round: every thread takes a step; after five rounds the lanes 0 publish.\<close>

definition round_robin :: "tid list" where
  "round_robin = [(0,0,0), (0,0,1), (1,0,0), (1,0,1)]"

definition sync_run :: "tid list" where
  "sync_run = round_robin @ round_robin @ round_robin @ round_robin @ round_robin @ [(0,0,0), (1,0,0)]"

lemmas run_defs = two_gpus_def initial_def valid_def block_reached_def gpu_reached_def completed_def layout_defs
  round_robin_def sync_run_def Let_def

lemma upto_two: "[0..<2] = [0, 1 :: nat]" "[0..<Suc 0] = [0]"
  by (simp_all add: upt_rec)

lemma two_stage_run:
  "\<exists>s. run two_gpus two_stage (sync_run @ sync_run) initial = Some s \<and> completed 1 (thr s (0,0,0))"
  by (simp add: run_defs two_stage_def upto_two del: upt_Suc)



section \<open>The write mode\<close>


section \<open>The synchronization ends\<close>

definition final :: "geometry \<Rightarrow> sync list \<Rightarrow> state \<Rightarrow> bool" where
  "final geo sched s \<longleftrightarrow> (\<forall>i. valid geo i \<longrightarrow> fst (thr s i) = length sched)"

text \<open>The stages all threads still have before them.\<close>

definition remaining :: "geometry \<Rightarrow> sync list \<Rightarrow> state \<Rightarrow> nat" where
  "remaining geo sched s = (\<Sum>i \<in> {..<gpus geo} \<times> {..<grid geo} \<times> {..<lanes geo}. 6 * length sched - pos (thr s i))"

lemma remaining_step:
  assumes v: "valid geo i" and st: "thread_step geo sched s i = Some s'" and ne: "s' \<noteq> s"
  shows "remaining geo sched s' < remaining geo sched s"
proof -
  let ?V = "{..<gpus geo} \<times> {..<grid geo} \<times> {..<lanes geo}"
  have i: "i \<in> ?V" using v by (auto simp: valid_def split: prod.splits)
  from step_moves [OF st] ne have p: "pos (thr s i) < pos (thr s' i)" "pos (thr s' i) \<le> 6 * length sched" by auto
  show ?thesis unfolding remaining_def
  proof (rule sum_strict_mono_ex1)
    show "\<forall>j \<in> ?V. 6 * length sched - pos (thr s' j) \<le> 6 * length sched - pos (thr s j)"
      using step_mono [OF st] by (simp add: diff_le_mono2)
    show "\<exists>j \<in> ?V. 6 * length sched - pos (thr s' j) < 6 * length sched - pos (thr s j)"
      using i p by (intro bexI [of _ i]) auto
  qed simp
qed

text \<open>The thread that is furthest behind can always go on.\<close>

lemma last_can_step:
  assumes l: "legal geo sched" and r: "reachable geo sched s" and nf: "\<not> final geo sched s"
  shows "\<exists>i s'. valid geo i \<and> thread_step geo sched s i = Some s' \<and> s' \<noteq> s"
proof -
  have H: "inv_register geo sched s" "inv_slots geo sched s"
    using handshake_reachable [OF l r] by (simp_all add: handshake_def)
  obtain k where k: "valid geo k" "fst (thr s k) \<noteq> length sched" using nf by (auto simp: final_def)
  obtain i where i: "valid geo i" and least: "\<And>j. valid geo j \<Longrightarrow> pos (thr s i) \<le> pos (thr s j)"
    using ex_has_least_nat [of "valid geo" k "\<lambda>j. pos (thr s j)"] k(1) by auto
  obtain g b t where gbt: "i = (g, b, t)" by (cases i) auto
  have v: "g < gpus geo" "b < grid geo" "t < lanes geo" using i by (auto simp: valid_def gbt)
  obtain n p where np: "thr s (g, b, t) = (n, p)" by (cases "thr s (g, b, t)")
  have old: "in_sync geo sched t (n, p)" using H(1) i np unfolding inv_register_def gbt by metis
  have n: "n < length sched"
  proof (rule ccontr)
    assume "\<not> n < length sched"
    then have "n = length sched" "p = Work" using old by (auto simp: in_sync_def)
    then have "6 * length sched \<le> pos (thr s k)" using least [OF k(1)] np by (simp add: gbt)
    moreover have "fst (thr s k) \<le> length sched"
    proof -
      obtain c d e where kk: "k = (c, d, e)" by (cases k) auto
      have "in_sync geo sched e (thr s k)" using H(1) k(1) unfolding inv_register_def kk by blast
      then show ?thesis by (cases "thr s k") (simp add: in_sync_def)
    qed
    ultimately show False using k(2) pos_case [of 0 "length sched" "thr s k"] by simp
  qed
  have block: "block_reached geo s g b (pos (n, p))" if "pos (n, p) = 6 * n + stage p"
    using least v np by (auto simp: block_reached_iff valid_def gbt)
  have gpu: "gpu_reached geo s g (pos (n, p))" using least v np by (auto simp: gpu_reached_iff valid_def gbt)
  have "\<exists>s'. thread_step geo sched s (g, b, t) = Some s' \<and> pos (thr s' (g, b, t)) \<noteq> pos (n, p)"
  proof (cases p)
    case Work
    then show ?thesis using np n gpu by (simp add: Let_def)
  next
    case Ready
    then have "block_reached geo s g b (6 * n + 1)" using block by simp
    then show ?thesis using np n Ready by (simp add: Let_def)
  next
    case (Signal f)
    then show ?thesis using np n by (simp add: Let_def)
  next
    case (Wait f)
    then have t: "t < gpus geo" and f: "f = of_nat (n + 1)" using old by auto
    have "6 * n + 3 \<le> pos (thr s (t, b, g))"
      using least [of "(t, b, g)"] t v np Wait legalD(3) [OF l] by (simp add: valid_def gbt)
    then have "n + 1 \<le> unat (signals s g (slot_addr (kind (sched ! n)) b t))"
      using H(2) t v n unfolding inv_slots_def by blast
    then have "\<not> signals s g (slot_addr (kind (sched ! n)) b t) < f"
      using number_bound [OF l n] by (simp add: f word_less_nat_alt)
    then show ?thesis using np n Wait by (simp add: Let_def)
  next
    case (Arrived f)
    then have "block_reached geo s g b (6 * n + 4)" using block by simp
    then show ?thesis using np n Arrived by (simp add: Let_def)
  next
    case (Publish f)
    then show ?thesis using np n by (simp add: Let_def)
  qed
  then obtain s' where s': "thread_step geo sched s i = Some s'" "pos (thr s' i) \<noteq> pos (thr s i)"
    using np unfolding gbt by metis
  then have "s' \<noteq> s" by blast
  then show ?thesis using i s'(1) by blast
qed

lemma run_to_final:
  assumes l: "legal geo sched"
  shows "reachable geo sched s \<Longrightarrow> \<exists>is s'. length is \<le> remaining geo sched s \<and> run geo sched is s = Some s' \<and> final geo sched s'"
proof (induction "remaining geo sched s" arbitrary: s rule: less_induct)
  case less
  show ?case
  proof (cases "final geo sched s")
    case True
    then show ?thesis by (intro exI [of _ "[]"]) simp
  next
    case False
    from last_can_step [OF l less.prems False] obtain i s1
      where i: "valid geo i" "thread_step geo sched s i = Some s1" "s1 \<noteq> s" by blast
    have d: "remaining geo sched s1 < remaining geo sched s" by (rule remaining_step [OF i])
    from less.hyps [OF d reachable.step [OF less.prems i(1,2)]] obtain "is" s'
      where "length is \<le> remaining geo sched s1" "run geo sched is s1 = Some s'" "final geo sched s'" by blast
    then show ?thesis using i d by (intro exI [of _ "i # is"] exI [of _ s']) simp
  qed
qed

text \<open>
  C13: the handshake cannot deadlock, and only failing polls can delay it. From every state that any
  interleaving reaches, all threads can still complete all synchronizations; while they have not, some thread has a step that
  brings it forward; and every step that is not a failed poll leaves strictly fewer stages, so there are
  at most as many such steps as stages.
\<close>

theorem barrier_live:
  assumes "legal geo sched" and "reachable geo sched s"
  shows "(\<exists>is s'. length is \<le> remaining geo sched s \<and> run geo sched is s = Some s' \<and> final geo sched s') \<and>
    (final geo sched s \<or> (\<exists>i s'. valid geo i \<and> thread_step geo sched s i = Some s' \<and> s' \<noteq> s)) \<and>
    (\<forall>i s'. valid geo i \<and> thread_step geo sched s i = Some s' \<longrightarrow> s' = s \<or> remaining geo sched s' < remaining geo sched s)"
  using run_to_final [OF assms] last_can_step [OF assms] remaining_step by blast

theorem barrier_live_witness:
  "\<exists>is s. run two_gpus (two_stage @ one_stage) is initial = Some s \<and> (\<forall>i. valid two_gpus i \<longrightarrow> fst (thr s i) = 3)"
proof -
  have l: "legal two_gpus (two_stage @ one_stage)"
    by (simp add: legal_def two_gpus_def two_stage_def one_stage_def max_blocks_def)
  have "length (two_stage @ one_stage) = 3" by (simp add: two_stage_def one_stage_def)
  then show ?thesis using barrier_live [OF l reachable.start] unfolding final_def by metis
qed
end
