(* ===== verification/All_Reduce.thy ===== *)
theory All_Reduce
  imports Prelude
begin

text \<open>
  The data of the all-reduce (\<open>kernels/comm/custom_all_reduce_kernel.py\<close> and its host side
  \<open>custom_all_reduce.py\<close>): the choice of the kernel and the grid, the loops over the packs of 16 bytes, the
  reduction through the shared memory of a block, and the gathering of the reduced parts. What the
  parts may assume of each other's progress is \<open>Signal_Barrier\<close>: every part of a kernel is a
  function of the memory its predecessors left. Arithmetic on packs is a parameter.
\<close>

section \<open>Plan\<close>

definition lower_char :: "char \<Rightarrow> char" where
  "lower_char c = (let n = of_char c :: nat in if 65 \<le> n \<and> n \<le> 90 then char_of (n + 32) else c)"

definition is_space :: "char \<Rightarrow> bool" where
  "is_space c = ((of_char c :: nat) = 32 \<or> 9 \<le> (of_char c :: nat) \<and> (of_char c :: nat) \<le> 13)"

definition strip_lower :: "string \<Rightarrow> string" where
  "strip_lower s = map lower_char (rev (dropWhile is_space (rev (dropWhile is_space s))))"

definition elem_bytes :: "string \<Rightarrow> nat res" where
  "elem_bytes dtype_str =
     (let d = strip_lower dtype_str in
      if d \<in> {''f32'', ''fp32''} then Inr 4
      else if d \<in> {''f16'', ''fp16'', ''bf16''} then Inr 2
      else Inl ValueError)"

definition pack_elems_of :: "string \<Rightarrow> nat res" where
  "pack_elems_of dtype_str = rbind (elem_bytes dtype_str) (\<lambda>b. Inr (16 div b))"

record plan =
  world :: nat
  block_threads :: nat
  num_packs :: nat
  part_p :: nat
  largest_part_p :: nat
  tnum_gpu :: nat
  vec_ok :: bool
  single_buf :: bool

text \<open>\<open>make_allreduce_kernels\<close>: the constants of the kernels, and the checks of the arguments.\<close>

definition allreduce_constants :: "nat \<Rightarrow> nat \<Rightarrow> nat \<Rightarrow> plan" where
  "allreduce_constants world_size threads packs =
     (let part = packs div world_size; tnum = threads div world_size;
          est_iters = max 1 ((max 1 part + 80 * tnum - 1) div (80 * tnum))
      in \<lparr>world = world_size, block_threads = threads, num_packs = packs, part_p = part,
           largest_part_p = part + packs mod world_size, tnum_gpu = tnum,
           vec_ok = (packs mod world_size = 0 \<and> world_size \<noteq> 6), single_buf = (est_iters \<ge> 3)\<rparr>)"

definition make_allreduce_plan :: "int \<Rightarrow> string \<Rightarrow> int \<Rightarrow> int \<Rightarrow> plan res" where
  "make_allreduce_plan n dtype_str world_size threads =
     rbind (guard ValueError (world_size \<in> {2, 4, 8})) (\<lambda>_.
     rbind (guard ValueError (\<not> (threads \<le> 0 \<or> threads mod world_size \<noteq> 0))) (\<lambda>_.
     let tnum_gpu_check = nat (threads div world_size) in
     rbind (guard ValueError (\<not> and tnum_gpu_check (tnum_gpu_check - 1) \<noteq> 0)) (\<lambda>_.
     rbind (pack_elems_of dtype_str) (\<lambda>pack_elems.
     rbind (guard ValueError (\<not> (n \<le> 0 \<or> n mod int pack_elems \<noteq> 0))) (\<lambda>_.
       Inr (allreduce_constants (nat world_size) (nat threads) (nat n div pack_elems)))))))"

text \<open>\<open>should_custom_ar\<close>\<close>

definition should_custom_ar :: "nat \<Rightarrow> nat \<Rightarrow> string \<Rightarrow> nat \<Rightarrow> bool \<Rightarrow> bool \<Rightarrow> bool" where
  "should_custom_ar world_size inp_size dtype max_size open_fp8_quant full_nvlink =
     (if world_size \<notin> {2, 4, 8} then False
      else if inp_size mod 16 \<noteq> 0 then False
      else if dtype \<notin> {''f32'', ''f16'', ''bf16''} then False
      else if inp_size > max_size div 2 then False
      else if open_fp8_quant then False
      else if world_size > 2 \<and> \<not> full_nvlink then False
      else True)"

datatype stage_choice = Stage1 | Stage2

text \<open>\<open>_run_kernel\<close>: the stage by the size of the data, and the grid.\<close>

definition select_stage :: "nat \<Rightarrow> nat \<Rightarrow> stage_choice" where
  "select_stage world_size bytes_n =
     (if world_size = 2 then Stage1
      else if (world_size \<le> 4 \<and> bytes_n < 160 * 1024) \<or> bytes_n < 80 * 1024 then Stage1
      else Stage2)"

definition grid_blocks :: "plan \<Rightarrow> stage_choice \<Rightarrow> nat" where
  "grid_blocks pl stage =
     (case stage of
        Stage1 \<Rightarrow> max 1 (min 80 ((num_packs pl + tnum_gpu pl - 1) div tnum_gpu pl))
      | Stage2 \<Rightarrow> max 1 (min 80 ((max 1 (part_p pl) + tnum_gpu pl - 1) div tnum_gpu pl)))"

definition use_write_mode :: "nat \<Rightarrow> nat \<Rightarrow> bool \<Rightarrow> bool" where
  "use_write_mode bytes_n world_size gfx942 = (bytes_n > 512 * 4096 * 2 \<and> world_size = 8 \<and> gfx942)"

section \<open>Reduction\<close>

text \<open>\<open>range(start, stop, stride)\<close>\<close>

definition strided :: "nat \<Rightarrow> nat \<Rightarrow> nat \<Rightarrow> nat list" where
  "strided a e s = map (\<lambda>j. a + j * s) [0..<(e - a + s - 1) div s]"

text \<open>Arithmetic on a pack: widened, added in order, and narrowed again.\<close>

record ('p, 'a) pack_ops =
  widen :: "'p \<Rightarrow> 'a"
  accumulate :: "'a \<Rightarrow> 'a \<Rightarrow> 'a"
  narrow :: "'a \<Rightarrow> 'p"

definition reduce_values :: "('p, 'a) pack_ops \<Rightarrow> 'p list \<Rightarrow> 'p" where
  "reduce_values ops vals =
     narrow ops (foldl (accumulate ops) (widen ops (hd vals)) (map (widen ops) (tl vals)))"

type_synonym 'p buffer = "nat \<Rightarrow> 'p"

text \<open>
  One iteration of the lanes with one \<open>lane_id\<close>: the warp of every rank writes its pack to shared memory, and
  after the barrier the first warp adds them.
\<close>

definition stage_packs :: "plan \<Rightarrow> nat \<Rightarrow> nat \<Rightarrow> (nat \<Rightarrow> 'p) \<Rightarrow> 'p buffer \<Rightarrow> 'p buffer" where
  "stage_packs pl smem_base lane_id vals smem =
     fold (\<lambda>w smem. smem(smem_base + (w * tnum_gpu pl + lane_id) := vals w)) [0..<world pl] smem"

definition reduce_packs :: "('p, 'a) pack_ops \<Rightarrow> plan \<Rightarrow> nat \<Rightarrow> nat \<Rightarrow> 'p buffer \<Rightarrow> 'p" where
  "reduce_packs ops pl smem_base lane_id smem =
     reduce_values ops (map (\<lambda>wi. smem (wi * tnum_gpu pl + lane_id + smem_base)) [0..<world pl])"

text \<open>The loop over the packs, with two halves of the shared memory in turn, or one.\<close>

fun reduce_loop :: "('p, 'a) pack_ops \<Rightarrow> plan \<Rightarrow> bool \<Rightarrow> (nat \<Rightarrow> 'p buffer) \<Rightarrow> (nat \<Rightarrow> nat) \<Rightarrow> nat \<Rightarrow> nat list \<Rightarrow> nat
    \<Rightarrow> 'p buffer \<times> 'p buffer \<Rightarrow> 'p buffer \<times> 'p buffer" where
  "reduce_loop ops pl single in_ptrs dst lane_id [] parity state = state"
| "reduce_loop ops pl single in_ptrs dst lane_id (cur # packs) parity (smem, out) =
     (let smem_base = (if single then 0 else parity * block_threads pl);
          smem = stage_packs pl smem_base lane_id (\<lambda>w. in_ptrs w cur) smem;
          out = out(dst cur := reduce_packs ops pl smem_base lane_id smem)
      in reduce_loop ops pl single in_ptrs dst lane_id packs (1 - parity) (smem, out))"

text \<open>All blocks and lanes over the packs \<open>first \<le> p < last\<close>.\<close>

definition reduce_range :: "('p, 'a) pack_ops \<Rightarrow> plan \<Rightarrow> bool \<Rightarrow> nat \<Rightarrow> (nat \<Rightarrow> 'p buffer) \<Rightarrow> (nat \<Rightarrow> nat) \<Rightarrow> nat \<Rightarrow> nat
    \<Rightarrow> 'p buffer \<Rightarrow> 'p buffer \<Rightarrow> 'p buffer" where
  "reduce_range ops pl single grid in_ptrs dst start_pack end_pack smem out =
     fold (\<lambda>bid out.
       snd (fold (\<lambda>lane_id.
           reduce_loop ops pl single in_ptrs dst lane_id
             (strided (start_pack + (bid * tnum_gpu pl + lane_id)) end_pack (grid * tnum_gpu pl)) 0)
         [0..<tnum_gpu pl] (smem, out)))
       [0..<grid] out"

text \<open>The pointer arrays of a rank begin with its own buffer.\<close>

definition rotated :: "plan \<Rightarrow> nat \<Rightarrow> (nat \<Rightarrow> 'b) \<Rightarrow> nat \<Rightarrow> 'b" where
  "rotated pl rank ptrs i = ptrs ((rank + i) mod world pl)"

definition allreduce_1stage :: "('p, 'a) pack_ops \<Rightarrow> plan \<Rightarrow> nat \<Rightarrow> (nat \<Rightarrow> 'p buffer) \<Rightarrow> 'p buffer \<Rightarrow> nat \<Rightarrow> 'p buffer \<Rightarrow> 'p buffer" where
  "allreduce_1stage ops pl grid ins smem rank out =
     reduce_range ops pl False grid (rotated pl rank ins) (\<lambda>p. p) 0 (num_packs pl) smem out"

text \<open>The first stage of the two: a rank reduces its part into its temporary buffer.\<close>

definition reduce_scatter :: "('p, 'a) pack_ops \<Rightarrow> plan \<Rightarrow> nat \<Rightarrow> (nat \<Rightarrow> 'p buffer) \<Rightarrow> 'p buffer \<Rightarrow> nat \<Rightarrow> 'p buffer \<Rightarrow> 'p buffer" where
  "reduce_scatter ops pl grid ins smem rank tmp =
     (let start_pack = rank * part_p pl;
          end_pack = (if rank = world pl - 1 then num_packs pl else start_pack + part_p pl)
      in reduce_range ops pl (single_buf pl) grid (rotated pl rank ins) (\<lambda>cur. cur - start_pack) start_pack end_pack smem tmp)"

text \<open>The second: a rank copies all parts to its output.\<close>

definition gather_vec :: "plan \<Rightarrow> nat \<Rightarrow> (nat \<Rightarrow> 'p buffer) \<Rightarrow> nat \<Rightarrow> 'p buffer \<Rightarrow> 'p buffer" where
  "gather_vec pl grid tmp_ptrs rank out =
     fold (\<lambda>(bid, lane).
       let warp_id = lane div tnum_gpu pl; lane_id = lane mod tnum_gpu pl;
           dst_rank = and (rank + warp_id) (world pl - 1)
       in fold (\<lambda>cur out. out(dst_rank * part_p pl + cur := tmp_ptrs warp_id cur))
            (strided (bid * tnum_gpu pl + lane_id) (part_p pl) (grid * tnum_gpu pl)))
       (List.product [0..<grid] [0..<block_threads pl]) out"

definition gather_scalar :: "plan \<Rightarrow> nat \<Rightarrow> (nat \<Rightarrow> 'p buffer) \<Rightarrow> 'p buffer \<Rightarrow> 'p buffer" where
  "gather_scalar pl grid tmp_ptrs out =
     fold (\<lambda>(bid, lane).
       fold (\<lambda>cur.
         fold (\<lambda>p out.
           if p = world pl - 1 \<or> cur < part_p pl then out(p * part_p pl + cur := tmp_ptrs p cur) else out)
           [0..<world pl])
         (strided (bid * block_threads pl + lane) (largest_part_p pl) (grid * block_threads pl)))
       (List.product [0..<grid] [0..<block_threads pl]) out"

definition allreduce_2stage :: "('p, 'a) pack_ops \<Rightarrow> plan \<Rightarrow> nat \<Rightarrow> (nat \<Rightarrow> 'p buffer) \<Rightarrow> 'p buffer \<Rightarrow> (nat \<Rightarrow> 'p buffer) \<Rightarrow> nat
    \<Rightarrow> 'p buffer \<Rightarrow> 'p buffer" where
  "allreduce_2stage ops pl grid ins smem tmps rank out =
     (let tmps = (\<lambda>r. reduce_scatter ops pl grid ins smem r (tmps r));
          tmp_ptrs = rotated pl rank tmps
      in if vec_ok pl then gather_vec pl grid tmp_ptrs rank out else gather_scalar pl grid tmp_ptrs out)"

text \<open>
  The write mode: every rank writes its input into the temporary buffers of the ranks that own the parts, and after
  the synchronization the owner adds what its buffer holds and writes the result to the outputs of all. Buffers are
  addressed by rank and pack; a null or misaligned pointer is not accessed.
\<close>

definition bad_addr :: "nat \<Rightarrow> bool" where
  "bad_addr ptr = (ptr = 0 \<or> and ptr 15 \<noteq> 0)"

definition scatter_inputs :: "plan \<Rightarrow> nat \<Rightarrow> (nat \<Rightarrow> nat) \<Rightarrow> nat \<Rightarrow> 'p buffer \<Rightarrow> (nat \<times> nat \<Rightarrow> 'p) \<Rightarrow> (nat \<times> nat \<Rightarrow> 'p)" where
  "scatter_inputs pl grid tmp_addr rank inp =
     fold (\<lambda>(bid, lane).
       let warp_id = lane div tnum_gpu pl; lane_id = lane - warp_id * tnum_gpu pl;
           start_pack = warp_id * part_p pl;
           end_pack = (if warp_id = world pl - 1 then num_packs pl else start_pack + part_p pl)
       in fold (\<lambda>cur tmps.
            if \<not> bad_addr (tmp_addr warp_id) then tmps((warp_id, rank * part_p pl + (cur - start_pack)) := inp cur) else tmps)
            (strided (start_pack + (bid * tnum_gpu pl + lane_id)) end_pack (grid * tnum_gpu pl)))
       (List.product [0..<grid] [0..<block_threads pl])"

fun reduce_write_loop :: "('p, 'a) pack_ops \<Rightarrow> plan \<Rightarrow> nat \<Rightarrow> (nat \<Rightarrow> nat) \<Rightarrow> (nat \<Rightarrow> 'p) \<Rightarrow> nat \<Rightarrow> nat list
    \<Rightarrow> 'p buffer \<times> (nat \<times> nat \<Rightarrow> 'p) \<Rightarrow> 'p buffer \<times> (nat \<times> nat \<Rightarrow> 'p)" where
  "reduce_write_loop ops pl rank out_addr tmp lane_id [] state = state"
| "reduce_write_loop ops pl rank out_addr tmp lane_id (cur # packs) (smem, outs) =
     (let smem = stage_packs pl 0 lane_id (\<lambda>w. tmp (w * part_p pl + cur)) smem;
          smem = smem(block_threads pl + lane_id := reduce_packs ops pl 0 lane_id smem);
          outs = fold (\<lambda>w outs.
            if \<not> bad_addr (out_addr w) then outs((w, rank * part_p pl + cur) := smem (block_threads pl + lane_id)) else outs)
            [0..<world pl] outs
      in reduce_write_loop ops pl rank out_addr tmp lane_id packs (smem, outs))"

definition reduce_write :: "('p, 'a) pack_ops \<Rightarrow> plan \<Rightarrow> nat \<Rightarrow> (nat \<Rightarrow> nat) \<Rightarrow> (nat \<Rightarrow> nat) \<Rightarrow> 'p \<Rightarrow> 'p buffer \<Rightarrow> (nat \<times> nat \<Rightarrow> 'p) \<Rightarrow> nat
    \<Rightarrow> (nat \<times> nat \<Rightarrow> 'p) \<Rightarrow> (nat \<times> nat \<Rightarrow> 'p)" where
  "reduce_write ops pl grid tmp_addr out_addr zero smem tmps rank outs =
     (let stage2_end = (if rank = world pl - 1 then largest_part_p pl else part_p pl);
          tmp = (\<lambda>q. if bad_addr (tmp_addr rank) then zero else tmps (rank, q))
      in fold (\<lambda>bid outs.
           snd (fold (\<lambda>lane_id.
               reduce_write_loop ops pl rank out_addr tmp lane_id
                 (strided (bid * tnum_gpu pl + lane_id) stage2_end (grid * tnum_gpu pl)))
             [0..<tnum_gpu pl] (smem, outs)))
         [0..<grid] outs)"

text \<open>All ranks: the scatters, the synchronization, and the reductions.\<close>

definition allreduce_write_mode :: "('p, 'a) pack_ops \<Rightarrow> plan \<Rightarrow> nat \<Rightarrow> (nat \<Rightarrow> nat) \<Rightarrow> (nat \<Rightarrow> nat) \<Rightarrow> 'p \<Rightarrow> (nat \<Rightarrow> 'p buffer) \<Rightarrow> 'p buffer
    \<Rightarrow> (nat \<times> nat \<Rightarrow> 'p) \<Rightarrow> (nat \<times> nat \<Rightarrow> 'p) \<Rightarrow> (nat \<times> nat \<Rightarrow> 'p)" where
  "allreduce_write_mode ops pl grid tmp_addr out_addr zero ins smem tmps outs =
     (let tmps = fold (\<lambda>rank. scatter_inputs pl grid tmp_addr rank (ins rank)) [0..<world pl] tmps
      in fold (\<lambda>rank. reduce_write ops pl grid tmp_addr out_addr zero smem tmps rank) [0..<world pl] outs)"

definition run_allreduce :: "('p, 'a) pack_ops \<Rightarrow> plan \<Rightarrow> stage_choice \<Rightarrow> (nat \<Rightarrow> 'p buffer) \<Rightarrow> 'p buffer \<Rightarrow> (nat \<Rightarrow> 'p buffer) \<Rightarrow> nat
    \<Rightarrow> 'p buffer \<Rightarrow> 'p buffer" where
  "run_allreduce ops pl stage ins smem tmps rank out =
     (case stage of
        Stage1 \<Rightarrow> allreduce_1stage ops pl (grid_blocks pl stage) ins smem rank out
      | Stage2 \<Rightarrow> allreduce_2stage ops pl (grid_blocks pl stage) ins smem tmps rank out)"


section \<open>Loops that write\<close>

text \<open>A buffer that has \<open>f\<close> at the addresses \<open>S\<close> and is the old one elsewhere.\<close>

definition puts :: "('k \<Rightarrow> 'p) \<Rightarrow> 'k set \<Rightarrow> ('k \<Rightarrow> 'p) \<Rightarrow> ('k \<Rightarrow> 'p) \<Rightarrow> bool" where
  "puts f S out0 out \<longleftrightarrow> (\<forall>q. out q = (if q \<in> S then f q else out0 q))"

lemma puts_empty [simp]: "puts f {} out out"
  by (simp add: puts_def)

lemma puts_upd: "puts f S out0 out \<Longrightarrow> v = f a \<Longrightarrow> puts f (S \<union> {a}) out0 (out(a := v))"
  by (simp add: puts_def)

lemma puts_fold:
  assumes "\<And>x S out. x \<in> set xs \<Longrightarrow> puts f S out0 out \<Longrightarrow> puts f (S \<union> A x) out0 (g x out)"
  shows "puts f S out0 out \<Longrightarrow> puts f (S \<union> (\<Union>x \<in> set xs. A x)) out0 (fold g xs out)"
  using assms
proof (induction xs arbitrary: S out)
  case (Cons x xs)
  have "puts f (S \<union> A x) out0 (g x out)" using Cons.prems by simp
  from Cons.IH [OF this] Cons.prems(2) show ?case by (simp add: Un_assoc)
qed simp

lemma puts_read: "puts f S out0 out \<Longrightarrow> q \<in> S \<Longrightarrow> out q = f q"
  by (simp add: puts_def)

lemma strided_set:
  assumes "0 < s"
  shows "set (strided a e s) = {p. a \<le> p \<and> p < e \<and> (p - a) mod s = 0}"
proof -
  have lt: "j < (e - a + s - 1) div s \<longleftrightarrow> a + j * s < e" for j
  proof -
    have "j < (e - a + s - 1) div s \<longleftrightarrow> Suc j * s \<le> e - a + s - 1"
      using assms by (simp add: Suc_le_eq [symmetric] less_eq_div_iff_mult_less_eq)
    also have "\<dots> \<longleftrightarrow> a + j * s < e" using assms by auto
    finally show ?thesis .
  qed
  show ?thesis
  proof
    show "set (strided a e s) \<subseteq> {p. a \<le> p \<and> p < e \<and> (p - a) mod s = 0}" by (auto simp: strided_def lt [unfolded One_nat_def])
    show "{p. a \<le> p \<and> p < e \<and> (p - a) mod s = 0} \<subseteq> set (strided a e s)"
    proof
      fix p assume "p \<in> {p. a \<le> p \<and> p < e \<and> (p - a) mod s = 0}"
      then have p: "a \<le> p" "p < e" "(p - a) mod s = 0" by auto
      then have "p = a + (p - a) div s * s" by (simp add: mod_0_imp_dvd)
      then show "p \<in> set (strided a e s)" using lt p(2) unfolding strided_def by (metis (no_types, lifting) atLeastLessThan_iff image_eqI le0 list.set_map set_upt)
    qed
  qed
qed

text \<open>The blocks and lanes share out the packs.\<close>

lemma strided_cover:
  assumes "0 < t" and "0 < g"
  shows "(\<Union>b \<in> {..<g}. \<Union>l \<in> {..<t}. set (strided (a + (b * t + l)) e (g * t))) = {a ..< e}"
proof
  show "(\<Union>b \<in> {..<g}. \<Union>l \<in> {..<t}. set (strided (a + (b * t + l)) e (g * t))) \<subseteq> {a ..< e}"
    using assms by (auto simp: strided_set)
  show "{a ..< e} \<subseteq> (\<Union>b \<in> {..<g}. \<Union>l \<in> {..<t}. set (strided (a + (b * t + l)) e (g * t)))"
  proof
    fix p assume p: "p \<in> {a ..< e}"
    define q where "q = p - a"
    define r where "r = q mod (g * t)"
    have r: "r < g * t" using assms by (simp add: r_def)
    have rq: "r \<le> q" by (simp add: r_def)
    have "r div t < g" using r assms by (simp add: less_mult_imp_div_less mult.commute)
    moreover have "r mod t < t" using assms by simp
    moreover have "p \<in> set (strided (a + (r div t * t + r mod t)) e (g * t))"
    proof -
      have "p - (a + r) = q - r" by (simp add: q_def)
      moreover have "(q - r) mod (g * t) = 0" by (simp add: r_def minus_mod_eq_mult_div)
      ultimately show ?thesis using p rq assms q_def by (auto simp: strided_set)
    qed
    ultimately show "p \<in> (\<Union>b \<in> {..<g}. \<Union>l \<in> {..<t}. set (strided (a + (b * t + l)) e (g * t)))" by blast
  qed
qed

section \<open>What the kernels compute\<close>

text \<open>The sum of pack \<open>p\<close> over the inputs a pointer array lists.\<close>

definition reduced :: "('p, 'a) pack_ops \<Rightarrow> plan \<Rightarrow> (nat \<Rightarrow> 'p buffer) \<Rightarrow> nat \<Rightarrow> 'p" where
  "reduced ops pl in_ptrs p = reduce_values ops (map (\<lambda>w. in_ptrs w p) [0..<world pl])"

lemma fold_upd_read:
  "x \<in> set xs \<Longrightarrow> inj_on f (set xs) \<Longrightarrow> fold (\<lambda>x m. m(f x := v x)) xs m (f x) = v x"
proof (induction xs arbitrary: m rule: rev_induct)
  case (snoc y xs)
  then show ?case by (cases "x = y") (auto simp: inj_on_def)
qed simp

lemma stage_then_reduce:
  assumes "0 < tnum_gpu pl"
  shows "reduce_packs ops pl base l (stage_packs pl base l (\<lambda>w. in_ptrs w cur) smem) = reduced ops pl in_ptrs cur"
proof -
  have "stage_packs pl base l (\<lambda>w. in_ptrs w cur) smem (wi * tnum_gpu pl + l + base) = in_ptrs wi cur" if "wi < world pl" for wi
    using fold_upd_read [of wi "[0..<world pl]" "\<lambda>w. base + (w * tnum_gpu pl + l)" "\<lambda>w. in_ptrs w cur" smem] that assms
    by (simp add: stage_packs_def inj_on_def add.commute add.left_commute)
  then show ?thesis unfolding reduce_packs_def reduced_def
    by (intro arg_cong [of _ _ "reduce_values ops"] map_cong) auto
qed

lemma reduce_loop_puts:
  assumes "0 < tnum_gpu pl" and "\<And>cur. cur \<in> set packs \<Longrightarrow> f (dst cur) = reduced ops pl in_ptrs cur"
  shows "puts f S out0 out \<Longrightarrow>
    puts f (S \<union> dst ` set packs) out0 (snd (reduce_loop ops pl single in_ptrs dst l packs parity (smem, out)))"
  using assms(2)
proof (induction packs arbitrary: S out parity smem)
  case (Cons cur packs)
  have "puts f (S \<union> {dst cur}) out0 (out(dst cur := reduced ops pl in_ptrs cur))"
    by (rule puts_upd [OF Cons.prems(1)]) (simp add: Cons.prems(2))
  note out = this
  have r: "puts f (S \<union> {dst cur} \<union> dst ` set packs) out0
      (snd (reduce_loop ops pl single in_ptrs dst l packs parity' (smem', out(dst cur := reduced ops pl in_ptrs cur))))"
    for parity' smem' by (rule Cons.IH [OF out]) (simp add: Cons.prems(2))
  show ?case using r by (simp add: Let_def stage_then_reduce [OF assms(1)])
qed simp

lemma reduce_lanes_puts:
  assumes "0 < tnum_gpu pl" and "\<And>l cur. l \<in> set lanes \<Longrightarrow> cur \<in> set (L l) \<Longrightarrow> f (dst cur) = reduced ops pl in_ptrs cur"
  shows "puts f S out0 (snd st) \<Longrightarrow>
    puts f (S \<union> (\<Union>l \<in> set lanes. dst ` set (L l))) out0 (snd (fold (\<lambda>l. reduce_loop ops pl single in_ptrs dst l (L l) 0) lanes st))"
  using assms(2)
proof (induction lanes arbitrary: S st)
  case (Cons l lanes)
  obtain smem out where st: "st = (smem, out)" by (cases st)
  have "puts f (S \<union> dst ` set (L l)) out0 (snd (reduce_loop ops pl single in_ptrs dst l (L l) 0 st))"
    unfolding st by (rule reduce_loop_puts [OF assms(1)]) (use Cons.prems st in auto)
  then have "puts f (S \<union> dst ` set (L l) \<union> (\<Union>l \<in> set lanes. dst ` set (L l))) out0
      (snd (fold (\<lambda>l. reduce_loop ops pl single in_ptrs dst l (L l) 0) lanes (reduce_loop ops pl single in_ptrs dst l (L l) 0 st)))"
    by (rule Cons.IH) (use Cons.prems(2) in auto)
  then show ?case by (simp add: Un_assoc)
qed simp

lemma reduce_range_puts:
  assumes t: "0 < tnum_gpu pl" and g: "0 < grid"
    and f: "\<And>cur. a \<le> cur \<Longrightarrow> cur < e \<Longrightarrow> f (dst cur) = reduced ops pl in_ptrs cur"
  shows "puts f (dst ` {a ..< e}) out (reduce_range ops pl single grid in_ptrs dst a e smem out)"
proof -
  let ?L = "\<lambda>bid l. strided (a + (bid * tnum_gpu pl + l)) e (grid * tnum_gpu pl)"
  have step: "puts f (S \<union> (\<Union>l \<in> set [0..<tnum_gpu pl]. dst ` set (?L bid l))) out
      (snd (fold (\<lambda>l. reduce_loop ops pl single in_ptrs dst l (?L bid l) 0) [0..<tnum_gpu pl] (smem, out')))"
    if "puts f S out out'" for S out' bid
    by (rule reduce_lanes_puts [where L = "?L bid", OF t]) (use f that t g in \<open>auto simp: strided_set\<close>)
  have "puts f ({} \<union> (\<Union>bid \<in> set [0..<grid]. \<Union>l \<in> set [0..<tnum_gpu pl]. dst ` set (?L bid l))) out
      (reduce_range ops pl single grid in_ptrs dst a e smem out)"
    unfolding reduce_range_def by (rule puts_fold [OF step]) simp_all
  moreover have "(\<Union>bid \<in> set [0..<grid]. \<Union>l \<in> set [0..<tnum_gpu pl]. dst ` set (?L bid l)) = dst ` {a ..< e}"
    unfolding strided_cover [OF t g, of a e, symmetric] by (auto simp: atLeast0LessThan)
  ultimately show ?thesis by simp
qed


text \<open>The plans \<open>make_allreduce_kernels\<close> accepts.\<close>

definition plan_ok :: "plan \<Rightarrow> bool" where
  "plan_ok pl \<longleftrightarrow> world pl \<in> {2, 4, 8} \<and> 0 < tnum_gpu pl \<and> block_threads pl = world pl * tnum_gpu pl \<and>
     part_p pl = num_packs pl div world pl \<and> largest_part_p pl = part_p pl + num_packs pl mod world pl \<and>
     (vec_ok pl \<longleftrightarrow> num_packs pl mod world pl = 0)"

lemma make_plan_ok:
  assumes "make_allreduce_plan n dtype_str world_size threads = Inr pl"
  shows "plan_ok pl"
proof -
  from assms obtain pe where ws: "world_size \<in> {2, 4, 8}" and th: "\<not> (threads \<le> 0 \<or> threads mod world_size \<noteq> 0)"
    and pl': "allreduce_constants (nat world_size) (nat threads) (nat n div pe) = pl"
    unfolding make_allreduce_plan_def Let_def rbind_Inr_iff guard_Inr_iff sum.inject(2) by (elim exE conjE) rule
  note pl = pl' [symmetric]
  obtain q where q: "threads = world_size * q" using th by (auto elim: dvdE simp: mod_eq_0_iff_dvd)
  have "0 < q" using th ws q by (auto simp: zero_less_mult_iff)
  then have e: "nat threads = nat world_size * nat q" "0 < nat q" using ws q by (auto simp: nat_mult_distrib)
  then have "nat threads div nat world_size = nat q" using ws by auto
  then show ?thesis using ws e by (auto simp: plan_ok_def pl allreduce_constants_def Let_def)
qed

lemma and_low: "ws \<in> {2, 4, 8} \<Longrightarrow> and x (ws - 1) = x mod (ws :: nat)"
proof -
  have p: "and x (2 ^ k - 1) = x mod 2 ^ k" for k
    by (simp add: take_bit_eq_mod [symmetric] take_bit_eq_mask mask_eq_exp_minus_1)
  show "ws \<in> {2, 4, 8} \<Longrightarrow> and x (ws - 1) = x mod (ws :: nat)"
    using p [of 1] p [of 2] p [of 3] by auto
qed

lemma strided_at:
  assumes "0 < t" and "0 < g" and "p \<in> {a ..< e}"
  obtains b l where "b < g" "l < t" "p \<in> set (strided (a + (b * t + l)) e (g * t))"
  using assms(3) unfolding strided_cover [OF assms(1,2), symmetric] by blast

lemma allreduce_1stage_correct:
  assumes "plan_ok pl" and "0 < grid"
  shows "allreduce_1stage ops pl grid ins smem rank out p =
    (if p < num_packs pl then reduced ops pl (rotated pl rank ins) p else out p)"
proof -
  have "puts (reduced ops pl (rotated pl rank ins)) ((\<lambda>p. p) ` {0 ..< num_packs pl}) out
      (allreduce_1stage ops pl grid ins smem rank out)"
    unfolding allreduce_1stage_def by (rule reduce_range_puts) (use assms in \<open>auto simp: plan_ok_def\<close>)
  then show ?thesis by (simp add: puts_def)
qed

text \<open>The part of a rank; the last one has the packs that are left over.\<close>

definition part_size :: "plan \<Rightarrow> nat \<Rightarrow> nat" where
  "part_size pl rank = (if rank = world pl - 1 then largest_part_p pl else part_p pl)"

lemma plan_pos: "plan_ok pl \<Longrightarrow> 0 < world pl"
  by (auto simp: plan_ok_def)

lemma plan_size:
  assumes "plan_ok pl"
  shows "(world pl - 1) * part_p pl + largest_part_p pl = num_packs pl"
proof -
  have "num_packs pl = world pl * part_p pl + num_packs pl mod world pl" using assms by (simp add: plan_ok_def)
  moreover have "world pl * part_p pl = (world pl - 1) * part_p pl + part_p pl"
    using plan_pos [OF assms] by (cases "world pl") auto
  ultimately show ?thesis using assms unfolding plan_ok_def by linarith
qed

lemma reduce_scatter_correct:
  assumes "plan_ok pl" and "0 < grid" and "cur < part_size pl rank"
  shows "reduce_scatter ops pl grid ins smem rank tmp cur = reduced ops pl (rotated pl rank ins) (rank * part_p pl + cur)"
proof -
  let ?start = "rank * part_p pl"
  let ?stop = "if rank = world pl - 1 then num_packs pl else ?start + part_p pl"
  have "puts (\<lambda>q. reduced ops pl (rotated pl rank ins) (?start + q)) ((\<lambda>cur. cur - ?start) ` {?start ..< ?stop}) tmp
      (reduce_scatter ops pl grid ins smem rank tmp)"
    unfolding reduce_scatter_def Let_def by (rule reduce_range_puts) (use assms in \<open>auto simp: plan_ok_def\<close>)
  moreover have "?start + cur < ?stop"
    using assms(3) plan_size [OF assms(1)] by (auto simp: part_size_def split: if_splits)
  then have "cur \<in> (\<lambda>cur. cur - ?start) ` {?start ..< ?stop}" by (intro image_eqI [of _ _ "?start + cur"]) auto
  ultimately show ?thesis by (rule puts_read)
qed

lemma gather_vec_correct:
  assumes ok: "plan_ok pl" and g: "0 < grid" and r: "rank < world pl"
  shows "puts (\<lambda>q. tmps (q div part_p pl) (q mod part_p pl)) {..<world pl * part_p pl} out
    (gather_vec pl grid (rotated pl rank tmps) rank out)"
proof -
  let ?t = "tnum_gpu pl" and ?P = "part_p pl" and ?ws = "world pl"
  let ?f = "\<lambda>q. tmps (q div ?P) (q mod ?P)"
  let ?dst = "\<lambda>lane. and (rank + lane div ?t) (?ws - 1)"
  let ?L = "\<lambda>bid lane. strided (bid * ?t + lane mod ?t) ?P (grid * ?t)"
  have t: "0 < ?t" and bt: "block_threads pl = ?ws * ?t" and ws: "?ws \<in> {2, 4, 8}" "0 < ?ws"
    using ok plan_pos by (auto simp: plan_ok_def)
  have dst: "?dst lane = (rank + lane div ?t) mod ?ws" for lane by (rule and_low [OF ws(1)])
  have inner: "puts ?f (S \<union> (\<Union>cur \<in> set (?L bid lane). {?dst lane * ?P + cur})) out
      (fold (\<lambda>cur out. out(?dst lane * ?P + cur := rotated pl rank tmps (lane div ?t) cur)) (?L bid lane) out')"
    if "puts ?f S out out'" for S out' bid lane
  proof (rule puts_fold [OF puts_upd that])
    fix cur S' and o' :: "'a buffer" assume "cur \<in> set (?L bid lane)" "puts ?f S' out o'"
    then have "cur < ?P" using t g by (simp add: strided_set)
    then show "rotated pl rank tmps (lane div ?t) cur = ?f (?dst lane * ?P + cur)"
      unfolding rotated_def dst by simp
  qed
  let ?U = "\<Union>x \<in> set (List.product [0..<grid] [0..<block_threads pl]). \<Union>cur \<in> set (?L (fst x) (snd x)). {?dst (snd x) * ?P + cur}"
  have all: "puts ?f ({} \<union> ?U) out (gather_vec pl grid (rotated pl rank tmps) rank out)"
    unfolding gather_vec_def Let_def
    by (rule puts_fold [where A = "\<lambda>x. \<Union>cur \<in> set (?L (fst x) (snd x)). {?dst (snd x) * ?P + cur}"])
      (use inner in \<open>auto split: prod.splits\<close>)
  have le: "?U \<subseteq> {..<?ws * ?P}"
  proof
    fix q assume "q \<in> ?U"
    then obtain bid lane cur where "cur \<in> set (?L bid lane)" and q: "q = ?dst lane * ?P + cur" by auto
    then have "cur < ?P" using t g by (simp add: strided_set)
    moreover have "Suc (?dst lane) * ?P \<le> ?ws * ?P" unfolding dst using ws(2) by (intro mult_le_mono1) (simp add: Suc_le_eq)
    ultimately show "q \<in> {..<?ws * ?P}" by (simp add: q)
  qed
  have ge: "{..<?ws * ?P} \<subseteq> ?U"
  proof
    fix q assume "q \<in> {..<?ws * ?P}"
    then have q: "q < ?ws * ?P" by simp
    define d cur w where "d = q div ?P" and "cur = q mod ?P" and "w = (d + ?ws - rank) mod ?ws"
    have P: "0 < ?P" using q by (cases "?P") auto
    have d: "d < ?ws" using q by (simp add: d_def less_mult_imp_div_less mult.commute)
    have "(rank + w) mod ?ws = (rank + (d + ?ws - rank)) mod ?ws" by (simp add: w_def mod_add_right_eq)
    then have dw: "(rank + w) mod ?ws = d" using r d by simp
    have cur: "cur \<in> {0 ..< ?P}" using P by (simp add: cur_def)
    obtain bid l where b: "bid < grid" "l < ?t" "cur \<in> set (strided (bid * ?t + l) ?P (grid * ?t))"
      by (rule strided_at [OF t g cur]) (simp add: that)
    have w: "w < ?ws" using ws(2) by (simp add: w_def)
    have lane: "w * ?t + l < block_threads pl"
    proof -
      have "w * ?t + l < Suc w * ?t" using b(2) by simp
      also have "\<dots> \<le> ?ws * ?t" using w by (intro mult_le_mono1) simp
      finally show ?thesis by (simp add: bt)
    qed
    have "q = ?dst (w * ?t + l) * ?P + cur" unfolding dst using dw b(2) by (simp add: d_def cur_def)
    moreover have "cur \<in> set (?L bid (w * ?t + l))" using b by simp
    ultimately show "q \<in> ?U"
      using b(1) lane by (intro UN_I [of "(bid, w * ?t + l)"] UN_I [of cur]) auto
  qed
  show ?thesis using all unfolding subset_antisym [OF le ge] by simp
qed

lemma gather_scalar_correct:
  assumes ok: "plan_ok pl" and g: "0 < grid" and c: "cur < part_size pl w" and w: "w < world pl"
  shows "gather_scalar pl grid tmp_ptrs out (w * part_p pl + cur) = tmp_ptrs w cur"
proof -
  let ?P = "part_p pl" and ?ws = "world pl" and ?bt = "block_threads pl"
  let ?w = "\<lambda>q. if q < (?ws - 1) * ?P then q div ?P else ?ws - 1"
  let ?f = "\<lambda>q. tmp_ptrs (?w q) (q - ?w q * ?P)"
  let ?L = "\<lambda>bid lane. strided (bid * ?bt + lane) (largest_part_p pl) (grid * ?bt)"
  let ?ok = "\<lambda>p cur. p = ?ws - 1 \<or> cur < ?P"
  have bt: "0 < ?bt" and ws: "0 < ?ws" using ok plan_pos [OF ok] by (auto simp: plan_ok_def)
  have at: "?f (p * ?P + cur) = tmp_ptrs p cur" if "p < ?ws" "?ok p cur" for p cur
  proof (cases "p = ?ws - 1")
    case True
    then show ?thesis by simp
  next
    case False
    then have "cur < ?P" "Suc p \<le> ?ws - 1" using that by auto
    moreover from this(2) have "Suc p * ?P \<le> (?ws - 1) * ?P" by (rule mult_le_mono1)
    ultimately show ?thesis by simp
  qed
  have inner: "puts ?f (S \<union> (\<Union>cur \<in> set (?L bid lane). \<Union>p \<in> set [0..<?ws]. if ?ok p cur then {p * ?P + cur} else {})) out
      (fold (\<lambda>cur. fold (\<lambda>p out. if ?ok p cur then out(p * ?P + cur := tmp_ptrs p cur) else out) [0..<?ws]) (?L bid lane) out')"
    if "puts ?f S out out'" for S out' bid lane
  proof (rule puts_fold [OF puts_fold that])
    fix cur S' p S'' and o' o'' :: "'a buffer"
    assume p: "p \<in> set [0..<?ws]" and o: "puts ?f S'' out o''"
    show "puts ?f (S'' \<union> (if ?ok p cur then {p * ?P + cur} else {})) out
        (if ?ok p cur then o''(p * ?P + cur := tmp_ptrs p cur) else o'')"
      using puts_upd [OF o at [symmetric, of p cur]] o p by simp
  qed
  have "puts ?f ({} \<union> (\<Union>x \<in> set (List.product [0..<grid] [0..<?bt]).
        \<Union>cur \<in> set (?L (fst x) (snd x)). \<Union>p \<in> set [0..<?ws]. if ?ok p cur then {p * ?P + cur} else {})) out
      (gather_scalar pl grid tmp_ptrs out)"
    unfolding gather_scalar_def
    by (rule puts_fold [where A = "\<lambda>x. \<Union>cur \<in> set (?L (fst x) (snd x)). \<Union>p \<in> set [0..<?ws]. if ?ok p cur then {p * ?P + cur} else {}"])
      (use inner in \<open>auto split: prod.splits\<close>)
  moreover have "w * ?P + cur \<in> {} \<union> (\<Union>x \<in> set (List.product [0..<grid] [0..<?bt]).
        \<Union>cur \<in> set (?L (fst x) (snd x)). \<Union>p \<in> set [0..<?ws]. if ?ok p cur then {p * ?P + cur} else {})"
  proof -
    have "cur < largest_part_p pl" "?ok w cur"
      using c ok by (auto simp: part_size_def plan_ok_def split: if_splits)
    then obtain bid l where "bid < grid" "l < ?bt" "cur \<in> set (?L bid l)"
      using strided_at [OF bt g, of cur 0 "largest_part_p pl"] by auto
    then show ?thesis using \<open>?ok w cur\<close> w
      by (intro UnI2 UN_I [of "(bid, l)"] UN_I [of cur] UN_I [of w]) auto
  qed
  ultimately have "gather_scalar pl grid tmp_ptrs out (w * ?P + cur) = ?f (w * ?P + cur)" by (rule puts_read)
  also have "\<dots> = tmp_ptrs w cur"
    by (rule at [OF w]) (use c in \<open>auto simp: part_size_def split: if_splits\<close>)
  finally show ?thesis .
qed


section \<open>The order of the summands\<close>

lemma foldl_head:
  assumes "assoc_op f" and "comm_op f"
  shows "foldl f (f a b) xs = f a (foldl f b xs)"
  by (induction xs arbitrary: b) (simp_all add: assoc_opD [OF assms(1)])

lemma reduce_rotate1:
  assumes "assoc_op (accumulate ops)" and "comm_op (accumulate ops)"
  shows "reduce_values ops (rotate1 vals) = reduce_values ops vals"
proof (cases vals)
  case (Cons a xs)
  let ?f = "accumulate ops" and ?w = "widen ops"
  show ?thesis
  proof (cases xs)
    case (Cons b ys)
    have "?f (foldl ?f (?w b) (map ?w ys)) (?w a) = ?f (?w a) (foldl ?f (?w b) (map ?w ys))"
      by (rule comm_opD [OF assms(2)])
    also have "\<dots> = foldl ?f (?f (?w a) (?w b)) (map ?w ys)" by (rule foldl_head [OF assms, symmetric])
    finally show ?thesis using \<open>vals = a # xs\<close> Cons by (simp add: reduce_values_def)
  qed (simp add: \<open>vals = a # xs\<close>)
qed simp

lemma reduce_rotate:
  assumes "assoc_op (accumulate ops)" and "comm_op (accumulate ops)"
  shows "reduce_values ops (rotate n vals) = reduce_values ops vals"
  by (induction n) (simp_all add: rotate_def reduce_rotate1 [OF assms])

lemma rotated_list:
  assumes "rank < world pl"
  shows "map (\<lambda>w. rotated pl rank ins w p) [0..<world pl] = rotate rank (map (\<lambda>w. ins w p) [0..<world pl])"
  by (rule nth_equalityI) (simp_all add: rotated_def nth_rotate assms)

lemma grid_pos: "0 < grid_blocks pl stage"
  by (cases stage) (simp_all add: grid_blocks_def)



definition int_ops :: "(int, int) pack_ops" where
  "int_ops = \<lparr>widen = \<lambda>x. x, accumulate = (+), narrow = \<lambda>x. x\<rparr>"

lemma int_ops_laws: "assoc_op (accumulate int_ops)" "comm_op (accumulate int_ops)"
  by (simp_all add: int_ops_def assoc_op_def comm_op_def)

lemma f32_bytes: "elem_bytes ''f32'' = Inr 4"
  by (simp add: elem_bytes_def strip_lower_def is_space_def lower_char_def Let_def)




section \<open>The write mode\<close>

lemma scatter_inputs_puts:
  fixes ins :: "nat \<Rightarrow> 'p buffer"
  assumes ok: "plan_ok pl" and vec: "vec_ok pl" and g: "0 < grid" and addr: "\<forall>w < world pl. \<not> bad_addr (tmp_addr w)"
  defines "f \<equiv> \<lambda>x. case x of (w, a) \<Rightarrow> ins (a div part_p pl) (w * part_p pl + a mod part_p pl)"
  assumes p: "puts f S tmps0 tmps"
  shows "\<exists>U. {..<world pl} \<times> {rank * part_p pl ..< rank * part_p pl + part_p pl} \<subseteq> U \<and>
    puts f (S \<union> U) tmps0 (scatter_inputs pl grid tmp_addr rank (ins rank) tmps)"
proof -
  let ?t = "tnum_gpu pl" and ?P = "part_p pl" and ?ws = "world pl"
  let ?w = "\<lambda>lane. lane div ?t"
  let ?stop = "\<lambda>w. if w = ?ws - 1 then num_packs pl else w * ?P + ?P"
  let ?L = "\<lambda>bid lane. strided (?w lane * ?P + (bid * ?t + (lane - ?w lane * ?t))) (?stop (?w lane)) (grid * ?t)"
  let ?A = "\<lambda>x. \<Union>cur \<in> set (?L (fst x) (snd x)). {(?w (snd x), rank * ?P + (cur - ?w (snd x) * ?P))}"
  have t: "0 < ?t" and bt: "block_threads pl = ?ws * ?t" and ws: "0 < ?ws" using ok plan_pos by (auto simp: plan_ok_def)
  have packs: "num_packs pl = ?ws * ?P" using ok vec by (auto simp: plan_ok_def)
  have stop': "?stop w = w * ?P + ?P" if "w < ?ws" for w
    using that packs ws by (cases "?ws") auto
  have inner: "puts f (S \<union> (\<Union>cur \<in> set (?L bid lane). {(?w lane, rank * ?P + (cur - ?w lane * ?P))})) tmps0
      (fold (\<lambda>cur tmps. if \<not> bad_addr (tmp_addr (?w lane)) then tmps((?w lane, rank * ?P + (cur - ?w lane * ?P)) := ins rank cur) else tmps)
        (?L bid lane) tmps')"
    if "puts f S tmps0 tmps'" and lane: "lane < block_threads pl" for S tmps' bid lane
  proof (rule puts_fold [OF _ that(1)])
    fix cur S' and o' :: "nat \<times> nat \<Rightarrow> 'p" assume c: "cur \<in> set (?L bid lane)" and o: "puts f S' tmps0 o'"
    have w: "?w lane < ?ws" using lane by (simp add: bt less_mult_imp_div_less)
    from c have "?w lane * ?P \<le> cur" "cur < ?w lane * ?P + ?P" unfolding stop' [OF w] using t g by (auto simp: strided_set)
    then obtain k where "cur = ?w lane * ?P + k" "k < ?P" by (metis add_less_cancel_left le_Suc_ex)
    then have "ins rank cur = f (?w lane, rank * ?P + (cur - ?w lane * ?P))" by (simp add: f_def)
    from puts_upd [OF o this] show "puts f (S' \<union> {(?w lane, rank * ?P + (cur - ?w lane * ?P))}) tmps0
        (if \<not> bad_addr (tmp_addr (?w lane)) then o'((?w lane, rank * ?P + (cur - ?w lane * ?P)) := ins rank cur) else o')"
      using addr w by simp
  qed
  have "puts f (S \<union> (\<Union>x \<in> set (List.product [0..<grid] [0..<block_threads pl]). ?A x)) tmps0
      (scatter_inputs pl grid tmp_addr rank (ins rank) tmps)"
    unfolding scatter_inputs_def Let_def
  proof (rule puts_fold [where A = ?A, OF _ p])
    fix x S' and o' :: "nat \<times> nat \<Rightarrow> 'p"
    assume x: "x \<in> set (List.product [0..<grid] [0..<block_threads pl])" and o: "puts f S' tmps0 o'"
    obtain bid lane where xx: "x = (bid, lane)" by (rule prod.exhaust)
    then have "lane < block_threads pl" using x by simp
    with xx show "puts f (S' \<union> ?A x) tmps0
        ((case x of (bid, lane) \<Rightarrow> fold (\<lambda>cur tmps. if \<not> bad_addr (tmp_addr (?w lane))
            then tmps((?w lane, rank * ?P + (cur - ?w lane * ?P)) := ins rank cur) else tmps) (?L bid lane)) o')"
      using inner [OF o, of lane bid] by (simp only: prod.case fst_conv snd_conv)
  qed
  moreover have "{..<?ws} \<times> {rank * ?P ..< rank * ?P + ?P} \<subseteq> (\<Union>x \<in> set (List.product [0..<grid] [0..<block_threads pl]). ?A x)"
  proof
    fix y assume "y \<in> {..<?ws} \<times> {rank * ?P ..< rank * ?P + ?P}"
    then obtain w a where y: "y = (w, a)" "w < ?ws" "rank * ?P \<le> a" "a < rank * ?P + ?P" by auto
    let ?cur = "w * ?P + (a - rank * ?P)"
    have "?cur \<in> {w * ?P ..< w * ?P + ?P}" using y by auto
    then obtain bid l where b: "bid < grid" "l < ?t" "?cur \<in> set (strided (w * ?P + (bid * ?t + l)) (w * ?P + ?P) (grid * ?t))"
      by (rule strided_at [OF t g])
    have "w * ?t + l < Suc w * ?t" using b(2) by simp
    also have "\<dots> \<le> ?ws * ?t" using y(2) by (intro mult_le_mono1) simp
    finally have lane: "w * ?t + l < block_threads pl" by (simp add: bt)
    have wl: "?w (w * ?t + l) = w" using b(2) by simp
    have "?cur \<in> set (?L bid (w * ?t + l))" using b(3) unfolding wl stop' [OF y(2)] by simp
    then show "y \<in> (\<Union>x \<in> set (List.product [0..<grid] [0..<block_threads pl]). ?A x)"
      using b(1) lane y by (intro UN_I [of "(bid, w * ?t + l)"] UN_I [of ?cur]) (auto simp: wl)
  qed
  ultimately show ?thesis by blast
qed

lemma reduce_write_loop_puts:
  assumes t: "0 < tnum_gpu pl" and l: "l < tnum_gpu pl" and addr: "\<forall>w < world pl. \<not> bad_addr (out_addr w)"
    and f: "\<And>cur w. cur \<in> set packs \<Longrightarrow> w < world pl \<Longrightarrow> f (w, rank * part_p pl + cur) = reduced ops pl (\<lambda>w q. tmp (w * part_p pl + q)) cur"
  shows "puts f S outs0 outs \<Longrightarrow>
    puts f (S \<union> (\<Union>cur \<in> set packs. {..<world pl} \<times> {rank * part_p pl + cur})) outs0
      (snd (reduce_write_loop ops pl rank out_addr tmp l packs (smem, outs)))"
  using f
proof (induction packs arbitrary: S outs smem)
  case (Cons cur packs)
  let ?v = "reduced ops pl (\<lambda>w q. tmp (w * part_p pl + q)) cur"
  let ?g = "\<lambda>w outs. if \<not> bad_addr (out_addr w) then outs((w, rank * part_p pl + cur) := ?v) else outs"
  have "puts f (S \<union> (\<Union>w \<in> set [0..<world pl]. {(w, rank * part_p pl + cur)})) outs0 (fold ?g [0..<world pl] outs)"
  proof (rule puts_fold [OF _ Cons.prems(1)])
    fix w S' and o' :: "nat \<times> nat \<Rightarrow> 'a" assume w: "w \<in> set [0..<world pl]" and o: "puts f S' outs0 o'"
    then have "?v = f (w, rank * part_p pl + cur)" using Cons.prems(2) by simp
    from puts_upd [OF o this] show "puts f (S' \<union> {(w, rank * part_p pl + cur)}) outs0 (?g w o')" using addr w by simp
  qed
  moreover have "(\<Union>w \<in> set [0..<world pl]. {(w, rank * part_p pl + cur)}) = {..<world pl} \<times> {rank * part_p pl + cur}" by auto
  ultimately have "puts f (S \<union> {..<world pl} \<times> {rank * part_p pl + cur}) outs0 (fold ?g [0..<world pl] outs)" by simp
  then have "puts f (S \<union> {..<world pl} \<times> {rank * part_p pl + cur} \<union> (\<Union>cur \<in> set packs. {..<world pl} \<times> {rank * part_p pl + cur})) outs0
      (snd (reduce_write_loop ops pl rank out_addr tmp l packs (smem', fold ?g [0..<world pl] outs)))" for smem'
    by (rule Cons.IH) (use Cons.prems(2) in auto)
  then show ?case
    by (simp add: Let_def stage_then_reduce [OF t, where in_ptrs = "\<lambda>w q. tmp (w * part_p pl + q)"] Un_assoc cong: if_cong)
qed simp

lemma reduce_write_puts:
  fixes ins :: "nat \<Rightarrow> 'p buffer" and ops :: "('p, 'a) pack_ops"
  assumes ok: "plan_ok pl" and vec: "vec_ok pl" and g: "0 < grid"
    and addr: "\<not> bad_addr (tmp_addr rank)" "\<forall>w < world pl. \<not> bad_addr (out_addr w)"
    and tmps: "\<And>w cur. w < world pl \<Longrightarrow> cur < part_p pl \<Longrightarrow> tmps (rank, w * part_p pl + cur) = ins w (rank * part_p pl + cur)"
  defines "f \<equiv> \<lambda>x. case x of (w, a) \<Rightarrow> reduced ops pl ins a"
  assumes p: "puts f S outs0 outs"
  shows "puts f (S \<union> {..<world pl} \<times> {rank * part_p pl ..< rank * part_p pl + part_p pl}) outs0
    (reduce_write ops pl grid tmp_addr out_addr zero smem tmps rank outs)"
proof -
  let ?t = "tnum_gpu pl" and ?P = "part_p pl" and ?ws = "world pl"
  let ?tmp = "\<lambda>q. if bad_addr (tmp_addr rank) then zero else tmps (rank, q)"
  let ?L = "\<lambda>bid l. strided (bid * ?t + l) ?P (grid * ?t)"
  let ?B = "\<lambda>packs. \<Union>cur \<in> set packs. {..<?ws} \<times> {rank * ?P + cur}"
  have t: "0 < ?t" using ok by (auto simp: plan_ok_def)
  have e: "(if rank = ?ws - 1 then largest_part_p pl else ?P) = ?P" using ok vec by (simp add: plan_ok_def)
  have val: "f (w, rank * ?P + cur) = reduced ops pl (\<lambda>w q. ?tmp (w * ?P + q)) cur" if "cur < ?P" for w cur
    unfolding f_def reduced_def prod.case using that addr(1) tmps by (intro arg_cong [of _ _ "reduce_values ops"] map_cong) auto
  have lanes: "puts f (S \<union> (\<Union>l \<in> set ls. ?B (?L bid l))) outs0 (snd (fold (\<lambda>l. reduce_write_loop ops pl rank out_addr ?tmp l (?L bid l)) ls st))"
    if "puts f S outs0 (snd st)" "set ls \<subseteq> {..<?t}" for S st bid ls
    using that
  proof (induction ls arbitrary: S st)
    case (Cons l ls)
    obtain sm o' where st: "st = (sm, o')" by (cases st)
    have "puts f (S \<union> ?B (?L bid l)) outs0 (snd (reduce_write_loop ops pl rank out_addr ?tmp l (?L bid l) st))"
      unfolding st by (rule reduce_write_loop_puts [OF t _ addr(2)]) (use Cons.prems st val t g in \<open>auto simp: strided_set\<close>)
    then have "puts f (S \<union> ?B (?L bid l) \<union> (\<Union>l \<in> set ls. ?B (?L bid l))) outs0
        (snd (fold (\<lambda>l. reduce_write_loop ops pl rank out_addr ?tmp l (?L bid l)) ls (reduce_write_loop ops pl rank out_addr ?tmp l (?L bid l) st)))"
      by (rule Cons.IH) (use Cons.prems in auto)
    then show ?case by (simp add: Un_assoc)
  qed simp
  have "puts f (S \<union> (\<Union>bid \<in> set [0..<grid]. \<Union>l \<in> set [0..<?t]. ?B (?L bid l))) outs0
      (reduce_write ops pl grid tmp_addr out_addr zero smem tmps rank outs)"
    unfolding reduce_write_def Let_def e
    by (rule puts_fold [OF lanes p]) auto
  moreover have "(\<Union>bid \<in> set [0..<grid]. \<Union>l \<in> set [0..<?t]. ?B (?L bid l)) = {..<?ws} \<times> ((\<lambda>cur. rank * ?P + cur) ` {0..<?P})"
    unfolding strided_cover [OF t g, of 0 ?P, symmetric] image_UN by (simp add: atLeast0LessThan) blast
  moreover have "(\<lambda>cur. rank * ?P + cur) ` {0..<?P} = {rank * ?P ..< rank * ?P + ?P}" by (simp add: image_add_atLeastLessThan add.commute)
  ultimately show ?thesis by simp
qed



end
